(* ===== verification/Nyan_Prelude.thy ===== *)
theory Nyan_Prelude
  imports Main "HOL-Library.Word"
begin

unbundle bit_operations_syntax

text \<open>
  Shared vocabulary of the development: the machine integers of the i686 target
  (\<^verbatim>\<open>size_t\<close> and pointers are 32 bits wide), the sum types that carry error returns and
  fatal stops, the collections of rewrite rules the component proofs share, and generic
  lemmas on words, lists and options.
\<close>

section \<open>Machine integers\<close>

type_synonym u8 = "8 word"
type_synonym u16 = "16 word"
type_synonym u32 = "32 word"
type_synonym u64 = "64 word"

section \<open>Outcomes\<close>

text \<open>
  A kernel function either returns, stops the machine with \<^verbatim>\<open>arch::kfatal\<close>, performs an
  operation C++ gives no meaning to (a dereference outside its object or through a null
  pointer), or loops for ever. All but the first are values of \<open>fault\<close>, so that no branch is lost.
\<close>

datatype fault = Kfatal string | OutOfBounds | NullDeref | Diverges

type_synonym 'a exec = "fault + 'a"

definition sbind :: "'e + 'a \<Rightarrow> ('a \<Rightarrow> 'e + 'b) \<Rightarrow> 'e + 'b" where
  "sbind r f = (case r of Inl e \<Rightarrow> Inl e | Inr v \<Rightarrow> f v)"

lemma sbind_simps [simp]:
  "sbind (Inl e) f = Inl e"
  "sbind (Inr v) f = f v"
  by (simp_all add: sbind_def)

lemma sbind_eq_Inr_iff: "sbind r f = Inr w \<longleftrightarrow> (\<exists>v. r = Inr v \<and> f v = Inr w)"
  by (cases r) auto

lemma sbind_eq_Inl_iff: "sbind r f = Inl e \<longleftrightarrow> r = Inl e \<or> (\<exists>v. r = Inr v \<and> f v = Inl e)"
  by (cases r) auto

section \<open>Collections\<close>

named_theorems page_simps \<open>page arithmetic on 32-bit addresses, read as naturals\<close>
named_theorems ring_simps \<open>ring-buffer arithmetic\<close>
named_theorems op_defs \<open>unfolding rules of the operations of the component at hand\<close>

section \<open>Words\<close>

lemma unat_and_mask: "unat (w AND mask n) = unat w mod 2 ^ n" for w :: "'a::len word"
  by (simp flip: take_bit_eq_mask take_bit_eq_mod add: unsigned_take_bit_eq)

lemma unat_lt_u32 [simp]: "unat (w :: u32) < 4294967296"
  using unsigned_less [of w] by simp

lemma mask_numerals:
  "(31 :: u32) = mask 5" "(4095 :: u32) = mask 12" "(1023 :: u32) = mask 10"
  by (simp_all add: mask_eq_exp_minus_1)

lemma unat_and_4095 [page_simps]: "unat (w AND 4095) = unat w mod 4096" for w :: u32
  by (simp only: mask_numerals unat_and_mask) simp

lemma unat_and_1023 [page_simps]: "unat (w AND 1023) = unat w mod 1024" for w :: u32
  by (simp only: mask_numerals unat_and_mask) simp

lemma unat_and_31 [page_simps]: "unat (w AND 31) = unat w mod 32" for w :: u32
  by (simp only: mask_numerals unat_and_mask) simp

lemma unat_shiftr [page_simps]: "unat (drop_bit n w) = unat w div 2 ^ n" for w :: "'a::len word"
  unfolding unat_drop_bit_eq by (rule drop_bit_eq_div)

lemma word_and_not_eq_minus: "w AND NOT m = w - (w AND m)" for w m :: "'a::len word"
proof -
  have "(w AND m) AND (w AND NOT m) = 0" "(w AND m) OR (w AND NOT m) = w"
    by (rule bit_word_eqI; simp add: bit_simps; blast)+
  then have "(w AND m) + (w AND NOT m) = w"
    using word_plus_and_or [of "w AND m" "w AND NOT m"] by simp
  then show ?thesis by (metis add_diff_cancel_left')
qed

lemma unat_page_mask [page_simps]:
  "unat (w AND - 4096) = unat w - unat w mod 4096" for w :: u32
proof -
  have "w AND 4095 \<le> w"
    by (simp add: word_le_nat_alt unat_and_4095)
  moreover have "w AND - 4096 = w - (w AND 4095)"
    using word_and_not_eq_minus [of w 4095] by simp
  ultimately show ?thesis
    by (simp add: unat_sub unat_and_4095)
qed

lemma unat_add_u32 [ring_simps]:
  "unat (a + b) = (unat a + unat b) mod 4294967296" for a b :: u32
  by (simp add: unat_word_ariths)

lemma u32_add_no_wrap: "unat a + unat b < 4294967296 \<Longrightarrow> unat (a + b) = unat a + unat b"
  for a b :: u32
  by (simp add: unat_add_u32)

lemma unat_add_of_nat: "unat a + k < 4294967296 \<Longrightarrow> unat (a + of_nat k) = unat a + k" for a :: u32
  by (simp add: unat_add_u32 unat_of_nat mod_add_right_eq)

text \<open>The sum of two words is below an addend exactly when it overflowed
  (\<^verbatim>\<open>__builtin_add_overflow\<close>).\<close>

definition add_overflow :: "u32 \<Rightarrow> u32 \<Rightarrow> bool" where
  "add_overflow a b \<longleftrightarrow> 2 ^ 32 \<le> unat a + unat b"

lemma add_overflow_no: "\<not> add_overflow a b \<Longrightarrow> unat (a + b) = unat a + unat b"
  by (simp add: add_overflow_def u32_add_no_wrap)

lemma add_no_overflow_le: "\<not> add_overflow a b \<Longrightarrow> a \<le> a + b"
  by (simp add: word_le_nat_alt add_overflow_no)

section \<open>Lists\<close>

text \<open>\<^verbatim>\<open>memcpy\<close> of \<open>xs\<close> into an array at an offset.\<close>

definition splice_at :: "'a list \<Rightarrow> nat \<Rightarrow> 'a list \<Rightarrow> 'a list" where
  "splice_at d off xs = take off d @ xs @ drop (off + length xs) d"

lemma length_splice_at [simp]:
  "off + length xs \<le> length d \<Longrightarrow> length (splice_at d off xs) = length d"
  by (simp add: splice_at_def)

lemma nth_splice_at:
  assumes "off + length xs \<le> length d" "i < length d"
  shows "splice_at d off xs ! i =
    (if off \<le> i \<and> i < off + length xs then xs ! (i - off) else d ! i)"
  using assms by (auto simp: splice_at_def nth_append)

lemma distinct_butlast_tl: "distinct xs \<Longrightarrow> distinct (tl xs)" "distinct xs \<Longrightarrow> distinct (butlast xs)"
  by (auto simp: distinct_tl distinct_butlast)

lemma unat_add_mod_4096: "unat (a + b :: u32) mod 4096 = (unat a + unat b) mod 4096"
  by (simp add: unat_word_ariths mod_mod_cancel)

lemma aligned_add_pages:
  assumes "b AND 4095 = (0 :: u32)"
  shows "(b + push_bit 12 r) AND 4095 = 0"
proof -
  have "unat b mod 4096 = 0" using assms by (simp add: word_unat_eq_iff unat_and_4095)
  moreover have "unat (push_bit 12 r :: u32) mod 4096 = 0"
    by (simp add: push_bit_eq_mult unat_word_ariths mod_mod_cancel)
  ultimately have "unat (b + push_bit 12 r) mod 4096 = 0"
    unfolding unat_add_mod_4096 by (metis add_0 mod_add_eq mod_0)
  then show ?thesis by (simp add: word_unat_eq_iff unat_and_4095)
qed

end
