(* ===== verification/Nyan_Address.thy ===== *)
theory Nyan_Address
  imports Nyan_Prelude
begin

unbundle bit_operations_syntax

text \<open>
  Addresses (kernel/paging/address.hpp). \<^verbatim>\<open>PhysicalAddress\<close> and \<^verbatim>\<open>VirtualAddress\<close> wrap one
  \<^verbatim>\<open>uint32_t\<close>, so both are \<open>u32\<close> here and every operation wraps as the C++ one does.
\<close>

type_synonym paddr = u32
type_synonym vaddr = u32

definition alignDown :: "u32 \<Rightarrow> u32" where
  "alignDown addr = addr AND NOT 0xFFF"

definition alignUp :: "u32 \<Rightarrow> u32" where
  "alignUp addr = (addr + 0xFFF) AND NOT 0xFFF"

definition thisPage :: "u32 \<Rightarrow> u32" where
  "thisPage addr = alignDown addr"

definition prevPage :: "u32 \<Rightarrow> u32" where
  "prevPage addr = (addr AND NOT 0xFFF) - 0x1000"

definition nextPage :: "u32 \<Rightarrow> u32" where
  "nextPage addr = (addr AND NOT 0xFFF) + 0x1000"

definition pageOffset :: "u32 \<Rightarrow> u32" where
  "pageOffset addr = addr AND 0xFFF"

definition isAlignFor :: "u32 \<Rightarrow> u32 \<Rightarrow> bool" where
  "isAlignFor algn addr \<longleftrightarrow> addr mod algn = 0"

text \<open>The difference of two addresses is a 64-bit signed number, hence exact.\<close>

definition addr_diff :: "u32 \<Rightarrow> u32 \<Rightarrow> int" where
  "addr_diff addr a = uint addr - uint a"

definition tableLoc :: "vaddr \<Rightarrow> nat" where
  "tableLoc addr = unat (drop_bit 22 addr)"

definition tablePageLoc :: "vaddr \<Rightarrow> nat" where
  "tablePageLoc addr = unat (drop_bit 12 addr AND 0x3FF)"

definition kernelToVirtual :: "paddr \<Rightarrow> vaddr" where
  "kernelToVirtual addr = addr + 0xC0000000"

definition kernelToPhysical :: "vaddr \<Rightarrow> paddr" where
  "kernelToPhysical addr = addr - 0xC0000000"

text \<open>An address that starts a page.\<close>

definition page_aligned :: "u32 \<Rightarrow> bool" where
  "page_aligned a \<longleftrightarrow> unat a mod 4096 = 0"

lemma unat_thisPage [page_simps]: "unat (thisPage a) = unat a - unat a mod 4096"
  by (simp add: thisPage_def alignDown_def page_simps)

lemma unat_thisPage_eq: "unat a = k * 4096 + r \<Longrightarrow> r < 4096 \<Longrightarrow> unat (thisPage a) = k * 4096"
  by (simp add: unat_thisPage)

lemma page_aligned_eq: "page_aligned a \<longleftrightarrow> thisPage a = a"
proof -
  have "unat a - unat a mod 4096 = unat a \<longleftrightarrow> unat a mod 4096 = 0"
    using mod_less_eq_dividend [of "unat a" 4096] by arith
  then show ?thesis by (simp add: page_aligned_def word_unat_eq_iff unat_thisPage)
qed

lemma page_aligned_thisPage [simp, intro]: "page_aligned (thisPage a)"
  by (simp add: page_aligned_def unat_thisPage minus_mod_eq_mult_div)

lemma thisPage_le: "thisPage a \<le> a"
  by (simp add: word_le_nat_alt unat_thisPage)

lemma nextPage_thisPage: "nextPage a = thisPage a + 0x1000"
  by (simp add: nextPage_def thisPage_def alignDown_def)

lemma nextPage_aligned: "page_aligned a \<Longrightarrow> nextPage a = a + 0x1000"
  by (simp add: nextPage_thisPage page_aligned_eq)

lemma page_aligned_add: "page_aligned a \<Longrightarrow> page_aligned b \<Longrightarrow> page_aligned (a + b)"
  by (simp add: page_aligned_def unat_add_mod_4096) (metis add_0 mod_0 mod_add_eq)

lemma page_aligned_0x1000 [simp]: "page_aligned 0x1000"
  by (simp add: page_aligned_def)

lemma page_aligned_nextPage [simp, intro]: "page_aligned (nextPage a)"
  by (simp add: nextPage_thisPage page_aligned_add)

lemma page_aligned_alignUp [simp, intro]: "page_aligned (alignUp a)"
  using page_aligned_thisPage [of "a + 0xFFF"] by (simp add: alignUp_def thisPage_def alignDown_def)

lemma unat_alignUp: "unat a \<le> 4294963200 \<Longrightarrow> unat (alignUp a) = (unat a + 4095) div 4096 * 4096"
  by (simp add: alignUp_def page_simps u32_add_no_wrap minus_mod_eq_div_mult)

lemma address_parts:
  "unat a = tableLoc a * 4194304 + tablePageLoc a * 4096 + unat (pageOffset a) \<and>
   tableLoc a < 1024 \<and> tablePageLoc a < 1024 \<and> unat (pageOffset a) < 4096 \<and>
   thisPage a + pageOffset a = a \<and> page_aligned (thisPage a) \<and> prevPage (nextPage a) = thisPage a"
proof -
  have t: "tableLoc a = unat a div 4194304" "tablePageLoc a = unat a div 4096 mod 1024"
    "unat (pageOffset a) = unat a mod 4096"
    by (simp_all add: tableLoc_def tablePageLoc_def pageOffset_def page_simps)
  have "n = n div 4194304 * 4194304 + n div 4096 mod 1024 * 4096 + n mod 4096" for n :: nat
  proof -
    have "n = n div 4096 * 4096 + n mod 4096" "n div 4096 = n div 4194304 * 1024 + n div 4096 mod 1024"
      using div_mult2_eq [of n 4096 1024] by simp_all
    then show ?thesis by linarith
  qed
  then have "unat a = unat a div 4194304 * 4194304 + unat a div 4096 mod 1024 * 4096 + unat a mod 4096"
    by blast
  moreover have "unat a div 4194304 < 1024" by (rule less_mult_imp_div_less) simp
  moreover have "thisPage a + pageOffset a = a"
    by (simp add: thisPage_def alignDown_def pageOffset_def word_and_not_eq_minus [of a 4095, simplified])
  moreover have "prevPage (nextPage a) = thisPage a"
    using page_aligned_nextPage [of a] page_aligned_eq [of "nextPage a"]
    by (simp add: prevPage_def nextPage_thisPage thisPage_def [of "thisPage a + 0x1000"] alignDown_def)
  ultimately show ?thesis by (simp add: t)
qed

text \<open>The table index, the page index and the page offset of an address put together give the
  address back, each is in the range its array has, and the page of an address is the aligned address
  at most 4095 below it.\<close>

theorem address_split:
  "unat a = tableLoc a * 4194304 + tablePageLoc a * 4096 + unat (pageOffset a) \<and>
   tableLoc a < 1024 \<and> tablePageLoc a < 1024 \<and> unat (pageOffset a) < 4096 \<and>
   thisPage a + pageOffset a = a \<and> page_aligned (thisPage a) \<and> prevPage (nextPage a) = thisPage a"
  by (rule address_parts)

end
