(* ===== verification/Nyan_Slab.thy ===== *)
theory Nyan_Slab
  imports Nyan_Address
begin

unbundle bit_operations_syntax

text \<open>
  The slab allocator (kernel/allocator/slab.hpp, slab.cpp). A slab is a page whose first chunk holds
  the header; the intrusive list of free chunks of a slab and the two lists of slabs of a cache are
  HOL lists here (the pointer level is the theory of intrusive lists). The frame allocator below is a
  parameter of the operations; its contract is the locale \<open>frame_source\<close>.
\<close>

section \<open>State\<close>

record slab_header =
  sh_first_chunk :: "vaddr list"
  sh_chunk_size :: nat
  sh_used_count :: u16
  sh_cache :: nat

record slab_cache =
  sc_full_slabs :: "vaddr list"
  sc_used_slabs :: "vaddr list"

text \<open>\<open>sm_slabs\<close> holds the header placed at the start of a page.\<close>

record slab_manager =
  sm_caches :: "slab_cache list"
  sm_slabs :: "vaddr \<Rightarrow> slab_header option"

definition SlabManager :: slab_manager where
  "SlabManager = \<lparr>sm_caches = replicate 6 \<lparr>sc_full_slabs = [], sc_used_slabs = []\<rparr>, sm_slabs = (\<lambda>_. None)\<rparr>"

section \<open>One slab\<close>

definition slab_fullCount :: "slab_header \<Rightarrow> u16" where
  "slab_fullCount s = of_nat (drop_bit (sh_chunk_size s) 4096) - 1"

definition slab_full :: "slab_header \<Rightarrow> bool" where
  "slab_full s \<longleftrightarrow> sh_used_count s = slab_fullCount s"

definition slab_aboutToFull :: "slab_header \<Rightarrow> bool" where
  "slab_aboutToFull s \<longleftrightarrow> int (unat (sh_used_count s)) = int (unat (slab_fullCount s)) - 1"

definition slab_empty :: "slab_header \<Rightarrow> bool" where
  "slab_empty s \<longleftrightarrow> sh_used_count s = 0"

definition SlabHeader_fromAddr :: "vaddr \<Rightarrow> vaddr" where
  "SlabHeader_fromAddr addr = thisPage addr"

fun slab_fill :: "nat \<Rightarrow> vaddr \<Rightarrow> u32 \<Rightarrow> vaddr list \<Rightarrow> vaddr list" where
  "slab_fill 0 addr dlt chunks = chunks"
| "slab_fill (Suc cnt) addr dlt chunks = slab_fill cnt (addr - dlt) dlt (addr # chunks)"

definition SlabHeader :: "vaddr \<Rightarrow> nat \<Rightarrow> nat \<Rightarrow> slab_header" where
  "SlabHeader self sz cache =
    (let s = \<lparr>sh_first_chunk = [], sh_chunk_size = sz, sh_used_count = 0, sh_cache = cache\<rparr>;
         dlt = push_bit sz 1; cnt = unat (slab_fullCount s)
     in s\<lparr>sh_first_chunk := slab_fill cnt (self + 4096 - dlt) dlt []\<rparr>)"

definition slab_take :: "slab_header \<Rightarrow> slab_header \<times> vaddr option" where
  "slab_take s =
    (s\<lparr>sh_used_count := sh_used_count s + 1, sh_first_chunk := tl (sh_first_chunk s)\<rparr>,
     case sh_first_chunk s of [] \<Rightarrow> None | c # _ \<Rightarrow> Some c)"

definition slab_give :: "vaddr \<Rightarrow> slab_header \<Rightarrow> slab_header" where
  "slab_give addr s = s\<lparr>sh_used_count := sh_used_count s - 1, sh_first_chunk := addr # sh_first_chunk s\<rparr>"

section \<open>The manager\<close>

text \<open>\<^verbatim>\<open>std::bit_width\<close>: the number of bits needed for a value.\<close>

fun bits_needed :: "nat \<Rightarrow> nat" where
  "bits_needed n = (if n = 0 then 0 else Suc (bits_needed (n div 2)))"

declare bits_needed.simps [simp del]

definition bit_width :: "u32 \<Rightarrow> nat" where
  "bit_width w = bits_needed (unat w)"

definition findSuitableCache :: "u32 \<Rightarrow> nat exec" where
  "findSuitableCache sz =
    (if sz > 512 then Inl (Kfatal ''too large'')
     else if sz = 0 then Inl (Kfatal ''alloc 0 size'')
     else let sz = (if sz < 16 then 16 else sz) in Inr (bit_width (sz - 1) + 1))"

definition update_cache :: "nat \<Rightarrow> (slab_cache \<Rightarrow> slab_cache) \<Rightarrow> slab_manager \<Rightarrow> slab_manager" where
  "update_cache i f m = m\<lparr>sm_caches := (sm_caches m)[i := f (sm_caches m ! i)]\<rparr>"

definition set_slab :: "vaddr \<Rightarrow> slab_header \<Rightarrow> slab_manager \<Rightarrow> slab_manager" where
  "set_slab a s m = m\<lparr>sm_slabs := (sm_slabs m)(a := Some s)\<rparr>"

definition slab_alloc :: "('p \<Rightarrow> (vaddr \<times> 'p) exec) \<Rightarrow> u32 \<Rightarrow> slab_manager \<Rightarrow> 'p \<Rightarrow>
    (vaddr option \<times> slab_manager \<times> 'p) exec" where
  "slab_alloc frameAlloc sz m p =
    (let sz = (if sz = 0 then 1 else sz) in
     sbind (findSuitableCache sz) (\<lambda>chunk_size.
     let i = chunk_size - 5; cache = sm_caches m ! i in
     if i \<ge> length (sm_caches m) then Inl OutOfBounds
     else case sc_used_slabs cache of
       a # rest \<Rightarrow>
         (case sm_slabs m a of None \<Rightarrow> Inl NullDeref
          | Some s \<Rightarrow>
            let (s', ret) = slab_take s; m = set_slab a s' m;
                m = (if slab_full s'
                     then update_cache i (\<lambda>c. c\<lparr>sc_used_slabs := rest, sc_full_slabs := a # sc_full_slabs c\<rparr>) m
                     else m)
            in Inr (ret, m, p))
     | [] \<Rightarrow>
         sbind (frameAlloc p) (\<lambda>(frame, p).
         let (s', ret) = slab_take (SlabHeader frame chunk_size i)
         in Inr (ret, update_cache i (\<lambda>c. c\<lparr>sc_used_slabs := [frame]\<rparr>) (set_slab frame s' m), p))))"

definition slab_free :: "(vaddr \<Rightarrow> 'p \<Rightarrow> (unit \<times> 'p) exec) \<Rightarrow> vaddr \<Rightarrow> slab_manager \<Rightarrow> 'p \<Rightarrow>
    (slab_manager \<times> 'p) exec" where
  "slab_free frameFree addr m p =
    (let slab = SlabHeader_fromAddr addr in
     case sm_slabs m slab of None \<Rightarrow> Inl NullDeref
     | Some s0 \<Rightarrow>
       let i = sh_cache s0; s = slab_give addr s0; m = set_slab slab s m in
       if slab_aboutToFull s
       then Inr (update_cache i (\<lambda>c. c\<lparr>sc_full_slabs := remove1 slab (sc_full_slabs c),
                sc_used_slabs := slab # sc_used_slabs c\<rparr>) m, p)
       else if slab_empty s
       then sbind (frameFree slab p) (\<lambda>(_, p).
         Inr (update_cache i (\<lambda>c. c\<lparr>sc_used_slabs := remove1 slab (sc_used_slabs c)\<rparr>)
           (m\<lparr>sm_slabs := (sm_slabs m)(slab := None)\<rparr>), p))
       else Inr (m, p))"

section \<open>Invariant\<close>

text \<open>The chunk addresses of the slab at page \<open>a\<close>, and the well-formed slabs.\<close>

definition chunk_count :: "nat \<Rightarrow> nat" where
  "chunk_count c = 4096 div 2 ^ c - 1"

definition chunks_of :: "vaddr \<Rightarrow> nat \<Rightarrow> vaddr set" where
  "chunks_of a c = (\<lambda>k. a + of_nat k * 2 ^ c) ` {1..chunk_count c}"

definition slab_ok :: "vaddr \<Rightarrow> slab_header \<Rightarrow> bool" where
  "slab_ok a s \<longleftrightarrow> page_aligned a \<and> 5 \<le> sh_chunk_size s \<and> sh_chunk_size s \<le> 10 \<and>
    sh_cache s = sh_chunk_size s - 5 \<and> distinct (sh_first_chunk s) \<and>
    set (sh_first_chunk s) \<subseteq> chunks_of a (sh_chunk_size s) \<and>
    unat (sh_used_count s) + length (sh_first_chunk s) = chunk_count (sh_chunk_size s)"

definition slab_live :: "vaddr \<Rightarrow> slab_header \<Rightarrow> vaddr set" where
  "slab_live a s = chunks_of a (sh_chunk_size s) - set (sh_first_chunk s)"

definition cache_ok :: "slab_manager \<Rightarrow> nat \<Rightarrow> bool" where
  "cache_ok m i \<longleftrightarrow> (let c = sm_caches m ! i in
    distinct (sc_full_slabs c @ sc_used_slabs c) \<and>
    (\<forall>a. a \<in> set (sc_full_slabs c) \<longleftrightarrow> (\<exists>s. sm_slabs m a = Some s \<and> sh_cache s = i \<and> sh_first_chunk s = [])) \<and>
    (\<forall>a. a \<in> set (sc_used_slabs c) \<longleftrightarrow> (\<exists>s. sm_slabs m a = Some s \<and> sh_cache s = i \<and> sh_first_chunk s \<noteq> [])))"

definition slab_inv :: "slab_manager \<Rightarrow> bool" where
  "slab_inv m \<longleftrightarrow> length (sm_caches m) = 6 \<and> (\<forall>i<6. cache_ok m i) \<and>
    (\<forall>a s. sm_slabs m a = Some s \<longrightarrow> slab_ok a s \<and> sh_used_count s \<noteq> 0)"

text \<open>The chunks handed out and not given back.\<close>

definition live_chunks :: "slab_manager \<Rightarrow> vaddr set" where
  "live_chunks m = {x. \<exists>a s. sm_slabs m a = Some s \<and> x \<in> slab_live a s}"

section \<open>Chunks\<close>

lemma chunk_size_cases: "5 \<le> c \<Longrightarrow> c \<le> 10 \<Longrightarrow> c = 5 \<or> c = 6 \<or> c = 7 \<or> c = 8 \<or> c = 9 \<or> c = (10 :: nat)"
  by linarith

lemma chunk_facts:
  assumes "5 \<le> c" "c \<le> 10"
  shows "2 \<le> chunk_count c" "chunk_count c < 65536" "(chunk_count c + 1) * 2 ^ c = 4096"
    "unat (of_nat (drop_bit c 4096) - 1 :: u16) = chunk_count c"
proof -
  have d: "drop_bit c (4096 :: nat) = 4096 div 2 ^ c" by (rule drop_bit_eq_div)
  show "2 \<le> chunk_count c" "chunk_count c < 65536" "(chunk_count c + 1) * 2 ^ c = 4096"
    "unat (of_nat (drop_bit c 4096) - 1 :: u16) = chunk_count c"
    using chunk_size_cases [OF assms] unfolding d chunk_count_def by auto
qed

lemma slab_fullCount_eq: "5 \<le> sh_chunk_size s \<Longrightarrow> sh_chunk_size s \<le> 10 \<Longrightarrow>
    unat (slab_fullCount s) = chunk_count (sh_chunk_size s)"
  by (simp add: slab_fullCount_def chunk_facts(4))

lemma chunk_addr:
  assumes "page_aligned a" "5 \<le> c" "c \<le> 10" "1 \<le> k" "k \<le> chunk_count c"
  shows "unat (a + of_nat k * 2 ^ c) = unat a + k * 2 ^ c" "k * 2 ^ c + 2 ^ c \<le> 4096" "0 < k * 2 ^ c"
    "thisPage (a + of_nat k * 2 ^ c) = a" "\<not> page_aligned (a + of_nat k * 2 ^ c)"
proof -
  have "(k + 1) * 2 ^ c \<le> (chunk_count c + 1) * 2 ^ c" using assms(5) by (intro mult_le_mono1) simp
  then show le: "k * 2 ^ c + 2 ^ c \<le> 4096" unfolding chunk_facts(3) [OF assms(2,3)] by (simp add: algebra_simps)
  show pos: "0 < k * 2 ^ c" using assms(4) by simp
  have "unat a + 4096 \<le> 4294967296"
  proof -
    obtain j where "unat a = 4096 * j" using assms(1) by (auto simp: page_aligned_def)
    moreover from this have "j < 1048576" using unat_lt_u32 [of a] by linarith
    ultimately show ?thesis by linarith
  qed
  moreover have small: "k * 2 ^ c < 4096" using le zero_less_power [of "2 :: nat" c] by linarith
  ultimately have lt: "unat a + k * 2 ^ c < 4294967296" by linarith
  have "of_nat k * 2 ^ c = (of_nat (k * 2 ^ c) :: u32)" by simp
  then show u: "unat (a + of_nat k * 2 ^ c) = unat a + k * 2 ^ c" using unat_add_of_nat [OF lt] by simp
  obtain j where j: "unat a = j * 4096" using assms(1) by (auto simp: page_aligned_def)
  have "unat (thisPage (a + of_nat k * 2 ^ c)) = j * 4096"
    using unat_thisPage_eq [of "a + of_nat k * 2 ^ c" j "k * 2 ^ c"] u j small by simp
  then show "thisPage (a + of_nat k * 2 ^ c) = a" using j by (simp add: word_unat_eq_iff)
  then show "\<not> page_aligned (a + of_nat k * 2 ^ c)" using u pos by (metis add_cancel_right_right less_irrefl page_aligned_eq)
qed

lemma chunks_ofD:
  assumes "x \<in> chunks_of a c" "page_aligned a" "5 \<le> c" "c \<le> 10"
  shows "thisPage x = a" "\<not> page_aligned x" "unat x + 2 ^ c \<le> unat a + 4096"
  using assms chunk_addr [OF assms(2-4)] by (force simp: chunks_of_def)+

lemma slab_fill_eq:
  "slab_fill n (b + of_nat n * d) d cs = map (\<lambda>k. b + of_nat k * d) [1..<Suc n] @ cs"
proof (induction n arbitrary: cs)
  case (Suc n)
  have e: "b + of_nat (Suc n) * d - d = b + of_nat n * d" by (simp add: algebra_simps)
  have "slab_fill (Suc n) (b + of_nat (Suc n) * d) d cs = slab_fill n (b + of_nat n * d) d ((b + of_nat (Suc n) * d) # cs)"
    unfolding slab_fill.simps e ..
  also have "\<dots> = map (\<lambda>k. b + of_nat k * d) ([1..<Suc n] @ [Suc n]) @ cs" unfolding Suc by simp
  finally show ?case by simp
qed simp

lemma SlabHeader_ok:
  assumes "page_aligned a" "5 \<le> c" "c \<le> 10"
  shows "sh_first_chunk (SlabHeader a c i) = map (\<lambda>k. a + of_nat k * 2 ^ c) [1..<Suc (chunk_count c)]"
    "sh_used_count (SlabHeader a c i) = 0" "sh_chunk_size (SlabHeader a c i) = c" "sh_cache (SlabHeader a c i) = i"
    "distinct (sh_first_chunk (SlabHeader a c i))" "set (sh_first_chunk (SlabHeader a c i)) = chunks_of a c"
proof -
  have "(of_nat (chunk_count c + 1) * 2 ^ c :: u32) = 4096"
    using chunk_facts(3) [OF assms(2,3)] by (metis of_nat_mult of_nat_numeral of_nat_power)
  then have top: "a + 4096 - 2 ^ c = a + of_nat (chunk_count c) * 2 ^ c" by (simp add: algebra_simps)
  show fc: "sh_first_chunk (SlabHeader a c i) = map (\<lambda>k. a + of_nat k * 2 ^ c) [1..<Suc (chunk_count c)]"
    using slab_fill_eq [of "chunk_count c" a "2 ^ c" "[]"]
    by (simp add: SlabHeader_def Let_def slab_fullCount_def chunk_facts(4) [OF assms(2,3)] push_bit_eq_mult top del: upt_Suc)
  show "sh_used_count (SlabHeader a c i) = 0" "sh_chunk_size (SlabHeader a c i) = c" "sh_cache (SlabHeader a c i) = i"
    by (simp_all add: SlabHeader_def Let_def)
  have "inj_on (\<lambda>k. a + of_nat k * 2 ^ c) {1..<Suc (chunk_count c)}"
  proof (rule inj_onI)
    fix j k assume "j \<in> {1..<Suc (chunk_count c)}" "k \<in> {1..<Suc (chunk_count c)}" "a + of_nat j * 2 ^ c = a + of_nat k * 2 ^ c"
    then have "unat a + j * 2 ^ c = unat a + k * 2 ^ c"
      using chunk_addr(1) [OF assms, of j] chunk_addr(1) [OF assms, of k] by (metis atLeastLessThan_iff less_Suc_eq_le)
    then show "j = k" by simp
  qed
  then show "distinct (sh_first_chunk (SlabHeader a c i))" by (simp add: fc distinct_map del: upt_Suc)
  show "set (sh_first_chunk (SlabHeader a c i)) = chunks_of a c"
    by (simp add: fc chunks_of_def atLeastLessThanSuc_atLeastAtMost del: upt_Suc)
qed

lemma card_chunks_of:
  assumes "page_aligned a" "5 \<le> c" "c \<le> 10"
  shows "card (chunks_of a c) = chunk_count c" "finite (chunks_of a c)"
  using SlabHeader_ok [OF assms, of 0] distinct_card [of "sh_first_chunk (SlabHeader a c 0)"]
  by (simp_all add: chunks_of_def)

lemma bits_needed_bounds:
  "n < 2 ^ bits_needed n" "0 < n \<Longrightarrow> 0 < bits_needed n \<and> 2 ^ (bits_needed n - 1) \<le> n"
proof (induction n rule: bits_needed.induct)
  case (1 n)
  have s: "bits_needed n = (if n = 0 then 0 else Suc (bits_needed (n div 2)))" by (rule bits_needed.simps)
  { case 1 show ?case using "1.IH"(1) s by (cases "n = 0") auto }
  { case 2
    show ?case
    proof (cases "n div 2 = 0")
      case True
      then have "bits_needed (n div 2) = 0" by (simp add: bits_needed.simps)
      then show ?thesis using s 2 by simp
    next
      case False
      then have "0 < bits_needed (n div 2)" "2 ^ (bits_needed (n div 2) - 1) \<le> n div 2" using "1.IH"(2) 2 by auto
      moreover from this(1) have "(2 :: nat) ^ bits_needed (n div 2) = 2 * 2 ^ (bits_needed (n div 2) - 1)"
        by (metis Suc_pred' power_Suc)
      ultimately have "2 ^ bits_needed (n div 2) \<le> n" by linarith
      then show ?thesis using s 2 by simp
    qed }
qed

lemma bit_width_bounds:
  assumes "15 \<le> unat w" "unat w < 512"
  shows "4 \<le> bit_width w" "bit_width w \<le> 9" "unat w < 2 ^ bit_width w"
proof -
  let ?b = "bits_needed (unat w)"
  show lt: "unat w < 2 ^ bit_width w" by (simp add: bit_width_def bits_needed_bounds)
  show "4 \<le> bit_width w"
  proof (rule ccontr)
    assume "\<not> 4 \<le> bit_width w"
    then have "(2 :: nat) ^ bit_width w \<le> 2 ^ 3" by (intro power_increasing) auto
    with lt assms(1) show False by simp
  qed
  show "bit_width w \<le> 9"
  proof (rule ccontr)
    assume "\<not> bit_width w \<le> 9"
    then have "(2 :: nat) ^ 9 \<le> 2 ^ (?b - 1)" unfolding bit_width_def by (intro power_increasing) auto
    moreover have "2 ^ (?b - 1) \<le> unat w" using bits_needed_bounds(2) [of "unat w"] assms(1) by simp
    ultimately show False using assms(2) by simp
  qed
qed

lemma findSuitableCache_ok:
  assumes "0 < sz" "sz \<le> 512"
  shows "\<exists>c. findSuitableCache sz = Inr c \<and> 5 \<le> c \<and> c \<le> 10 \<and> 2 * unat sz \<le> 2 ^ c"
proof -
  define z where "z = (if sz < 16 then 16 else sz)"
  have uz: "16 \<le> unat z" "unat z \<le> 512" "unat sz \<le> unat z"
    using assms by (auto simp: z_def word_le_nat_alt word_less_nat_alt)
  then have "z \<noteq> 0" by auto
  then have u: "unat (z - 1) = unat z - 1" by (rule unat_minus_one)
  have b: "15 \<le> unat (z - 1)" "unat (z - 1) < 512" using u uz by linarith+
  note B = bit_width_bounds [OF b]
  have "unat z \<le> 2 ^ bit_width (z - 1)" using B(3) u by linarith
  then have "2 * unat sz \<le> 2 ^ (bit_width (z - 1) + 1)" using uz(3) by simp
  moreover have "findSuitableCache sz = Inr (bit_width (z - 1) + 1)"
    using assms by (auto simp: findSuitableCache_def z_def Let_def)
  ultimately show ?thesis using B(1,2) by auto
qed

section \<open>Allocation and release keep the invariant\<close>

text \<open>What the slab manager relies on: page-sized frames, each handed out once.\<close>

locale frame_source =
  fixes finv :: "'p \<Rightarrow> bool"
    and live :: "'p \<Rightarrow> vaddr set"
    and fa :: "'p \<Rightarrow> (vaddr \<times> 'p) exec"
    and ff :: "vaddr \<Rightarrow> 'p \<Rightarrow> (unit \<times> 'p) exec"
  assumes fa_ok: "finv p \<Longrightarrow> fa p = Inr (a, p') \<Longrightarrow> finv p' \<and> page_aligned a \<and> a \<notin> live p \<and> live p' = insert a (live p)"
    and ff_ok: "finv p \<Longrightarrow> a \<in> live p \<Longrightarrow> \<exists>p'. ff a p = Inr ((), p') \<and> finv p' \<and> live p' = live p - {a}"

definition slabs_owned :: "slab_manager \<Rightarrow> vaddr set \<Rightarrow> bool" where
  "slabs_owned m L \<longleftrightarrow> dom (sm_slabs m) \<subseteq> L"

lemma slab_invD:
  assumes "slab_inv m"
  shows "length (sm_caches m) = 6" "i < 6 \<Longrightarrow> cache_ok m i"
    "sm_slabs m a = Some s \<Longrightarrow> slab_ok a s" "sm_slabs m a = Some s \<Longrightarrow> sh_used_count s \<noteq> 0"
  using assms by (auto simp: slab_inv_def)

lemma slab_take_ok:
  assumes "slab_ok a s" "sh_first_chunk s \<noteq> []"
  shows "slab_ok a (fst (slab_take s))" "snd (slab_take s) = Some (hd (sh_first_chunk s))"
    "sh_cache (fst (slab_take s)) = sh_cache s" "sh_chunk_size (fst (slab_take s)) = sh_chunk_size s"
    "sh_first_chunk (fst (slab_take s)) = tl (sh_first_chunk s)" "sh_used_count (fst (slab_take s)) \<noteq> 0"
    "slab_full (fst (slab_take s)) \<longleftrightarrow> tl (sh_first_chunk s) = []"
    "slab_live a (fst (slab_take s)) = insert (hd (sh_first_chunk s)) (slab_live a s)"
    "hd (sh_first_chunk s) \<in> chunks_of a (sh_chunk_size s)" "hd (sh_first_chunk s) \<notin> slab_live a s"
proof -
  obtain x xs where fc: "sh_first_chunk s = x # xs" using assms(2) by (cases "sh_first_chunk s") auto
  have c: "5 \<le> sh_chunk_size s" "sh_chunk_size s \<le> 10" using assms(1) by (auto simp: slab_ok_def)
  have "unat (sh_used_count s) < 65535" using assms(1) chunk_facts(2) [OF c] by (auto simp: slab_ok_def fc)
  then have u: "unat (sh_used_count s + 1) = Suc (unat (sh_used_count s))" by (simp add: unat_word_ariths)
  show ok: "slab_ok a (fst (slab_take s))" using assms(1) u by (auto simp: slab_ok_def slab_take_def fc)
  show "snd (slab_take s) = Some (hd (sh_first_chunk s))" "sh_cache (fst (slab_take s)) = sh_cache s"
    "sh_chunk_size (fst (slab_take s)) = sh_chunk_size s" "sh_first_chunk (fst (slab_take s)) = tl (sh_first_chunk s)"
    by (simp_all add: slab_take_def fc)
  show "sh_used_count (fst (slab_take s)) \<noteq> 0" using u by (auto simp: slab_take_def)
  have "slab_full (fst (slab_take s)) \<longleftrightarrow> unat (sh_used_count (fst (slab_take s))) = chunk_count (sh_chunk_size s)"
    using slab_fullCount_eq [of "fst (slab_take s)"] c by (simp add: slab_full_def word_unat_eq_iff slab_take_def)
  also have "\<dots> \<longleftrightarrow> tl (sh_first_chunk s) = []" using ok by (auto simp: slab_ok_def slab_take_def fc)
  finally show "slab_full (fst (slab_take s)) \<longleftrightarrow> tl (sh_first_chunk s) = []" .
  show "slab_live a (fst (slab_take s)) = insert (hd (sh_first_chunk s)) (slab_live a s)"
    "hd (sh_first_chunk s) \<in> chunks_of a (sh_chunk_size s)" "hd (sh_first_chunk s) \<notin> slab_live a s"
    using assms(1) by (auto simp: slab_live_def slab_ok_def slab_take_def fc)
qed

lemma slab_give_ok:
  assumes "slab_ok a s" "x \<in> slab_live a s" "sh_used_count s \<noteq> 0"
  shows "slab_ok a (slab_give x s)" "slab_live a (slab_give x s) = slab_live a s - {x}"
    "sh_first_chunk (slab_give x s) = x # sh_first_chunk s" "sh_cache (slab_give x s) = sh_cache s"
    "slab_aboutToFull (slab_give x s) \<longleftrightarrow> sh_first_chunk s = []"
proof -
  have c: "5 \<le> sh_chunk_size s" "sh_chunk_size s \<le> 10" using assms(1) by (auto simp: slab_ok_def)
  have u: "unat (sh_used_count s - 1) = unat (sh_used_count s) - 1" "0 < unat (sh_used_count s)"
    using unat_minus_one [OF assms(3)] assms(3) by (auto simp: unat_gt_0)
  show "slab_ok a (slab_give x s)" using assms u by (auto simp: slab_ok_def slab_give_def slab_live_def)
  show "slab_live a (slab_give x s) = slab_live a s - {x}" by (auto simp: slab_live_def slab_give_def)
  show "sh_first_chunk (slab_give x s) = x # sh_first_chunk s" "sh_cache (slab_give x s) = sh_cache s"
    by (simp_all add: slab_give_def)
  have "slab_aboutToFull (slab_give x s) \<longleftrightarrow> unat (sh_used_count s) = chunk_count (sh_chunk_size s)"
  proof -
    have "unat (slab_fullCount (slab_give x s)) = chunk_count (sh_chunk_size s)"
      using slab_fullCount_eq [of "slab_give x s"] c by (simp add: slab_give_def)
    moreover have "unat (sh_used_count (slab_give x s)) = unat (sh_used_count s) - 1" using u by (simp add: slab_give_def)
    ultimately show ?thesis unfolding slab_aboutToFull_def using u(2) by linarith
  qed
  also have "\<dots> \<longleftrightarrow> sh_first_chunk s = []" using assms(1) by (auto simp: slab_ok_def)
  finally show "slab_aboutToFull (slab_give x s) \<longleftrightarrow> sh_first_chunk s = []" .
qed

lemma live_chunks_disjoint:
  assumes "slab_inv m" "sm_slabs m a = Some s" "x \<in> chunks_of a (sh_chunk_size s)"
  shows "x \<in> live_chunks m \<longleftrightarrow> x \<in> slab_live a s"
proof
  assume "x \<in> live_chunks m"
  then obtain b t where bt: "sm_slabs m b = Some t" "x \<in> slab_live b t" by (auto simp: live_chunks_def)
  have "thisPage x = a"
    using slab_invD(3) [OF assms(1,2)] chunks_ofD(1) [OF assms(3)] by (simp add: slab_ok_def)
  moreover have "thisPage x = b"
    using slab_invD(3) [OF assms(1) bt(1)] chunks_ofD(1) [of x b] bt(2) by (auto simp: slab_ok_def slab_live_def)
  ultimately show "x \<in> slab_live a s" using bt assms(2) by simp
qed (use assms in \<open>auto simp: live_chunks_def\<close>)

text \<open>Replacing the slab at one page and the lists of its cache.\<close>

definition put_slab :: "vaddr \<Rightarrow> slab_header option \<Rightarrow> nat \<Rightarrow> slab_cache \<Rightarrow> slab_manager \<Rightarrow> slab_manager" where
  "put_slab a st i c m = m\<lparr>sm_slabs := (sm_slabs m)(a := st), sm_caches := (sm_caches m)[i := c]\<rparr>"

lemma slab_inv_put:
  assumes inv: "slab_inv m" and i: "i < 6"
    and old: "\<And>s. sm_slabs m a = Some s \<Longrightarrow> sh_cache s = i"
    and new: "\<And>s. st = Some s \<Longrightarrow> slab_ok a s \<and> sh_used_count s \<noteq> 0 \<and> sh_cache s = i"
    and dist: "distinct (sc_full_slabs c @ sc_used_slabs c)"
    and full: "\<And>b. b \<in> set (sc_full_slabs c) \<longleftrightarrow>
      (if b = a then \<exists>s. st = Some s \<and> sh_first_chunk s = [] else b \<in> set (sc_full_slabs (sm_caches m ! i)))"
    and used: "\<And>b. b \<in> set (sc_used_slabs c) \<longleftrightarrow>
      (if b = a then \<exists>s. st = Some s \<and> sh_first_chunk s \<noteq> [] else b \<in> set (sc_used_slabs (sm_caches m ! i)))"
  shows "slab_inv (put_slab a st i c m)"
proof -
  note D = slab_invD [OF inv]
  have "cache_ok (put_slab a st i c m) j" if j: "j < 6" for j
  proof (cases "j = i")
    case True
    have "cache_ok m i" using D(2) i by blast
    with True D(1) i dist full used new old show ?thesis
      by (auto simp: cache_ok_def put_slab_def Let_def split: if_splits)
  next
    case False
    have "(\<exists>s. ((sm_slabs m)(a := st)) b = Some s \<and> sh_cache s = j \<and> Q s) \<longleftrightarrow>
        (\<exists>s. sm_slabs m b = Some s \<and> sh_cache s = j \<and> Q s)" for b Q
      using False old new by (cases "b = a") auto
    with D(2) [OF j] False show ?thesis by (simp add: cache_ok_def put_slab_def Let_def del: fun_upd_apply)
  qed
  moreover have "slab_ok b s \<and> sh_used_count s \<noteq> 0" if "sm_slabs (put_slab a st i c m) b = Some s" for b s
    using that D(3,4) new by (auto simp: put_slab_def split: if_splits)
  ultimately show ?thesis using D(1) by (simp add: slab_inv_def put_slab_def)
qed

lemma live_chunks_put:
  "live_chunks (put_slab a st i c m) =
    {x. \<exists>b s. b \<noteq> a \<and> sm_slabs m b = Some s \<and> x \<in> slab_live b s} \<union> (case st of None \<Rightarrow> {} | Some s \<Rightarrow> slab_live a s)"
  by (auto simp: live_chunks_def put_slab_def split: option.splits if_splits)

lemma live_chunks_split:
  "sm_slabs m a = Some s \<Longrightarrow> live_chunks m = {x. \<exists>b s. b \<noteq> a \<and> sm_slabs m b = Some s \<and> x \<in> slab_live b s} \<union> slab_live a s"
  "sm_slabs m a = None \<Longrightarrow> live_chunks m = {x. \<exists>b s. b \<noteq> a \<and> sm_slabs m b = Some s \<and> x \<in> slab_live b s}"
  by (auto simp: live_chunks_def) (metis option.inject option.distinct(1))+

lemma live_other:
  assumes "slab_inv m" "page_aligned a" "5 \<le> c" "c \<le> 10" "x \<in> chunks_of a c"
  shows "x \<notin> {x. \<exists>b s. b \<noteq> a \<and> sm_slabs m b = Some s \<and> x \<in> slab_live b s}"
proof
  assume "x \<in> {x. \<exists>b s. b \<noteq> a \<and> sm_slabs m b = Some s \<and> x \<in> slab_live b s}"
  then obtain b s where b: "b \<noteq> a" "sm_slabs m b = Some s" "x \<in> chunks_of b (sh_chunk_size s)" by (auto simp: slab_live_def)
  have "thisPage x = b" using slab_invD(3) [OF assms(1) b(2)] chunks_ofD(1) [OF b(3)] by (simp add: slab_ok_def)
  with chunks_ofD(1) [OF assms(5,2-4)] b(1) show False by simp
qed

context frame_source
begin

lemma slab_alloc_ok:
  assumes inv: "slab_inv m" "finv p" "slabs_owned m (live p)" and sz: "sz \<le> 512"
    and al: "slab_alloc fa sz m p = Inr (r, m', p')"
  shows "\<exists>x c. r = Some x \<and> slab_inv m' \<and> finv p' \<and> slabs_owned m' (live p') \<and> x \<notin> live_chunks m \<and>
    live_chunks m' = insert x (live_chunks m) \<and> \<not> page_aligned x \<and> thisPage x \<in> live p' \<and>
    unat sz \<le> 2 ^ c \<and> unat x + 2 ^ c \<le> unat (thisPage x) + 4096"
proof -
  note D = slab_invD [OF inv(1)]
  define z where "z = (if sz = 0 then 1 else sz)"
  have z: "0 < z" "z \<le> 512" "unat sz \<le> unat z" using sz by (auto simp: z_def word_gt_0)
  obtain c where c: "findSuitableCache z = Inr c" "5 \<le> c" "c \<le> 10" "2 * unat z \<le> 2 ^ c"
    using findSuitableCache_ok [OF z(1,2)] by blast
  define i where "i = c - 5"
  have i: "i < 6" "\<not> length (sm_caches m) \<le> i" using c D(1) by (auto simp: i_def)
  have fits: "unat sz \<le> 2 ^ c" using c(4) z(3) by linarith
  note ok = D(2) [OF i(1), unfolded cache_ok_def Let_def]
  show ?thesis
  proof (cases "sc_used_slabs (sm_caches m ! i)")
    case (Cons a rest)
    then obtain s where s: "sm_slabs m a = Some s" "sh_cache s = i" "sh_first_chunk s \<noteq> []"
      using ok by (metis list.set_intros(1))
    note T = slab_take_ok [OF D(3) [OF s(1)] s(3)]
    let ?s' = "fst (slab_take s)" and ?x = "hd (sh_first_chunk s)"
    have sc: "sh_chunk_size s = c" using D(3) [OF s(1)] s(2) c by (auto simp: slab_ok_def i_def)
    have pa: "page_aligned a" using D(3) [OF s(1)] by (simp add: slab_ok_def)
    define cc where "cc = (if slab_full ?s' then (sm_caches m ! i)\<lparr>sc_used_slabs := rest,
        sc_full_slabs := a # sc_full_slabs (sm_caches m ! i)\<rparr> else sm_caches m ! i)"
    have m': "r = Some ?x" "m' = put_slab a (Some ?s') i cc m" "p' = p"
      using al c(1) i(2) Cons s(1) T(2) D(1) i(1)
      by (auto simp: slab_alloc_def Let_def z_def [symmetric] i_def [symmetric] case_prod_beta put_slab_def set_slab_def
          update_cache_def cc_def)
    have inv': "slab_inv m'"
      unfolding m'(2)
      by (rule slab_inv_put [OF inv(1) i(1)])
        (use s T ok Cons in \<open>auto simp: cc_def split: if_splits\<close>)
    have x: "?x \<in> chunks_of a c" "?x \<notin> slab_live a s" using T(9,10) sc by auto
    have "?x \<notin> live_chunks m" using live_chunks_disjoint [OF inv(1) s(1)] x sc by simp
    moreover have "live_chunks m' = insert ?x (live_chunks m)"
      unfolding m'(2) live_chunks_put using live_chunks_split(1) [OF s(1)] T(8) by simp
    moreover have "thisPage ?x = a" "\<not> page_aligned ?x" "unat ?x + 2 ^ c \<le> unat a + 4096"
      using chunks_ofD [OF x(1) pa c(2,3)] by auto
    moreover have "slabs_owned m' (live p')" using inv(3) s(1) by (auto simp: slabs_owned_def m' put_slab_def)
    moreover have "a \<in> live p'" using inv(3) s(1) by (auto simp: slabs_owned_def m'(3))
    ultimately show ?thesis using m'(1,3) inv' inv(2) fits by blast
  next
    case Nil
    obtain a where fa: "fa p = Inr (a, p')"
      using al c(1) i(2) Nil by (auto simp: slab_alloc_def Let_def z_def [symmetric] i_def [symmetric] sbind_eq_Inr_iff case_prod_beta)
    note F = fa_ok [OF inv(2) fa]
    have pa: "page_aligned a" and new: "sm_slabs m a = None" using F inv(3) by (auto simp: slabs_owned_def)
    note H = SlabHeader_ok [OF pa c(2,3), of i]
    let ?s = "SlabHeader a c i"
    have ok0: "slab_ok a ?s" using pa c H chunk_facts(3) [OF c(2,3)] by (auto simp: slab_ok_def i_def)
    have ne: "sh_first_chunk ?s \<noteq> []" "tl (sh_first_chunk ?s) \<noteq> []"
    proof -
      have "length (sh_first_chunk ?s) = chunk_count c" by (simp add: H(1) del: upt_Suc)
      with chunk_facts(1) [OF c(2,3)] have "2 \<le> length (sh_first_chunk ?s)" by simp
      then show "sh_first_chunk ?s \<noteq> []" "tl (sh_first_chunk ?s) \<noteq> []"
        by (auto simp: Suc_le_length_iff numeral_2_eq_2)
    qed
    note T = slab_take_ok [OF ok0 ne(1)]
    let ?s' = "fst (slab_take ?s)" and ?x = "hd (sh_first_chunk ?s)"
    define cc where "cc = (sm_caches m ! i)\<lparr>sc_used_slabs := [a]\<rparr>"
    have m': "r = Some ?x" "m' = put_slab a (Some ?s') i cc m"
      using al c(1) i(2) Nil fa T(2) D(1) i(1)
      by (auto simp: slab_alloc_def Let_def z_def [symmetric] i_def [symmetric] case_prod_beta put_slab_def set_slab_def
          update_cache_def cc_def)
    have "a \<notin> set (sc_full_slabs (sm_caches m ! i))" using ok new by simp
    then have inv': "slab_inv m'"
      unfolding m'(2)
      by (intro slab_inv_put [OF inv(1) i(1)]) (use T H(4) ok new ne Nil in \<open>auto simp: cc_def split: if_splits\<close>)
    have live0: "slab_live a ?s = {}" using H(3,6) by (auto simp: slab_live_def)
    have x: "?x \<in> chunks_of a c" using T(9) H(3) by simp
    have "?x \<notin> live_chunks m"
      using live_other [OF inv(1) pa c(2,3) x] live_chunks_split(2) [OF new] by simp
    moreover have "live_chunks m' = insert ?x (live_chunks m)"
      unfolding m'(2) live_chunks_put using live_chunks_split(2) [OF new] T(8) live0 by simp
    moreover have "thisPage ?x = a" "\<not> page_aligned ?x" "unat ?x + 2 ^ c \<le> unat a + 4096"
      using chunks_ofD [OF x pa c(2,3)] by auto
    moreover have "slabs_owned m' (live p')" using inv(3) F by (auto simp: slabs_owned_def m' put_slab_def)
    moreover have "a \<in> live p'" "finv p'" using F by auto
    ultimately show ?thesis using m'(1) inv' fits by (intro exI [of _ ?x] exI [of _ c]) simp
  qed
qed

lemma slab_free_ok:
  assumes inv: "slab_inv m" "finv p" "slabs_owned m (live p)" and x: "x \<in> live_chunks m"
  shows "\<exists>m' p'. slab_free ff x m p = Inr (m', p') \<and> slab_inv m' \<and> finv p' \<and> slabs_owned m' (live p') \<and>
    live_chunks m' = live_chunks m - {x}"
proof -
  note D = slab_invD [OF inv(1)]
  obtain a s where s: "sm_slabs m a = Some s" "x \<in> slab_live a s" using x by (auto simp: live_chunks_def)
  have so: "slab_ok a s" "sh_used_count s \<noteq> 0" using D(3,4) s(1) by auto
  have pg: "SlabHeader_fromAddr x = a"
    using chunks_ofD(1) [of x a] s(2) so(1) by (auto simp: SlabHeader_fromAddr_def slab_live_def slab_ok_def)
  define i where "i = sh_cache s"
  have i: "i < 6" using so(1) by (auto simp: slab_ok_def i_def)
  note ok = D(2) [OF i, unfolded cache_ok_def Let_def]
  note G = slab_give_ok [OF so(1) s(2) so(2)]
  have c: "5 \<le> sh_chunk_size s" "sh_chunk_size s \<le> 10" "page_aligned a" using so(1) by (auto simp: slab_ok_def)
  have xo: "x \<notin> {x. \<exists>b s. b \<noteq> a \<and> sm_slabs m b = Some s \<and> x \<in> slab_live b s}"
    using live_other [OF inv(1) c(3,1,2)] s(2) by (auto simp: slab_live_def)
  let ?s = "slab_give x s" and ?c = "sm_caches m ! i"
  consider (wasfull) "sh_first_chunk s = []" | (last) "sh_first_chunk s \<noteq> []" "slab_empty ?s"
    | (other) "sh_first_chunk s \<noteq> []" "\<not> slab_empty ?s" by blast
  then show ?thesis
  proof cases
    case wasfull
    define cc where "cc = ?c\<lparr>sc_full_slabs := remove1 a (sc_full_slabs ?c), sc_used_slabs := a # sc_used_slabs ?c\<rparr>"
    have e: "slab_free ff x m p = Inr (put_slab a (Some ?s) i cc m, p)"
      using s(1) G(5) wasfull D(1) i
      by (simp add: slab_free_def pg Let_def i_def [symmetric] put_slab_def set_slab_def update_cache_def cc_def)
    have u: "sh_used_count ?s \<noteq> 0"
      using wasfull so chunk_facts(1) [OF c(1,2)] unat_minus_one [OF so(2)]
      by (auto simp: slab_give_def slab_ok_def simp flip: unat_eq_zero)
    have "slab_inv (put_slab a (Some ?s) i cc m)"
      by (rule slab_inv_put [OF inv(1) i])
        (use s(1) G u ok wasfull in \<open>auto simp: cc_def i_def distinct_remove1 split: if_splits\<close>)
    moreover have "live_chunks (put_slab a (Some ?s) i cc m) = live_chunks m - {x}"
      unfolding live_chunks_put using live_chunks_split(1) [OF s(1)] G(2) xo by auto
    moreover have "slabs_owned (put_slab a (Some ?s) i cc m) (live p)"
      using inv(3) s(1) by (auto simp: slabs_owned_def put_slab_def)
    ultimately show ?thesis using e inv(2) by blast
  next
    case last
    define cc where "cc = ?c\<lparr>sc_used_slabs := remove1 a (sc_used_slabs ?c)\<rparr>"
    have al: "a \<in> live p" using inv(3) s(1) by (auto simp: slabs_owned_def)
    obtain p' where p': "ff a p = Inr ((), p')" "finv p'" "live p' = live p - {a}" using ff_ok [OF inv(2) al] by blast
    have e: "slab_free ff x m p = Inr (put_slab a None i cc m, p')"
      using s(1) G(5) last D(1) i p'(1)
      by (simp add: slab_free_def pg Let_def i_def [symmetric] put_slab_def set_slab_def update_cache_def cc_def)
    have used: "a \<in> set (sc_used_slabs ?c)" "a \<notin> set (sc_full_slabs ?c)" using ok s(1) last(1) by (auto simp: i_def)
    have "slab_inv (put_slab a None i cc m)"
      by (rule slab_inv_put [OF inv(1) i])
        (use s(1) ok used in \<open>auto simp: cc_def i_def distinct_remove1 split: if_splits dest: notin_set_remove1\<close>)
    moreover have "live_chunks (put_slab a None i cc m) = live_chunks m - {x}"
    proof -
      have "unat (sh_used_count s) = 1" using last(2) unat_minus_one [OF so(2)] so(2)
        by (auto simp: slab_empty_def slab_give_def simp flip: unat_eq_zero)
      then have "length (sh_first_chunk s) = chunk_count (sh_chunk_size s) - 1" "distinct (sh_first_chunk s)"
        "set (sh_first_chunk s) \<subseteq> chunks_of a (sh_chunk_size s)" using so(1) by (auto simp: slab_ok_def)
      then have "card (slab_live a s) = 1"
        using card_chunks_of [OF c(3,1,2)] chunk_facts(1) [OF c(1,2)]
        by (simp add: slab_live_def card_Diff_subset distinct_card)
      then have "slab_live a s = {x}" using s(2) by (metis card_1_singletonE singletonD)
      then show ?thesis unfolding live_chunks_put using live_chunks_split(1) [OF s(1)] xo by auto
    qed
    moreover have "slabs_owned (put_slab a None i cc m) (live p')"
      using inv(3) p'(3) by (auto simp: slabs_owned_def put_slab_def)
    ultimately show ?thesis using e p'(2) by blast
  next
    case other
    have e: "slab_free ff x m p = Inr (put_slab a (Some ?s) i ?c m, p)"
      using s(1) G(5) other by (simp add: slab_free_def pg Let_def put_slab_def set_slab_def)
    have "slab_inv (put_slab a (Some ?s) i ?c m)"
      by (rule slab_inv_put [OF inv(1) i])
        (use s(1) G other ok in \<open>auto simp: i_def slab_empty_def split: if_splits\<close>)
    moreover have "live_chunks (put_slab a (Some ?s) i ?c m) = live_chunks m - {x}"
      unfolding live_chunks_put using live_chunks_split(1) [OF s(1)] G(2) xo by auto
    moreover have "slabs_owned (put_slab a (Some ?s) i ?c m) (live p)"
      using inv(3) s(1) by (auto simp: slabs_owned_def put_slab_def)
    ultimately show ?thesis using e inv(2) by blast
  qed
qed

end

end
