(* ===== verification/Nyan_Bitmap.thy ===== *)
theory Nyan_Bitmap
  imports Nyan_Prelude "HOL-Library.Multiset"
begin

unbundle bit_operations_syntax

text \<open>
  The two bitmap allocators of kernel/allocator: \<^verbatim>\<open>PoolManager\<close> (physical frames, pool.cpp) and
  \<^verbatim>\<open>FrameManager\<close> (kernel virtual frames, frame.cpp), and the reference-counted physical
  frames built on the first one (physical_frame.cpp and the \<^verbatim>\<open>physicalFrame*\<close> functions of
  mod.cpp). A bitmap is a list of 32-bit words; \<open>bitmap_bits\<close> is the set of allocated indices.
  Both managers interpret \<open>index_allocator\<close>.
\<close>

section \<open>Operations\<close>

definition countr_one :: "u32 \<Rightarrow> nat" where
  "countr_one w = length (takeWhile (bit w) [0..<32])"

text \<open>The search loop of both \<^verbatim>\<open>alloc\<close> functions, from word \<open>i\<close> on.\<close>

fun bitmap_scan :: "nat \<Rightarrow> u32 list \<Rightarrow> (u32 list \<times> u32) option" where
  "bitmap_scan i [] = None"
| "bitmap_scan i (w # ws) =
    (let pos = countr_one w in
     if pos < 32 then Some ((w OR push_bit pos 1) # ws, push_bit 5 (of_nat i) OR of_nat pos)
     else map_option (\<lambda>(ws', r). (w # ws', r)) (bitmap_scan (Suc i) ws))"

definition bitmap_clear :: "u32 list \<Rightarrow> u32 \<Rightarrow> u32 list exec" where
  "bitmap_clear b offset =
    (let i = unat (drop_bit 5 offset) in
     if i < length b then Inr (b[i := (b ! i) AND NOT (push_bit (unat (offset AND 31)) 1)])
     else Inl OutOfBounds)"

record pool_manager =
  pm_bitmap :: "u32 list"

definition pool_base :: u32 where "pool_base = 0x800000"

definition frame_base :: u32 where "frame_base = 0xC0800000"

definition frame_top :: u32 where "frame_top = 0xD0000000"

definition pool_bitmap_size :: "u32 \<Rightarrow> nat" where
  "pool_bitmap_size sz = unat (drop_bit 5 (drop_bit 12 sz))"

definition pool_construct :: "u32 \<Rightarrow> pool_manager" where
  "pool_construct sz = \<lparr>pm_bitmap = replicate (pool_bitmap_size sz) 0\<rparr>"

definition pool_alloc :: "pool_manager \<Rightarrow> (pool_manager \<times> u32) exec" where
  "pool_alloc p = (case bitmap_scan 0 (pm_bitmap p) of
      None \<Rightarrow> Inl (Kfatal ''page not enough!'')
    | Some (b, r) \<Rightarrow> Inr (p\<lparr>pm_bitmap := b\<rparr>, r))"

definition pool_free :: "pool_manager \<Rightarrow> u32 \<Rightarrow> pool_manager exec" where
  "pool_free p offset = sbind (bitmap_clear (pm_bitmap p) offset) (\<lambda>b. Inr (p\<lparr>pm_bitmap := b\<rparr>))"

definition pageAt :: "u32 \<Rightarrow> u32" where
  "pageAt offset = pool_base + push_bit 12 offset"

definition pageFor :: "u32 \<Rightarrow> u32" where
  "pageFor addr = drop_bit 12 (addr - pool_base)"

record frame_manager =
  fm_bitmap :: "u32 list"

definition frame_bitmap_size :: nat where
  "frame_bitmap_size = unat (drop_bit 5 (drop_bit 12 (frame_top - frame_base)))"

definition frame_construct :: frame_manager where
  "frame_construct = \<lparr>fm_bitmap = replicate frame_bitmap_size 0\<rparr>"

definition frame_alloc :: "frame_manager \<Rightarrow> (frame_manager \<times> u32) exec" where
  "frame_alloc f = (case bitmap_scan 0 (fm_bitmap f) of
      None \<Rightarrow> Inl (Kfatal ''frame not enough!'')
    | Some (b, r) \<Rightarrow> Inr (f\<lparr>fm_bitmap := b\<rparr>, r))"

definition frame_free :: "frame_manager \<Rightarrow> u32 \<Rightarrow> frame_manager exec" where
  "frame_free f offset = sbind (bitmap_clear (fm_bitmap f) offset) (\<lambda>b. Inr (f\<lparr>fm_bitmap := b\<rparr>))"

definition frameAt :: "u32 \<Rightarrow> u32" where
  "frameAt offset = frame_base + push_bit 12 offset"

definition frameFor :: "u32 \<Rightarrow> u32" where
  "frameFor addr = drop_bit 12 (addr - frame_base)"

text \<open>Physical frames with their reference counts (\<^verbatim>\<open>PhysicalFrame::__ref\<close>, 16 bits).\<close>

record phys_frames =
  pf_pool :: pool_manager
  pf_info :: "u16 list"

definition phys_construct :: "u32 \<Rightarrow> phys_frames" where
  "phys_construct sz =
    \<lparr>pf_pool = pool_construct sz, pf_info = replicate (unat (drop_bit 12 sz)) 0\<rparr>"

definition physicalFrameAlloc :: "phys_frames \<Rightarrow> (phys_frames \<times> u32) exec" where
  "physicalFrameAlloc s = sbind (pool_alloc (pf_pool s)) (\<lambda>(p, offset).
    if unat offset < length (pf_info s)
    then Inr (s\<lparr>pf_pool := p, pf_info := (pf_info s)[unat offset := 1]\<rparr>, pageAt offset)
    else Inl OutOfBounds)"

definition physicalFrameRetain :: "phys_frames \<Rightarrow> u32 \<Rightarrow> phys_frames exec" where
  "physicalFrameRetain s addr =
    (let offset = unat (pageFor addr) in
     if offset < length (pf_info s)
     then Inr (s\<lparr>pf_info := (pf_info s)[offset := pf_info s ! offset + 1]\<rparr>)
     else Inl OutOfBounds)"

definition physicalFrameRelease :: "phys_frames \<Rightarrow> u32 \<Rightarrow> phys_frames exec" where
  "physicalFrameRelease s addr =
    (let offset = pageFor addr; i = unat offset in
     if i < length (pf_info s)
     then let ref = pf_info s ! i - 1; s' = s\<lparr>pf_info := (pf_info s)[i := ref]\<rparr>
          in if ref = 0 then sbind (pool_free (pf_pool s') offset) (\<lambda>p. Inr (s'\<lparr>pf_pool := p\<rparr>))
             else Inr s'
     else Inl OutOfBounds)"

definition physicalFrameGetRef :: "phys_frames \<Rightarrow> u32 \<Rightarrow> u16 exec" where
  "physicalFrameGetRef s addr =
    (let offset = unat (pageFor addr) in
     if offset < length (pf_info s) then Inr (pf_info s ! offset) else Inl OutOfBounds)"

definition virtualFrameAlloc :: "frame_manager \<Rightarrow> (frame_manager \<times> u32) exec" where
  "virtualFrameAlloc f = sbind (frame_alloc f) (\<lambda>(f', offset). Inr (f', frameAt offset))"

definition virtualFrameFree :: "frame_manager \<Rightarrow> u32 \<Rightarrow> frame_manager exec" where
  "virtualFrameFree f addr = frame_free f (frameFor addr)"

definition bitmap_bits :: "u32 list \<Rightarrow> nat set" where
  "bitmap_bits b = {n. n < 32 * length b \<and> bit (b ! (n div 32)) (n mod 32)}"

definition bitmap_inv :: "u32 list \<Rightarrow> bool" where
  "bitmap_inv b \<longleftrightarrow> length b \<le> 2 ^ 15"

section \<open>The bitmap\<close>

lemma countr_one_le: "countr_one w \<le> 32"
  using length_takeWhile_le [of "bit w" "[0..<32]"] by (simp add: countr_one_def)

lemma countr_one_below: "j < countr_one w \<Longrightarrow> bit w j"
proof -
  assume j: "j < countr_one w"
  then have "takeWhile (bit w) [0..<32] ! j = [0..<32] ! j"
    by (simp add: countr_one_def takeWhile_nth)
  moreover have "takeWhile (bit w) [0..<32] ! j \<in> set (takeWhile (bit w) [0..<32])"
    using j by (simp add: countr_one_def)
  moreover have "j < 32" using j countr_one_le [of w] by simp
  ultimately show ?thesis by (metis add_0 nth_upt set_takeWhileD)
qed

lemma countr_one_at: "countr_one w < 32 \<Longrightarrow> \<not> bit w (countr_one w)"
proof -
  assume "countr_one w < 32"
  then have "\<not> bit w ([0..<32] ! countr_one w)"
    unfolding countr_one_def by (intro nth_length_takeWhile) simp
  with \<open>countr_one w < 32\<close> show ?thesis by simp
qed

lemma bitmap_bits_Cons:
  "n \<in> bitmap_bits (w # ws) \<longleftrightarrow> (if n < 32 then bit w n else n - 32 \<in> bitmap_bits ws)"
proof (cases "n < 32")
  case False
  then have "n div 32 = Suc ((n - 32) div 32)" "n mod 32 = (n - 32) mod 32"
    by (simp_all add: le_div_geq le_mod_geq)
  with False show ?thesis by (auto simp: bitmap_bits_def)
qed (simp add: bitmap_bits_def)

lemma bitmap_bits_bound: "n \<in> bitmap_bits b \<Longrightarrow> n < 32 * length b"
  by (simp add: bitmap_bits_def)

lemma index_word: "pos < 32 \<Longrightarrow> i < 2 ^ 27 \<Longrightarrow>
    unat (push_bit 5 (of_nat i) OR of_nat pos :: u32) = 32 * i + pos"
proof -
  assume a: "pos < 32" "i < 2 ^ 27"
  have "push_bit 5 (of_nat i) OR of_nat pos = (push_bit 5 (of_nat i) + of_nat pos :: u32)"
  proof (rule disjunctive_add [symmetric])
    fix n show "\<not> bit (push_bit 5 (of_nat i) :: u32) n \<or> \<not> bit (of_nat pos :: u32) n"
    proof (cases "n < 5")
      case False
      then have "(2::nat) ^ 5 \<le> 2 ^ n" by (intro power_increasing) auto
      then have "pos < 2 ^ n" using a(1) by simp
      then have "\<not> bit pos n" by (simp add: bit_nat_def)
      then show ?thesis by (simp add: bit_simps)
    qed (simp add: bit_simps)
  qed
  moreover have "unat (push_bit 5 (of_nat i) :: u32) = 32 * i"
    using a(2) by (simp add: push_bit_eq_mult unat_word_ariths unat_of_nat)
  ultimately show ?thesis
    using a by (simp add: unat_word_ariths unat_of_nat)
qed

text \<open>What the search returns: the least free index, now taken; nothing when all are taken.\<close>

lemma bitmap_scan_None: "bitmap_scan i b = None \<longleftrightarrow> bitmap_bits b = {..<32 * length b}"
proof (induction b arbitrary: i)
  case Nil
  then show ?case by (simp add: bitmap_bits_def)
next
  case (Cons w ws)
  have "bitmap_bits (w # ws) = {..<32 * length (w # ws)} \<longleftrightarrow>
      (\<forall>n<32. bit w n) \<and> bitmap_bits ws = {..<32 * length ws}" (is "?L \<longleftrightarrow> ?R")
  proof
    assume L: ?L
    have "bit w n" if "n < 32" for n
      using L that bitmap_bits_Cons [of n w ws] by auto
    moreover have "n \<in> bitmap_bits ws" if "n < 32 * length ws" for n
      using L that bitmap_bits_Cons [of "n + 32" w ws] by auto
    ultimately show ?R by (auto dest: bitmap_bits_bound)
  next
    assume ?R
    then show ?L by (auto simp: bitmap_bits_Cons dest: bitmap_bits_bound)
  qed
  moreover have "(\<forall>n<32. bit w n) \<longleftrightarrow> \<not> countr_one w < 32"
    using countr_one_at [of w] countr_one_below [of _ w] countr_one_le [of w]
    by (metis le_neq_implies_less less_le_not_le)
  ultimately show ?case by (auto simp: Let_def Cons.IH)
qed

lemma bitmap_scan_Some:
  assumes "bitmap_scan i b = Some (b', r)" "i + length b \<le> 2 ^ 27"
  shows "32 * i \<le> unat r \<and> unat r - 32 * i \<notin> bitmap_bits b \<and> (\<forall>m<unat r - 32 * i. m \<in> bitmap_bits b) \<and>
    bitmap_bits b' = insert (unat r - 32 * i) (bitmap_bits b) \<and> length b' = length b \<and>
    unat r < 32 * (i + length b)"
  using assms
proof (induction b arbitrary: i b' r)
  case (Cons w ws)
  show ?case
  proof (cases "countr_one w < 32")
    case True
    let ?p = "countr_one w"
    have r: "unat r = 32 * i + ?p" and b': "b' = (w OR push_bit ?p 1) # ws"
      using Cons.prems True index_word [OF True, of i] by (auto simp: Let_def)
    have "n \<in> bitmap_bits b' \<longleftrightarrow> n = ?p \<or> n \<in> bitmap_bits (w # ws)" for n
      using True by (auto simp: b' bitmap_bits_Cons bit_simps)
    then show ?thesis
      using True countr_one_at [OF True] countr_one_below [of _ w]
      by (auto simp: r bitmap_bits_Cons b' bit_simps)
  next
    case False
    then have ones: "bit w n" if "n < 32" for n
      using that countr_one_below [of n w] by simp
    obtain ws' where s: "bitmap_scan (Suc i) ws = Some (ws', r)" and b': "b' = w # ws'"
      using Cons.prems False by (auto simp: Let_def)
    have "Suc i + length ws \<le> 2 ^ 27" using Cons.prems(2) by simp
    note IH = Cons.IH [OF s this]
    define k where "k = unat r - 32 * Suc i"
    have k: "unat r - 32 * i = k + 32" using IH by (simp add: k_def)
    have "m \<in> bitmap_bits (w # ws)" if "m < k + 32" for m
      using that IH ones by (auto simp: bitmap_bits_Cons k_def)
    moreover have "bitmap_bits b' = insert (k + 32) (bitmap_bits (w # ws))"
      using IH ones by (auto simp: b' bitmap_bits_Cons k_def split: if_splits)
    moreover have "k + 32 \<notin> bitmap_bits (w # ws)" using IH bitmap_bits_Cons [of "k + 32" w ws]
      unfolding k_def [symmetric] by simp
    moreover have "32 * i \<le> unat r \<and> length b' = length (w # ws) \<and> unat r < 32 * (i + length (w # ws))"
      using IH by (simp add: b')
    ultimately show ?thesis unfolding k by blast
  qed
qed simp

lemma bitmap_clear_law:
  "unat offset < 32 * length b \<Longrightarrow> \<exists>b'. bitmap_clear b offset = Inr b' \<and> length b' = length b \<and>
    bitmap_bits b' = bitmap_bits b - {unat offset}"
  "32 * length b \<le> unat offset \<Longrightarrow> bitmap_clear b offset = Inl OutOfBounds"
proof -
  let ?i = "unat offset div 32" and ?j = "unat offset mod 32"
  assume lt: "unat offset < 32 * length b"
  then have i: "?i < length b" by (simp add: less_mult_imp_div_less mult.commute)
  let ?b = "b[?i := (b ! ?i) AND NOT (push_bit ?j 1)]"
  have "n \<in> bitmap_bits ?b \<longleftrightarrow> n \<in> bitmap_bits b \<and> n \<noteq> unat offset" for n
  proof (cases "n div 32 = ?i")
    case True
    then have "n mod 32 = ?j \<longleftrightarrow> n = unat offset" by (metis div_mod_decomp)
    with True i show ?thesis by (auto simp: bitmap_bits_def bit_simps)
  next
    case False
    then show ?thesis by (auto simp: bitmap_bits_def)
  qed
  then have "bitmap_bits ?b = bitmap_bits b - {unat offset}" by blast
  with i show "\<exists>b'. bitmap_clear b offset = Inr b' \<and> length b' = length b \<and>
      bitmap_bits b' = bitmap_bits b - {unat offset}"
    by (auto simp: bitmap_clear_def page_simps Let_def)
next
  assume "32 * length b \<le> unat offset"
  then have "length b \<le> unat offset div 32" by (simp add: div_le_mono [of "32 * length b" _ 32, simplified])
  then show "bitmap_clear b offset = Inl OutOfBounds"
    by (simp add: bitmap_clear_def page_simps Let_def)
qed

lemma bitmap_bits_inject:
  assumes "length b = length b'" "bitmap_bits b = bitmap_bits b'"
  shows "b = b'"
proof (rule nth_equalityI [OF assms(1)])
  fix i assume i: "i < length b"
  show "b ! i = b' ! i"
  proof (rule bit_word_eqI)
    fix j :: nat assume "j < LENGTH(32)"
    then have j: "j < 32" by simp
    have "32 * i + j < 32 * length b" using i j by linarith
    then have "32 * i + j \<in> bitmap_bits c \<longleftrightarrow> bit (c ! i) j" if "length c = length b" for c
      using j that by (simp add: bitmap_bits_def)
    with assms show "bit (b ! i) j \<longleftrightarrow> bit (b' ! i) j" by metis
  qed
qed

section \<open>The contract of an index allocator\<close>

locale index_allocator =
  fixes invar :: "'s \<Rightarrow> bool"
    and limit :: "'s \<Rightarrow> nat"
    and used :: "'s \<Rightarrow> nat set"
    and alloc :: "'s \<Rightarrow> ('s \<times> u32) exec"
    and free :: "'s \<Rightarrow> u32 \<Rightarrow> 's exec"
  assumes alloc_full: "invar s \<Longrightarrow> alloc s = Inl e \<Longrightarrow> used s = {..<limit s}"
    and alloc_ok: "invar s \<Longrightarrow> alloc s = Inr (s', r) \<Longrightarrow>
      invar s' \<and> limit s' = limit s \<and> unat r < limit s \<and> unat r \<notin> used s \<and>
      (\<forall>m<unat r. m \<in> used s) \<and> used s' = insert (unat r) (used s)"
    and free_ok: "invar s \<Longrightarrow> unat r < limit s \<Longrightarrow>
      \<exists>s'. free s r = Inr s' \<and> invar s' \<and> limit s' = limit s \<and> used s' = used s - {unat r}"
    and used_bound: "invar s \<Longrightarrow> used s \<subseteq> {..<limit s}"
begin

lemma alloc_total: "invar s \<Longrightarrow> n < limit s \<Longrightarrow> n \<notin> used s \<Longrightarrow> \<exists>s' r. alloc s = Inr (s', r) \<and> unat r \<le> n"
proof (cases "alloc s")
  case (Inl e)
  assume "invar s" "n < limit s" "n \<notin> used s"
  with alloc_full [OF _ Inl] show ?thesis by auto
next
  case (Inr a)
  assume a: "invar s" "n < limit s" "n \<notin> used s"
  obtain s' r where r: "alloc s = Inr (s', r)" using Inr by (cases a) auto
  with alloc_ok [OF a(1) r] a(3) show ?thesis by (meson not_le)
qed

lemma alloc_free_restores:
  assumes "invar s" "alloc s = Inr (s', r)"
  shows "\<exists>s''. free s' r = Inr s'' \<and> invar s'' \<and> used s'' = used s"
proof -
  note a = alloc_ok [OF assms]
  then have "unat r < limit s'" by simp
  from free_ok [OF _ this] a show ?thesis by auto
qed

lemma two_allocs_differ:
  assumes "invar s" "alloc s = Inr (s1, r1)" "alloc s1 = Inr (s2, r2)"
  shows "r1 \<noteq> r2"
  using alloc_ok [OF assms(1,2)] alloc_ok [OF _ assms(3)] by auto

end

definition pool_inv :: "pool_manager \<Rightarrow> bool" where
  "pool_inv p \<longleftrightarrow> bitmap_inv (pm_bitmap p)"

definition frame_inv :: "frame_manager \<Rightarrow> bool" where
  "frame_inv f \<longleftrightarrow> length (fm_bitmap f) = frame_bitmap_size"

lemma frame_bitmap_size [simp]: "frame_bitmap_size = 1984"
  by (simp add: frame_bitmap_size_def frame_top_def frame_base_def)

lemma bitmap_bits_replicate: "bitmap_bits (replicate n 0) = {}"
  by (auto simp: bitmap_bits_def less_mult_imp_div_less mult.commute)

lemma frame_construct_facts: "frame_inv frame_construct" "bitmap_bits (fm_bitmap frame_construct) = {}"
  by (simp_all only: frame_inv_def frame_construct_def bitmap_bits_replicate length_replicate frame_manager.simps)

lemma scan0:
  assumes "bitmap_scan 0 b = Some (b', r)" "length b \<le> 2 ^ 27"
  shows "unat r \<notin> bitmap_bits b" "\<forall>m<unat r. m \<in> bitmap_bits b" "length b' = length b"
    "bitmap_bits b' = insert (unat r) (bitmap_bits b)" "unat r < 32 * length b"
  using bitmap_scan_Some [OF assms(1)] assms(2) by auto

interpretation pool: index_allocator pool_inv "\<lambda>p. 32 * length (pm_bitmap p)"
    "\<lambda>p. bitmap_bits (pm_bitmap p)" pool_alloc pool_free
proof (unfold_locales, goal_cases)
  case (1 p e)
  then show ?case by (auto simp: pool_alloc_def bitmap_scan_None split: option.splits)
next
  case (2 p p' r)
  then obtain b where b: "bitmap_scan 0 (pm_bitmap p) = Some (b, r)" "p' = p\<lparr>pm_bitmap := b\<rparr>"
    by (auto simp: pool_alloc_def split: option.splits)
  from 2(1) have "length (pm_bitmap p) \<le> 2 ^ 27" by (simp add: pool_inv_def bitmap_inv_def)
  with scan0 [OF b(1)] b(2) 2(1) show ?case by (simp add: pool_inv_def bitmap_inv_def)
next
  case (3 p r)
  from bitmap_clear_law(1) [OF 3(2)] 3(1) show ?case
    by (auto simp: pool_free_def pool_inv_def bitmap_inv_def)
next
  case (4 p)
  then show ?case by (auto dest: bitmap_bits_bound)
qed

interpretation frames: index_allocator frame_inv "\<lambda>f. 32 * length (fm_bitmap f)"
    "\<lambda>f. bitmap_bits (fm_bitmap f)" frame_alloc frame_free
proof (unfold_locales, goal_cases)
  case (1 f e)
  then show ?case by (auto simp: frame_alloc_def bitmap_scan_None split: option.splits)
next
  case (2 f f' r)
  then obtain b where b: "bitmap_scan 0 (fm_bitmap f) = Some (b, r)" "f' = f\<lparr>fm_bitmap := b\<rparr>"
    by (auto simp: frame_alloc_def split: option.splits)
  from 2(1) have "length (fm_bitmap f) \<le> 2 ^ 27" by (simp add: frame_inv_def)
  with scan0 [OF b(1)] b(2) 2(1) show ?case by (simp add: frame_inv_def)
next
  case (3 f r)
  from bitmap_clear_law(1) [OF 3(2)] 3(1) show ?case
    by (auto simp: frame_free_def frame_inv_def)
next
  case (4 f)
  then show ?case by (auto dest: bitmap_bits_bound)
qed

section \<open>Addresses of pages and frames\<close>

lemma pageFor_pageAt: "unat r < 2 ^ 20 \<Longrightarrow> pageFor (pageAt r) = r"
  by (simp add: pageFor_def pageAt_def word_unat_eq_iff unat_shiftr push_bit_eq_mult unat_word_ariths)

lemma pageAt_inj: "unat r < 2 ^ 20 \<Longrightarrow> unat q < 2 ^ 20 \<Longrightarrow> pageAt r = pageAt q \<Longrightarrow> r = q"
  by (metis pageFor_pageAt)

lemma pool_bitmap_size_le: "pool_bitmap_size sz \<le> 2 ^ 15"
proof -
  have "pool_bitmap_size sz = unat sz div 131072" by (simp add: pool_bitmap_size_def unat_shiftr)
  moreover have "unat sz div 131072 < 2 ^ 15 + 1"
    by (rule less_mult_imp_div_less) (rule less_trans [OF unat_lt_u32], simp)
  ultimately show ?thesis by simp
qed

lemma pool_limit: "pool_inv p \<Longrightarrow> n < 32 * length (pm_bitmap p) \<Longrightarrow> n < 2 ^ 20"
  by (simp add: pool_inv_def bitmap_inv_def)

section \<open>Reference-counted physical frames\<close>

text \<open>
  The references handed out and not yet given back form a multiset \<open>H\<close> of page addresses: an
  allocation adds one reference, \<^verbatim>\<open>physicalFrameRetain\<close> one more to a page that has one,
  \<^verbatim>\<open>physicalFrameRelease\<close> takes one back. \<open>phys_rel\<close> relates the bitmap and the 16-bit
  counters to \<open>H\<close>.
\<close>

definition phys_limit :: "phys_frames \<Rightarrow> nat" where
  "phys_limit s = 32 * length (pm_bitmap (pf_pool s))"

definition phys_rel :: "phys_frames \<Rightarrow> u32 multiset \<Rightarrow> bool" where
  "phys_rel s H \<longleftrightarrow> pool_inv (pf_pool s) \<and> phys_limit s \<le> length (pf_info s) \<and>
    (\<forall>r. unat r < phys_limit s \<longrightarrow> unat (pf_info s ! unat r) = count H (pageAt r) \<and>
        (unat r \<in> bitmap_bits (pm_bitmap (pf_pool s)) \<longleftrightarrow> pageAt r \<in># H)) \<and>
    (\<forall>a\<in>#H. \<exists>r. unat r < phys_limit s \<and> a = pageAt r)"

inductive phys_reach :: "phys_frames \<Rightarrow> u32 multiset \<Rightarrow> bool" where
  start: "phys_reach (phys_construct sz) {#}"
| alloc: "phys_reach s H \<Longrightarrow> physicalFrameAlloc s = Inr (s', a) \<Longrightarrow> phys_reach s' (add_mset a H)"
| retain: "phys_reach s H \<Longrightarrow> a \<in># H \<Longrightarrow> count H a < 65535 \<Longrightarrow> physicalFrameRetain s a = Inr s' \<Longrightarrow>
    phys_reach s' (add_mset a H)"
| release: "phys_reach s H \<Longrightarrow> a \<in># H \<Longrightarrow> physicalFrameRelease s a = Inr s' \<Longrightarrow>
    phys_reach s' (H - {#a#})"

lemma phys_rel_start: "phys_rel (phys_construct sz) {#}"
proof -
  have "32 * pool_bitmap_size sz \<le> unat (drop_bit 12 sz)"
    by (simp add: pool_bitmap_size_def unat_shiftr del: drop_bit_drop_bit)
  then show ?thesis
    using pool_bitmap_size_le [of sz]
    by (auto simp: phys_rel_def phys_construct_def pool_construct_def pool_inv_def bitmap_inv_def
        phys_limit_def bitmap_bits_def less_mult_imp_div_less mult.commute)
qed

lemma phys_relD:
  assumes "phys_rel s H"
  shows "pool_inv (pf_pool s)" "phys_limit s \<le> length (pf_info s)"
    "unat r < phys_limit s \<Longrightarrow> unat (pf_info s ! unat r) = count H (pageAt r)"
    "unat r < phys_limit s \<Longrightarrow> unat r \<in> bitmap_bits (pm_bitmap (pf_pool s)) \<longleftrightarrow> pageAt r \<in># H"
    "a \<in># H \<Longrightarrow> \<exists>r. unat r < phys_limit s \<and> a = pageAt r"
  using assms by (auto simp: phys_rel_def)

lemma phys_limit_le: "phys_rel s H \<Longrightarrow> n < phys_limit s \<Longrightarrow> n < 2 ^ 20"
  using pool_limit phys_relD(1) unfolding phys_limit_def by blast

lemma phys_rel_alloc:
  assumes rel: "phys_rel s H" and al: "physicalFrameAlloc s = Inr (s', a)"
  shows "phys_rel s' (add_mset a H) \<and> a \<notin># H \<and> phys_limit s' = phys_limit s"
proof -
  obtain p r where p: "pool_alloc (pf_pool s) = Inr (p, r)" and a: "a = pageAt r"
    and s': "s' = s\<lparr>pf_pool := p, pf_info := (pf_info s)[unat r := 1]\<rparr>"
    using al by (auto simp: physicalFrameAlloc_def sbind_eq_Inr_iff split: if_splits)
  note D = phys_relD [OF rel]
  note P = pool.alloc_ok [OF D(1) p, folded phys_limit_def]
  have r: "unat r < phys_limit s" "pageAt r \<notin># H" using P D(4) [of r] by auto
  have lim: "phys_limit s' = phys_limit s" using P by (simp add: s' phys_limit_def)
  have inj: "pageAt q = pageAt r \<longleftrightarrow> q = r" if "unat q < phys_limit s" for q
    using pageAt_inj [of q r] phys_limit_le [OF rel] that r(1) by auto
  have "unat (pf_info s' ! unat q) = count (add_mset a H) (pageAt q) \<and>
      (unat q \<in> bitmap_bits (pm_bitmap (pf_pool s')) \<longleftrightarrow> pageAt q \<in># add_mset a H)"
    if q: "unat q < phys_limit s" for q
  proof (cases "q = r")
    case True
    with r P D(2) show ?thesis by (auto simp: s' a not_in_iff)
  next
    case False
    then have "unat q \<noteq> unat r" by (simp add: word_unat_eq_iff)
    with False q P D(3,4) [of q] inj [of q] show ?thesis by (auto simp: s' a)
  qed
  moreover have "\<exists>q. unat q < phys_limit s \<and> b = pageAt q" if "b \<in># add_mset a H" for b
    using that D(5) [of b] r(1) a by auto
  ultimately show ?thesis
    using P D(2) r(2) lim by (simp add: phys_rel_def s' a)
qed

lemma phys_rel_held:
  assumes rel: "phys_rel s H" and a: "a \<in># H"
  obtains r where "unat r < phys_limit s" "a = pageAt r" "pageFor a = r" "unat r < length (pf_info s)"
    "\<forall>q. unat q < phys_limit s \<longrightarrow> (pageAt q = a \<longleftrightarrow> q = r)"
proof -
  obtain r where r: "unat r < phys_limit s" "a = pageAt r" using phys_relD(5) [OF rel a] by blast
  show ?thesis
  proof (rule that [OF r])
    show "pageFor a = r" using r phys_limit_le [OF rel] by (simp add: pageFor_pageAt)
    show "unat r < length (pf_info s)" using r phys_relD(2) [OF rel] by simp
    have "pageAt q = a \<longleftrightarrow> q = r" if "unat q < phys_limit s" for q
      using pageAt_inj [of q r] phys_limit_le [OF rel] that r by auto
    then show "\<forall>q. unat q < phys_limit s \<longrightarrow> (pageAt q = a \<longleftrightarrow> q = r)" by blast
  qed
qed

lemma phys_rel_retain:
  assumes rel: "phys_rel s H" and a: "a \<in># H" "count H a < 65535"
  shows "\<exists>s'. physicalFrameRetain s a = Inr s' \<and> phys_rel s' (add_mset a H)"
proof -
  obtain r where r: "unat r < phys_limit s" "a = pageAt r" "pageFor a = r" "unat r < length (pf_info s)"
    and inj: "\<And>q. unat q < phys_limit s \<Longrightarrow> pageAt q = a \<longleftrightarrow> q = r"
    using phys_rel_held [OF rel a(1)] by metis
  note D = phys_relD [OF rel]
  let ?s = "s\<lparr>pf_info := (pf_info s)[unat r := pf_info s ! unat r + 1]\<rparr>"
  have cnt: "unat (pf_info s ! unat r + 1) = Suc (count H a)"
    using D(3) [OF r(1)] a(2) r(2) by (simp add: unat_word_ariths)
  have "unat (pf_info ?s ! unat q) = count (add_mset a H) (pageAt q) \<and>
      (unat q \<in> bitmap_bits (pm_bitmap (pf_pool ?s)) \<longleftrightarrow> pageAt q \<in># add_mset a H)"
    if q: "unat q < phys_limit s" for q
  proof (cases "q = r")
    case True
    with D(4) [OF r(1)] cnt r a(1) show ?thesis by simp
  next
    case False
    then have "unat q \<noteq> unat r" "pageAt q \<noteq> a" using inj [OF q] by (auto simp: word_unat_eq_iff)
    with D(3,4) [OF q] show ?thesis by simp
  qed
  then have "phys_rel ?s (add_mset a H)"
    using D(1,2,5) a(1) by (auto simp: phys_rel_def phys_limit_def)
  moreover have "physicalFrameRetain s a = Inr ?s" using r by (simp add: physicalFrameRetain_def Let_def)
  ultimately show ?thesis by blast
qed

lemma phys_rel_release:
  assumes rel: "phys_rel s H" and a: "a \<in># H"
  shows "\<exists>s'. physicalFrameRelease s a = Inr s' \<and> phys_rel s' (H - {#a#})"
proof -
  obtain r where r: "unat r < phys_limit s" "a = pageAt r" "pageFor a = r" "unat r < length (pf_info s)"
    and inj: "\<And>q. unat q < phys_limit s \<Longrightarrow> pageAt q = a \<longleftrightarrow> q = r"
    using phys_rel_held [OF rel a] by metis
  note D = phys_relD [OF rel]
  let ?n = "pf_info s ! unat r - 1"
  have pos: "0 < unat (pf_info s ! unat r)" using D(3) [OF r(1)] a r(2) by simp
  then have cnt: "unat ?n = count H a - 1"
    using D(3) [OF r(1)] r(2) by (metis unat_minus_one unat_eq_zero less_irrefl)
  obtain p where p: "pool_free (pf_pool s) r = Inr p" "pool_inv p"
    "length (pm_bitmap p) = length (pm_bitmap (pf_pool s))"
    "bitmap_bits (pm_bitmap p) = bitmap_bits (pm_bitmap (pf_pool s)) - {unat r}"
    using pool.free_ok [OF D(1)] r(1) by (auto simp: phys_limit_def)
  define s1 where "s1 = s\<lparr>pf_info := (pf_info s)[unat r := ?n]\<rparr>"
  define s2 where "s2 = (if ?n = 0 then s1\<lparr>pf_pool := p\<rparr> else s1)"
  have fld: "pf_info s2 = (pf_info s)[unat r := ?n]" "phys_limit s2 = phys_limit s" "pool_inv (pf_pool s2)"
    using p D(1) by (auto simp: s2_def s1_def phys_limit_def)
  have "unat (pf_info s2 ! unat q) = count (H - {#a#}) (pageAt q) \<and>
      (unat q \<in> bitmap_bits (pm_bitmap (pf_pool s2)) \<longleftrightarrow> pageAt q \<in># H - {#a#})"
    if q: "unat q < phys_limit s" for q
  proof (cases "q = r")
    case True
    have n: "?n = 0 \<longleftrightarrow> count H a \<le> 1" using cnt by (simp flip: unat_eq_zero)
    have "unat r \<in> bitmap_bits (pm_bitmap (pf_pool s2)) \<longleftrightarrow> \<not> count H a \<le> 1"
      using p(4) D(4) [OF r(1)] a r(2) unfolding s2_def s1_def n by auto
    moreover have "a \<in># H - {#a#} \<longleftrightarrow> \<not> count H a \<le> 1" by (auto simp: in_diff_count)
    ultimately show ?thesis using True r cnt by (simp add: fld)
  next
    case False
    then have ne: "unat q \<noteq> unat r" "pageAt q \<noteq> a" using inj [OF q] by (auto simp: word_unat_eq_iff)
    have "unat q \<in> bitmap_bits (pm_bitmap (pf_pool s2)) \<longleftrightarrow> pageAt q \<in># H"
      using p(4) ne(1) D(4) [OF q] by (simp add: s2_def s1_def)
    with ne D(3) [OF q] show ?thesis by (simp add: fld in_diff_count)
  qed
  then have "phys_rel s2 (H - {#a#})"
    using fld D(2,5) by (auto simp: phys_rel_def dest: in_diffD)
  moreover have "physicalFrameRelease s a = Inr s2"
    using r p(1) by (simp add: physicalFrameRelease_def s2_def s1_def Let_def)
  ultimately show ?thesis by blast
qed

lemma phys_reach_rel: "phys_reach s H \<Longrightarrow> phys_rel s H"
proof (induction rule: phys_reach.induct)
  case (retain s H a s')
  with phys_rel_retain [OF retain.IH retain.hyps(2,3)] show ?case by auto
next
  case (release s H a s')
  with phys_rel_release [OF release.IH release.hyps(2)] show ?case by auto
qed (use phys_rel_start phys_rel_alloc in blast)+

lemma pageAt_aligned: "pageAt r AND 4095 = 0"
  unfolding pageAt_def by (rule aligned_add_pages) (simp add: pool_base_def)

lemma phys_limit_release: "physicalFrameRelease s a = Inr s' \<Longrightarrow> phys_limit s' = phys_limit s"
  by (auto simp: physicalFrameRelease_def phys_limit_def pool_free_def sbind_eq_Inr_iff
      bitmap_clear_def Let_def split: if_splits)

text \<open>C5: however the kernel allocates, retains and releases physical frames, as long as it retains and
  releases only pages it holds (and never 65535 times over), the 16-bit counter of a held page is
  exactly the number of references held, the page is page-aligned, and the next allocation never
  hands out a page somebody still holds.\<close>

theorem physical_frames_never_shared:
  assumes "phys_reach s H"
  shows "(\<forall>a\<in>#H. physicalFrameGetRef s a = Inr (of_nat (count H a)) \<and> count H a < 65536 \<and> a AND 4095 = 0) \<and>
    (\<forall>s' a. physicalFrameAlloc s = Inr (s', a) \<longrightarrow>
      a \<notin># H \<and> physicalFrameGetRef s' a = Inr 1 \<and> a AND 4095 = 0)"
proof -
  have ref: "physicalFrameGetRef t a = Inr (of_nat (count K a)) \<and> count K a < 65536 \<and> a AND 4095 = 0"
    if rel: "phys_rel t K" and a: "a \<in># K" for t K a
  proof -
    obtain r where r: "unat r < phys_limit t" "a = pageAt r" "pageFor a = r" "unat r < length (pf_info t)"
      using phys_rel_held [OF rel a] by metis
    from phys_relD(3) [OF rel r(1)] have c: "unat (pf_info t ! unat r) = count K a" using r(2) by simp
    then have "count K a < 65536" using unsigned_less [of "pf_info t ! unat r", where ?'a = nat] by simp
    moreover from this have "pf_info t ! unat r = of_nat (count K a)"
      by (simp add: word_unat_eq_iff unat_of_nat c)
    ultimately show ?thesis using r pageAt_aligned [of r]
      by (simp add: physicalFrameGetRef_def Let_def)
  qed
  note rel = phys_reach_rel [OF assms]
  have "a \<notin># H \<and> physicalFrameGetRef s' a = Inr 1 \<and> a AND 4095 = 0"
    if "physicalFrameAlloc s = Inr (s', a)" for s' a
    using phys_rel_alloc [OF rel that] ref [of s' "add_mset a H" a] by (auto simp: not_in_iff)
  with ref [OF rel] show ?thesis by blast
qed

theorem physical_frames_never_shared_witness:
  "physicalFrameGetRef (fst (projr (physicalFrameAlloc (phys_construct 0x40000)))) (pageAt 0) = Inr 1"
proof -
  have c: "physicalFrameAlloc (phys_construct 0x40000) = Inr (fst (projr (physicalFrameAlloc (phys_construct 0x40000))), pageAt 0)"
    by code_simp
  have "phys_reach (fst (projr (physicalFrameAlloc (phys_construct 0x40000)))) {#pageAt 0#}"
    by (rule phys_reach.alloc [OF phys_reach.start c])
  from physical_frames_never_shared [OF this] show ?thesis by simp
qed

lemma phys_alloc_full:
  assumes rel: "phys_rel t K" and fail: "physicalFrameAlloc t = Inl e"
  shows "e = Kfatal ''page not enough!'' \<and> (\<forall>r. unat r < phys_limit t \<longrightarrow> pageAt r \<in># K)"
proof (cases "pool_alloc (pf_pool t)")
  case (Inl e')
  from pool.alloc_full [OF phys_relD(1) [OF rel] Inl] phys_relD(4) [OF rel] fail Inl
  show ?thesis
    by (auto simp: physicalFrameAlloc_def phys_limit_def pool_alloc_def split: option.splits)
next
  case (Inr x)
  then obtain p r where x: "pool_alloc (pf_pool t) = Inr (p, r)" by (cases x) auto
  from pool.alloc_ok [OF phys_relD(1) [OF rel] x] phys_relD(2) [OF rel] fail x show ?thesis
    by (auto simp: physicalFrameAlloc_def phys_limit_def split: if_splits)
qed

text \<open>A reference that is held can always be given back or retained without leaving the tables, giving
  back the last one frees the page for the next allocation, and an allocation fails only when every
  page of the pool is held.\<close>

theorem physical_frames_progress:
  assumes "phys_reach s H"
  shows "(\<forall>a\<in>#H. \<exists>s'. physicalFrameRelease s a = Inr s' \<and> phys_reach s' (H - {#a#}) \<and>
      (count H a = 1 \<longrightarrow> (\<exists>s'' b. physicalFrameAlloc s' = Inr (s'', b)))) \<and>
    (\<forall>e. physicalFrameAlloc s = Inl e \<longrightarrow> e = Kfatal ''page not enough!'' \<and>
      (\<forall>r. unat r < phys_limit s \<longrightarrow> pageAt r \<in># H))"
proof -
  note al = phys_alloc_full
  note rel = phys_reach_rel [OF assms]
  have "\<exists>s'. physicalFrameRelease s a = Inr s' \<and> phys_reach s' (H - {#a#}) \<and>
      (count H a = 1 \<longrightarrow> (\<exists>s'' b. physicalFrameAlloc s' = Inr (s'', b)))" if a: "a \<in># H" for a
  proof -
    obtain s' where s': "physicalFrameRelease s a = Inr s'" "phys_rel s' (H - {#a#})"
      using phys_rel_release [OF rel a] by blast
    obtain r where r: "unat r < phys_limit s" "a = pageAt r"
      using phys_rel_held [OF rel a] by metis
    have "phys_limit s' = phys_limit s"
      by (rule phys_limit_release [OF s'(1)])
    then have "\<exists>s'' b. physicalFrameAlloc s' = Inr (s'', b)" if "count H a = 1"
      using al [OF s'(2)] r that
      by (cases "physicalFrameAlloc s'") (auto simp: in_diff_count)
    with s'(1) phys_reach.release [OF assms a s'(1)] show ?thesis by blast
  qed
  with al [OF rel] show ?thesis by blast
qed

theorem physical_frames_progress_witness:
  "\<exists>s'. physicalFrameRelease (fst (projr (physicalFrameAlloc (phys_construct 0x20000)))) (pageAt 0) = Inr s'"
proof -
  have c: "physicalFrameAlloc (phys_construct 0x20000) = Inr (fst (projr (physicalFrameAlloc (phys_construct 0x20000))), pageAt 0)"
    by code_simp
  have "phys_reach (fst (projr (physicalFrameAlloc (phys_construct 0x20000)))) {#pageAt 0#}"
    by (rule phys_reach.alloc [OF phys_reach.start c])
  from physical_frames_progress [OF this] show ?thesis by auto
qed

text \<open>A kernel virtual frame comes out of the window from 0xC0800000 up to 0xD0000000, page-aligned, at
  the lowest free slot of the bitmap; freeing its address frees exactly that slot.\<close>

theorem virtual_frame_in_window:
  assumes "frame_inv f" "virtualFrameAlloc f = Inr (f', a)"
  shows "0xC0800000 \<le> a \<and> a \<le> 0xCFFFF000 \<and> a AND 4095 = 0 \<and> frame_inv f' \<and>
    unat (frameFor a) \<notin> bitmap_bits (fm_bitmap f) \<and>
    (\<forall>m<unat (frameFor a). m \<in> bitmap_bits (fm_bitmap f)) \<and>
    (\<exists>f''. virtualFrameFree f' a = Inr f'' \<and> frame_inv f'' \<and>
      bitmap_bits (fm_bitmap f'') = bitmap_bits (fm_bitmap f))"
proof -
  obtain r where r: "frame_alloc f = Inr (f', r)" and a: "a = frameAt r"
    using assms(2) by (auto simp: virtualFrameAlloc_def sbind_eq_Inr_iff)
  note P = frames.alloc_ok [OF assms(1) r]
  have lt: "unat r < 63488" using P assms(1) by (simp add: frame_inv_def)
  have ua: "unat a = 3229614080 + 4096 * unat r"
    using lt by (simp add: a frameAt_def frame_base_def push_bit_eq_mult unat_word_ariths)
  have fr: "frameFor a = r"
    using lt by (simp add: a frameFor_def frameAt_def word_unat_eq_iff unat_shiftr push_bit_eq_mult unat_word_ariths)
  have "a AND 4095 = 0" by (simp add: word_unat_eq_iff unat_and_4095 ua mod_add_left_eq [symmetric])
  moreover have "0xC0800000 \<le> a \<and> a \<le> 0xCFFFF000" using lt by (simp add: word_le_nat_alt ua)
  ultimately show ?thesis
    using P frames.alloc_free_restores [OF assms(1) r] by (simp add: fr virtualFrameFree_def)
qed

theorem virtual_frame_in_window_witness:
  "\<exists>f' a. virtualFrameAlloc frame_construct = Inr (f', a) \<and> 0xC0800000 \<le> a"
proof -
  note i = frame_construct_facts(1)
  have "0 \<notin> bitmap_bits (fm_bitmap frame_construct)" by (simp add: frame_construct_facts)
  then obtain f' r where "frame_alloc frame_construct = Inr (f', r)"
    using frames.alloc_total [OF i, of 0] by (auto simp: frame_construct_def)
  then have "virtualFrameAlloc frame_construct = Inr (f', frameAt r)" by (simp add: virtualFrameAlloc_def)
  with virtual_frame_in_window [OF i this] show ?thesis by blast
qed

end
