(* ===== verification/Nyan_Paging.thy ===== *)
theory Nyan_Paging
  imports Nyan_Address Nyan_Bitmap
begin

unbundle bit_operations_syntax

text \<open>
  Page tables (kernel/paging/entry.hpp, table.hpp, table.cpp, directory.hpp, directory.cpp, kernel.cpp).
  A page table, a page directory and a page of data are all physical frames of 1024 words: the field
  \<open>ps_mem\<close> maps the address of a frame to its words. The kernel's own directory and its 256 static
  tables live outside the frame pool and are the fields \<open>ps_kdir\<close> and \<open>ps_ktab\<close>. A
  \<^verbatim>\<open>MapperGuard\<close> takes a virtual frame of the kernel window, maps the physical frame there and undoes
  both at the end of its scope; what is read or written through it is the frame it maps.
\<close>

section \<open>State\<close>

type_synonym words = "nat \<Rightarrow> u32"

record paging_state =
  ps_frames :: phys_frames
  ps_vframes :: frame_manager
  ps_kdir :: words
  ps_ktab :: "paddr \<Rightarrow> words"
  ps_mem :: "paddr \<Rightarrow> words"

text \<open>A computation on the state that can stop the machine.\<close>

definition pbind :: "('s \<Rightarrow> ('a \<times> 's) exec) \<Rightarrow> ('a \<Rightarrow> 's \<Rightarrow> ('b \<times> 's) exec) \<Rightarrow> 's \<Rightarrow> ('b \<times> 's) exec" where
  "pbind m f st = sbind (m st) (\<lambda>(a, st'). f a st')"

definition preturn :: "'a \<Rightarrow> 's \<Rightarrow> ('a \<times> 's) exec" where
  "preturn a st = Inr (a, st)"

primrec pfor :: "('i \<Rightarrow> 's \<Rightarrow> (unit \<times> 's) exec) \<Rightarrow> 'i list \<Rightarrow> 's \<Rightarrow> (unit \<times> 's) exec" where
  "pfor body [] = preturn ()"
| "pfor body (i # is) = pbind (body i) (\<lambda>_. pfor body is)"

section \<open>Entries\<close>

definition PDE_Present :: u32 where "PDE_Present = 1"
definition PDE_ReadWrite :: u32 where "PDE_ReadWrite = 2"
definition PDE_User :: u32 where "PDE_User = 4"
definition PTE_Present :: u32 where "PTE_Present = 1"
definition PTE_ReadWrite :: u32 where "PTE_ReadWrite = 2"
definition PTE_User :: u32 where "PTE_User = 4"
definition PTE_COW :: u32 where "PTE_COW = 0x200"

definition entry_at :: "u32 \<Rightarrow> paddr" where
  "entry_at w = w AND NOT 0xFFF"

definition entry_attr :: "u32 \<Rightarrow> u32" where
  "entry_attr w = w AND 0xFFF"

definition entry_isPresent :: "u32 \<Rightarrow> bool" where
  "entry_isPresent w \<longleftrightarrow> w AND PTE_Present \<noteq> 0"

section \<open>Tables\<close>

definition table_clear :: words where
  "table_clear = (\<lambda>_. 0)"

definition fillFlat :: "u32 \<Rightarrow> u32 \<Rightarrow> words" where
  "fillFlat base attr = (\<lambda>i. (base + push_bit 12 (of_nat i)) OR attr)"

definition table_map :: "words \<Rightarrow> vaddr \<Rightarrow> paddr \<Rightarrow> u32 \<Rightarrow> words" where
  "table_map t vAddr pAddr attr = t(tablePageLoc vAddr := thisPage pAddr OR attr)"

definition table_unmap :: "words \<Rightarrow> vaddr \<Rightarrow> words \<times> paddr option" where
  "table_unmap t virtualAddr =
    (let w = t (tablePageLoc virtualAddr) in
     if w AND PTE_Present \<noteq> 0 then (t(tablePageLoc virtualAddr := 0), Some (w AND NOT 0xFFF))
     else (t, None))"

text \<open>Words of the frame at \<open>p\<close>, and one word of it replaced.\<close>

definition frame_words :: "paging_state \<Rightarrow> paddr \<Rightarrow> words" where
  "frame_words st p = ps_mem st p"

definition set_words :: "paddr \<Rightarrow> words \<Rightarrow> paging_state \<Rightarrow> paging_state" where
  "set_words p ws st = st\<lparr>ps_mem := (ps_mem st)(p := ws)\<rparr>"

definition phys_alloc :: "paging_state \<Rightarrow> (paddr \<times> paging_state) exec" where
  "phys_alloc st = sbind (physicalFrameAlloc (ps_frames st)) (\<lambda>(f, a). Inr (a, st\<lparr>ps_frames := f\<rparr>))"

definition phys_retain :: "paddr \<Rightarrow> paging_state \<Rightarrow> (unit \<times> paging_state) exec" where
  "phys_retain a st = sbind (physicalFrameRetain (ps_frames st) a) (\<lambda>f. Inr ((), st\<lparr>ps_frames := f\<rparr>))"

definition phys_release :: "paddr \<Rightarrow> paging_state \<Rightarrow> (unit \<times> paging_state) exec" where
  "phys_release a st = sbind (physicalFrameRelease (ps_frames st) a) (\<lambda>f. Inr ((), st\<lparr>ps_frames := f\<rparr>))"

text \<open>Operations of the table in frame \<open>t\<close>.\<close>

definition table_alloc :: "paddr \<Rightarrow> vaddr \<Rightarrow> u32 \<Rightarrow> paging_state \<Rightarrow> (paddr \<times> paging_state) exec" where
  "table_alloc t virtualAddr attr = pbind phys_alloc (\<lambda>physicalAddr st.
    Inr (physicalAddr, set_words t (table_map (frame_words st t) virtualAddr physicalAddr attr) st))"

definition table_freeDangling :: "paddr \<Rightarrow> paging_state \<Rightarrow> (unit \<times> paging_state) exec" where
  "table_freeDangling t = pfor (\<lambda>i st.
    let w = frame_words st t i in
    if w AND PTE_Present = 0 then Inr ((), st) else phys_release (entry_at w) st) [0..<1024]"

definition table_freePage :: "paddr \<Rightarrow> vaddr \<Rightarrow> paging_state \<Rightarrow> (unit \<times> paging_state) exec" where
  "table_freePage t addr st =
    (let loc = tablePageLoc addr; w = frame_words st t loc in
     if entry_isPresent w
     then pbind (phys_release (entry_at w))
       (\<lambda>_ st. Inr ((), set_words t ((frame_words st t)(loc := 0)) st)) st
     else Inr ((), st))"

section \<open>The kernel directory and the mapper\<close>

definition kernel_map :: "vaddr \<Rightarrow> paddr \<Rightarrow> u32 \<Rightarrow> paging_state \<Rightarrow> (unit \<times> paging_state) exec" where
  "kernel_map vAddr pAddr attr st =
    (let table = entry_at (ps_kdir st (tableLoc vAddr)) in
     if table = 0 then Inl (Kfatal ''table not exists'')
     else Inr ((), st\<lparr>ps_ktab := (ps_ktab st)(table := table_map (ps_ktab st table) vAddr pAddr attr)\<rparr>))"

definition kernel_unmap :: "vaddr \<Rightarrow> paging_state \<Rightarrow> (paddr option \<times> paging_state) exec" where
  "kernel_unmap virtualAddr st =
    (let table = entry_at (ps_kdir st (tableLoc virtualAddr)) in
     if table = 0 then Inl (Kfatal ''table not exists'')
     else let (t, r) = table_unmap (ps_ktab st table) virtualAddr
          in Inr (r, st\<lparr>ps_ktab := (ps_ktab st)(table := t)\<rparr>))"

record mapper_guard =
  mg_paddr :: paddr
  mg_vaddr :: vaddr

definition mapper_open :: "paddr \<Rightarrow> paging_state \<Rightarrow> (mapper_guard \<times> paging_state) exec" where
  "mapper_open addr st = sbind (virtualFrameAlloc (ps_vframes st)) (\<lambda>(f, v).
    pbind (kernel_map v addr (PTE_Present OR PTE_ReadWrite))
      (\<lambda>_. preturn \<lparr>mg_paddr = addr, mg_vaddr = v\<rparr>) (st\<lparr>ps_vframes := f\<rparr>))"

definition mapper_close :: "mapper_guard \<Rightarrow> paging_state \<Rightarrow> (unit \<times> paging_state) exec" where
  "mapper_close m st =
    (if mg_vaddr m \<noteq> 0
     then pbind (kernel_unmap (mg_vaddr m)) (\<lambda>_ st.
       sbind (virtualFrameFree (ps_vframes st) (mg_vaddr m)) (\<lambda>f. Inr ((), st\<lparr>ps_vframes := f\<rparr>))) st
     else Inr ((), st))"

definition with_mapper :: "paddr \<Rightarrow> (paging_state \<Rightarrow> ('a \<times> paging_state) exec) \<Rightarrow> paging_state \<Rightarrow>
    ('a \<times> paging_state) exec" where
  "with_mapper p body = pbind (mapper_open p) (\<lambda>m. pbind body (\<lambda>r. pbind (mapper_close m) (\<lambda>_. preturn r)))"

section \<open>User directories\<close>

text \<open>The directory is the frame \<open>d\<close>; its own \<^verbatim>\<open>__mapper\<close> is open while the caller uses it.\<close>

definition dir_entry :: "paddr \<Rightarrow> nat \<Rightarrow> paging_state \<Rightarrow> u32" where
  "dir_entry d loc st = frame_words st d loc"

definition dir_set :: "paddr \<Rightarrow> paddr \<Rightarrow> nat \<Rightarrow> u32 \<Rightarrow> paging_state \<Rightarrow> paging_state" where
  "dir_set d table loc attr st = set_words d ((frame_words st d)(loc := table OR attr)) st"

definition dir_with :: "paddr \<Rightarrow> nat \<Rightarrow> (paddr \<Rightarrow> paging_state \<Rightarrow> ('a \<times> paging_state) exec) \<Rightarrow> paging_state \<Rightarrow>
    ('a \<times> paging_state) exec" where
  "dir_with d loc func st = (let t = entry_at (dir_entry d loc st) in with_mapper t (func t) st)"

definition dir_ensure :: "paddr \<Rightarrow> nat \<Rightarrow> u32 \<Rightarrow> paging_state \<Rightarrow> (unit \<times> paging_state) exec" where
  "dir_ensure d loc attr st =
    (if \<not> entry_isPresent (dir_entry d loc st)
     then pbind phys_alloc (\<lambda>p. with_mapper p (\<lambda>st.
       Inr ((), dir_set d p loc attr (set_words p table_clear st)))) st
     else Inr ((), st))"

text \<open>\<^verbatim>\<open>fork\<close> and \<^verbatim>\<open>forkCOW\<close> return the new directory together with its open mapper.\<close>

definition upper_copy :: "words \<Rightarrow> words" where
  "upper_copy src = (\<lambda>i. if 768 \<le> i \<and> i < 1024 then src i else 0)"

definition dir_fork :: "paging_state \<Rightarrow> (mapper_guard \<times> paging_state) exec" where
  "dir_fork = pbind phys_alloc (\<lambda>p. pbind (mapper_open p) (\<lambda>m st.
    Inr (m, set_words p (upper_copy (ps_kdir st)) st)))"

definition cow_attr :: "u32 \<Rightarrow> u32" where
  "cow_attr attr = (if attr AND PTE_ReadWrite \<noteq> 0 then (attr AND NOT PTE_ReadWrite) OR PTE_COW else attr)"

definition forkCOW_page :: "paddr \<Rightarrow> paddr \<Rightarrow> nat \<Rightarrow> paging_state \<Rightarrow> (unit \<times> paging_state) exec" where
  "forkCOW_page oldTable newTable j st =
    (let w = frame_words st oldTable j in
     if \<not> entry_isPresent w then Inr ((), st)
     else let addr = entry_at w; attr = cow_attr (entry_attr w);
              st1 = set_words oldTable ((frame_words st oldTable)(j := addr OR attr)) st;
              st2 = set_words newTable ((frame_words st1 newTable)(j := addr OR attr)) st1
          in phys_retain addr st2)"

definition forkCOW_table :: "paddr \<Rightarrow> paddr \<Rightarrow> nat \<Rightarrow> paging_state \<Rightarrow> (unit \<times> paging_state) exec" where
  "forkCOW_table oldDir newDir i st =
    (if \<not> entry_isPresent (dir_entry oldDir i st) then Inr ((), st)
     else dir_with oldDir i (\<lambda>oldTable st.
       pbind (dir_ensure newDir i (entry_attr (dir_entry oldDir i st))) (\<lambda>_.
         dir_with newDir i (\<lambda>newTable. pfor (forkCOW_page oldTable newTable) [0..<1024])) st) st)"

definition dir_forkCOW :: "paddr \<Rightarrow> paging_state \<Rightarrow> (mapper_guard \<times> paging_state) exec" where
  "dir_forkCOW oldDir = pbind phys_alloc (\<lambda>p. pbind (mapper_open p) (\<lambda>m st.
    pbind (pfor (forkCOW_table oldDir p) [0..<768]) (\<lambda>_. preturn m)
      (set_words p (upper_copy (frame_words st oldDir)) st)))"

definition dir_freePage :: "paddr \<Rightarrow> vaddr \<Rightarrow> paging_state \<Rightarrow> (unit \<times> paging_state) exec" where
  "dir_freePage d addr st =
    (if entry_isPresent (dir_entry d (tableLoc addr) st)
     then dir_with d (tableLoc addr) (\<lambda>table. table_freePage table addr) st
     else Inr ((), st))"

definition dir_freePageTables :: "paddr \<Rightarrow> paging_state \<Rightarrow> (unit \<times> paging_state) exec" where
  "dir_freePageTables d = pfor (\<lambda>i st.
    if entry_isPresent (dir_entry d i st)
    then pbind (dir_with d i table_freeDangling) (\<lambda>_ st.
      pbind (phys_release (entry_at (dir_entry d i st)))
        (\<lambda>_ st. Inr ((), set_words d ((frame_words st d)(i := 0)) st)) st) st
    else Inr ((), st)) [0..<768]"

definition dir_alloc :: "paddr \<Rightarrow> vaddr \<Rightarrow> bool \<Rightarrow> paging_state \<Rightarrow> (mapper_guard \<times> paging_state) exec" where
  "dir_alloc d addr writable =
    pbind (dir_ensure d (tableLoc addr) (PDE_Present OR PDE_ReadWrite OR PDE_User)) (\<lambda>_.
    pbind (dir_with d (tableLoc addr) (\<lambda>table.
      table_alloc table addr (PTE_Present OR (if writable then PTE_ReadWrite else 0) OR PTE_User))) (\<lambda>physicalAddr.
    pbind (mapper_open physicalAddr) (\<lambda>m st. Inr (m, set_words physicalAddr table_clear st))))"

definition cow_copy :: "paddr \<Rightarrow> vaddr \<Rightarrow> paddr \<Rightarrow> u32 \<Rightarrow> paddr \<Rightarrow> paging_state \<Rightarrow> (bool \<times> paging_state) exec" where
  "cow_copy table addr oldAddr attr' newAddr st = pbind (phys_release oldAddr) (\<lambda>_ st.
     Inr (True, set_words table ((frame_words st table)(tablePageLoc addr := newAddr OR attr')) st))
     (set_words newAddr (frame_words st oldAddr) st)"

definition handleCOW_entry :: "paddr \<Rightarrow> vaddr \<Rightarrow> paging_state \<Rightarrow> (bool \<times> paging_state) exec" where
  "handleCOW_entry table addr st =
    (let offset = tablePageLoc addr; w = frame_words st table offset in
     if \<not> entry_isPresent w then Inr (False, st)
     else let attr = entry_attr w in
     if attr AND PTE_COW = 0 then Inr (False, st)
     else let oldAddr = entry_at w; attr' = (attr OR PTE_ReadWrite) AND NOT PTE_COW in
     sbind (physicalFrameGetRef (ps_frames st) oldAddr) (\<lambda>ref.
     if ref = 1
     then Inr (True, set_words table ((frame_words st table)(offset := oldAddr OR attr')) st)
     else pbind phys_alloc (\<lambda>newAddr.
       with_mapper oldAddr (with_mapper newAddr (cow_copy table addr oldAddr attr' newAddr))) st))"

definition dir_handleCOW :: "paddr \<Rightarrow> vaddr \<Rightarrow> paging_state \<Rightarrow> (bool \<times> paging_state) exec" where
  "dir_handleCOW d addr st =
    (if \<not> entry_isPresent (dir_entry d (tableLoc addr) st) then Inr (False, st)
     else dir_with d (tableLoc addr) (\<lambda>table. handleCOW_entry table addr) st)"

section \<open>Boot\<close>

text \<open>\<^verbatim>\<open>preparePaging\<close> fills the kernel directory and the tables at \<open>tableAddr\<close> and up;
  \<^verbatim>\<open>clearIdentityPaging\<close> later removes the low half.\<close>

definition preparePaging :: "paddr \<Rightarrow> paging_state \<Rightarrow> paging_state" where
  "preparePaging tableAddr st =
    (let entry = (\<lambda>i. (tableAddr + of_nat i * 4096) OR (PDE_Present OR PDE_ReadWrite));
         flags = PTE_Present OR PTE_ReadWrite
     in st\<lparr>ps_kdir := (\<lambda>i. if i < 256 then entry i else if 768 \<le> i \<and> i < 1024 then entry (i - 768) else 0),
           ps_ktab := (\<lambda>p. let off = p - tableAddr in
             if off = 0 then fillFlat 0 flags
             else if off = 4096 then table_map (fillFlat 0x00400000 flags) 0xC07FF000 0xB8000 flags
             else if off < 256 * 4096 then table_clear else ps_ktab st p)\<rparr>)"

definition clearIdentityPaging :: "paging_state \<Rightarrow> paging_state" where
  "clearIdentityPaging st = st\<lparr>ps_kdir := (\<lambda>i. if i < 256 then 0 else ps_kdir st i)\<rparr>"

section \<open>Translation\<close>

text \<open>What the processor makes of an address under the kernel directory and under a user directory.\<close>

definition kernel_translate :: "paging_state \<Rightarrow> vaddr \<Rightarrow> paddr option" where
  "kernel_translate st v =
    (let e = ps_kdir st (tableLoc v) in
     if \<not> entry_isPresent e then None
     else let w = ps_ktab st (entry_at e) (tablePageLoc v) in
       if entry_isPresent w then Some (entry_at w) else None)"

definition user_pte :: "paging_state \<Rightarrow> paddr \<Rightarrow> vaddr \<Rightarrow> u32 option" where
  "user_pte st d v =
    (let e = dir_entry d (tableLoc v) st in
     if \<not> entry_isPresent e then None
     else let w = frame_words st (entry_at e) (tablePageLoc v) in
       if entry_isPresent w then Some w else None)"

section \<open>Facts on entries\<close>

lemmas pte_flags = PTE_Present_def PTE_ReadWrite_def PTE_User_def PTE_COW_def PDE_Present_def PDE_ReadWrite_def PDE_User_def

lemma aligned_bits: "page_aligned a \<longleftrightarrow> a AND 0xFFF = 0"
  by (simp add: page_aligned_def word_unat_eq_iff unat_and_4095)

lemma bit_page_masks: "bit (4095 :: int) n \<longleftrightarrow> n < 12" "bit (- 4096 :: int) n \<longleftrightarrow> 12 \<le> n"
proof -
  have "(4095 :: int) = mask 12" by (simp add: mask_eq_exp_minus_1)
  then show m: "bit (4095 :: int) n \<longleftrightarrow> n < 12" by (simp only: bit_mask_iff) auto
  have "(- 4096 :: int) = NOT 4095" by simp
  then show "bit (- 4096 :: int) n \<longleftrightarrow> 12 \<le> n" by (simp only: bit_not_iff m) auto
qed

lemma entry_split:
  assumes "page_aligned a" "f AND NOT 0xFFF = 0"
  shows "entry_at (a OR f) = a" "entry_attr (a OR f) = f"
proof -
  have b: "12 \<le> n" if "bit a n" for n
  proof (rule ccontr)
    assume "\<not> 12 \<le> n"
    moreover have "\<not> bit (a AND 0xFFF) n" using assms(1) by (simp add: aligned_bits)
    ultimately show False using that by (simp add: bit_and_iff bit_page_masks)
  qed
  have c: "n < 12" if "bit f n" "n < 32" for n
  proof (rule ccontr)
    assume "\<not> n < 12"
    moreover have "\<not> bit (f AND NOT 0xFFF) n" using assms(2) by simp
    ultimately show False using that by (simp add: bit_and_iff bit_page_masks)
  qed
  show "entry_at (a OR f) = a"
    unfolding entry_at_def by (rule bit_word_eqI) (use b c in \<open>force simp: bit_and_iff bit_or_iff bit_page_masks\<close>)
  show "entry_attr (a OR f) = f"
    unfolding entry_attr_def by (rule bit_word_eqI) (use b c in \<open>force simp: bit_and_iff bit_or_iff bit_page_masks\<close>)
qed

lemma entry_at_aligned [simp]: "page_aligned (entry_at w)"
  using page_aligned_thisPage [of w] by (simp add: entry_at_def thisPage_def alignDown_def)

lemma entry_attr_small [simp]: "entry_attr w AND - 4096 = 0"
  by (rule bit_word_eqI) (auto simp: entry_attr_def bit_and_iff bit_page_masks)

lemma entry_isPresent_bit: "entry_isPresent w \<longleftrightarrow> bit w 0"
  by (simp add: entry_isPresent_def PTE_Present_def and_one_eq bit_0 odd_iff_mod_2_eq_one)

lemma isPresent_or: "page_aligned a \<Longrightarrow> entry_isPresent (a OR f) \<longleftrightarrow> bit f 0"
proof -
  assume "page_aligned a"
  then have "\<not> bit (a AND 0xFFF) 0" by (simp add: aligned_bits)
  then show ?thesis by (simp add: entry_isPresent_bit bit_or_iff bit_and_iff bit_page_masks)
qed

section \<open>The kernel window\<close>

text \<open>Once booted, the first eight megabytes above 0xC0000000 are the first eight megabytes of physical
  memory, except for the last page, which is the text-mode screen at 0xB8000; nothing below 0x40000000
  is mapped.\<close>

theorem boot_kernel_window:
  fixes st :: paging_state
  assumes "page_aligned ta"
  defines "st' \<equiv> clearIdentityPaging (preparePaging ta st)"
  shows "(0xC0000000 \<le> v \<and> v < 0xC0800000 \<longrightarrow> kernel_translate st' v =
      Some (if thisPage v = 0xC07FF000 then 0xB8000 else thisPage (kernelToPhysical v))) \<and>
    (v < 0x40000000 \<longrightarrow> kernel_translate st' v = None)"
proof (intro conjI impI)
  assume v: "0xC0000000 \<le> v \<and> v < 0xC0800000"
  then have uv: "3221225472 \<le> unat v" "unat v < 3229614080" by (auto simp: word_le_nat_alt word_less_nat_alt)
  let ?p = "tablePageLoc v" and ?o = "unat (pageOffset v)"
  have parts: "unat v = tableLoc v * 4194304 + ?p * 4096 + ?o" "?p < 1024" "?o < 4096"
    using address_parts [of v] by auto
  define i where "i = tableLoc v - 768"
  have i: "i < 2" "tableLoc v = 768 + i" using uv parts by (auto simp: i_def)
  have dir: "ps_kdir st' (tableLoc v) = (ta + of_nat i * 4096) OR 3"
    using i by (simp add: st'_def clearIdentityPaging_def preparePaging_def pte_flags Let_def)
  have al: "page_aligned (ta + of_nat i * 4096)"
    using assms(1) i(1) by (auto simp: less_2_cases_iff page_aligned_add)
  have e: "entry_isPresent (ps_kdir st' (tableLoc v))" "entry_at (ps_kdir st' (tableLoc v)) = ta + of_nat i * 4096"
    using entry_split(1) [OF al, of 3] isPresent_or [OF al, of 3] by (simp_all add: dir)
  define base :: u32 where "base = (if i = 0 then 0 else 0x400000) + push_bit 12 (of_nat ?p)"
  have ub: "unat base = i * 4194304 + ?p * 4096"
    using i(1) parts(2) by (auto simp: base_def push_bit_eq_mult unat_word_ariths unat_of_nat less_2_cases_iff)
  have bal: "page_aligned base" using i(1) by (auto simp: page_aligned_def ub less_2_cases_iff)
  have up: "unat (thisPage v) = 3221225472 + unat base"
    using unat_thisPage_eq [of v "786432 + i * 1024 + ?p" ?o] parts i(2) by (simp add: ub)
  have "unat (kernelToPhysical v) = unat v - 3221225472"
    unfolding kernelToPhysical_def using v by (subst unat_sub) auto
  then have "unat (thisPage (kernelToPhysical v)) = unat base"
    using unat_thisPage_eq [of "kernelToPhysical v" "i * 1024 + ?p" ?o] parts i(2) by (simp add: ub)
  then have "thisPage (kernelToPhysical v) = base" by (simp add: word_unat_eq_iff)
  moreover have "thisPage v = 0xC07FF000 \<longleftrightarrow> i = 1 \<and> ?p = 1023"
    using i(1) parts(2) by (auto simp: word_unat_eq_iff up ub less_2_cases_iff)
  moreover have "ps_ktab st' (ta + of_nat i * 4096) ?p = (if i = 1 \<and> ?p = 1023 then 0xB8000 OR 3 else base OR 3)"
    using i(1) by (auto simp: st'_def clearIdentityPaging_def preparePaging_def pte_flags Let_def base_def
        less_2_cases_iff fillFlat_def table_map_def tablePageLoc_def [of "0xC07FF000"] thisPage_def alignDown_def)
  ultimately show "kernel_translate st' v =
      Some (if thisPage v = 0xC07FF000 then 0xB8000 else thisPage (kernelToPhysical v))"
    using e entry_split(1) [OF bal, of 3] isPresent_or [OF bal, of 3]
    by (auto simp: kernel_translate_def Let_def entry_isPresent_bit bit_0 entry_at_def)
next
  assume "v < 0x40000000"
  then have "tableLoc v < 256" by (simp add: tableLoc_def unat_shiftr word_less_nat_alt less_mult_imp_div_less)
  then show "kernel_translate st' v = None"
    by (simp add: kernel_translate_def st'_def clearIdentityPaging_def entry_isPresent_bit)
qed

section \<open>The mapper bracket\<close>

text \<open>
  The kernel window: every directory entry of the window has a table, no two share one, and the entry
  of a free virtual frame is empty. A bracket opened there is closed without a trace.
\<close>

definition window_index :: "vaddr \<Rightarrow> paging_state \<Rightarrow> paddr" where
  "window_index v st = entry_at (ps_kdir st (tableLoc v))"

definition window_inv :: "paging_state \<Rightarrow> bool" where
  "window_inv st \<longleftrightarrow> frame_inv (ps_vframes st) \<and>
    (\<forall>i\<in>{770..<832}. entry_at (ps_kdir st i) \<noteq> 0) \<and> inj_on (\<lambda>i. entry_at (ps_kdir st i)) {770..<832} \<and>
    (\<forall>r. unat r < 63488 \<and> unat r \<notin> bitmap_bits (fm_bitmap (ps_vframes st)) \<longrightarrow>
      ps_ktab st (window_index (frameAt r) st) (tablePageLoc (frameAt r)) = 0)"

definition window_free :: "paging_state \<Rightarrow> nat" where
  "window_free st = card ({..<63488} - bitmap_bits (fm_bitmap (ps_vframes st)))"

definition set_window :: "frame_manager \<Rightarrow> words \<Rightarrow> (paddr \<Rightarrow> words) \<Rightarrow> paging_state \<Rightarrow> paging_state" where
  "set_window vf kd kt st = st\<lparr>ps_vframes := vf, ps_kdir := kd, ps_ktab := kt\<rparr>"

lemma set_window_id [simp]: "set_window (ps_vframes st) (ps_kdir st) (ps_ktab st) st = st"
  by (simp add: set_window_def)

lemma set_window_set_window [simp]: "set_window a b c (set_window a' b' c' st) = set_window a b c st"
  by (simp add: set_window_def)

lemma set_window_fields [simp]:
  "ps_frames (set_window a b c st) = ps_frames st" "ps_mem (set_window a b c st) = ps_mem st"
  "ps_vframes (set_window a b c st) = a" "ps_kdir (set_window a b c st) = b" "ps_ktab (set_window a b c st) = c"
  by (simp_all add: set_window_def)

lemma frameAt_locs:
  assumes "unat r < 63488"
  shows "unat (frameAt r) = 3229614080 + 4096 * unat r"
    "tableLoc (frameAt r) = 770 + unat r div 1024" "tablePageLoc (frameAt r) = unat r mod 1024"
    "frameAt r \<noteq> 0" "frameFor (frameAt r) = r" "tableLoc (frameAt r) \<in> {770..<832}"
proof -
  show u: "unat (frameAt r) = 3229614080 + 4096 * unat r"
    using assms by (simp add: frameAt_def frame_base_def push_bit_eq_mult unat_word_ariths)
  have "unat (frameAt r) div 4194304 = 770 + unat r div 1024"
  proof -
    have "unat (frameAt r) = 4096 * (788480 + unat r)" by (simp add: u)
    then have "unat (frameAt r) div (4096 * 1024) = (788480 + unat r) div 1024" by (simp only: div_mult_mult1)
    also have "\<dots> = 770 + unat r div 1024"
      using div_mult_self1 [of 1024 "unat r" 770] by (simp add: add.commute)
    finally show ?thesis by simp
  qed
  then show t: "tableLoc (frameAt r) = 770 + unat r div 1024" by (simp add: tableLoc_def unat_shiftr)
  have "(3229614080 + 4096 * unat r) div 4096 = 788480 + unat r" by simp
  then show "tablePageLoc (frameAt r) = unat r mod 1024"
  proof -
    have "(788480 + unat r) mod 1024 = unat r mod 1024"
      using mod_mult_self1 [of "unat r" 770 1024] by (simp add: add.commute)
    with \<open>(3229614080 + 4096 * unat r) div 4096 = 788480 + unat r\<close> show ?thesis
      by (simp only: tablePageLoc_def unat_and_1023 unat_shiftr u) simp
  qed
  show "frameAt r \<noteq> 0" using u by (metis unat_0 add_eq_0_iff_both_eq_0 zero_neq_numeral)
  show "frameFor (frameAt r) = r"
    using assms by (simp add: frameFor_def frameAt_def word_unat_eq_iff unat_shiftr push_bit_eq_mult unat_word_ariths)
  show "tableLoc (frameAt r) \<in> {770..<832}" using assms by (auto simp: t less_mult_imp_div_less)
qed

lemma window_slot_inj:
  assumes "window_inv st" "unat r < 63488" "unat q < 63488"
    "window_index (frameAt r) st = window_index (frameAt q) st" "tablePageLoc (frameAt r) = tablePageLoc (frameAt q)"
  shows "r = q"
proof -
  have "tableLoc (frameAt r) = tableLoc (frameAt q)"
    using assms(1,4) frameAt_locs(6) [OF assms(2)] frameAt_locs(6) [OF assms(3)]
    by (auto simp: window_inv_def window_index_def dest: inj_onD)
  with assms(5) have "unat r div 1024 = unat q div 1024" "unat r mod 1024 = unat q mod 1024"
    using frameAt_locs [OF assms(2)] frameAt_locs [OF assms(3)] by simp_all
  then show ?thesis by (metis div_mod_decomp word_unat_eq_iff)
qed

text \<open>The slot of the window a new mapper takes, and what it writes there.\<close>

definition window_put :: "vaddr \<Rightarrow> paddr \<Rightarrow> paging_state \<Rightarrow> paddr \<Rightarrow> words" where
  "window_put v p st = (ps_ktab st)(window_index v st :=
    (ps_ktab st (window_index v st))(tablePageLoc v := thisPage p OR 3))"

lemma mapper_open_law:
  assumes inv: "window_inv st" and al: "frame_alloc (ps_vframes st) = Inr (vf, r)"
  defines "v \<equiv> frameAt r"
  shows "unat r < 63488" "unat r \<notin> bitmap_bits (fm_bitmap (ps_vframes st))"
    "bitmap_bits (fm_bitmap vf) = insert (unat r) (bitmap_bits (fm_bitmap (ps_vframes st)))"
    "mapper_open p st = Inr (\<lparr>mg_paddr = p, mg_vaddr = v\<rparr>, set_window vf (ps_kdir st) (window_put v p st) st)"
    "window_inv (set_window vf (ps_kdir st) (window_put v p st) st)"
    "ps_ktab st (window_index v st) (tablePageLoc v) = 0" "window_index v st \<noteq> 0" "frame_inv vf"
proof -
  let ?used = "bitmap_bits (fm_bitmap (ps_vframes st))"
  have fi: "frame_inv (ps_vframes st)" using inv by (simp add: window_inv_def)
  note A = frames.alloc_ok [OF fi al]
  show r: "unat r < 63488" "unat r \<notin> ?used" using A fi by (auto simp: frame_inv_def)
  show used: "bitmap_bits (fm_bitmap vf) = insert (unat r) ?used" and "frame_inv vf" using A by simp_all
  note F = frameAt_locs [OF r(1)]
  show tb: "window_index v st \<noteq> 0" using inv F(6) by (auto simp: window_inv_def window_index_def v_def)
  show "ps_ktab st (window_index v st) (tablePageLoc v) = 0" using inv r by (simp add: window_inv_def v_def)
  show "mapper_open p st = Inr (\<lparr>mg_paddr = p, mg_vaddr = v\<rparr>, set_window vf (ps_kdir st) (window_put v p st) st)"
    using al tb by (simp add: mapper_open_def virtualFrameAlloc_def pbind_def kernel_map_def window_index_def
        Let_def preturn_def table_map_def pte_flags set_window_def window_put_def flip: v_def)
  have "window_put v p st (window_index (frameAt q) st) (tablePageLoc (frameAt q)) = 0"
    if q: "unat q < 63488" "unat q \<notin> insert (unat r) ?used" for q
  proof -
    have "r \<noteq> q" using q(2) by auto
    then have "\<not> (window_index (frameAt q) st = window_index v st \<and> tablePageLoc (frameAt q) = tablePageLoc v)"
      using window_slot_inj [OF inv r(1) q(1)] by (auto simp: v_def)
    with inv q show ?thesis by (auto simp: window_put_def window_inv_def)
  qed
  with inv A used show "window_inv (set_window vf (ps_kdir st) (window_put v p st) st)"
    by (simp add: window_inv_def window_index_def)
qed

lemma window_alloc_total:
  assumes "window_inv st" "0 < window_free st"
  obtains vf r where "frame_alloc (ps_vframes st) = Inr (vf, r)"
proof -
  have fi: "frame_inv (ps_vframes st)" using assms(1) by (simp add: window_inv_def)
  then have len: "32 * length (fm_bitmap (ps_vframes st)) = 63488" by (simp add: frame_inv_def)
  obtain n where n: "n < 63488" "n \<notin> bitmap_bits (fm_bitmap (ps_vframes st))"
    using assms(2) by (force simp: window_free_def card_gt_0_iff)
  from frames.alloc_total [OF fi, of n] n len that show ?thesis by auto
qed

lemma mapper_bracket:
  assumes inv: "window_inv st" and free: "0 < window_free st"
  obtains m vf kt where "mapper_open p st = Inr (m, set_window vf (ps_kdir st) kt st)"
    "window_inv (set_window vf (ps_kdir st) kt st)" "window_free (set_window vf (ps_kdir st) kt st) = window_free st - 1"
    "mg_paddr m = p" "kt (window_index (mg_vaddr m) st) (tablePageLoc (mg_vaddr m)) = thisPage p OR 3"
    "tableLoc (mg_vaddr m) \<in> {770..<832}"
    "\<forall>s. mapper_close m (set_window vf (ps_kdir st) kt s) =
      Inr ((), set_window (ps_vframes st) (ps_kdir st) (ps_ktab st) s)"
proof -
  let ?used = "bitmap_bits (fm_bitmap (ps_vframes st))"
  obtain vf r where al: "frame_alloc (ps_vframes st) = Inr (vf, r)" by (rule window_alloc_total [OF inv free])
  define v kt where "v = frameAt r" and "kt = window_put v p st"
  note O = mapper_open_law [OF inv al, folded v_def] and F = frameAt_locs [OF mapper_open_law(1) [OF inv al], folded v_def]
  have fr: "window_free (set_window vf (ps_kdir st) kt st) = window_free st - 1"
  proof -
    have "{..<63488} - insert (unat r) ?used = ({..<63488} - ?used) - {unat r}" by auto
    with O(1,2) show ?thesis by (simp add: window_free_def O(3) card_Diff_singleton)
  qed
  have close: "mapper_close \<lparr>mg_paddr = p, mg_vaddr = v\<rparr> (set_window vf (ps_kdir st) kt s) =
      Inr ((), set_window (ps_vframes st) (ps_kdir st) (ps_ktab st) s)" for s
  proof -
    have lim: "unat r < 32 * length (fm_bitmap vf)" using O(1,8) by (simp add: frame_inv_def)
    obtain f where f: "frame_free vf r = Inr f" "frame_inv f"
      "bitmap_bits (fm_bitmap f) = bitmap_bits (fm_bitmap vf) - {unat r}"
      using frames.free_ok [OF O(8) lim] by auto
    have "fm_bitmap f = fm_bitmap (ps_vframes st)"
      using f(2,3) inv O(2) by (intro bitmap_bits_inject) (auto simp: window_inv_def frame_inv_def O(3))
    then have f': "virtualFrameFree vf v = Inr (ps_vframes st)"
      using f(1) F(5) by (simp add: virtualFrameFree_def)
    have "(thisPage p OR 3) AND PTE_Present \<noteq> 0"
      using isPresent_or [of "thisPage p" 3] by (simp add: entry_isPresent_def)
    moreover have "(kt(window_index v st := (kt (window_index v st))(tablePageLoc v := 0))) = ps_ktab st"
      using O(6) by (auto simp: kt_def window_put_def fun_eq_iff)
    ultimately show ?thesis
      using O(7) F(4) f' by (simp add: mapper_close_def pbind_def kernel_unmap_def Let_def table_unmap_def
          window_index_def set_window_def kt_def window_put_def)
  qed
  show ?thesis
    by (rule that [OF O(4) [of p, folded kt_def] O(5) [of p, folded kt_def] fr])
      (use close F(6) in \<open>simp_all add: kt_def window_put_def\<close>)
qed

text \<open>Opening a mapper maps the physical frame at an unused address of the kernel window, and closing it
  gives back the machine exactly as it was.\<close>

theorem mapper_leaves_no_trace:
  assumes "window_inv st" "0 < window_free st" "\<forall>i\<in>{770..<832}. entry_isPresent (ps_kdir st i)"
  shows "\<exists>m st'. mapper_open p st = Inr (m, st') \<and> kernel_translate st' (mg_vaddr m) = Some (thisPage p) \<and>
    mapper_close m st' = Inr ((), st)"
proof -
  obtain m vf kt where m: "mapper_open p st = Inr (m, set_window vf (ps_kdir st) kt st)"
    "kt (window_index (mg_vaddr m) st) (tablePageLoc (mg_vaddr m)) = thisPage p OR 3" "tableLoc (mg_vaddr m) \<in> {770..<832}"
    "\<forall>s. mapper_close m (set_window vf (ps_kdir st) kt s) =
      Inr ((), set_window (ps_vframes st) (ps_kdir st) (ps_ktab st) s)"
    using mapper_bracket [OF assms(1,2), of p] by metis
  have "entry_isPresent (thisPage p OR 3)" "entry_at (thisPage p OR 3) = thisPage p"
    using isPresent_or [of "thisPage p" 3] entry_split(1) [of "thisPage p" 3] by simp_all
  then have "kernel_translate (set_window vf (ps_kdir st) kt st) (mg_vaddr m) = Some (thisPage p)"
    using assms(3) m(2,3) by (simp add: kernel_translate_def window_index_def Let_def)
  with m(1,4) show ?thesis by (intro exI [of _ m] exI [of _ "set_window vf (ps_kdir st) kt st"]) simp
qed

section \<open>Bodies that do not see the window\<close>

text \<open>
  A computation that neither reads nor writes the window (\<open>window_blind\<close>) runs inside a bracket as it
  runs outside. \<open>transparent n b b'\<close>: with at least \<open>n\<close> free virtual frames, \<open>b\<close> does what the
  blind \<open>b'\<close> does.
\<close>

definition window_blind :: "(paging_state \<Rightarrow> ('a \<times> paging_state) exec) \<Rightarrow> bool" where
  "window_blind b \<longleftrightarrow> (\<forall>st vf kd kt. b (set_window vf kd kt st) = map_sum id (apsnd (set_window vf kd kt)) (b st))"

definition transparent :: "nat \<Rightarrow> (paging_state \<Rightarrow> ('a \<times> paging_state) exec) \<Rightarrow>
    (paging_state \<Rightarrow> ('a \<times> paging_state) exec) \<Rightarrow> bool" where
  "transparent n b b' \<longleftrightarrow> window_blind b' \<and> (\<forall>st. window_inv st \<and> n \<le> window_free st \<longrightarrow> b st = b' st)"

lemma window_blindD: "window_blind b \<Longrightarrow> b (set_window vf kd kt st) = map_sum id (apsnd (set_window vf kd kt)) (b st)"
  by (simp add: window_blind_def)

lemma window_blind_keeps:
  assumes "window_blind b" "b st = Inr (a, st')"
  shows "set_window (ps_vframes st) (ps_kdir st) (ps_ktab st) st' = st'"
  using window_blindD [OF assms(1), of "ps_vframes st" "ps_kdir st" "ps_ktab st" st] assms(2) by simp

lemma window_kept:
  assumes "window_blind b" "b st = Inr (a, st')"
  shows "window_inv st' = window_inv st" "window_free st' = window_free st"
proof -
  have w: "ps_vframes st' = ps_vframes st" "ps_kdir st' = ps_kdir st" "ps_ktab st' = ps_ktab st"
    using window_blind_keeps [OF assms] by (metis set_window_fields(3-5))+
  then show "window_inv st' = window_inv st" "window_free st' = window_free st"
    by (simp_all add: window_inv_def window_free_def window_index_def)
qed

lemma window_blind_pbind:
  assumes "window_blind m" "\<And>a. window_blind (f a)"
  shows "window_blind (pbind m f)"
  unfolding window_blind_def
proof (intro allI)
  fix st vf kd kt
  show "pbind m f (set_window vf kd kt st) = map_sum id (apsnd (set_window vf kd kt)) (pbind m f st)"
  proof (cases "m st")
    case (Inr r)
    then obtain a s where "m st = Inr (a, s)" by (cases r) auto
    then show ?thesis using window_blindD [OF assms(1)] window_blindD [OF assms(2)] by (simp add: pbind_def)
  qed (use window_blindD [OF assms(1)] in \<open>simp add: pbind_def\<close>)
qed

lemma transparent_blind: "window_blind b \<Longrightarrow> transparent n b b"
  by (simp add: transparent_def)

lemma transparent_mono: "transparent n b b' \<Longrightarrow> n \<le> k \<Longrightarrow> transparent k b b'"
  by (auto simp: transparent_def)

lemma transparent_pbind:
  assumes "transparent n m m'" "\<And>a. transparent n (f a) (f' a)"
  shows "transparent n (pbind m f) (pbind m' f')"
proof -
  have b: "window_blind m'" "\<And>a. window_blind (f' a)" using assms by (auto simp: transparent_def)
  have "pbind m f st = pbind m' f' st" if w: "window_inv st" "n \<le> window_free st" for st
  proof (cases "m' st")
    case (Inr r)
    then obtain a s where r: "m' st = Inr (a, s)" by (cases r) auto
    have "window_inv s" "n \<le> window_free s" using window_kept [OF b(1) r] w by auto
    then have "f a s = f' a s" using assms(2) by (simp add: transparent_def)
    with r w assms(1) show ?thesis by (simp add: pbind_def transparent_def)
  qed (use w assms(1) in \<open>simp add: pbind_def transparent_def\<close>)
  with b show ?thesis by (simp add: transparent_def window_blind_pbind)
qed

lemma transparent_with_mapper:
  assumes "transparent n b b'"
  shows "transparent (Suc n) (with_mapper p b) b'"
proof -
  have blind: "window_blind b'" using assms by (simp add: transparent_def)
  have "with_mapper p b st = b' st" if inv: "window_inv st" and free: "Suc n \<le> window_free st" for st
  proof -
    have f: "0 < window_free st" using free by simp
    obtain m vf kt where m: "mapper_open p st = Inr (m, set_window vf (ps_kdir st) kt st)"
      "window_inv (set_window vf (ps_kdir st) kt st)"
      "window_free (set_window vf (ps_kdir st) kt st) = window_free st - 1"
      "\<forall>s. mapper_close m (set_window vf (ps_kdir st) kt s) =
        Inr ((), set_window (ps_vframes st) (ps_kdir st) (ps_ktab st) s)"
      using mapper_bracket [OF inv f, of p] by metis
    have "b (set_window vf (ps_kdir st) kt st) = map_sum id (apsnd (set_window vf (ps_kdir st) kt)) (b' st)"
      using assms m(2,3) free window_blindD [OF blind] by (simp add: transparent_def)
    then show ?thesis
      using m(1,4) window_blind_keeps [OF blind, of st]
      by (cases "b' st") (auto simp: with_mapper_def pbind_def preturn_def)
  qed
  with blind show ?thesis by (simp add: transparent_def)
qed

lemma transparent_select:
  assumes "\<And>a. transparent n (f a) (f' a)" "\<And>st vf kd kt. g (set_window vf kd kt st) = g st"
  shows "transparent n (\<lambda>st. f (g st) st) (\<lambda>st. f' (g st) st)"
  using assms by (auto simp: transparent_def window_blind_def)

lemma transparent_if:
  assumes "transparent n b b'" "transparent n c c'" "\<And>st vf kd kt. P (set_window vf kd kt st) = P st"
  shows "transparent n (\<lambda>st. if P st then b st else c st) (\<lambda>st. if P st then b' st else c' st)"
  using assms by (auto simp: transparent_def window_blind_def)

lemma window_blind_prims:
  "window_blind phys_alloc" "window_blind (phys_retain a)" "window_blind (phys_release a)" "window_blind (preturn x)"
proof -
  show "window_blind phys_alloc"
    unfolding window_blind_def phys_alloc_def
  proof (intro allI)
    fix st vf kd kt
    show "sbind (physicalFrameAlloc (ps_frames (set_window vf kd kt st))) (\<lambda>(f, a). Inr (a, set_window vf kd kt st\<lparr>ps_frames := f\<rparr>)) =
      map_sum id (apsnd (set_window vf kd kt)) (sbind (physicalFrameAlloc (ps_frames st)) (\<lambda>(f, a). Inr (a, st\<lparr>ps_frames := f\<rparr>)))"
      by (cases "physicalFrameAlloc (ps_frames st)") (auto simp: set_window_def)
  qed
  show "window_blind (phys_retain a)"
    unfolding window_blind_def phys_retain_def
  proof (intro allI)
    fix st vf kd kt
    show "sbind (physicalFrameRetain (ps_frames (set_window vf kd kt st)) a) (\<lambda>f. Inr ((), set_window vf kd kt st\<lparr>ps_frames := f\<rparr>)) =
      map_sum id (apsnd (set_window vf kd kt)) (sbind (physicalFrameRetain (ps_frames st) a) (\<lambda>f. Inr ((), st\<lparr>ps_frames := f\<rparr>)))"
      by (cases "physicalFrameRetain (ps_frames st) a") (auto simp: set_window_def)
  qed
  show "window_blind (phys_release a)"
    unfolding window_blind_def phys_release_def
  proof (intro allI)
    fix st vf kd kt
    show "sbind (physicalFrameRelease (ps_frames (set_window vf kd kt st)) a) (\<lambda>f. Inr ((), set_window vf kd kt st\<lparr>ps_frames := f\<rparr>)) =
      map_sum id (apsnd (set_window vf kd kt)) (sbind (physicalFrameRelease (ps_frames st) a) (\<lambda>f. Inr ((), st\<lparr>ps_frames := f\<rparr>)))"
      by (cases "physicalFrameRelease (ps_frames st) a") (auto simp: set_window_def)
  qed
  show "window_blind (preturn x)" by (simp add: window_blind_def preturn_def)
qed

lemma set_window_words [simp]:
  "frame_words (set_window vf kd kt st) p = frame_words st p"
  "set_words p ws (set_window vf kd kt st) = set_window vf kd kt (set_words p ws st)"
  "dir_entry d loc (set_window vf kd kt st) = dir_entry d loc st"
  by (simp_all add: frame_words_def set_words_def set_window_def dir_entry_def)

text \<open>The copy-on-write fault without its three brackets.\<close>

definition cow_fault :: "paddr \<Rightarrow> vaddr \<Rightarrow> paging_state \<Rightarrow> (bool \<times> paging_state) exec" where
  "cow_fault table addr st =
    (let offset = tablePageLoc addr; w = frame_words st table offset in
     if \<not> entry_isPresent w then Inr (False, st)
     else let attr = entry_attr w in
     if attr AND PTE_COW = 0 then Inr (False, st)
     else let oldAddr = entry_at w; attr' = (attr OR PTE_ReadWrite) AND NOT PTE_COW in
     sbind (physicalFrameGetRef (ps_frames st) oldAddr) (\<lambda>ref.
     if ref = 1
     then Inr (True, set_words table ((frame_words st table)(offset := oldAddr OR attr')) st)
     else pbind phys_alloc (cow_copy table addr oldAddr attr') st))"

lemma window_blind_select:
  assumes "\<And>a. window_blind (f a)" "\<And>st vf kd kt. g (set_window vf kd kt st) = g st"
  shows "window_blind (\<lambda>st. f (g st) st)"
  using assms by (auto simp: window_blind_def)

lemma window_blind_cow_copy: "window_blind (cow_copy table addr oldAddr attr' newAddr)"
proof -
  have "window_blind (pbind (phys_release oldAddr) (\<lambda>_ st.
     Inr (True, set_words table ((frame_words st table)(tablePageLoc addr := newAddr OR attr')) st)))"
    by (intro window_blind_pbind window_blind_prims) (simp add: window_blind_def)
  from window_blindD [OF this] show ?thesis unfolding window_blind_def cow_copy_def by simp
qed

lemma handleCOW_entry_transparent: "transparent 2 (handleCOW_entry table addr) (cow_fault table addr)"
proof -
  have b: "transparent 2
      (pbind phys_alloc (\<lambda>n. with_mapper o' (with_mapper n (cow_copy table addr o' a' n))))
      (pbind phys_alloc (\<lambda>n. cow_copy table addr o' a' n))" for o' a'
    using transparent_with_mapper [OF transparent_with_mapper [OF transparent_blind [OF window_blind_cow_copy]]]
    by (intro transparent_pbind transparent_blind window_blind_prims) (simp add: numeral_2_eq_2)
  let ?attr = "\<lambda>w. (entry_attr w OR PTE_ReadWrite) AND NOT PTE_COW"
  let ?body = "\<lambda>m (w, r) st. if \<not> entry_isPresent w then Inr (False, st)
     else if entry_attr w AND PTE_COW = 0 then Inr (False, st)
     else sbind r (\<lambda>ref. if ref = 1
       then Inr (True, set_words table ((frame_words st table)(tablePageLoc addr := entry_at w OR ?attr w)) st)
       else m w st)"
  let ?sel = "\<lambda>st. let w = frame_words st table (tablePageLoc addr) in (w, physicalFrameGetRef (ps_frames st) (entry_at w))"
  have bl: "window_blind (?body m (w, r))" if "window_blind (m w)" for m w and r :: "u16 exec"
    using that by (cases r) (auto simp: window_blind_def)
  have "transparent 2 (?body (\<lambda>w. pbind phys_alloc (\<lambda>n. with_mapper (entry_at w) (with_mapper n (cow_copy table addr (entry_at w) (?attr w) n)))) x)
      (?body (\<lambda>w. pbind phys_alloc (\<lambda>n. cow_copy table addr (entry_at w) (?attr w) n)) x)" for x :: "u32 \<times> u16 exec"
  proof (cases x)
    case (Pair w r)
    show ?thesis
      unfolding transparent_def Pair
      using bl [of "\<lambda>w. pbind phys_alloc (\<lambda>n. cow_copy table addr (entry_at w) (?attr w) n)" w r]
        b [of "entry_at w" "?attr w"]
      by (cases r) (auto simp: transparent_def)
  qed
  then have "transparent 2 (\<lambda>st. ?body (\<lambda>w. pbind phys_alloc (\<lambda>n. with_mapper (entry_at w) (with_mapper n (cow_copy table addr (entry_at w) (?attr w) n)))) (?sel st) st)
      (\<lambda>st. ?body (\<lambda>w. pbind phys_alloc (\<lambda>n. cow_copy table addr (entry_at w) (?attr w) n)) (?sel st) st)"
    by (rule transparent_select) (simp add: Let_def)
  moreover have "handleCOW_entry table addr = (\<lambda>st. ?body (\<lambda>w. pbind phys_alloc (\<lambda>n. with_mapper (entry_at w) (with_mapper n (cow_copy table addr (entry_at w) (?attr w) n)))) (?sel st) st)"
    by (simp add: fun_eq_iff handleCOW_entry_def Let_def)
  moreover have "cow_fault table addr = (\<lambda>st. ?body (\<lambda>w. pbind phys_alloc (\<lambda>n. cow_copy table addr (entry_at w) (?attr w) n)) (?sel st) st)"
    by (simp add: fun_eq_iff cow_fault_def Let_def)
  ultimately show ?thesis by simp
qed

lemma dir_with_transparent:
  assumes "\<And>t. transparent n (f t) (f' t)"
  shows "transparent (Suc n) (dir_with d loc f) (\<lambda>st. f' (entry_at (dir_entry d loc st)) st)"
  unfolding dir_with_def [abs_def] Let_def
  by (rule transparent_select [of "Suc n" "\<lambda>t. with_mapper t (f t)" f' "\<lambda>st. entry_at (dir_entry d loc st)"])
    (rule transparent_with_mapper [OF assms], simp)

definition dir_cow_fault :: "paddr \<Rightarrow> vaddr \<Rightarrow> paging_state \<Rightarrow> (bool \<times> paging_state) exec" where
  "dir_cow_fault d addr st =
    (if \<not> entry_isPresent (dir_entry d (tableLoc addr) st) then Inr (False, st)
     else cow_fault (entry_at (dir_entry d (tableLoc addr) st)) addr st)"

lemma dir_handleCOW_transparent: "transparent 3 (dir_handleCOW d addr) (dir_cow_fault d addr)"
proof -
  have "transparent 3 (dir_with d (tableLoc addr) (\<lambda>t. handleCOW_entry t addr))
      (\<lambda>st. cow_fault (entry_at (dir_entry d (tableLoc addr) st)) addr st)"
    using dir_with_transparent [of 2 "\<lambda>t. handleCOW_entry t addr" "\<lambda>t. cow_fault t addr" d "tableLoc addr"]
      handleCOW_entry_transparent by simp
  from transparent_if [OF transparent_blind [OF window_blind_prims(4) [of False]] this,
      of "\<lambda>st. \<not> entry_isPresent (dir_entry d (tableLoc addr) st)"]
  show ?thesis unfolding dir_handleCOW_def [abs_def] dir_cow_fault_def [abs_def] preturn_def by simp
qed

section \<open>Copy on write\<close>

lemma phys_getref:
  assumes "phys_rel f H" "a \<in># H"
  shows "physicalFrameGetRef f a = Inr (of_nat (count H a))" "count H a < 65536"
proof -
  obtain r where r: "unat r < phys_limit f" "a = pageAt r" "pageFor a = r" "unat r < length (pf_info f)"
    using phys_rel_held [OF assms] by metis
  have c: "unat (pf_info f ! unat r) = count H a" using phys_relD(3) [OF assms(1) r(1)] r(2) by simp
  then show "count H a < 65536" using unsigned_less [of "pf_info f ! unat r", where ?'a = nat] by simp
  then have "pf_info f ! unat r = of_nat (count H a)" by (simp add: word_unat_eq_iff unat_of_nat c)
  then show "physicalFrameGetRef f a = Inr (of_nat (count H a))" using r by (simp add: physicalFrameGetRef_def Let_def)
qed

definition cow_cleared :: "u32 \<Rightarrow> u32" where
  "cow_cleared attr = (attr OR PTE_ReadWrite) AND NOT PTE_COW"

lemma cow_cleared_small: "attr AND NOT 0xFFF = 0 \<Longrightarrow> cow_cleared attr AND NOT 0xFFF = 0"
proof -
  assume a: "attr AND NOT 0xFFF = 0"
  have "cow_cleared attr AND NOT 0xFFF = ((attr AND NOT 0xFFF) OR (PTE_ReadWrite AND NOT 0xFFF)) AND NOT PTE_COW"
    unfolding cow_cleared_def by (rule bit_word_eqI) (auto simp: bit_and_iff bit_or_iff)
  then show ?thesis unfolding a by (simp add: pte_flags)
qed

lemma bit_PTE_COW: "bit PTE_COW n \<longleftrightarrow> n = 9"
proof -
  have "PTE_COW = push_bit 9 1" by (simp add: PTE_COW_def)
  then show ?thesis unfolding \<open>PTE_COW = push_bit 9 1\<close> bit_push_bit_iff bit_1_iff by auto
qed

lemma cow_cleared_flags: "bit attr 0 \<Longrightarrow> bit (cow_cleared attr) 0 \<and> bit (cow_cleared attr) 1 \<and> \<not> bit (cow_cleared attr) 9"
  by (simp add: cow_cleared_def bit_and_iff bit_or_iff bit_not_iff bit_PTE_COW) (simp add: PTE_ReadWrite_def)

text \<open>What the fault does on the frames: nothing but a write bit when the page is no longer shared, a fresh
  private copy otherwise.\<close>

lemma cow_fault_law:
  assumes rel: "phys_rel (ps_frames st) H" and p: "w = frame_words st t (tablePageLoc addr)" "entry_isPresent w"
    "entry_attr w AND PTE_COW \<noteq> 0" "entry_at w \<in># H"
    and room: "count H (entry_at w) \<noteq> 1 \<Longrightarrow> \<exists>f a. physicalFrameAlloc (ps_frames st) = Inr (f, a)"
  obtains q st' where "cow_fault t addr st = Inr (True, st')"
    "phys_rel (ps_frames st') (add_mset q (H - {#entry_at w#}))" "page_aligned q"
    "q = entry_at w \<and> count H q = 1 \<or> q \<notin># H"
    "ps_mem st' = (let m = (ps_mem st)(q := ps_mem st (entry_at w)) in
      m(t := (m t)(tablePageLoc addr := q OR cow_cleared (entry_attr w))))"
proof (cases "count H (entry_at w) = 1")
  case True
  let ?q = "entry_at w"
  have ref: "physicalFrameGetRef (ps_frames st) ?q = Inr 1" using phys_getref(1) [OF rel p(4)] True by simp
  let ?st = "set_words t ((frame_words st t)(tablePageLoc addr := ?q OR cow_cleared (entry_attr w))) st"
  have eq: "cow_fault t addr st = Inr (True, ?st)"
    using p(2,3) ref by (simp add: cow_fault_def Let_def cow_cleared_def flip: p(1))
  show ?thesis
    by (rule that [OF eq, of ?q]) (use rel p(4) True in \<open>simp_all add: set_words_def frame_words_def Let_def\<close>)
next
  case False
  obtain f q where al: "physicalFrameAlloc (ps_frames st) = Inr (f, q)" using room [OF False] by blast
  note A = phys_rel_alloc [OF rel al]
  have cnt: "count H (entry_at w) < 65536" using phys_getref(2) [OF rel p(4)] .
  have "of_nat (count H (entry_at w)) \<noteq> (1 :: u16)"
    using False cnt by (simp add: word_unat_eq_iff unat_of_nat)
  then have ref: "physicalFrameGetRef (ps_frames st) (entry_at w) = Inr (of_nat (count H (entry_at w)))"
    "of_nat (count H (entry_at w)) \<noteq> (1 :: u16)" using phys_getref(1) [OF rel p(4)] by auto
  obtain f' where rl: "physicalFrameRelease f (entry_at w) = Inr f'" "phys_rel f' (add_mset q H - {#entry_at w#})"
    using phys_rel_release [OF conjunct1 [OF A], of "entry_at w"] p(4) by auto
  have q: "q \<notin># H" "q \<noteq> entry_at w" using A p(4) by auto
  define m where "m = (ps_mem st)(q := ps_mem st (entry_at w))"
  let ?st = "st\<lparr>ps_frames := f', ps_mem := m(t := (m t)(tablePageLoc addr := q OR cow_cleared (entry_attr w)))\<rparr>"
  have eq: "cow_fault t addr st = Inr (True, ?st)"
    using p(2,3) ref al rl(1)
    by (simp add: cow_fault_def Let_def flip: p(1))
      (simp add: pbind_def phys_alloc_def cow_copy_def phys_release_def set_words_def frame_words_def m_def cow_cleared_def)
  have "page_aligned q"
    using al pageAt_aligned by (auto simp: physicalFrameAlloc_def sbind_eq_Inr_iff aligned_bits split: if_splits)
  moreover have "add_mset q H - {#entry_at w#} = add_mset q (H - {#entry_at w#})"
    using q(2) p(4) by simp
  ultimately show ?thesis
    by (intro that [OF eq, of q]) (use rl(2) q in \<open>simp_all add: m_def\<close>)
qed

lemma dir_handleCOW_law:
  assumes win: "window_inv st" "3 \<le> window_free st" and rel: "phys_rel (ps_frames st) H"
    and pte: "user_pte st d v = Some w" "w AND PTE_COW \<noteq> 0" "entry_at w \<in># H"
    and t: "t = entry_at (dir_entry d (tableLoc v) st)" "t \<in># H" "d \<in># H" "t \<noteq> entry_at w" "d \<noteq> entry_at w" "t \<noteq> d"
    and room: "count H (entry_at w) \<noteq> 1 \<Longrightarrow> \<exists>f a. physicalFrameAlloc (ps_frames st) = Inr (f, a)"
  shows "\<exists>st' w'. dir_handleCOW d v st = Inr (True, st') \<and> user_pte st' d v = Some w' \<and>
    bit w' 1 \<and> w' AND PTE_COW = 0 \<and> phys_rel (ps_frames st') (add_mset (entry_at w') (H - {#entry_at w#})) \<and>
    count (add_mset (entry_at w') (H - {#entry_at w#})) (entry_at w') = 1 \<and>
    ps_mem st' (entry_at w') = ps_mem st (entry_at w) \<and>
    (\<forall>a. a \<noteq> entry_at w' \<and> a \<noteq> t \<longrightarrow> ps_mem st' a = ps_mem st a) \<and>
    (\<forall>j. j \<noteq> tablePageLoc v \<longrightarrow> ps_mem st' t j = ps_mem st t j)"
proof -
  have pr: "entry_isPresent (dir_entry d (tableLoc v) st)" "w = frame_words st t (tablePageLoc v)" "entry_isPresent w"
    using pte(1) t(1) by (auto simp: user_pte_def Let_def split: if_splits)
  have cow: "entry_attr w AND PTE_COW \<noteq> 0"
  proof -
    have "entry_attr w AND PTE_COW = w AND PTE_COW"
      unfolding entry_attr_def by (rule bit_word_eqI) (auto simp: bit_and_iff bit_page_masks bit_PTE_COW)
    with pte(2) show ?thesis by simp
  qed
  obtain q st' where st': "cow_fault t v st = Inr (True, st')"
    "phys_rel (ps_frames st') (add_mset q (H - {#entry_at w#}))" "page_aligned q"
    "q = entry_at w \<and> count H q = 1 \<or> q \<notin># H"
    and mem: "ps_mem st' = (let m = (ps_mem st)(q := ps_mem st (entry_at w)) in
      m(t := (m t)(tablePageLoc v := q OR cow_cleared (entry_attr w))))"
    by (rule cow_fault_law [OF rel pr(2,3) cow pte(3) room])
  have q: "q \<noteq> t" "q \<noteq> d" using st'(4) t by auto
  have run: "dir_handleCOW d v st = Inr (True, st')"
    using dir_handleCOW_transparent [of d v] win st'(1) pr(1) t(1) by (simp add: transparent_def dir_cow_fault_def)
  let ?w = "q OR cow_cleared (entry_attr w)"
  have a0: "bit (entry_attr w) 0" using pr(3) by (simp add: entry_isPresent_bit entry_attr_def bit_and_iff bit_page_masks)
  note flags = cow_cleared_flags [OF a0] and e = entry_split [OF st'(3) cow_cleared_small [of "entry_attr w"]]
  have qb: "\<not> bit q n" if "n < 12" for n
  proof -
    have "\<not> bit (q AND 0xFFF) n" using st'(3) by (simp add: aligned_bits)
    with that show ?thesis by (simp add: bit_and_iff bit_page_masks)
  qed
  have "?w AND PTE_COW = 0"
    by (rule bit_word_eqI) (use flags qb [of 9] in \<open>auto simp: bit_and_iff bit_or_iff bit_PTE_COW\<close>)
  moreover have "bit ?w 1" using flags by (simp add: bit_or_iff)
  moreover have "user_pte st' d v = Some ?w"
    using pr(1) t(1,6) q st'(3) flags isPresent_or [OF st'(3)] mem
    by (simp add: user_pte_def dir_entry_def frame_words_def Let_def)
  moreover have "count (add_mset q (H - {#entry_at w#})) q = 1"
    using st'(4) by (auto simp: not_in_iff)
  ultimately show ?thesis
    using run st'(2) q(1) mem t(4) e by (intro exI [of _ st'] exI [of _ ?w]) (auto simp: Let_def)
qed

text \<open>A write fault on a copy-on-write page always leaves the faulting directory with a writable, private
  page: the frame it maps now is held once, has the contents the page had, and no other frame of memory
  but that one and the page table changed; so whoever shared the page still reads what it read.\<close>

theorem cow_fault_isolates:
  assumes win: "window_inv st" "3 \<le> window_free st" and rel: "phys_rel (ps_frames st) H"
    and pte: "user_pte st d v = Some w" "w AND PTE_COW \<noteq> 0" "entry_at w \<in># H"
    and t: "t = entry_at (dir_entry d (tableLoc v) st)" "t \<in># H" "d \<in># H" "t \<noteq> entry_at w" "d \<noteq> entry_at w" "t \<noteq> d"
    and room: "count H (entry_at w) \<noteq> 1 \<Longrightarrow> \<exists>f a. physicalFrameAlloc (ps_frames st) = Inr (f, a)"
  shows "\<exists>st' w'. dir_handleCOW d v st = Inr (True, st') \<and> user_pte st' d v = Some w' \<and>
    bit w' 1 \<and> w' AND PTE_COW = 0 \<and> phys_rel (ps_frames st') (add_mset (entry_at w') (H - {#entry_at w#})) \<and>
    count (add_mset (entry_at w') (H - {#entry_at w#})) (entry_at w') = 1 \<and>
    ps_mem st' (entry_at w') = ps_mem st (entry_at w) \<and>
    (\<forall>a. a \<noteq> entry_at w' \<and> a \<noteq> t \<longrightarrow> ps_mem st' a = ps_mem st a) \<and>
    (\<forall>j. j \<noteq> tablePageLoc v \<longrightarrow> ps_mem st' t j = ps_mem st t j)"
  by (rule dir_handleCOW_law [OF assms])

text \<open>A state with a directory at 0x800000, a table at 0x801000 and a page at 0x802000 shared by two
  directories.\<close>

definition shared_frames :: phys_frames where
  "shared_frames = \<lparr>pf_pool = \<lparr>pm_bitmap = [7]\<rparr>, pf_info = 1 # 1 # 2 # replicate 29 0\<rparr>"

definition shared_state :: paging_state where
  "shared_state = \<lparr>ps_frames = shared_frames, ps_vframes = frame_construct,
    ps_kdir = (\<lambda>i. push_bit 12 (of_nat i)), ps_ktab = (\<lambda>_ _. 0),
    ps_mem = (\<lambda>_ _. 0)(0x800000 := (\<lambda>_. 0)(1 := 0x801007), 0x801000 := (\<lambda>_. 0)(0 := 0x802205))\<rparr>"

lemma shared_reach: "phys_reach shared_frames {#0x802000, 0x802000, 0x801000, 0x800000#}"
proof -
  let ?f = "\<lambda>b is. \<lparr>pf_pool = \<lparr>pm_bitmap = [b]\<rparr>, pf_info = is\<rparr>"
  have 1: "physicalFrameAlloc (phys_construct 0x20000) = Inr (?f 1 (1 # replicate 31 0), 0x800000)" by code_simp
  have 2: "physicalFrameAlloc (?f 1 (1 # replicate 31 0)) = Inr (?f 3 (1 # 1 # replicate 30 0), 0x801000)" by code_simp
  have 3: "physicalFrameAlloc (?f 3 (1 # 1 # replicate 30 0)) = Inr (?f 7 (1 # 1 # 1 # replicate 29 0), 0x802000)"
    by code_simp
  have 4: "physicalFrameRetain (?f 7 (1 # 1 # 1 # replicate 29 0)) 0x802000 = Inr shared_frames" by code_simp
  have "phys_reach (?f 7 (1 # 1 # 1 # replicate 29 0)) {#0x802000, 0x801000, 0x800000#}"
    by (rule phys_reach.alloc [OF phys_reach.alloc [OF phys_reach.alloc [OF phys_reach.start 1] 2] 3])
  from phys_reach.retain [OF this _ _ 4] show ?thesis by simp
qed

lemma shared_window: "window_inv shared_state" "window_free shared_state = 63488"
proof -
  show "window_free shared_state = 63488"
    by (simp add: window_free_def shared_state_def frame_construct_facts)
  have u: "unat (push_bit 12 (of_nat i) :: u32) = 4096 * i" if "i < 1048576" for i
    using that by (simp add: push_bit_eq_mult unat_word_ariths unat_of_nat)
  have e: "entry_at (push_bit 12 (of_nat i)) = push_bit 12 (of_nat i)" if "i < 1048576" for i
    using page_aligned_eq [of "push_bit 12 (of_nat i)"] u [OF that]
    by (simp add: page_aligned_def entry_at_def thisPage_def alignDown_def)
  have "inj_on (\<lambda>i. entry_at (push_bit 12 (of_nat i))) {770..<832}"
  proof (rule inj_onI)
    fix i j :: nat
    assume ij: "i \<in> {770..<832}" "j \<in> {770..<832}" "entry_at (push_bit 12 (of_nat i)) = entry_at (push_bit 12 (of_nat j))"
    have lt: "i < 1048576" "j < 1048576" using ij(1,2) by auto
    then have "unat (push_bit 12 (of_nat i) :: u32) = unat (push_bit 12 (of_nat j) :: u32)"
      using ij(3) e [OF lt(1)] e [OF lt(2)] by simp
    moreover note lt
    ultimately show "i = j" using u [of i] u [of j] by linarith
  qed
  moreover have "entry_at (push_bit 12 (of_nat i)) \<noteq> 0" if "i \<in> {770..<832}" for i
  proof -
    have "i < 1048576" "0 < i" using that by auto
    then have "unat (entry_at (push_bit 12 (of_nat i))) \<noteq> 0" by (simp add: e u)
    then show ?thesis by (metis unat_0)
  qed
  ultimately show "window_inv shared_state"
    by (simp add: window_inv_def shared_state_def frame_construct_facts)
qed

theorem cow_fault_isolates_witness:
  "\<exists>st' w'. dir_handleCOW 0x800000 0x400000 shared_state = Inr (True, st') \<and>
    user_pte st' 0x800000 0x400000 = Some w' \<and> bit w' 1 \<and> ps_mem st' 0x802000 = ps_mem shared_state 0x802000"
proof -
  let ?H = "{#0x802000, 0x802000, 0x801000, 0x800000#} :: u32 multiset"
  have rel: "phys_rel (ps_frames shared_state) ?H"
    using phys_reach_rel [OF shared_reach] by (simp add: shared_state_def)
  have loc: "tableLoc 0x400000 = 1" "tablePageLoc 0x400000 = 0" by (simp_all add: tableLoc_def tablePageLoc_def)
  have pte: "user_pte shared_state 0x800000 0x400000 = Some 0x802205"
    by (simp add: user_pte_def dir_entry_def frame_words_def shared_state_def loc entry_isPresent_def entry_at_def
        PTE_Present_def Let_def)
  have free: "3 \<le> window_free shared_state" by (simp add: shared_window(2))
  have at: "entry_at (0x802205 :: u32) = 0x802000" by (simp add: entry_at_def)
  have room: "\<exists>f a. physicalFrameAlloc (ps_frames shared_state) = Inr (f, a)"
  proof -
    have "physicalFrameAlloc shared_frames = Inr (\<lparr>pf_pool = \<lparr>pm_bitmap = [15]\<rparr>, pf_info = 1 # 1 # 2 # 1 # replicate 28 0\<rparr>, 0x803000)"
      by code_simp
    then show ?thesis by (simp add: shared_state_def)
  qed
  have "\<exists>st' w'. dir_handleCOW 0x800000 0x400000 shared_state = Inr (True, st') \<and>
      user_pte st' 0x800000 0x400000 = Some w' \<and> bit w' 1 \<and> w' AND PTE_COW = 0 \<and>
      phys_rel (ps_frames st') (add_mset (entry_at w') (?H - {#entry_at 0x802205#})) \<and>
      count (add_mset (entry_at w') (?H - {#entry_at 0x802205#})) (entry_at w') = 1 \<and>
      ps_mem st' (entry_at w') = ps_mem shared_state (entry_at 0x802205) \<and>
      (\<forall>a. a \<noteq> entry_at w' \<and> a \<noteq> 0x801000 \<longrightarrow> ps_mem st' a = ps_mem shared_state a) \<and>
      (\<forall>j. j \<noteq> tablePageLoc 0x400000 \<longrightarrow> ps_mem st' 0x801000 j = ps_mem shared_state 0x801000 j)"
    by (rule cow_fault_isolates [OF shared_window(1) free rel pte])
      (use room in \<open>simp_all add: at PTE_COW_def dir_entry_def frame_words_def shared_state_def loc entry_at_def\<close>)
  then obtain st' w' where "dir_handleCOW 0x800000 0x400000 shared_state = Inr (True, st')"
    "user_pte st' 0x800000 0x400000 = Some w'" "bit w' 1"
    "ps_mem st' (entry_at w') = ps_mem shared_state 0x802000"
    "\<forall>a. a \<noteq> entry_at w' \<and> a \<noteq> 0x801000 \<longrightarrow> ps_mem st' a = ps_mem shared_state a"
    unfolding at by blast
  then show ?thesis by (intro exI [of _ st'] exI [of _ w']) (cases "entry_at w' = 0x802000"; simp)
qed

theorem mapper_leaves_no_trace_witness:
  "\<exists>m st'. mapper_open 0x802000 (shared_state\<lparr>ps_kdir := \<lambda>i. push_bit 12 (of_nat i) OR 1\<rparr>) = Inr (m, st') \<and>
    kernel_translate st' (mg_vaddr m) = Some 0x802000"
proof -
  let ?st = "shared_state\<lparr>ps_kdir := \<lambda>i. push_bit 12 (of_nat i) OR 1\<rparr>"
  have al: "page_aligned (push_bit 12 (of_nat i))" for i :: nat
    using aligned_add_pages [of 0] by (simp add: aligned_bits)
  have same: "entry_at (push_bit 12 (of_nat i) OR 1) = entry_at (push_bit 12 (of_nat i))" for i :: nat
    using entry_split(1) [OF al, of 1] entry_split(1) [OF al, of 0] by simp
  have "window_inv ?st"
    using shared_window(1) by (simp add: window_inv_def shared_state_def window_index_def same)
  moreover have "0 < window_free ?st"
    using shared_window(2) by (simp add: window_free_def)
  moreover have "\<forall>i\<in>{770..<832}. entry_isPresent (ps_kdir ?st i)"
    using isPresent_or [OF al] by (simp add: bit_0)
  ultimately have "\<exists>m st'. mapper_open 0x802000 ?st = Inr (m, st') \<and> kernel_translate st' (mg_vaddr m) = Some (thisPage 0x802000) \<and>
      mapper_close m st' = Inr ((), ?st)" by (rule mapper_leaves_no_trace)
  then show ?thesis by (auto simp: thisPage_def alignDown_def)
qed

theorem boot_kernel_window_witness:
  "kernel_translate (clearIdentityPaging (preparePaging 0x200000 shared_state)) 0xC07FF123 = Some 0xB8000"
  using boot_kernel_window [of "0x200000" "0xC07FF123" shared_state]
  by (simp add: page_aligned_def thisPage_def alignDown_def)

end
