(* ===== verification/Nyan_Range.thy ===== *)
theory Nyan_Range
  imports Nyan_Address "HOL-Library.Multiset"
begin

unbundle bit_operations_syntax

text \<open>
  \<^verbatim>\<open>RangeManager<Base, Top, Entry>\<close> (kernel/paging/range.hpp): a vector of address ranges in
  ascending order between two sentinels, and \<^verbatim>\<open>LargeFrameManager\<close>
  (kernel/allocator/large_frame.cpp), its instance for multi-page kernel allocations. The entry
  type of the template is an extensible record, the template's \<^verbatim>\<open>Base\<close> and \<^verbatim>\<open>Top\<close> are
  arguments, an iterator is an index. Dereferencing an iterator outside the vector is \<open>OutOfBounds\<close>.
\<close>

section \<open>Entries\<close>

record range_entry =
  re_begin :: vaddr
  re_end :: vaddr

definition re_contains :: "'a range_entry_scheme \<Rightarrow> vaddr \<Rightarrow> bool" where
  "re_contains e addr \<longleftrightarrow> re_begin e \<le> addr \<and> addr < re_end e"

definition re_contains_range :: "'a range_entry_scheme \<Rightarrow> vaddr \<Rightarrow> vaddr \<Rightarrow> bool" where
  "re_contains_range e b t \<longleftrightarrow> re_begin e \<le> b \<and> t \<le> re_end e"

definition re_bounds :: "'a range_entry_scheme \<Rightarrow> 'a range_entry_scheme \<Rightarrow> 'a range_entry_scheme \<Rightarrow> bool" where
  "re_bounds e right target \<longleftrightarrow> re_end e \<le> re_begin target \<and> re_end target \<le> re_begin right"

definition re_bounds_addr :: "'a range_entry_scheme \<Rightarrow> 'a range_entry_scheme \<Rightarrow> vaddr \<Rightarrow> bool" where
  "re_bounds_addr e right addr \<longleftrightarrow> re_end e \<le> addr \<and> addr < re_begin right"

definition re_besides :: "'a range_entry_scheme \<Rightarrow> 'a range_entry_scheme \<Rightarrow> bool" where
  "re_besides e right \<longleftrightarrow> re_end e = re_begin right"

section \<open>Operations\<close>

text \<open>\<open>mk\<close> stands for the entry type's two-argument constructor.\<close>

definition range_init :: "(vaddr \<Rightarrow> vaddr \<Rightarrow> 'e) \<Rightarrow> vaddr \<Rightarrow> vaddr \<Rightarrow> 'e list" where
  "range_init mk Base Top = [mk 0 Base, mk Top 0xFFFFF000]"

definition range_empty :: "'e list \<Rightarrow> bool" where
  "range_empty xs \<longleftrightarrow> length xs = 2"

definition range_interior :: "'e list \<Rightarrow> 'e list" where
  "range_interior xs = butlast (tl xs)"

definition range_clear :: "'e list \<Rightarrow> 'e list" where
  "range_clear xs = [hd xs, last xs]"

text \<open>\<^verbatim>\<open>std::partition_point\<close> and \<^verbatim>\<open>std::prev\<close>.\<close>

definition range_locate :: "'a range_entry_scheme list \<Rightarrow> vaddr \<Rightarrow> nat exec" where
  "range_locate xs addr =
    (case length (takeWhile (\<lambda>e. \<not> re_begin e > addr) xs) of 0 \<Rightarrow> Inl OutOfBounds | Suc n \<Rightarrow> Inr n)"

definition range_insert :: "'a range_entry_scheme list \<Rightarrow> 'a range_entry_scheme \<Rightarrow>
    (bool \<times> 'a range_entry_scheme list) exec" where
  "range_insert xs entry = sbind (range_locate xs (re_begin entry)) (\<lambda>pos.
    let right = Suc pos in
    if right \<ge> length xs then Inl OutOfBounds
    else if \<not> re_bounds (xs ! pos) (xs ! right) entry then Inr (False, xs)
    else Inr (True, take right xs @ entry # drop right xs))"

text \<open>The loop of \<^verbatim>\<open>find_free\<close>: the list starts at the iterator \<^verbatim>\<open>pos\<close>.\<close>

fun find_free_loop :: "u32 \<Rightarrow> vaddr \<Rightarrow> 'a range_entry_scheme list \<Rightarrow> vaddr option" where
  "find_free_loop sz hint (pos # right # rest) =
    (let lower = max (re_end pos) hint; upper = lower + sz in
     if add_overflow lower sz then None
     else if re_end pos \<le> lower \<and> upper \<le> re_begin right then Some lower
     else find_free_loop sz hint (right # rest))"
| "find_free_loop sz hint _ = None"

definition range_find_free :: "vaddr \<Rightarrow> vaddr \<Rightarrow> 'a range_entry_scheme list \<Rightarrow> u32 \<Rightarrow> vaddr \<Rightarrow>
    vaddr option exec" where
  "range_find_free Base Top xs sz hint =
    (if hint \<ge> Top then Inr None
     else let hint = (if hint < Base then Base else hint) in
       sbind (range_locate xs hint) (\<lambda>pos. Inr (find_free_loop sz hint (drop pos xs))))"

text \<open>
  \<^verbatim>\<open>__erase\<close> takes two callbacks: the calls of \<^verbatim>\<open>release\<close> are returned as the list of
  released ranges, in call order; \<open>split\<close> fills in the new left part of an entry cut in two.
\<close>

definition range_erase :: "(vaddr \<Rightarrow> vaddr \<Rightarrow> 'a range_entry_scheme) \<Rightarrow>
    ('a range_entry_scheme \<Rightarrow> 'a range_entry_scheme \<Rightarrow> 'a range_entry_scheme) \<Rightarrow> vaddr \<Rightarrow>
    'a range_entry_scheme list \<Rightarrow> vaddr \<Rightarrow> u32 \<Rightarrow>
    (bool \<times> 'a range_entry_scheme list \<times> (vaddr \<times> vaddr) list) exec" where
  "range_erase mk split Top xs addr sz =
    (let upper = addr + sz in
     if addr \<ge> Top \<or> add_overflow addr sz \<or> upper > Top then Inr (False, xs, [])
     else
       sbind (range_locate xs addr) (\<lambda>left0.
       let left = (if re_contains (xs ! left0) addr then left0 else Suc left0) in
       if left = length xs then Inr (True, xs, [])
       else
         sbind (range_locate xs upper) (\<lambda>right0.
         if re_begin (xs ! right0) \<ge> upper \<and> right0 = 0 then Inr (True, xs, [])
         else
           let right = (if re_begin (xs ! right0) \<ge> upper then right0 - 1 else right0);
               lower = addr; l = xs ! left; r = xs ! right
           in if left > right then Inr (True, xs, [])
           else if left = right then
             (if re_begin l \<ge> lower then
                (if re_end l \<le> upper
                 then Inr (True, take left xs @ drop (Suc left) xs, [(re_begin l, re_end l)])
                 else Inr (True, xs[left := l\<lparr>re_begin := upper\<rparr>], [(re_begin l, upper)]))
              else if re_end l \<le> upper
              then Inr (True, xs[left := l\<lparr>re_end := lower\<rparr>], [(lower, re_end l)])
              else Inr (True, take left xs @ split (mk (re_begin l) lower) l #
                     l\<lparr>re_begin := upper\<rparr> # drop (Suc left) xs, [(lower, upper)]))
           else
             let (xs1, rel1, first_to_remove) =
                   (if re_begin l < lower
                    then (xs[left := l\<lparr>re_end := lower\<rparr>], [(lower, re_end l)], Suc left)
                    else (xs, [], left));
                 (xs2, rel2, last_to_remove) =
                   (if re_end r > upper
                    then (xs1[right := r\<lparr>re_begin := upper\<rparr>], rel1 @ [(re_begin r, upper)], right - 1)
                    else (xs1, rel1, right))
             in if first_to_remove \<le> last_to_remove
                then Inr (True, take first_to_remove xs2 @ drop (Suc last_to_remove) xs2,
                  rel2 @ map (\<lambda>e. (re_begin e, re_end e))
                    (drop first_to_remove (take (Suc last_to_remove) xs2)))
                else Inr (True, xs2, rel2))))"

definition range_erase_at :: "'e list \<Rightarrow> nat \<Rightarrow> 'e list" where
  "range_erase_at xs i = take i xs @ drop (Suc i) xs"

section \<open>Large frames\<close>

definition large_frame_base :: vaddr where "large_frame_base = 0xD0000000"

definition large_frame_top :: vaddr where "large_frame_top = 0xFFFFF000"

definition LFEntry :: "vaddr \<Rightarrow> vaddr \<Rightarrow> range_entry" where
  "LFEntry b e = \<lparr>re_begin = b, re_end = e\<rparr>"

definition LargeFrameManager :: "range_entry list" where
  "LargeFrameManager = range_init LFEntry large_frame_base large_frame_top"

definition lf_alloc :: "range_entry list \<Rightarrow> u32 \<Rightarrow> (range_entry list \<times> vaddr option) exec" where
  "lf_alloc xs page = sbind
    (range_find_free large_frame_base large_frame_top xs (push_bit 12 page) large_frame_base) (\<lambda>found.
    case found of None \<Rightarrow> Inr (xs, None)
    | Some addr \<Rightarrow> sbind (range_insert xs (LFEntry addr (addr + push_bit 12 page)))
        (\<lambda>(ok, xs'). if \<not> ok then Inr (xs', None) else Inr (xs', Some addr)))"

definition lf_free :: "range_entry list \<Rightarrow> vaddr \<Rightarrow> (range_entry list \<times> u32) exec" where
  "lf_free xs addr =
    (if thisPage addr \<noteq> addr then Inl (Kfatal ''free addr not aligned'')
     else sbind (range_locate xs addr) (\<lambda>loc.
       if re_begin (xs ! loc) \<noteq> addr then Inl (Kfatal ''free addr not the begining'')
       else Inr (range_erase_at xs loc, drop_bit 12 (re_end (xs ! loc) - re_begin (xs ! loc)))))"

section \<open>Specification\<close>

text \<open>
  The well-formed vectors: sentinels at both ends, entries in ascending order without overlap,
  none empty but perhaps the upper sentinel.
\<close>

definition range_inv :: "vaddr \<Rightarrow> vaddr \<Rightarrow> 'a range_entry_scheme list \<Rightarrow> bool" where
  "range_inv Base Top xs \<longleftrightarrow> 2 \<le> length xs \<and>
    re_begin (hd xs) = 0 \<and> re_end (hd xs) = Base \<and> re_begin (last xs) = Top \<and> re_end (last xs) = 0xFFFFF000 \<and>
    sorted_wrt (\<lambda>a b. re_end a \<le> re_begin b) xs \<and>
    (\<forall>e\<in>set (butlast xs). re_begin e < re_end e) \<and> Top \<le> 0xFFFFF000"

definition covered :: "'a range_entry_scheme list \<Rightarrow> vaddr \<Rightarrow> bool" where
  "covered xs a \<longleftrightarrow> (\<exists>e\<in>set xs. re_contains e a)"

definition free_between :: "'a range_entry_scheme list \<Rightarrow> vaddr \<Rightarrow> vaddr \<Rightarrow> bool" where
  "free_between xs b t \<longleftrightarrow> (\<forall>e\<in>set xs. re_end e \<le> b \<or> t \<le> re_begin e)"

text \<open>What erasing \<open>[lower, upper)\<close> leaves of one entry, and what it releases of it.\<close>

definition clip :: "(vaddr \<Rightarrow> vaddr \<Rightarrow> 'a range_entry_scheme) \<Rightarrow>
    ('a range_entry_scheme \<Rightarrow> 'a range_entry_scheme \<Rightarrow> 'a range_entry_scheme) \<Rightarrow>
    vaddr \<Rightarrow> vaddr \<Rightarrow> 'a range_entry_scheme \<Rightarrow> 'a range_entry_scheme list" where
  "clip mk split lower upper e =
    (if re_end e \<le> lower \<or> upper \<le> re_begin e then [e]
     else if re_begin e < lower then
       (if upper < re_end e then [split (mk (re_begin e) lower) e, e\<lparr>re_begin := upper\<rparr>]
        else [e\<lparr>re_end := lower\<rparr>])
     else if upper < re_end e then [e\<lparr>re_begin := upper\<rparr>] else [])"

definition clip_released :: "vaddr \<Rightarrow> vaddr \<Rightarrow> 'a range_entry_scheme \<Rightarrow> (vaddr \<times> vaddr) list" where
  "clip_released lower upper e =
    (if re_end e \<le> lower \<or> upper \<le> re_begin e then []
     else [(max (re_begin e) lower, min (re_end e) upper)])"

section \<open>Locating an address\<close>

lemma range_split:
  assumes "range_inv Base Top (A @ e # C)"
  shows "x \<in> set A \<Longrightarrow> re_begin x < re_end x \<and> re_end x \<le> re_begin e"
    "y \<in> set C \<Longrightarrow> re_end e \<le> re_begin y" "x \<in> set A \<Longrightarrow> y \<in> set C \<Longrightarrow> re_end x \<le> re_begin y"
    "C \<noteq> [] \<Longrightarrow> re_begin e < re_end e" "y \<in> set (butlast C) \<Longrightarrow> re_begin y < re_end y"
    "re_begin e \<le> re_end e"
proof -
  note i = assms [unfolded range_inv_def sorted_wrt_append]
  show "x \<in> set A \<Longrightarrow> re_begin x < re_end x \<and> re_end x \<le> re_begin e" using i by (auto simp: butlast_append)
  show "y \<in> set C \<Longrightarrow> re_end e \<le> re_begin y" using i by simp
  show "x \<in> set A \<Longrightarrow> y \<in> set C \<Longrightarrow> re_end x \<le> re_begin y" using i by auto
  show "C \<noteq> [] \<Longrightarrow> re_begin e < re_end e" using i by (auto simp: butlast_append)
  show "y \<in> set (butlast C) \<Longrightarrow> re_begin y < re_end y" using i by (cases "C = []") (auto simp: butlast_append)
  show "re_begin e \<le> re_end e"
    using i by (cases "C = []") (auto simp: butlast_append)
qed

lemma range_inv_begin_le: "range_inv Base Top xs \<Longrightarrow> e \<in> set xs \<Longrightarrow> re_begin e \<le> re_end e"
  using range_split(6) by (metis split_list)

lemma locate_split:
  assumes inv: "range_inv Base Top xs"
  obtains A e C where "xs = A @ e # C" "range_locate xs a = Inr (length A)" "re_begin e \<le> a"
    "\<forall>y\<in>set C. a < re_begin y"
proof -
  let ?P = "\<lambda>e. \<not> re_begin e > a"
  let ?T = "takeWhile ?P xs"
  have ne: "xs \<noteq> []" "re_begin (hd xs) = 0" using inv by (auto simp: range_inv_def)
  then have "?T \<noteq> []" by (cases xs) auto
  then obtain A e where T: "?T = A @ [e]" by (metis rev_exhaust)
  define C where "C = dropWhile ?P xs"
  have xs: "xs = A @ e # C" using takeWhile_dropWhile_id [of ?P xs] T by (simp add: C_def)
  have "e \<in> set ?T" using T by simp
  then have "re_begin e \<le> a" by (auto dest: set_takeWhileD)
  moreover have "a < re_begin y" if y: "y \<in> set C" for y
  proof -
    obtain c D where C: "C = c # D" using y by (cases C) auto
    have c: "a < re_begin c" using hd_dropWhile [of ?P xs] C unfolding C_def by force
    show ?thesis
    proof (cases "y = c")
      case False
      then have D: "y \<in> set D" using y C by simp
      have "range_inv Base Top ((A @ [e]) @ c # D)" using inv xs C by simp
      from range_split(2,4) [OF this] D have "re_begin c < re_begin y" by (metis empty_iff list.set(1) less_le_trans)
      with c show ?thesis by simp
    qed (use c in simp)
  qed
  moreover have "range_locate xs a = Inr (length A)" using T by (simp add: range_locate_def)
  ultimately show ?thesis using that xs by blast
qed

lemma range_last: "range_inv Base Top (A @ e # C) \<Longrightarrow> re_begin e < Top \<Longrightarrow> C \<noteq> []"
  by (auto simp: range_inv_def)

lemma range_last_begin: "range_inv Base Top xs \<Longrightarrow> y \<in> set xs \<Longrightarrow> re_begin y \<le> Top"
proof -
  assume i: "range_inv Base Top xs" and y: "y \<in> set xs"
  then obtain A C where xs: "xs = A @ y # C" by (meson split_list)
  have "re_begin y \<le> re_begin (last xs)"
  proof (cases "C = []")
    case False
    then have "re_end y \<le> re_begin (last C)" "re_begin y < re_end y"
      using range_split [OF i [unfolded xs]] by auto
    with False show ?thesis by (simp add: xs)
  qed (simp add: xs)
  with i show ?thesis by (simp add: range_inv_def)
qed

section \<open>Insertion\<close>

lemma range_insert_law:
  assumes inv: "range_inv Base Top xs" and e: "re_begin entry < re_end entry" "re_begin entry < Top"
  shows "free_between xs (re_begin entry) (re_end entry) \<Longrightarrow>
      \<exists>A C. xs = A @ C \<and> range_insert xs entry = Inr (True, A @ entry # C) \<and> range_inv Base Top (A @ entry # C)"
    "\<not> free_between xs (re_begin entry) (re_end entry) \<Longrightarrow> range_insert xs entry = Inr (False, xs)"
proof -
  obtain A p C where xs: "xs = A @ p # C" and loc: "range_locate xs (re_begin entry) = Inr (length A)"
    and p: "re_begin p \<le> re_begin entry" and C: "\<forall>y\<in>set C. re_begin entry < re_begin y"
    by (rule locate_split [OF inv])
  note S = range_split [OF inv [unfolded xs]]
  have "re_begin p < Top" using p e(2) by simp
  then obtain r D where CD: "C = r # D" using range_last [OF inv [unfolded xs]] by (cases C) auto
  have bounds: "re_bounds p r entry \<longleftrightarrow> free_between xs (re_begin entry) (re_end entry)"
  proof
    assume b: "re_bounds p r entry"
    have "re_end entry \<le> re_begin y" if "y \<in> set C" for y
    proof (cases "y = r")
      case False
      then have D: "y \<in> set D" using that CD by simp
      have "range_inv Base Top ((A @ [p]) @ r # D)" using inv xs CD by simp
      from range_split(2) [OF this D] range_split(4) [OF this] D have "re_begin r \<le> re_begin y"
        by (cases D) auto
      with b show ?thesis by (auto simp: re_bounds_def intro: order_trans)
    qed (use b in \<open>auto simp: re_bounds_def\<close>)
    moreover have "re_end x \<le> re_begin entry" if "x \<in> set A" for x
      using S(1) [OF that] p by (meson order_trans)
    ultimately show "free_between xs (re_begin entry) (re_end entry)"
      using b by (auto simp: free_between_def xs re_bounds_def)
  next
    assume f: "free_between xs (re_begin entry) (re_end entry)"
    have "\<not> re_end entry \<le> re_begin p" "\<not> re_end r \<le> re_begin entry"
      using p e(1) C S(6) range_inv_begin_le [OF inv, of r] by (auto simp: CD xs not_le)
    with f show "re_bounds p r entry" by (auto simp: free_between_def xs CD re_bounds_def)
  qed
  have ins: "range_insert xs entry =
      (if re_bounds p r entry then Inr (True, A @ p # entry # C) else Inr (False, xs))"
    unfolding range_insert_def loc by (simp add: xs CD Let_def nth_append)
  show "range_insert xs entry = Inr (False, xs)" if "\<not> free_between xs (re_begin entry) (re_end entry)"
    using ins bounds that by simp
  assume free: "free_between xs (re_begin entry) (re_end entry)"
  have f2: "re_end x \<le> re_begin entry" if "x \<in> set A \<or> x = p" for x
    using that S(1) p free e(1) bounds by (auto simp: re_bounds_def intro: order_trans)
  have f3: "re_end entry \<le> re_begin y" if "y \<in> set C" for y
  proof -
    have "\<not> re_end y \<le> re_begin entry"
      using C that range_inv_begin_le [OF inv, of y] by (force simp: xs)
    with free that show ?thesis by (auto simp: free_between_def xs)
  qed
  have "range_inv Base Top (A @ p # entry # C)"
    using inv f2 f3 e(1) by (auto simp: range_inv_def xs CD sorted_wrt_append hd_append butlast_append)
  then show "\<exists>A C. xs = A @ C \<and> range_insert xs entry = Inr (True, A @ entry # C) \<and> range_inv Base Top (A @ entry # C)"
    using ins bounds free by (intro exI [of _ "A @ [p]"] exI [of _ C]) (simp add: xs)
qed

section \<open>Searching a gap\<close>

lemma find_free_sound:
  assumes "find_free_loop sz hint ys = Some a" "sorted_wrt (\<lambda>a b. re_end a \<le> re_begin b) ys"
    "\<forall>e\<in>set (butlast ys). re_begin e < re_end e"
  shows "hint \<le> a \<and> \<not> add_overflow a sz \<and> re_end (hd ys) \<le> a \<and> a + sz \<le> re_begin (last ys) \<and>
    (\<forall>e\<in>set ys. re_end e \<le> a \<or> a + sz \<le> re_begin e)"
  using assms
proof (induction sz hint ys rule: find_free_loop.induct)
  case (1 sz hint p r rest)
  let ?lower = "max (re_end p) hint"
  from 1(2) have no: "\<not> add_overflow ?lower sz" by (auto simp: Let_def split: if_splits)
  have rest: "re_begin r \<le> re_begin y" if "y \<in> set rest" for y
    using that 1(3,4) by (cases rest) (auto intro: order_trans less_imp_le)
  show ?case
  proof (cases "?lower + sz \<le> re_begin r")
    case True
    then have a: "a = ?lower" using 1(2) no by (simp add: Let_def)
    have "?lower + sz \<le> re_begin (last (r # rest))"
      using True rest by (cases "rest = []") (auto intro: order_trans)
    with True no rest show ?thesis by (auto simp: a intro: order_trans)
  next
    case False
    then have "find_free_loop sz hint (r # rest) = Some a" using 1(2) no by (simp add: Let_def)
    moreover have "sorted_wrt (\<lambda>a b. re_end a \<le> re_begin b) (r # rest)"
      "\<forall>e\<in>set (butlast (r # rest)). re_begin e < re_end e" using 1(3,4) by auto
    ultimately have IH: "hint \<le> a \<and> \<not> add_overflow a sz \<and> re_end r \<le> a \<and>
        a + sz \<le> re_begin (last (r # rest)) \<and> (\<forall>e\<in>set (r # rest). re_end e \<le> a \<or> a + sz \<le> re_begin e)"
      using "1.IH" [OF refl refl no] False by (simp add: Let_def)
    moreover have "re_end p \<le> a"
    proof (cases "rest = []")
      case True
      then show ?thesis using \<open>find_free_loop sz hint (r # rest) = Some a\<close> by simp
    next
      case False
      then have "re_end p \<le> re_begin r" "re_begin r < re_end r" using 1(3,4) by auto
      with IH show ?thesis by (meson less_imp_le order_trans)
    qed
    ultimately show ?thesis by simp
  qed
qed simp_all

lemma find_free_complete:
  assumes "2 \<le> length ys" "\<forall>e\<in>set ys. re_end e \<le> b \<or> b + sz \<le> re_begin e" "re_end (hd ys) \<le> b" "hint \<le> b"
    "\<not> add_overflow b sz" "b + sz \<le> re_begin (last ys)"
  shows "\<exists>a\<le>b. find_free_loop sz hint ys = Some a"
  using assms
proof (induction sz hint ys rule: find_free_loop.induct)
  case (1 sz hint p r rest)
  let ?lower = "max (re_end p) hint"
  have lb: "?lower \<le> b" using 1(4,5) by simp
  then have no: "\<not> add_overflow ?lower sz" and le: "?lower + sz \<le> b + sz"
    using 1(6) add_overflow_no [of b sz] add_overflow_no [of ?lower sz]
    by (auto simp: add_overflow_def word_le_nat_alt)
  show ?case
  proof (cases "?lower + sz \<le> re_begin r")
    case True
    with no lb show ?thesis by (auto simp: Let_def)
  next
    case False
    with le have nr: "\<not> b + sz \<le> re_begin r" by auto
    with 1(3,7) have "re_end r \<le> b" "rest \<noteq> []" by auto
    moreover from this have "2 \<le> length (r # rest)" by (cases rest) auto
    ultimately show ?thesis using "1.IH" [OF refl refl no] False 1(3-7) no by (simp add: Let_def)
  qed
qed auto

lemma range_find_free_law:
  assumes inv: "range_inv Base Top xs"
  shows "\<exists>r. range_find_free Base Top xs sz hint = Inr r \<and>
    (\<forall>a. r = Some a \<longrightarrow> hint \<le> a \<and> Base \<le> a \<and> \<not> add_overflow a sz \<and> a + sz \<le> Top \<and> free_between xs a (a + sz)) \<and>
    (\<forall>b. 0 < sz \<and> hint \<le> b \<and> \<not> add_overflow b sz \<and> b + sz \<le> Top \<and> free_between xs b (b + sz) \<longrightarrow>
      (\<exists>a\<le>b. r = Some a))"
proof (cases "hint \<ge> Top")
  case True
  have "\<not> b + sz \<le> Top" if "0 < sz" "hint \<le> b" "\<not> add_overflow b sz" for b
    using that True add_overflow_no [of b sz] by (simp add: word_le_nat_alt word_less_nat_alt)
  with True show ?thesis by (auto simp: range_find_free_def)
next
  case False
  define h where "h = (if hint < Base then Base else hint)"
  obtain A p C where xs: "xs = A @ p # C" and loc: "range_locate xs h = Inr (length A)"
    and p: "re_begin p \<le> h" and C: "\<forall>y\<in>set C. h < re_begin y"
    by (rule locate_split [OF inv])
  note S = range_split [OF inv [unfolded xs]]
  let ?r = "find_free_loop sz h (p # C)"
  have r: "range_find_free Base Top xs sz hint = Inr ?r"
    using False loc by (simp add: range_find_free_def Let_def flip: h_def) (simp add: xs)
  have lastxs: "last (p # C) = last xs" "re_begin (last xs) = Top" using inv by (auto simp: xs range_inv_def)
  have hh: "hint \<le> h" "Base \<le> h" by (auto simp: h_def)
  have sound: "hint \<le> a \<and> Base \<le> a \<and> \<not> add_overflow a sz \<and> a + sz \<le> Top \<and> free_between xs a (a + sz)"
    if a: "?r = Some a" for a
  proof -
    have "sorted_wrt (\<lambda>a b. re_end a \<le> re_begin b) (p # C)" "\<forall>e\<in>set (butlast (p # C)). re_begin e < re_end e"
      using inv by (auto simp: range_inv_def xs sorted_wrt_append butlast_append)
    note F = find_free_sound [OF a this, unfolded lastxs]
    have "re_end x \<le> a" if "x \<in> set A" for x using S(1) [OF that] p F by (meson order_trans)
    with F hh show ?thesis by (auto simp: free_between_def xs intro: order_trans)
  qed
  have complete: "\<exists>a\<le>b. ?r = Some a"
    if b: "0 < sz" "hint \<le> b" "\<not> add_overflow b sz" "b + sz \<le> Top" "free_between xs b (b + sz)" for b
  proof (rule find_free_complete)
    have lt: "b < b + sz" using b(1,3) by (simp add: word_less_nat_alt add_overflow_no)
    have hd: "hd xs \<in> set xs" "re_begin (hd xs) = 0" "re_end (hd xs) = Base"
      using inv by (auto simp: range_inv_def intro!: hd_in_set)
    have "\<not> b + sz \<le> re_begin (hd xs)" using lt unfolding hd(2) by (simp add: word_le_nat_alt word_less_nat_alt)
    then have "Base \<le> b" using b(5) hd(1) unfolding free_between_def hd(3) [symmetric] by blast
    then show "h \<le> b" using b(2) by (simp add: h_def)
    then have "\<not> b + sz \<le> re_begin p" using p lt by (meson leD less_le_trans order_trans)
    then show "re_end (hd (p # C)) \<le> b" using b(5) by (auto simp: free_between_def xs)
    have "re_begin p < Top" using p \<open>h \<le> b\<close> lt b(4) by (meson le_less_trans less_le_trans)
    then show "2 \<le> length (p # C)" using range_last [OF inv [unfolded xs]] by (cases C) auto
    show "b + sz \<le> re_begin (last (p # C))" unfolding lastxs by (rule b(4))
    show "\<forall>e\<in>set (p # C). re_end e \<le> b \<or> b + sz \<le> re_begin e" using b(5) by (auto simp: free_between_def xs)
  qed (rule b(3))
  from r sound complete show ?thesis by blast
qed

section \<open>Erasure\<close>

lemma clip_keep:
  "\<forall>x\<in>set A. re_end x \<le> lower \<or> upper \<le> re_begin x \<Longrightarrow> concat (map (clip mk split lower upper) A) = A"
  "\<forall>x\<in>set A. re_end x \<le> lower \<or> upper \<le> re_begin x \<Longrightarrow> concat (map (clip_released lower upper) A) = []"
  by (induction A) (auto simp: clip_def clip_released_def)

lemma clip_inside:
  assumes "lower < re_end x" "re_begin x < upper" "lower \<le> re_begin x" "re_end x \<le> upper"
  shows "clip mk split lower upper x = []" "clip_released lower upper x = [(re_begin x, re_end x)]"
  using assms by (auto simp: clip_def clip_released_def not_le max_absorb1 min_absorb1)

lemma clip_drop:
  assumes "\<forall>x\<in>set M. lower < re_end x \<and> re_begin x < upper \<and> lower \<le> re_begin x \<and> re_end x \<le> upper"
  shows "concat (map (clip mk split lower upper) M) = []"
    "concat (map (clip_released lower upper) M) = map (\<lambda>e. (re_begin e, re_end e)) M"
  using assms by (induction M) (simp_all add: clip_inside)

text \<open>The two iterators \<^verbatim>\<open>__erase\<close> computes.\<close>

lemma erase_left:
  assumes inv: "range_inv Base Top xs" and a: "addr < Top"
  obtains A l C n where "xs = A @ l # C" "range_locate xs addr = Inr n"
    "(if re_contains (xs ! n) addr then n else Suc n) = length A"
    "\<forall>x\<in>set A. re_end x \<le> addr" "addr \<le> re_end l" "C \<noteq> [] \<longrightarrow> addr < re_end l"
proof -
  obtain A p C where xs: "xs = A @ p # C" and loc: "range_locate xs addr = Inr (length A)"
    and p: "re_begin p \<le> addr" and C: "\<forall>y\<in>set C. addr < re_begin y"
    by (rule locate_split [OF inv])
  note S = range_split [OF inv [unfolded xs]]
  have "re_begin p < Top" using p a by simp
  then obtain r D where CD: "C = r # D" using range_last [OF inv [unfolded xs]] by (cases C) auto
  have A: "\<forall>x\<in>set A. re_end x \<le> addr" using S(1) p by (meson order_trans)
  show ?thesis
  proof (cases "re_contains p addr")
    case True
    then show ?thesis
      using that [OF xs loc _ A] CD by (auto simp: xs re_contains_def)
  next
    case False
    then have "re_end p \<le> addr" using p by (auto simp: re_contains_def)
    moreover have "addr < re_end r"
      using C range_inv_begin_le [OF inv, of r] by (auto simp: xs CD intro: less_le_trans)
    ultimately show ?thesis
      using that [of "A @ [p]" r D "length A"] loc A False by (auto simp: xs CD)
  qed
qed

lemma erase_right:
  assumes inv: "range_inv Base Top xs" and u: "0 < upper" "upper \<le> Top"
  obtains A r C n where "xs = A @ r # C" "range_locate xs upper = Inr n"
    "\<not> (re_begin (xs ! n) \<ge> upper \<and> n = 0)" "(if re_begin (xs ! n) \<ge> upper then n - 1 else n) = length A"
    "\<forall>x\<in>set C. upper \<le> re_begin x" "re_begin r < upper" "C \<noteq> []"
proof -
  obtain A p C where xs: "xs = A @ p # C" and loc: "range_locate xs upper = Inr (length A)"
    and p: "re_begin p \<le> upper" and C: "\<forall>y\<in>set C. upper < re_begin y"
    by (rule locate_split [OF inv])
  note S = range_split [OF inv [unfolded xs]]
  show ?thesis
  proof (cases "re_begin p = upper")
    case True
    have "A \<noteq> []" using inv True u(1) by (auto simp: range_inv_def xs)
    then obtain B r where A: "A = B @ [r]" by (metis rev_exhaust)
    have "re_begin r < upper" using S(1) [of r] True A by auto
    then show ?thesis
      using that [of B r "p # C" "length A"] loc C True by (auto simp: xs A nth_append less_imp_le)
  next
    case False
    then have lt: "re_begin p < upper" using p by simp
    then have "C \<noteq> []" using range_last [OF inv [unfolded xs]] u(2) by simp
    moreover have "\<not> upper \<le> re_begin p" using lt by simp
    ultimately show ?thesis using that [OF xs loc] C lt by (auto simp: xs less_imp_le)
  qed
qed

lemma append_Cons_order:
  assumes "A @ l # C = B @ r # D" "length A < length B"
  obtains M where "B = A @ l # M" "C = M @ r # D"
proof -
  have "take (length A) B = A" using assms by (metis append_eq_append_conv_if less_imp_le_nat)
  moreover have "drop (length A) B \<noteq> []" using assms(2) by simp
  ultimately obtain x M where B: "B = A @ x # M" by (metis append_take_drop_id neq_Nil_conv)
  with assms(1) that show ?thesis by auto
qed

lemma range_erase_refines:
  assumes inv: "range_inv Base Top xs" and no: "\<not> add_overflow addr sz" and sz: "0 < sz" and top: "addr + sz \<le> Top"
  shows "\<exists>rel. range_erase mk split Top xs addr sz =
      Inr (True, concat (map (clip mk split addr (addr + sz)) xs), rel) \<and>
      mset rel = mset (concat (map (clip_released addr (addr + sz)) xs))"
proof -
  define upper where "upper = addr + sz"
  have lt: "addr < upper" using no sz by (simp add: upper_def word_less_nat_alt add_overflow_no)
  then have pos: "0 < upper" "addr < Top" using top upper_def by (auto simp: word_less_nat_alt word_le_nat_alt)
  obtain A l C n where L: "xs = A @ l # C" "range_locate xs addr = Inr n"
    "(if re_contains (xs ! n) addr then n else Suc n) = length A"
    "\<forall>x\<in>set A. re_end x \<le> addr" "addr \<le> re_end l" "C \<noteq> [] \<longrightarrow> addr < re_end l"
    by (rule erase_left [OF inv pos(2)])
  obtain B r D k where R: "xs = B @ r # D" "range_locate xs upper = Inr k"
    "\<not> (re_begin (xs ! k) \<ge> upper \<and> k = 0)" "(if re_begin (xs ! k) \<ge> upper then k - 1 else k) = length B"
    "\<forall>x\<in>set D. upper \<le> re_begin x" "re_begin r < upper" "D \<noteq> []"
    by (rule erase_right [OF inv pos(1) top [folded upper_def]])
  have guard: "\<not> (addr \<ge> Top \<or> add_overflow addr sz \<or> upper > Top)" "length A \<noteq> length xs"
    using pos(2) no top L(1) by (auto simp: upper_def)
  note start = range_erase_def [of mk split Top xs addr sz, folded upper_def, unfolded Let_def if_not_P [OF guard(1)]
      L(2) R(2) sbind_simps L(3) R(4) if_not_P [OF guard(2)] if_not_P [OF R(3)]]
  have keepA: "\<forall>x\<in>set A. re_end x \<le> addr \<or> upper \<le> re_begin x" and keepD: "\<forall>x\<in>set D. re_end x \<le> addr \<or> upper \<le> re_begin x"
    using L(4) R(5) by blast+
  consider "length B < length A" | "length A = length B" | "length A < length B" by linarith
  then show ?thesis
  proof cases
    case 1
    obtain M where M: "A = B @ r # M" "D = M @ l # C"
      by (rule append_Cons_order [of B r D A l C]) (use L(1) R(1) 1 in auto)
    have "\<forall>x\<in>set xs. re_end x \<le> addr \<or> upper \<le> re_begin x"
      using keepA keepD by (auto simp: L(1) M)
    from clip_keep [OF this] start 1 show ?thesis by (simp flip: upper_def)
  next
    case 2
    then have e: "B = A" "r = l" "D = C" using L(1) R(1) by auto
    have l: "addr < re_end l" "re_begin l < upper" using L(6) R(6,7) e by auto
    have nth: "xs ! length A = l" by (simp add: L(1))
    have cl: "concat (map (clip mk split addr upper) xs) = A @ clip mk split addr upper l @ C"
      "concat (map (clip_released addr upper) xs) = clip_released addr upper l"
      by (simp_all add: L(1) clip_keep [OF keepA] clip_keep [OF keepD [unfolded e]])
    show ?thesis
      unfolding start upper_def [symmetric] cl using l 2
      by (auto simp: e nth clip_def clip_released_def L(1) not_le not_less max_def min_def)
  next
    case 3
    obtain M where M: "B = A @ l # M" "C = M @ r # D"
      by (rule append_Cons_order [of A l C B r D]) (use L(1) R(1) 3 in auto)
    have xs: "xs = A @ l # M @ r # D" by (simp add: L(1) M)
    note S1 = range_split [OF inv [unfolded xs]]
    note S2 = range_split [of Base Top "A @ l # M" r D, simplified, OF inv [unfolded xs]]
    have l: "addr < re_end l" "re_begin l < upper" "re_begin l < re_end l"
      using L(6) M(2) S1(2) [of r] S1(4) R(6) by auto
    have r: "addr < re_begin r" "re_begin r < re_end r" using l(1) S1(2) [of r] S2(4) R(7) by auto
    have lr: "re_end l < upper" "addr < re_end r" using S1(2) [of r] R(6) r by auto
    have inM: "\<forall>x\<in>set M. addr < re_end x \<and> re_begin x < upper \<and> addr \<le> re_begin x \<and> re_end x \<le> upper"
    proof
      fix x assume x: "x \<in> set M"
      have "re_end l \<le> re_begin x" "re_begin x < re_end x" "re_end x \<le> re_begin r"
        using S1(2) [of x] S2(1) [of x] x by auto
      with l R(6) show "addr < re_end x \<and> re_begin x < upper \<and> addr \<le> re_begin x \<and> re_end x \<le> upper"
        by auto
    qed
    have le: "\<not> re_end l \<le> addr" "\<not> upper \<le> re_begin l" "\<not> upper < re_end l" "min (re_end l) upper = re_end l"
      "\<not> re_end r \<le> addr" "\<not> upper \<le> re_begin r" "\<not> re_begin r < addr" "max (re_begin r) addr = re_begin r"
      using l r lr R(6) by auto
    have one: "clip mk split addr upper l = (if re_begin l < addr then [l\<lparr>re_end := addr\<rparr>] else [])"
      "clip mk split addr upper r = (if upper < re_end r then [r\<lparr>re_begin := upper\<rparr>] else [])"
      "clip_released addr upper l = [(if re_begin l < addr then addr else re_begin l, re_end l)]"
      "clip_released addr upper r = [(re_begin r, if upper < re_end r then upper else re_end r)]"
      by (simp_all add: clip_def clip_released_def le)
    have cl: "concat (map (clip mk split addr upper) xs) =
        A @ (if re_begin l < addr then [l\<lparr>re_end := addr\<rparr>] else []) @
        (if upper < re_end r then [r\<lparr>re_begin := upper\<rparr>] else []) @ D"
      by (simp add: xs one clip_keep(1) [OF keepA] clip_keep(1) [OF keepD] clip_drop(1) [OF inM])
    have cr: "concat (map (clip_released addr upper) xs) =
        (if re_begin l < addr then addr else re_begin l, re_end l) #
        map (\<lambda>e. (re_begin e, re_end e)) M @ [(re_begin r, if upper < re_end r then upper else re_end r)]"
      by (simp add: xs one clip_keep(2) [OF keepA] clip_keep(2) [OF keepD] clip_drop(2) [OF inM])
    have idx: "xs ! length A = l" "xs ! length B = r" "length B = Suc (length A + length M)"
      by (simp_all add: xs M(1) nth_append)
    show ?thesis
      unfolding start upper_def [symmetric] cl cr using 3
      by (cases "re_begin l < addr"; cases "upper < re_end r")
        (simp_all add: idx xs list_update_append nth_append Suc_le_eq)
  qed
qed

section \<open>What erasure leaves\<close>

text \<open>
  An entry type whose constructor and \<^verbatim>\<open>split\<close> callback keep the bounds they are given: this is what
  \<^verbatim>\<open>__erase\<close> relies on.
\<close>

locale splittable =
  fixes mk :: "vaddr \<Rightarrow> vaddr \<Rightarrow> 'a range_entry_scheme"
    and split :: "'a range_entry_scheme \<Rightarrow> 'a range_entry_scheme \<Rightarrow> 'a range_entry_scheme"
  assumes split_begin: "re_begin (split (mk b t) e) = b"
    and split_end: "re_end (split (mk b t) e) = t"
begin

lemma clip_pieces:
  assumes "lower < upper" "re_begin e \<le> re_end e" "x \<in> set (clip mk split lower upper e)"
  shows "re_begin e \<le> re_begin x" "re_end x \<le> re_end e" "re_begin e < re_end e \<Longrightarrow> re_begin x < re_end x"
  using assms by (auto simp: clip_def split_begin split_end split: if_splits)

lemma clip_sorted:
  assumes "lower < upper" "re_begin e \<le> re_end e"
  shows "sorted_wrt (\<lambda>a b. re_end a \<le> re_begin b) (clip mk split lower upper e)"
  using assms by (auto simp: clip_def split_begin split_end)

lemma clip_covered:
  assumes "lower < upper" "re_begin e \<le> re_end e"
  shows "covered (clip mk split lower upper e) a \<longleftrightarrow> re_contains e a \<and> \<not> (lower \<le> a \<and> a < upper)"
  using assms by (auto simp: clip_def split_begin split_end covered_def re_contains_def)

lemma clip_list_sorted:
  assumes "lower < upper" "\<forall>e\<in>set xs. re_begin e \<le> re_end e" "sorted_wrt (\<lambda>a b. re_end a \<le> re_begin b) xs"
  shows "sorted_wrt (\<lambda>a b. re_end a \<le> re_begin b) (concat (map (clip mk split lower upper) xs))"
  using assms
proof (induction xs)
  case (Cons e xs)
  have "re_end x \<le> re_begin y"
    if "x \<in> set (clip mk split lower upper e)" "z \<in> set xs" "y \<in> set (clip mk split lower upper z)" for x y z
  proof -
    have "re_end x \<le> re_end e" "re_begin z \<le> re_begin y"
      using clip_pieces Cons.prems(1,2) that by auto
    with Cons.prems(3) that(2) show ?thesis by (auto intro: order_trans)
  qed
  with Cons clip_sorted show ?case by (auto simp: sorted_wrt_append)
qed simp

lemma clip_inv:
  assumes inv: "range_inv Base Top xs" and b: "Base \<le> lower" "lower < upper" "upper \<le> Top"
  shows "range_inv Base Top (concat (map (clip mk split lower upper) xs))"
proof -
  have len: "2 \<le> length xs" using inv by (simp add: range_inv_def)
  then obtain h xs1 where "xs = h # xs1" by (cases xs) auto
  moreover from this len have "xs1 \<noteq> []" by auto
  ultimately obtain M l where xs: "xs = h # M @ [l]" by (metis rev_exhaust append_Cons)
  have hl: "re_end h = Base" "re_begin l = Top" using inv by (auto simp: range_inv_def xs)
  have keep: "clip mk split lower upper h = [h]" "clip mk split lower upper l = [l]"
    using b hl by (auto simp: clip_def)
  have M: "\<forall>e\<in>set M. re_begin e < re_end e" using inv by (auto simp: range_inv_def xs butlast_append)
  let ?M = "concat (map (clip mk split lower upper) M)"
  have out: "concat (map (clip mk split lower upper) xs) = h # ?M @ [l]" by (simp add: xs keep)
  have "sorted_wrt (\<lambda>a b. re_end a \<le> re_begin b) (h # ?M @ [l])"
    unfolding out [symmetric]
    by (rule clip_list_sorted) (use inv b range_inv_begin_le in \<open>auto simp: range_inv_def\<close>)
  moreover have "re_begin x < re_end x" if "x \<in> set ?M" for x
    using that M clip_pieces(3) [OF b(2)] by (auto simp: less_imp_le)
  ultimately show ?thesis using inv unfolding out by (auto simp: range_inv_def xs butlast_append)
qed

lemma clip_list_covered:
  assumes "lower < upper" "\<forall>e\<in>set xs. re_begin e \<le> re_end e"
  shows "covered (concat (map (clip mk split lower upper) xs)) a \<longleftrightarrow> covered xs a \<and> \<not> (lower \<le> a \<and> a < upper)"
  using assms(2)
proof (induction xs)
  case (Cons e xs)
  then have "covered (clip mk split lower upper e) a \<longleftrightarrow> re_contains e a \<and> \<not> (lower \<le> a \<and> a < upper)"
    using clip_covered assms(1) by simp
  with Cons show ?case by (auto simp: covered_def)
qed (simp add: covered_def)

lemma erase_law:
  assumes inv: "range_inv Base Top xs" and a: "Base \<le> addr" "\<not> add_overflow addr sz" "0 < sz" "addr + sz \<le> Top"
  obtains xs' rel where "range_erase mk split Top xs addr sz = Inr (True, xs', rel)" "range_inv Base Top xs'"
    "xs' = concat (map (clip mk split addr (addr + sz)) xs)"
    "\<forall>p. covered xs' p \<longleftrightarrow> covered xs p \<and> \<not> (addr \<le> p \<and> p < addr + sz)"
    "mset rel = mset (concat (map (clip_released addr (addr + sz)) xs))"
proof -
  have lt: "addr < addr + sz" using a(2,3) by (simp add: word_less_nat_alt add_overflow_no)
  from range_erase_refines [OF inv a(2-4), of mk split] clip_inv [OF inv a(1) lt a(4)]
    clip_list_covered [OF lt] range_inv_begin_le [OF inv] that
  show ?thesis by blast
qed

end

lemma released_covered:
  assumes "lower < upper" "\<forall>e\<in>set xs. re_begin e \<le> re_end e"
  shows "(\<exists>(b, t)\<in>set (concat (map (clip_released lower upper) xs)). b \<le> p \<and> p < t) \<longleftrightarrow>
    covered xs p \<and> lower \<le> p \<and> p < upper"
  using assms(2)
proof (induction xs)
  case (Cons e xs)
  have "(\<exists>(b, t)\<in>set (clip_released lower upper e). b \<le> p \<and> p < t) \<longleftrightarrow> re_contains e p \<and> lower \<le> p \<and> p < upper"
    by (auto simp: clip_released_def re_contains_def)
  with Cons show ?case by (auto simp: covered_def)
qed (simp add: covered_def)

section \<open>Large frames: properties\<close>

lemma locate_begin:
  assumes inv: "range_inv Base Top (A @ e # C)"
  shows "range_locate (A @ e # C) (re_begin e) = Inr (length A)"
proof -
  obtain B p D where xs: "A @ e # C = B @ p # D" and loc: "range_locate (A @ e # C) (re_begin e) = Inr (length B)"
    and p: "re_begin p \<le> re_begin e" and D: "\<forall>y\<in>set D. re_begin e < re_begin y"
    by (rule locate_split [OF inv])
  consider "length A < length B" | "length A = length B" | "length B < length A" by linarith
  then have "length A = length B"
  proof cases
    case 1
    then obtain M where "B = A @ e # M" using append_Cons_order [OF xs] by blast
    with range_split(1) [of Base Top B p D e] inv xs p show ?thesis by fastforce
  next
    case 3
    then obtain M where "D = M @ e # C" using append_Cons_order [OF xs [symmetric]] by blast
    with D show ?thesis by simp
  qed simp
  with loc show ?thesis by simp
qed

definition lf_inv :: "range_entry list \<Rightarrow> bool" where
  "lf_inv xs \<longleftrightarrow> range_inv large_frame_base large_frame_top xs \<and>
    (\<forall>e\<in>set xs. page_aligned (re_begin e) \<and> page_aligned (re_end e))"

lemma find_free_aligned:
  "find_free_loop sz hint ys = Some a \<Longrightarrow> page_aligned hint \<Longrightarrow> \<forall>e\<in>set ys. page_aligned (re_end e) \<Longrightarrow> page_aligned a"
  by (induction sz hint ys rule: find_free_loop.induct) (auto simp: Let_def max_def split: if_splits)

lemma range_find_free_aligned:
  assumes "range_find_free Base Top xs sz hint = Inr (Some a)" "page_aligned hint" "page_aligned Base"
    "\<forall>e\<in>set xs. page_aligned (re_end e)"
  shows "page_aligned a"
proof -
  obtain n h where l: "find_free_loop sz h (drop n xs) = Some a" "h = Base \<or> h = hint"
    using assms(1) by (force simp: range_find_free_def Let_def sbind_eq_Inr_iff split: if_splits)
  have "\<forall>e\<in>set (drop n xs). page_aligned (re_end e)" using assms(4) by (meson in_set_dropD)
  with find_free_aligned [OF l(1)] l(2) assms(2,3) show ?thesis by auto
qed

text \<open>Inserting a non-empty range below the top succeeds exactly when the range overlaps no entry;
  then the vector stays sorted and disjoint and covers exactly the new range more, and otherwise it
  is left alone.\<close>

theorem range_insert_exact:
  assumes "range_inv Base Top xs" "re_begin e < re_end e" "re_begin e < Top"
  shows "\<exists>ok xs'. range_insert xs e = Inr (ok, xs') \<and> range_inv Base Top xs' \<and>
    (ok \<longleftrightarrow> free_between xs (re_begin e) (re_end e)) \<and>
    (\<forall>a. covered xs' a \<longleftrightarrow> covered xs a \<or> ok \<and> re_contains e a)"
proof (cases "free_between xs (re_begin e) (re_end e)")
  case True
  then obtain A C where "xs = A @ C" "range_insert xs e = Inr (True, A @ e # C)" "range_inv Base Top (A @ e # C)"
    using range_insert_law(1) [OF assms] by blast
  with True show ?thesis by (auto simp: covered_def)
next
  case False
  with range_insert_law(2) [OF assms] assms(1) show ?thesis by auto
qed

theorem range_insert_exact_witness:
  "\<exists>xs'. range_insert LargeFrameManager (LFEntry 0xD0001000 0xD0003000) = Inr (True, xs') \<and> covered xs' 0xD0002FFF"
proof -
  have i: "range_inv large_frame_base large_frame_top LargeFrameManager"
    by (simp add: range_inv_def LargeFrameManager_def range_init_def LFEntry_def large_frame_base_def large_frame_top_def)
  have f: "free_between LargeFrameManager 0xD0001000 0xD0003000"
    by (simp add: free_between_def LargeFrameManager_def range_init_def LFEntry_def large_frame_base_def large_frame_top_def)
  from range_insert_exact [OF i, of "LFEntry 0xD0001000 0xD0003000"] f show ?thesis
    by (auto simp: LFEntry_def large_frame_top_def re_contains_def)
qed

text \<open>The search for a gap is first fit: what it returns is at or above the hint and the base, does not
  wrap, ends below the top and overlaps no entry; and when any such place exists, it finds one at or below
  it.\<close>

theorem find_free_first_fit:
  assumes "range_inv Base Top xs"
  shows "\<exists>r. range_find_free Base Top xs sz hint = Inr r \<and>
    (\<forall>a. r = Some a \<longrightarrow> hint \<le> a \<and> Base \<le> a \<and> \<not> add_overflow a sz \<and> a + sz \<le> Top \<and> free_between xs a (a + sz)) \<and>
    (\<forall>b. 0 < sz \<and> hint \<le> b \<and> \<not> add_overflow b sz \<and> b + sz \<le> Top \<and> free_between xs b (b + sz) \<longrightarrow>
      (\<exists>a\<le>b. r = Some a))"
  by (rule range_find_free_law [OF assms])

theorem find_free_first_fit_witness:
  "\<exists>r. range_find_free large_frame_base large_frame_top LargeFrameManager 0x2000 0 = Inr r \<and>
    (\<exists>a\<le>0xD0005000. r = Some a)"
proof -
  have i: "range_inv large_frame_base large_frame_top LargeFrameManager"
    by (simp add: range_inv_def LargeFrameManager_def range_init_def LFEntry_def large_frame_base_def large_frame_top_def)
  have f: "free_between LargeFrameManager 0xD0005000 (0xD0005000 + 0x2000)"
    by (simp add: free_between_def LargeFrameManager_def range_init_def LFEntry_def large_frame_base_def large_frame_top_def)
  have "\<not> add_overflow 0xD0005000 0x2000" "0xD0005000 + 0x2000 \<le> large_frame_top"
    by (simp_all add: add_overflow_def large_frame_top_def)
  with find_free_first_fit [OF i, of "0x2000" 0] f show ?thesis by auto
qed

text \<open>A large allocation of \<open>page\<close> pages returns a page-aligned region of the window from 0xD0000000 that
  overlaps no other, fails only when no such region is left, and freeing its address gives back the page
  count and the manager as it was.\<close>

theorem large_frame_alloc_free:
  assumes inv: "lf_inv xs" and page: "0 < page" "page < 0x100000"
  shows "\<exists>xs' r. lf_alloc xs page = Inr (xs', r) \<and> lf_inv xs' \<and>
    (\<forall>a. r = Some a \<longrightarrow> large_frame_base \<le> a \<and> page_aligned a \<and> unat a + 4096 * unat page \<le> unat large_frame_top \<and>
      free_between xs a (a + push_bit 12 page) \<and> lf_free xs' a = Inr (xs, page)) \<and>
    (r = None \<longrightarrow> xs' = xs \<and> (\<forall>b. page_aligned b \<and> \<not> add_overflow b (push_bit 12 page) \<and>
      b + push_bit 12 page \<le> large_frame_top \<longrightarrow> \<not> free_between xs b (b + push_bit 12 page)))"
proof -
  define sz :: u32 where "sz = push_bit 12 page"
  have pg: "unat page < 1048576" using page(2) by (simp add: word_less_nat_alt)
  have usz: "unat sz = 4096 * unat page"
    using pg by (simp add: sz_def push_bit_eq_mult unat_word_ariths)
  have szp: "0 < sz" "page_aligned sz" using page(1) by (simp_all add: word_less_nat_alt usz page_aligned_def)
  have ri: "range_inv large_frame_base large_frame_top xs" using inv by (simp add: lf_inv_def)
  from range_find_free_law [OF ri, of sz large_frame_base]
  obtain r where r: "range_find_free large_frame_base large_frame_top xs sz large_frame_base = Inr r"
    and sound: "\<forall>a. r = Some a \<longrightarrow> large_frame_base \<le> a \<and> large_frame_base \<le> a \<and> \<not> add_overflow a sz \<and>
      a + sz \<le> large_frame_top \<and> free_between xs a (a + sz)"
    and complete: "\<forall>b. 0 < sz \<and> large_frame_base \<le> b \<and> \<not> add_overflow b sz \<and> b + sz \<le> large_frame_top \<and>
      free_between xs b (b + sz) \<longrightarrow> (\<exists>a\<le>b. r = Some a)"
    by (elim exE conjE)
  show ?thesis
  proof (cases r)
    case None
    have "large_frame_base \<le> b" if "\<not> add_overflow b sz" "free_between xs b (b + sz)" for b
    proof -
      have "\<not> b + sz \<le> 0" using szp(1) that(1) by (simp add: word_le_nat_alt word_less_nat_alt add_overflow_no)
      moreover have "hd xs \<in> set xs" "re_begin (hd xs) = 0" "re_end (hd xs) = large_frame_base"
        using ri by (auto simp: range_inv_def intro!: hd_in_set)
      ultimately show ?thesis using that(2) unfolding free_between_def by metis
    qed
    with None complete szp(1) r inv show ?thesis by (auto simp: lf_alloc_def simp flip: sz_def)
  next
    case (Some a)
    note S = sound [rule_format, OF Some]
    have al: "page_aligned a"
      using range_find_free_aligned [OF r [unfolded Some]] inv
      by (simp add: lf_inv_def large_frame_base_def page_aligned_def)
    have ua: "unat (a + sz) = unat a + 4096 * unat page" using S by (simp add: add_overflow_no usz)
    have lt: "a < a + sz" using page(1) by (simp add: word_less_nat_alt ua)
    then have top: "a < large_frame_top" using S by (meson less_le_trans)
    let ?e = "LFEntry a (a + sz)"
    obtain A C where x: "xs = A @ C" "range_insert xs ?e = Inr (True, A @ ?e # C)"
      "range_inv large_frame_base large_frame_top (A @ ?e # C)"
      using range_insert_law(1) [OF ri, of ?e] lt top S by (auto simp: LFEntry_def)
    have inv': "lf_inv (A @ ?e # C)"
      using inv x(1,3) al szp(2) by (auto simp: lf_inv_def LFEntry_def page_aligned_add)
    have "drop_bit 12 (a + sz - a) = page"
      using pg by (simp add: word_unat_eq_iff unat_shiftr usz)
    then have "lf_free (A @ ?e # C) a = Inr (xs, page)"
      using locate_begin [OF x(3)] al
      by (simp add: lf_free_def page_aligned_eq LFEntry_def range_erase_at_def x(1))
    moreover have "unat a + 4096 * unat page \<le> unat large_frame_top"
      using S by (simp add: word_le_nat_alt ua)
    ultimately show ?thesis
      using inv' Some r x(2) S al by (simp add: lf_alloc_def flip: sz_def)
  qed
qed

theorem large_frame_alloc_free_witness:
  "\<exists>xs'. lf_alloc LargeFrameManager 3 = Inr (xs', Some large_frame_base) \<and> lf_free xs' large_frame_base = Inr (LargeFrameManager, 3)"
proof -
  have i: "lf_inv LargeFrameManager"
    by (simp add: lf_inv_def range_inv_def LargeFrameManager_def range_init_def LFEntry_def large_frame_base_def
        large_frame_top_def page_aligned_def)
  have "map_option snd (case lf_alloc LargeFrameManager 3 of Inl e \<Rightarrow> None | Inr v \<Rightarrow> Some v) = Some (Some large_frame_base)"
    by (simp add: lf_alloc_def range_find_free_def range_locate_def LargeFrameManager_def range_init_def LFEntry_def
        large_frame_base_def large_frame_top_def add_overflow_def range_insert_def re_bounds_def)
  then obtain xs' where "lf_alloc LargeFrameManager 3 = Inr (xs', Some large_frame_base)"
    by (auto split: sum.splits)
  with large_frame_alloc_free [OF i, of 3] show ?thesis by auto
qed

end
