(* ===== verification/Nyan_Kalloc.thy ===== *)
theory Nyan_Kalloc
  imports Nyan_Slab Nyan_Paging Nyan_Range
begin

unbundle bit_operations_syntax

text \<open>
  The kernel's allocation entry points (kernel/allocator/mod.cpp): single frames, runs of frames and
  \<^verbatim>\<open>autoAlloc\<close>/\<^verbatim>\<open>autoFree\<close>, which choose between slab, frame and large frame by size and, on
  release, by address. The contents of frames the kernel maps for itself are their words in \<open>ps_mem\<close>.
\<close>

section \<open>Operations\<close>

definition frameAlloc :: "paging_state \<Rightarrow> (vaddr \<times> paging_state) exec" where
  "frameAlloc = pbind phys_alloc (\<lambda>physicalAddr st.
    sbind (virtualFrameAlloc (ps_vframes st)) (\<lambda>(f, virtualAddr).
    pbind (kernel_map virtualAddr physicalAddr (PTE_Present OR PTE_ReadWrite)) (\<lambda>_ st.
      Inr (virtualAddr, set_words physicalAddr table_clear st)) (st\<lparr>ps_vframes := f\<rparr>)))"

definition frameFree :: "vaddr \<Rightarrow> paging_state \<Rightarrow> (unit \<times> paging_state) exec" where
  "frameFree virtualAddr = pbind (kernel_unmap virtualAddr) (\<lambda>r st. case r of
      None \<Rightarrow> Inl (Kfatal ''frameFree unmap failed'')
    | Some physicalAddr \<Rightarrow> sbind (virtualFrameFree (ps_vframes st) virtualAddr) (\<lambda>f.
        phys_release physicalAddr (st\<lparr>ps_vframes := f\<rparr>)))"

record kernel_heap =
  kh_paging :: paging_state
  kh_slab :: slab_manager
  kh_large :: "range_entry list"

definition allocator_load :: "u32 \<Rightarrow> paging_state \<Rightarrow> kernel_heap" where
  "allocator_load upper st = \<lparr>
    kh_paging = st\<lparr>ps_frames := phys_construct (upper - pool_base), ps_vframes := frame_construct\<rparr>,
    kh_slab = SlabManager, kh_large = LargeFrameManager\<rparr>"

fun large_map :: "nat \<Rightarrow> vaddr \<Rightarrow> paging_state \<Rightarrow> (unit \<times> paging_state) exec" where
  "large_map 0 cur = preturn ()"
| "large_map (Suc n) cur = pbind phys_alloc (\<lambda>pAddr.
    pbind (kernel_map cur pAddr (PTE_Present OR PTE_ReadWrite)) (\<lambda>_ st.
      large_map n (nextPage cur) (set_words pAddr table_clear st)))"

definition largeFrameAlloc :: "u32 \<Rightarrow> kernel_heap \<Rightarrow> (vaddr \<times> kernel_heap) exec" where
  "largeFrameAlloc page k = sbind (lf_alloc (kh_large k) page) (\<lambda>(large, addr). case addr of
      None \<Rightarrow> Inl (Kfatal ''large frame alloc failed'')
    | Some a \<Rightarrow> sbind (large_map (unat page) a (kh_paging k)) (\<lambda>(_, st).
        Inr (a, k\<lparr>kh_large := large, kh_paging := st\<rparr>)))"

fun large_unmap :: "nat \<Rightarrow> vaddr \<Rightarrow> paging_state \<Rightarrow> (unit \<times> paging_state) exec" where
  "large_unmap 0 addr = preturn ()"
| "large_unmap (Suc n) addr = pbind (kernel_unmap addr) (\<lambda>r. case r of
      None \<Rightarrow> (\<lambda>_. Inl (Kfatal ''largeFrameFree unmap failed''))
    | Some pAddr \<Rightarrow> pbind (phys_release pAddr) (\<lambda>_. large_unmap n (nextPage addr)))"

definition largeFrameFree :: "vaddr \<Rightarrow> kernel_heap \<Rightarrow> (unit \<times> kernel_heap) exec" where
  "largeFrameFree addr k = sbind (lf_free (kh_large k) addr) (\<lambda>(large, page).
    sbind (large_unmap (unat page) addr (kh_paging k)) (\<lambda>(_, st).
      Inr ((), k\<lparr>kh_large := large, kh_paging := st\<rparr>)))"

definition autoAlloc :: "u32 \<Rightarrow> kernel_heap \<Rightarrow> (vaddr option \<times> kernel_heap) exec" where
  "autoAlloc sz k =
    (if sz \<le> 512
     then sbind (slab_alloc frameAlloc sz (kh_slab k) (kh_paging k)) (\<lambda>(r, m, st).
       Inr (r, k\<lparr>kh_slab := m, kh_paging := st\<rparr>))
     else if sz \<le> 4096
     then sbind (frameAlloc (kh_paging k)) (\<lambda>(a, st). Inr (Some a, k\<lparr>kh_paging := st\<rparr>))
     else sbind (largeFrameAlloc (drop_bit 12 (sz + 0xFFF)) k) (\<lambda>(a, k'). Inr (Some a, k')))"

definition autoFree :: "vaddr \<Rightarrow> kernel_heap \<Rightarrow> (unit \<times> kernel_heap) exec" where
  "autoFree frame k =
    (if frame = 0 then Inr ((), k)
     else if frame \<ge> large_frame_base then largeFrameFree frame k
     else if frame AND 0xFFF \<noteq> 0
     then sbind (slab_free frameFree frame (kh_slab k) (kh_paging k)) (\<lambda>(m, st).
       Inr ((), k\<lparr>kh_slab := m, kh_paging := st\<rparr>))
     else sbind (frameFree frame (kh_paging k)) (\<lambda>(_, st). Inr ((), k\<lparr>kh_paging := st\<rparr>)))"

section \<open>Frames of the kernel window\<close>

definition kernel_pte :: "paging_state \<Rightarrow> vaddr \<Rightarrow> u32" where
  "kernel_pte st v = ps_ktab st (window_index v st) (tablePageLoc v)"

definition window_frames :: "paging_state \<Rightarrow> vaddr set" where
  "window_frames st = {frameAt r | r. unat r < 63488 \<and> unat r \<in> bitmap_bits (fm_bitmap (ps_vframes st))}"

text \<open>Every used frame of the window is mapped, and the physical frames mapped there are among the references
  held.\<close>

definition heap_frames_ok :: "paging_state \<Rightarrow> bool" where
  "heap_frames_ok st \<longleftrightarrow> window_inv st \<and> (\<forall>v\<in>window_frames st. entry_isPresent (kernel_pte st v)) \<and>
    (\<exists>H. phys_rel (ps_frames st) H \<and>
      image_mset (\<lambda>v. entry_at (kernel_pte st v)) (mset_set (window_frames st)) \<subseteq># H)"

lemma finite_window_frames [simp]: "finite (window_frames st)"
  by (rule finite_subset [of _ "range frameAt"]) (auto simp: window_frames_def)

lemma frameAt_aligned: "page_aligned (frameAt r)"
  using aligned_add_pages [of frame_base r] by (simp add: aligned_bits frameAt_def frame_base_def)

lemma frameAt_inj: "unat r < 63488 \<Longrightarrow> unat q < 63488 \<Longrightarrow> frameAt r = frameAt q \<Longrightarrow> r = q"
  by (metis frameAt_locs(5))

lemma kernel_pte_put:
  assumes "window_inv st" "unat r < 63488" "unat q < 63488"
  shows "window_put (frameAt r) p st (window_index (frameAt q) st) (tablePageLoc (frameAt q)) =
    (if q = r then thisPage p OR 3 else kernel_pte st (frameAt q))"
  using window_slot_inj [OF assms(1,2,3)] by (auto simp: window_put_def kernel_pte_def)

lemma frameAlloc_law:
  assumes ok: "heap_frames_ok st" and al: "frameAlloc st = Inr (v, st')"
  shows "heap_frames_ok st' \<and> page_aligned v \<and> v \<notin> window_frames st \<and> window_frames st' = insert v (window_frames st)"
proof -
  obtain H where win: "window_inv st" and pres: "\<forall>v\<in>window_frames st. entry_isPresent (kernel_pte st v)"
    and rel: "phys_rel (ps_frames st) H"
    and sub: "image_mset (\<lambda>v. entry_at (kernel_pte st v)) (mset_set (window_frames st)) \<subseteq># H"
    using ok by (auto simp: heap_frames_ok_def)
  obtain f p where p: "physicalFrameAlloc (ps_frames st) = Inr (f, p)"
    using al by (auto simp: frameAlloc_def pbind_def phys_alloc_def sbind_eq_Inr_iff)
  define st1 where "st1 = st\<lparr>ps_frames := f\<rparr>"
  have win1: "window_inv st1" using win by (simp add: st1_def window_inv_def window_index_def)
  obtain vf r where fr: "frame_alloc (ps_vframes st1) = Inr (vf, r)"
    using al p by (auto simp: frameAlloc_def pbind_def phys_alloc_def virtualFrameAlloc_def sbind_eq_Inr_iff st1_def)
  note O = mapper_open_law [OF win1 fr]
  have op: "mapper_open p st1 = Inr (\<lparr>mg_paddr = p, mg_vaddr = frameAt r\<rparr>, set_window vf (ps_kdir st1) (window_put (frameAt r) p st1) st1)"
    by (rule O(4))
  have res: "v = frameAt r" "st' = set_words p table_clear (set_window vf (ps_kdir st1) (window_put (frameAt r) p st1) st1)"
    using al p op by (auto simp: frameAlloc_def mapper_open_def pbind_def phys_alloc_def st1_def preturn_def sbind_eq_Inr_iff)
  have used': "window_frames st' = insert v (window_frames st)"
    using O(1,3) by (auto simp: res window_frames_def set_words_def st1_def simp flip: word_unat_eq_iff)
  have new: "v \<notin> window_frames st"
    using O(1,2) frameAt_inj by (auto simp: res(1) window_frames_def st1_def)
  have win': "window_inv st'" using O(5) [of p] by (simp add: res(2) set_words_def window_inv_def window_index_def set_window_def)
  have pte: "kernel_pte st' (frameAt q) = (if q = r then thisPage p OR 3 else kernel_pte st (frameAt q))"
    if "unat q < 63488" for q
    using kernel_pte_put [OF win1 O(1) that, of p]
    by (simp add: res(2) kernel_pte_def window_index_def set_words_def set_window_def st1_def)
  have pal: "page_aligned p"
    using p pageAt_aligned by (auto simp: physicalFrameAlloc_def sbind_eq_Inr_iff aligned_bits split: if_splits)
  then have tp: "thisPage p = p" by (simp add: page_aligned_eq)
  have pv: "entry_at (kernel_pte st' v) = p" "entry_isPresent (kernel_pte st' v)"
    using pte [OF O(1)] entry_split(1) [OF pal, of 3] isPresent_or [OF pal, of 3] by (simp_all add: res(1) tp)
  have old: "kernel_pte st' u = kernel_pte st u" if "u \<in> window_frames st" for u
    using that pte O(2) by (auto simp: window_frames_def st1_def)
  have "phys_rel (ps_frames st') (add_mset p H)"
    using phys_rel_alloc [OF rel p] by (simp add: res(2) set_words_def st1_def)
  moreover have "image_mset (\<lambda>v. entry_at (kernel_pte st' v)) (mset_set (window_frames st')) \<subseteq># add_mset p H"
  proof -
    have "image_mset (\<lambda>v. entry_at (kernel_pte st' v)) (mset_set (window_frames st)) =
        image_mset (\<lambda>v. entry_at (kernel_pte st v)) (mset_set (window_frames st))"
      by (rule image_mset_cong) (simp add: old)
    with sub new pv(1) show ?thesis by (simp add: used')
  qed
  moreover have "\<forall>u\<in>window_frames st'. entry_isPresent (kernel_pte st' u)" using pres old pv(2) by (auto simp: used')
  ultimately show ?thesis using win' used' new frameAt_aligned by (auto simp: heap_frames_ok_def res(1))
qed

lemma frameFree_law:
  assumes ok: "heap_frames_ok st" and v: "v \<in> window_frames st"
  shows "\<exists>st'. frameFree v st = Inr ((), st') \<and> heap_frames_ok st' \<and> window_frames st' = window_frames st - {v}"
proof -
  obtain H where win: "window_inv st" and pres: "\<forall>v\<in>window_frames st. entry_isPresent (kernel_pte st v)"
    and rel: "phys_rel (ps_frames st) H"
    and sub: "image_mset (\<lambda>v. entry_at (kernel_pte st v)) (mset_set (window_frames st)) \<subseteq># H"
    using ok by (auto simp: heap_frames_ok_def)
  obtain r where r: "v = frameAt r" "unat r < 63488" "unat r \<in> bitmap_bits (fm_bitmap (ps_vframes st))"
    using v by (auto simp: window_frames_def)
  have fi: "frame_inv (ps_vframes st)" using win by (simp add: window_inv_def)
  then have lim: "unat r < 32 * length (fm_bitmap (ps_vframes st))" using r(2) by (simp add: frame_inv_def)
  obtain f where f: "frame_free (ps_vframes st) r = Inr f" "frame_inv f"
    "bitmap_bits (fm_bitmap f) = bitmap_bits (fm_bitmap (ps_vframes st)) - {unat r}"
    using frames.free_ok [OF fi lim] by auto
  define p where "p = entry_at (kernel_pte st v)"
  have split: "mset_set (window_frames st) = add_mset v (mset_set (window_frames st - {v}))"
    using v by (simp add: mset_set.remove)
  have pH: "p \<in># H" using sub unfolding split by (simp add: p_def insert_subset_eq_iff)
  obtain fr where fr: "physicalFrameRelease (ps_frames st) p = Inr fr" "phys_rel fr (H - {#p#})"
    using phys_rel_release [OF rel pH] by blast
  let ?tb = "window_index v st"
  have tb: "?tb \<noteq> 0" using win frameAt_locs(6) [OF r(2)] by (auto simp: window_inv_def window_index_def r(1))
  define kt where "kt = (ps_ktab st)(?tb := (ps_ktab st ?tb)(tablePageLoc v := 0))"
  define st' where "st' = st\<lparr>ps_ktab := kt, ps_vframes := f, ps_frames := fr\<rparr>"
  have pr: "kernel_pte st v AND PTE_Present \<noteq> 0" using pres v by (simp add: entry_isPresent_def)
  have run: "frameFree v st = Inr ((), st')"
    using tb pr f(1) fr(1) frameAt_locs(5) [OF r(2)]
    by (simp add: frameFree_def pbind_def kernel_unmap_def Let_def table_unmap_def window_index_def kernel_pte_def p_def
        entry_at_def virtualFrameFree_def phys_release_def st'_def kt_def r(1))
  have pte: "kernel_pte st' (frameAt q) = (if q = r then 0 else kernel_pte st (frameAt q))" if "unat q < 63488" for q
    using window_slot_inj [OF win r(2) that] by (auto simp: kernel_pte_def st'_def kt_def window_index_def r(1))
  have wf: "window_frames st' = window_frames st - {v}"
    using f(3) r(1,2) frameAt_inj [OF r(2)] frameAt_inj [OF _ r(2)]
    by (auto simp: window_frames_def st'_def simp flip: word_unat_eq_iff)
  have old: "kernel_pte st' u = kernel_pte st u" if "u \<in> window_frames st - {v}" for u
    using that pte r(1) by (auto simp: window_frames_def)
  have "window_inv st'"
  proof -
    have "kernel_pte st' (frameAt q) = 0"
      if "unat q < 63488" "unat q \<notin> bitmap_bits (fm_bitmap (ps_vframes st)) - {unat r}" for q
      using pte [OF that(1)] win that by (auto simp: window_inv_def kernel_pte_def word_unat_eq_iff)
    with win f(2,3) show ?thesis by (simp add: window_inv_def st'_def window_index_def kernel_pte_def)
  qed
  moreover have "image_mset (\<lambda>v. entry_at (kernel_pte st' v)) (mset_set (window_frames st')) \<subseteq># H - {#p#}"
  proof -
    have "image_mset (\<lambda>v. entry_at (kernel_pte st' v)) (mset_set (window_frames st - {v})) =
        image_mset (\<lambda>v. entry_at (kernel_pte st v)) (mset_set (window_frames st - {v}))"
      by (rule image_mset_cong) (simp add: old)
    with sub show ?thesis by (simp add: wf split p_def insert_subset_eq_iff)
  qed
  moreover have "phys_rel (ps_frames st') (H - {#p#})" using fr(2) by (simp add: st'_def)
  moreover have "\<forall>u\<in>window_frames st'. entry_isPresent (kernel_pte st' u)" using pres old by (auto simp: wf)
  ultimately show ?thesis using run wf by (auto simp: heap_frames_ok_def)
qed

interpretation kframes: frame_source heap_frames_ok window_frames frameAlloc frameFree
  by unfold_locales (use frameAlloc_law frameFree_law in auto)

section \<open>The heap\<close>

definition heap_inv :: "kernel_heap \<Rightarrow> bool" where
  "heap_inv k \<longleftrightarrow> heap_frames_ok (kh_paging k) \<and> slab_inv (kh_slab k) \<and> slabs_owned (kh_slab k) (window_frames (kh_paging k))"

lemma window_frames_below: "v \<in> window_frames st \<Longrightarrow> v < large_frame_base \<and> v \<noteq> 0 \<and> page_aligned v"
  using frameAt_locs(1,4) frameAt_aligned by (force simp: window_frames_def word_less_nat_alt large_frame_base_def)

lemma chunk_below:
  assumes "thisPage x \<in> window_frames st" "\<not> page_aligned x"
  shows "x < large_frame_base" "x \<noteq> 0" "x AND 0xFFF \<noteq> 0"
proof -
  have p: "unat (thisPage x) < unat large_frame_base" "page_aligned (thisPage x)"
    using window_frames_below [OF assms(1)] by (auto simp: word_less_nat_alt)
  have "unat x < unat (thisPage x) + 4096" by (simp add: unat_thisPage)
  moreover have "unat (thisPage x) + 4096 \<le> unat large_frame_base"
  proof -
    obtain j where "unat (thisPage x) = 4096 * j" using p(2) by (auto simp: page_aligned_def)
    with p(1) show ?thesis by (simp add: large_frame_base_def)
  qed
  ultimately show "x < large_frame_base" by (simp add: word_less_nat_alt)
  show "x \<noteq> 0" using assms(2) by (auto simp: page_aligned_def)
  show "x AND 0xFFF \<noteq> 0" using assms(2) by (simp add: aligned_bits)
qed

text \<open>C8: a small allocation (at most 512 bytes) returns a chunk nobody holds, big enough and inside one page of the
  kernel window; every chunk held before stays held. Releasing a chunk by its address alone always reaches
  the slab it came from and gives back exactly that chunk, whatever else is allocated.\<close>

theorem small_alloc_free:
  assumes inv: "heap_inv k" and sz: "sz \<le> 512"
  shows "(\<forall>r k'. autoAlloc sz k = Inr (r, k') \<longrightarrow> (\<exists>x. r = Some x \<and> heap_inv k' \<and> x \<notin> live_chunks (kh_slab k) \<and>
      live_chunks (kh_slab k') = insert x (live_chunks (kh_slab k)) \<and> thisPage x \<in> window_frames (kh_paging k') \<and>
      unat x + unat sz \<le> unat (thisPage x) + 4096)) \<and>
    (\<forall>x\<in>live_chunks (kh_slab k). \<exists>k'. autoFree x k = Inr ((), k') \<and> heap_inv k' \<and>
      live_chunks (kh_slab k') = live_chunks (kh_slab k) - {x})"
proof (intro conjI allI impI ballI)
  fix r k' assume al: "autoAlloc sz k = Inr (r, k')"
  have i: "slab_inv (kh_slab k)" "heap_frames_ok (kh_paging k)" "slabs_owned (kh_slab k) (window_frames (kh_paging k))"
    using inv by (auto simp: heap_inv_def)
  obtain m st where s: "slab_alloc frameAlloc sz (kh_slab k) (kh_paging k) = Inr (r, m, st)"
    and k': "k' = k\<lparr>kh_slab := m, kh_paging := st\<rparr>"
    using al sz by (auto simp: autoAlloc_def sbind_eq_Inr_iff)
  from kframes.slab_alloc_ok [OF i sz s]
  show "\<exists>x. r = Some x \<and> heap_inv k' \<and> x \<notin> live_chunks (kh_slab k) \<and>
      live_chunks (kh_slab k') = insert x (live_chunks (kh_slab k)) \<and> thisPage x \<in> window_frames (kh_paging k') \<and>
      unat x + unat sz \<le> unat (thisPage x) + 4096"
    by (force simp: k' heap_inv_def)
next
  fix x assume x: "x \<in> live_chunks (kh_slab k)"
  have i: "slab_inv (kh_slab k)" "heap_frames_ok (kh_paging k)" "slabs_owned (kh_slab k) (window_frames (kh_paging k))"
    using inv by (auto simp: heap_inv_def)
  obtain a s where a: "sm_slabs (kh_slab k) a = Some s" "x \<in> chunks_of a (sh_chunk_size s)"
    using x by (auto simp: live_chunks_def slab_live_def)
  have "slab_ok a s" using slab_invD(3) [OF i(1) a(1)] .
  then have "thisPage x = a" "\<not> page_aligned x" using chunks_ofD [OF a(2)] by (auto simp: slab_ok_def)
  moreover have "a \<in> window_frames (kh_paging k)" using i(3) a(1) by (auto simp: slabs_owned_def)
  ultimately have b: "x < large_frame_base" "x \<noteq> 0" "x AND 0xFFF \<noteq> 0" using chunk_below [of x "kh_paging k"] by auto
  obtain m st where f: "slab_free frameFree x (kh_slab k) (kh_paging k) = Inr (m, st)" "slab_inv m" "heap_frames_ok st"
    "slabs_owned m (window_frames st)" "live_chunks m = live_chunks (kh_slab k) - {x}"
    using kframes.slab_free_ok [OF i x] by blast
  then show "\<exists>k'. autoFree x k = Inr ((), k') \<and> heap_inv k' \<and> live_chunks (kh_slab k') = live_chunks (kh_slab k) - {x}"
    using b by (auto simp: autoFree_def heap_inv_def)
qed

lemma heap_inv_start: "heap_inv \<lparr>kh_paging = shared_state, kh_slab = SlabManager, kh_large = LargeFrameManager\<rparr>"
proof -
  have w: "window_frames shared_state = {}" by (simp add: window_frames_def shared_state_def frame_construct_facts)
  have "heap_frames_ok shared_state"
    using shared_window(1) phys_reach_rel [OF shared_reach]
    by (auto simp: heap_frames_ok_def w shared_state_def [THEN arg_cong [of _ _ ps_frames]])
  moreover have "slab_inv SlabManager" by (auto simp: slab_inv_def SlabManager_def cache_ok_def)
  ultimately show ?thesis by (simp add: heap_inv_def slabs_owned_def SlabManager_def)
qed

lemma frameAlloc_total:
  assumes "window_inv st" "0 < window_free st" "physicalFrameAlloc (ps_frames st) = Inr (f, p)"
  shows "\<exists>v st'. frameAlloc st = Inr (v, st')"
proof -
  obtain vf r where al: "frame_alloc (ps_vframes st) = Inr (vf, r)" by (rule window_alloc_total [OF assms(1,2)])
  show ?thesis
    using assms(3) al mapper_open_law(7) [OF assms(1) al]
    by (simp add: frameAlloc_def pbind_def phys_alloc_def virtualFrameAlloc_def kernel_map_def window_index_def Let_def)
qed

lemma frameAlloc_shared: "\<exists>v st'. frameAlloc shared_state = Inr (v, st')"
proof -
  have "physicalFrameAlloc shared_frames = Inr (\<lparr>pf_pool = \<lparr>pm_bitmap = [15]\<rparr>, pf_info = 1 # 1 # 2 # 1 # replicate 28 0\<rparr>, 0x803000)"
    by code_simp
  then have "physicalFrameAlloc (ps_frames shared_state) = Inr (\<lparr>pf_pool = \<lparr>pm_bitmap = [15]\<rparr>, pf_info = 1 # 1 # 2 # 1 # replicate 28 0\<rparr>, 0x803000)"
    by (simp add: shared_state_def)
  from frameAlloc_total [OF shared_window(1) _ this] show ?thesis by (simp add: shared_window(2))
qed

theorem small_alloc_free_witness:
  "\<exists>x k'. autoAlloc 100 \<lparr>kh_paging = shared_state, kh_slab = SlabManager, kh_large = LargeFrameManager\<rparr> = Inr (Some x, k') \<and>
    heap_inv k' \<and> x \<in> live_chunks (kh_slab k')"
proof -
  obtain v st where f: "frameAlloc shared_state = Inr (v, st)" using frameAlloc_shared by blast
  obtain c where c: "findSuitableCache 100 = Inr c" "5 \<le> c" "c \<le> 10" using findSuitableCache_ok [of 100] by auto
  then have i: "c - 5 < 6" by simp
  have "\<exists>r k'. autoAlloc 100 \<lparr>kh_paging = shared_state, kh_slab = SlabManager, kh_large = LargeFrameManager\<rparr> = Inr (r, k')"
    using c i by (simp add: autoAlloc_def slab_alloc_def SlabManager_def f case_prod_beta Let_def)
  with small_alloc_free [OF heap_inv_start, of 100] show ?thesis by fastforce
qed

text \<open>A page-sized allocation (513 to 4096 bytes) returns a page-aligned address of the kernel window that was
  free, and \<^verbatim>\<open>autoFree\<close> of such an address releases the frame and nothing else.\<close>

theorem frame_alloc_free:
  assumes inv: "heap_inv k" and sz: "512 < sz" "sz \<le> 4096"
  shows "(\<forall>r k'. autoAlloc sz k = Inr (r, k') \<longrightarrow> (\<exists>v. r = Some v \<and> heap_inv k' \<and> page_aligned v \<and>
      v \<notin> window_frames (kh_paging k) \<and> window_frames (kh_paging k') = insert v (window_frames (kh_paging k)) \<and>
      kh_slab k' = kh_slab k)) \<and>
    (\<forall>v\<in>window_frames (kh_paging k). v \<notin> dom (sm_slabs (kh_slab k)) \<longrightarrow> (\<exists>k'. autoFree v k = Inr ((), k') \<and>
      heap_inv k' \<and> window_frames (kh_paging k') = window_frames (kh_paging k) - {v} \<and> kh_slab k' = kh_slab k))"
proof (intro conjI allI impI ballI)
  fix r k' assume al: "autoAlloc sz k = Inr (r, k')"
  have big: "\<not> sz \<le> 512" using sz(1) by (simp add: not_le)
  obtain v st where s: "frameAlloc (kh_paging k) = Inr (v, st)" "r = Some v" "k' = k\<lparr>kh_paging := st\<rparr>"
    using al sz(2) big by (auto simp: autoAlloc_def sbind_eq_Inr_iff)
  have "heap_frames_ok (kh_paging k)" using inv by (simp add: heap_inv_def)
  from kframes.fa_ok [OF this s(1)] s(2,3) inv
  show "\<exists>v. r = Some v \<and> heap_inv k' \<and> page_aligned v \<and> v \<notin> window_frames (kh_paging k) \<and>
      window_frames (kh_paging k') = insert v (window_frames (kh_paging k)) \<and> kh_slab k' = kh_slab k"
    by (auto simp: heap_inv_def slabs_owned_def)
next
  fix v assume v: "v \<in> window_frames (kh_paging k)" "v \<notin> dom (sm_slabs (kh_slab k))"
  have "heap_frames_ok (kh_paging k)" using inv by (simp add: heap_inv_def)
  from kframes.ff_ok [OF this v(1)] obtain st where
    st: "frameFree v (kh_paging k) = Inr ((), st)" "heap_frames_ok st" "window_frames st = window_frames (kh_paging k) - {v}"
    by blast
  have "v AND 0xFFF = 0" "\<not> large_frame_base \<le> v" "v \<noteq> 0"
    using window_frames_below [OF v(1)] by (auto simp: aligned_bits not_le)
  with st v(2) inv show "\<exists>k'. autoFree v k = Inr ((), k') \<and> heap_inv k' \<and>
      window_frames (kh_paging k') = window_frames (kh_paging k) - {v} \<and> kh_slab k' = kh_slab k"
    by (auto simp: autoFree_def heap_inv_def slabs_owned_def)
qed

theorem frame_alloc_free_witness:
  "\<exists>v k'. autoAlloc 4096 \<lparr>kh_paging = shared_state, kh_slab = SlabManager, kh_large = LargeFrameManager\<rparr> = Inr (Some v, k') \<and>
    page_aligned v"
proof -
  obtain v st where "frameAlloc shared_state = Inr (v, st)" using frameAlloc_shared by blast
  then have "\<exists>r k'. autoAlloc 4096 \<lparr>kh_paging = shared_state, kh_slab = SlabManager, kh_large = LargeFrameManager\<rparr> = Inr (r, k')"
    by (simp add: autoAlloc_def)
  with frame_alloc_free [OF heap_inv_start, of 4096] show ?thesis by fastforce
qed

end
