(* ===== verification/Nyan_Result.thy ===== *)
theory Nyan_Result
  imports Nyan_Prelude
begin

text \<open>
  \<^verbatim>\<open>Errno\<close> and \<^verbatim>\<open>Result<T...>\<close> (kernel/lib/result.hpp) and the error numbers of
  include/nyan/errno.h. A \<^verbatim>\<open>Result<T>\<close> is a sum, \<open>Inl\<close> carrying the error number;
  \<^verbatim>\<open>__try\<close> is \<open>sbind\<close>. \<open>result_merge\<close> and \<open>result_extract\<close> are the conversions to and from the
  single 32-bit register a system call returns in.
\<close>

datatype errno = Errno (errno_no: int)

type_synonym 'a result = "errno + 'a"

abbreviation SYS_ENOENT :: errno where
  "SYS_ENOENT \<equiv> Errno 2"

abbreviation SYS_ESRCH :: errno where
  "SYS_ESRCH \<equiv> Errno 3"

abbreviation SYS_EINTR :: errno where
  "SYS_EINTR \<equiv> Errno 4"

abbreviation SYS_ENXIO :: errno where
  "SYS_ENXIO \<equiv> Errno 6"

abbreviation SYS_EBADF :: errno where
  "SYS_EBADF \<equiv> Errno 9"

abbreviation SYS_ECHILD :: errno where
  "SYS_ECHILD \<equiv> Errno 10"

abbreviation SYS_ENOMEM :: errno where
  "SYS_ENOMEM \<equiv> Errno 12"

abbreviation SYS_EACCES :: errno where
  "SYS_EACCES \<equiv> Errno 13"

abbreviation SYS_EFAULT :: errno where
  "SYS_EFAULT \<equiv> Errno 14"

abbreviation SYS_EEXIST :: errno where
  "SYS_EEXIST \<equiv> Errno 17"

abbreviation SYS_EXDEV :: errno where
  "SYS_EXDEV \<equiv> Errno 18"

abbreviation SYS_ENOTDIR :: errno where
  "SYS_ENOTDIR \<equiv> Errno 20"

abbreviation SYS_EISDIR :: errno where
  "SYS_EISDIR \<equiv> Errno 21"

abbreviation SYS_EINVAL :: errno where
  "SYS_EINVAL \<equiv> Errno 22"

abbreviation SYS_EMFILE :: errno where
  "SYS_EMFILE \<equiv> Errno 24"

abbreviation SYS_ENOTTY :: errno where
  "SYS_ENOTTY \<equiv> Errno 25"

abbreviation SYS_ESPIPE :: errno where
  "SYS_ESPIPE \<equiv> Errno 29"

abbreviation SYS_EPIPE :: errno where
  "SYS_EPIPE \<equiv> Errno 32"

abbreviation SYS_ERANGE :: errno where
  "SYS_ERANGE \<equiv> Errno 34"

abbreviation SYS_ENOSYS :: errno where
  "SYS_ENOSYS \<equiv> Errno 38"

abbreviation SYS_ELOOP :: errno where
  "SYS_ELOOP \<equiv> Errno 40"

abbreviation SYS_EOVERFLOW :: errno where
  "SYS_EOVERFLOW \<equiv> Errno 75"

definition errno_table :: "(string \<times> errno) list" where
  "errno_table = [
    (''EPERM'', Errno 1), (''ENOENT'', Errno 2), (''ESRCH'', Errno 3), (''EINTR'', Errno 4),
    (''EIO'', Errno 5), (''ENXIO'', Errno 6), (''E2BIG'', Errno 7), (''ENOEXEC'', Errno 8),
    (''EBADF'', Errno 9), (''ECHILD'', Errno 10), (''EAGAIN'', Errno 11),
    (''ENOMEM'', Errno 12), (''EACCES'', Errno 13), (''EFAULT'', Errno 14),
    (''ENOTBLK'', Errno 15), (''EBUSY'', Errno 16), (''EEXIST'', Errno 17),
    (''EXDEV'', Errno 18), (''ENODEV'', Errno 19), (''ENOTDIR'', Errno 20),
    (''EISDIR'', Errno 21), (''EINVAL'', Errno 22), (''ENFILE'', Errno 23),
    (''EMFILE'', Errno 24), (''ENOTTY'', Errno 25), (''ETXTBSY'', Errno 26),
    (''EFBIG'', Errno 27), (''ENOSPC'', Errno 28), (''ESPIPE'', Errno 29),
    (''EROFS'', Errno 30), (''EMLINK'', Errno 31), (''EPIPE'', Errno 32), (''EDOM'', Errno 33),
    (''ERANGE'', Errno 34), (''EDEADLK'', Errno 35), (''ENAMETOOLONG'', Errno 36),
    (''ENOLCK'', Errno 37), (''ENOSYS'', Errno 38), (''ENOTEMPTY'', Errno 39),
    (''ELOOP'', Errno 40), (''EWOULDBLOCK'', Errno 11), (''ENOMSG'', Errno 42),
    (''EIDRM'', Errno 43), (''ECHRNG'', Errno 44), (''EL2NSYNC'', Errno 45),
    (''EL3HLT'', Errno 46), (''EL3RST'', Errno 47), (''ELNRNG'', Errno 48),
    (''EUNATCH'', Errno 49), (''ENOCSI'', Errno 50), (''EL2HLT'', Errno 51),
    (''EBADE'', Errno 52), (''EBADR'', Errno 53), (''EXFULL'', Errno 54),
    (''ENOANO'', Errno 55), (''EBADRQC'', Errno 56), (''EBADSLT'', Errno 57),
    (''EDEADLOCK'', Errno 35), (''EBFONT'', Errno 59), (''ENOSTR'', Errno 60),
    (''ENODATA'', Errno 61), (''ETIME'', Errno 62), (''ENOSR'', Errno 63),
    (''ENONET'', Errno 64), (''ENOPKG'', Errno 65), (''EREMOTE'', Errno 66),
    (''ENOLINK'', Errno 67), (''EADV'', Errno 68), (''ESRMNT'', Errno 69),
    (''ECOMM'', Errno 70), (''EPROTO'', Errno 71), (''EMULTIHOP'', Errno 72),
    (''EDOTDOT'', Errno 73), (''EBADMSG'', Errno 74), (''EOVERFLOW'', Errno 75),
    (''ENOTUNIQ'', Errno 76), (''EBADFD'', Errno 77), (''EREMCHG'', Errno 78),
    (''ELIBACC'', Errno 79), (''ELIBBAD'', Errno 80), (''ELIBSCN'', Errno 81),
    (''ELIBMAX'', Errno 82), (''ELIBEXEC'', Errno 83), (''EILSEQ'', Errno 84),
    (''ERESTART'', Errno 85), (''ESTRPIPE'', Errno 86), (''EUSERS'', Errno 87),
    (''ENOTSOCK'', Errno 88), (''EDESTADDRREQ'', Errno 89), (''EMSGSIZE'', Errno 90),
    (''EPROTOTYPE'', Errno 91), (''ENOPROTOOPT'', Errno 92), (''EPROTONOSUPPORT'', Errno 93),
    (''ESOCKTNOSUPPORT'', Errno 94), (''EOPNOTSUPP'', Errno 95), (''EPFNOSUPPORT'', Errno 96),
    (''EAFNOSUPPORT'', Errno 97), (''EADDRINUSE'', Errno 98), (''EADDRNOTAVAIL'', Errno 99),
    (''ENETDOWN'', Errno 100), (''ENETUNREACH'', Errno 101), (''ENETRESET'', Errno 102),
    (''ECONNABORTED'', Errno 103), (''ECONNRESET'', Errno 104), (''ENOBUFS'', Errno 105),
    (''EISCONN'', Errno 106), (''ENOTCONN'', Errno 107), (''ESHUTDOWN'', Errno 108),
    (''ETOOMANYREFS'', Errno 109), (''ETIMEDOUT'', Errno 110), (''ECONNREFUSED'', Errno 111),
    (''EHOSTDOWN'', Errno 112), (''EHOSTUNREACH'', Errno 113), (''EALREADY'', Errno 114),
    (''EINPROGRESS'', Errno 115), (''ESTALE'', Errno 116), (''EUCLEAN'', Errno 117),
    (''ENOTNAM'', Errno 118), (''ENAVAIL'', Errno 119), (''EISNAM'', Errno 120),
    (''EREMOTEIO'', Errno 121), (''EDQUOT'', Errno 122), (''ENOMEDIUM'', Errno 123),
    (''EMEDIUMTYPE'', Errno 124), (''ECANCELED'', Errno 125), (''ENOKEY'', Errno 126),
    (''EKEYEXPIRED'', Errno 127), (''EKEYREVOKED'', Errno 128), (''EKEYREJECTED'', Errno 129),
    (''EOWNERDEAD'', Errno 130), (''ENOTRECOVERABLE'', Errno 131), (''ERFKILL'', Errno 132),
    (''EHWPOISON'', Errno 133), (''ENOTSUP'', Errno 95)]"

text \<open>\<^verbatim>\<open>Errno::operator T\<close>: the negated number, at the width of the register.\<close>

definition errno_word :: "errno \<Rightarrow> u32" where
  "errno_word e = of_int (- errno_no e)"

definition result_merge :: "u32 result \<Rightarrow> u32" where
  "result_merge r = (case r of Inl e \<Rightarrow> errno_word e | Inr v \<Rightarrow> v)"

definition result_extract :: "u32 \<Rightarrow> u32 result" where
  "result_extract v = (if sint v < 0 then Inl (Errno (sint (- v))) else Inr v)"

definition unit_merge :: "unit result \<Rightarrow> u32" where
  "unit_merge r = (case r of Inl e \<Rightarrow> errno_word e | Inr _ \<Rightarrow> 0)"

definition unit_extract :: "u32 \<Rightarrow> unit result" where
  "unit_extract v = (if sint v < 0 then Inl (Errno (sint (- v))) else Inr ())"

section \<open>Computations that can fail\<close>

text \<open>A kernel function on a state \<open>'s\<close> that returns a \<^verbatim>\<open>Result<T>\<close>: it may stop the machine, and otherwise gives a
  result and the state it left, also when the result is an error. \<open>sys_bind\<close> is \<^verbatim>\<open>__try\<close>; \<open>sys_catch\<close> hands the
  result on for the caller to look at.\<close>

type_synonym ('a, 's) sys = "'s \<Rightarrow> ('a result \<times> 's) exec"

definition sys_return :: "'a \<Rightarrow> ('a, 's) sys" where
  "sys_return a s = Inr (Inr a, s)"

definition sys_fail :: "errno \<Rightarrow> ('a, 's) sys" where
  "sys_fail e s = Inr (Inl e, s)"

definition sys_fault :: "fault \<Rightarrow> ('a, 's) sys" where
  "sys_fault f s = Inl f"

definition sys_of :: "'a result \<Rightarrow> ('a, 's) sys" where
  "sys_of r s = Inr (r, s)"

definition sys_catch :: "('a, 's) sys \<Rightarrow> ('a result \<Rightarrow> ('b, 's) sys) \<Rightarrow> ('b, 's) sys" where
  "sys_catch m f s = sbind (m s) (\<lambda>(r, s'). f r s')"

definition sys_bind :: "('a, 's) sys \<Rightarrow> ('a \<Rightarrow> ('b, 's) sys) \<Rightarrow> ('b, 's) sys" where
  "sys_bind m f = sys_catch m (\<lambda>r. case r of Inl e \<Rightarrow> sys_fail e | Inr a \<Rightarrow> f a)"

lemmas sys_simps [simp] = sys_return_def sys_fail_def sys_fault_def sys_of_def

lemma sys_bind_eq: "sys_bind m f s =
    (case m s of Inl x \<Rightarrow> Inl x | Inr (Inl e, s') \<Rightarrow> Inr (Inl e, s') | Inr (Inr a, s') \<Rightarrow> f a s')"
  by (auto simp: sys_bind_def sys_catch_def sbind_def split: sum.splits)

lemma sys_catch_eq: "sys_catch m f s = (case m s of Inl x \<Rightarrow> Inl x | Inr (r, s') \<Rightarrow> f r s')"
  by (auto simp: sys_catch_def sbind_def split: sum.splits)

text \<open>A property of states that a computation keeps, whatever it returns.\<close>

definition sys_keeps :: "('s \<Rightarrow> bool) \<Rightarrow> ('a, 's) sys \<Rightarrow> bool" where
  "sys_keeps I m \<longleftrightarrow> (\<forall>s r s'. I s \<longrightarrow> m s = Inr (r, s') \<longrightarrow> I s')"

lemma sys_keepsD: "sys_keeps I m \<Longrightarrow> m s = Inr (r, s') \<Longrightarrow> I s \<Longrightarrow> I s'"
  unfolding sys_keeps_def by blast

lemma sys_keeps_simple [simp, intro]:
  "sys_keeps I (sys_return a)" "sys_keeps I (sys_fail e)" "sys_keeps I (sys_fault f)" "sys_keeps I (sys_of r)"
  by (auto simp: sys_keeps_def)

lemma sys_keeps_catch: "sys_keeps I m \<Longrightarrow> (\<And>r. sys_keeps I (f r)) \<Longrightarrow> sys_keeps I (sys_catch m f)"
proof (unfold sys_keeps_def, intro allI impI)
  fix s r s' assume k: "\<forall>s r s'. I s \<longrightarrow> m s = Inr (r, s') \<longrightarrow> I s'"
    "\<And>r. \<forall>s r' s'. I s \<longrightarrow> f r s = Inr (r', s') \<longrightarrow> I s'" and s: "I s" "sys_catch m f s = Inr (r, s')"
  obtain r1 s1 where m: "m s = Inr (r1, s1)" "f r1 s1 = Inr (r, s')"
    using s(2) by (cases "m s") (auto simp: sys_catch_eq)
  have "I s1" using k(1) s(1) m(1) by simp
  then show "I s'" using k(2) [of r1] m(2) by simp
qed

lemma sys_keeps_bind: "sys_keeps I m \<Longrightarrow> (\<And>a. sys_keeps I (f a)) \<Longrightarrow> sys_keeps I (sys_bind m f)"
  unfolding sys_bind_def by (rule sys_keeps_catch) (auto split: sum.splits)

section \<open>The return register\<close>

lemma sint_of_int_u32: "- (2 ^ 31) \<le> e \<Longrightarrow> e < 2 ^ 31 \<Longrightarrow> sint (of_int e :: u32) = e"
  by (simp add: int_word_sint)

lemma sint_u32_range: "- (2 ^ 31) \<le> sint (w :: u32)" "sint (w :: u32) < 2 ^ 31"
  using sint_ge [of w] sint_lt [of w] by simp_all

lemma of_int_neq_u32: "sint (of_int e :: u32) = e \<longleftrightarrow> - (2 ^ 31) \<le> e \<and> e < 2 ^ 31"
  using sint_u32_range [of "of_int e"] sint_of_int_u32 [of e] by metis

lemma errno_word_neg: "0 < e \<Longrightarrow> e < 2 ^ 31 \<Longrightarrow> sint (errno_word (Errno e)) = - e"
  unfolding errno_word_def by (subst sint_of_int_u32) auto

lemma extract_merge_errno:
  "result_extract (result_merge (Inl (Errno e))) = Inl (Errno e) \<longleftrightarrow>
    0 < e \<and> e < 2 ^ 31 \<or> e = - (2 ^ 31)"
proof -
  have w: "- errno_word (Errno e) = of_int e" by (simp add: errno_word_def)
  consider "0 < e \<and> e < 2 ^ 31" | "e = - (2 ^ 31)" | "- (2 ^ 31) < e \<and> e \<le> 0"
    | "\<not> (- (2 ^ 31) \<le> e \<and> e < 2 ^ 31)" by linarith
  then show ?thesis
  proof cases
    case 1
    then show ?thesis
      by (simp add: result_merge_def result_extract_def w errno_word_neg sint_of_int_u32)
  next
    case 2
    then show ?thesis by (simp add: result_merge_def result_extract_def errno_word_def)
  next
    case 3
    then have "sint (errno_word (Errno e)) = - e"
      unfolding errno_word_def by (subst sint_of_int_u32) auto
    with 3 show ?thesis by (auto simp: result_merge_def result_extract_def)
  next
    case 4
    then have "sint (of_int e :: u32) \<noteq> e" by (simp only: of_int_neq_u32) simp
    with 4 show ?thesis by (auto simp: result_merge_def result_extract_def w)
  qed
qed

text \<open>The register encoding of a \<^verbatim>\<open>Result<T>\<close> loses nothing exactly when an error is a
  positive \<^verbatim>\<open>int\<close> (or \<^verbatim>\<open>INT_MIN\<close>) and a value is non-negative as a signed word; a pointer in
  the upper half of the address space returned by \<^verbatim>\<open>merge\<close> reads back as an error.\<close>

theorem merge_extract:
  "result_extract (result_merge r) = r \<longleftrightarrow>
    (case r of Inl (Errno e) \<Rightarrow> 0 < e \<and> e < 2 ^ 31 \<or> e = - (2 ^ 31) | Inr v \<Rightarrow> 0 \<le> sint v)"
proof (cases r)
  case (Inl a)
  then show ?thesis by (cases a) (simp add: extract_merge_errno)
next
  case (Inr v)
  then show ?thesis by (auto simp: result_merge_def result_extract_def)
qed

text \<open>Every error number of errno.h survives the trip through the return register, both
  as a \<^verbatim>\<open>Result<T>\<close> and as a \<^verbatim>\<open>Result<>\<close>.\<close>

theorem errno_table_roundtrip:
  "list_all (\<lambda>(name, e). result_extract (result_merge (Inl e)) = Inl e \<and>
     unit_extract (unit_merge (Inl e)) = Inl e) errno_table"
  by (simp add: errno_table_def result_extract_def result_merge_def unit_extract_def
      unit_merge_def errno_word_def)

end
