(* ===== verification/Nyan_VMSpace.thy ===== *)
theory Nyan_VMSpace
  imports Nyan_Range Nyan_Paging Nyan_Result
begin

unbundle bit_operations_syntax

text \<open>
  The address space of a task: \<^verbatim>\<open>VMA\<close> and \<^verbatim>\<open>VMSpace\<close> (kernel/paging/vma.hpp), the memory
  system calls \<^verbatim>\<open>mmap_pgoff\<close>, \<^verbatim>\<open>munmap\<close> and \<^verbatim>\<open>brk\<close> (kernel/syscall), and the user-pointer
  checks of kernel/task/mod.cpp. A \<^verbatim>\<open>VMA\<close> extends \<open>range_entry\<close>. Each operation is the change
  of the vector of areas followed by its effect on the page tables, in the order of the code.
\<close>

section \<open>Areas\<close>

record vma = range_entry +
  vma_flags :: u32
  vma_protect :: u32
  vma_name :: string

definition VMA_range :: "vaddr \<Rightarrow> vaddr \<Rightarrow> vma" where
  "VMA_range b e = \<lparr>re_begin = b, re_end = e, vma_flags = 0, vma_protect = 0, vma_name = ''''\<rparr>"

definition VMA :: "vaddr \<Rightarrow> vaddr \<Rightarrow> u32 \<Rightarrow> u32 \<Rightarrow> string \<Rightarrow> vma" where
  "VMA b e flags prot name = (VMA_range b e)\<lparr>vma_flags := flags, vma_protect := prot, vma_name := name\<rparr>"

definition PROT_READ :: u32 where "PROT_READ = 1"
definition PROT_WRITE :: u32 where "PROT_WRITE = 2"
definition MAP_FILE :: u32 where "MAP_FILE = 0"
definition MAP_SHARED :: u32 where "MAP_SHARED = 1"
definition MAP_PRIVATE :: u32 where "MAP_PRIVATE = 2"
definition MAP_FIXED :: u32 where "MAP_FIXED = 0x10"
definition MAP_ANONYMOUS :: u32 where "MAP_ANONYMOUS = 0x20"
definition MAP_GROWSDOWN :: u32 where "MAP_GROWSDOWN = 0x100"

definition vm_base :: vaddr where "vm_base = 0x00400000"
definition vm_top :: vaddr where "vm_top = 0xC0000000"

text \<open>\<^verbatim>\<open>for (page = begin; page != end; page = page.nextPage())\<close>: the pages visited, or \<open>None\<close> when the
  loop never ends.\<close>

partial_function (option) page_loop :: "vaddr \<Rightarrow> vaddr \<Rightarrow> vaddr list option" where
  "page_loop page e = (if page = e then Some [] else Option.bind (page_loop (nextPage page) e) (\<lambda>ps. Some (page # ps)))"

definition for_pages :: "(vaddr \<Rightarrow> 's \<Rightarrow> (unit \<times> 's) exec) \<Rightarrow> vaddr \<Rightarrow> vaddr \<Rightarrow> 's \<Rightarrow> (unit \<times> 's) exec" where
  "for_pages body b e st = (case page_loop b e of None \<Rightarrow> Inl Diverges | Some ps \<Rightarrow> pfor body ps st)"

definition vma_alloc_page :: "paddr \<Rightarrow> u32 \<Rightarrow> vaddr \<Rightarrow> paging_state \<Rightarrow> (unit \<times> paging_state) exec" where
  "vma_alloc_page d prot page =
    pbind (dir_ensure d (tableLoc page) (PDE_User OR PDE_ReadWrite OR PDE_Present)) (\<lambda>_.
    dir_with d (tableLoc page) (\<lambda>table.
      let attr = PTE_User OR PTE_Present; attr = (if prot AND PROT_WRITE \<noteq> 0 then attr OR PTE_ReadWrite else attr)
      in pbind (table_alloc table page attr) (\<lambda>pAddr.
        with_mapper pAddr (\<lambda>st. Inr ((), set_words pAddr table_clear st)))))"

definition vma_alloc :: "paddr \<Rightarrow> vma \<Rightarrow> paging_state \<Rightarrow> (unit \<times> paging_state) exec" where
  "vma_alloc d v = for_pages (vma_alloc_page d (vma_protect v)) (re_begin v) (re_end v)"

section \<open>Address spaces\<close>

type_synonym vm_space = "vma list"

definition VMSpace :: vm_space where
  "VMSpace = range_init VMA_range vm_base vm_top"

definition find_name :: "vm_space \<Rightarrow> string \<Rightarrow> nat" where
  "find_name sp name = length (takeWhile (\<lambda>v. vma_name v \<noteq> name) sp)"

definition release_range :: "paddr \<Rightarrow> vaddr \<times> vaddr \<Rightarrow> paging_state \<Rightarrow> (unit \<times> paging_state) exec" where
  "release_range d r = for_pages (dir_freePage d) (fst r) (snd r)"

definition split_range :: "vma \<Rightarrow> vma \<Rightarrow> vma" where
  "split_range entry from = entry\<lparr>vma_flags := vma_flags from AND NOT MAP_GROWSDOWN,
    vma_protect := vma_protect from, vma_name := vma_name from\<rparr>"

definition vm_erase_areas :: "vm_space \<Rightarrow> vaddr \<Rightarrow> u32 \<Rightarrow> (bool \<times> vm_space \<times> (vaddr \<times> vaddr) list) exec" where
  "vm_erase_areas sp addr sz = range_erase VMA_range split_range vm_top sp addr sz"

definition vm_erase :: "paddr \<Rightarrow> vm_space \<Rightarrow> vaddr \<Rightarrow> u32 \<Rightarrow> paging_state \<Rightarrow> ((bool \<times> vm_space) \<times> paging_state) exec" where
  "vm_erase d sp addr sz st = sbind (vm_erase_areas sp addr sz) (\<lambda>(ok, sp', rel).
    pbind (pfor (release_range d) rel) (\<lambda>_. preturn (ok, sp')) st)"

definition vm_free :: "paddr \<Rightarrow> vm_space \<Rightarrow> paging_state \<Rightarrow> (vm_space \<times> paging_state) exec" where
  "vm_free d sp = pbind (pfor (\<lambda>v. release_range d (re_begin v, re_end v)) (range_interior sp))
    (\<lambda>_. preturn (range_clear sp))"

definition vm_find_free :: "vm_space \<Rightarrow> u32 \<Rightarrow> vaddr \<Rightarrow> vaddr option exec" where
  "vm_find_free sp sz hint = range_find_free vm_base vm_top sp sz hint"

definition vm_validate :: "vm_space \<Rightarrow> vaddr \<Rightarrow> u32 \<Rightarrow> u32 \<Rightarrow> bool exec" where
  "vm_validate sp addr sz prot = sbind (range_locate sp addr) (\<lambda>pos.
    if \<not> re_contains_range (sp ! pos) addr (addr + sz) then Inr False
    else if vma_protect (sp ! pos) AND prot \<noteq> prot then Inr False
    else Inr True)"

text \<open>
  \<^verbatim>\<open>validateReadonlyRange<T>\<close>: \<open>rd\<close> reads one element of \<open>sz\<close> bytes of user memory. The list
  starts at the iterator \<^verbatim>\<open>pos\<close>; its last element is the upper sentinel \<^verbatim>\<open>end()\<close>. The inner loop
  visits the elements that start at least \<open>sz\<close> below the end of the area.
\<close>

fun scan_area :: "(vaddr \<Rightarrow> 'v) \<Rightarrow> ('v \<Rightarrow> bool) \<Rightarrow> u32 \<Rightarrow> nat \<Rightarrow> vaddr \<Rightarrow> 'v list \<Rightarrow> 'v list \<times> vaddr \<times> bool" where
  "scan_area rd isLast sz 0 cur acc = (acc, cur, False)"
| "scan_area rd isLast sz (Suc n) cur acc =
    (if isLast (rd cur) then (acc, cur, True) else scan_area rd isLast sz n (cur + sz) (acc @ [rd cur]))"

fun scan_areas :: "(vaddr \<Rightarrow> 'v) \<Rightarrow> ('v \<Rightarrow> bool) \<Rightarrow> u32 \<Rightarrow> vaddr \<Rightarrow> 'v list \<Rightarrow> vma list \<Rightarrow> 'v list option" where
  "scan_areas rd isLast sz cur acc (pos # nxt # rest) =
    (if vma_protect pos AND PROT_READ = 0 then None
     else let (acc', cur', found) = scan_area rd isLast sz (nat ((addr_diff (re_end pos) cur) div uint sz)) cur acc
     in if found then Some acc'
     else if rest = [] then None
     else if \<not> re_besides pos nxt then None
     else scan_areas rd isLast sz cur' acc' (nxt # rest))"
| "scan_areas rd isLast sz cur acc _ = None"

definition validateReadonlyRange :: "vm_space \<Rightarrow> (vaddr \<Rightarrow> 'v) \<Rightarrow> ('v \<Rightarrow> bool) \<Rightarrow> u32 \<Rightarrow> u32 \<Rightarrow> vaddr \<Rightarrow>
    'v list option exec" where
  "validateReadonlyRange sp rd isLast sz algn addr = sbind (range_locate sp addr) (\<lambda>pos.
    if \<not> re_contains (sp ! pos) addr then Inr None
    else if \<not> isAlignFor algn addr then Inr None
    else Inr (scan_areas rd isLast sz addr [] (drop pos sp)))"

definition validateReadonlyString :: "vm_space \<Rightarrow> (vaddr \<Rightarrow> u8) \<Rightarrow> vaddr \<Rightarrow> u8 list option exec" where
  "validateReadonlyString sp rd addr = validateReadonlyRange sp rd (\<lambda>c. c = 0) 1 1 addr"

primrec collect_strings :: "vm_space \<Rightarrow> (vaddr \<Rightarrow> u8) \<Rightarrow> vaddr list \<Rightarrow> u8 list list option exec" where
  "collect_strings sp rd [] = Inr (Some [])"
| "collect_strings sp rd (ptr # ptrs) = sbind (validateReadonlyString sp rd ptr) (\<lambda>str.
    case str of None \<Rightarrow> Inr None
    | Some s \<Rightarrow> sbind (collect_strings sp rd ptrs) (\<lambda>r. Inr (map_option (\<lambda>ss. s # ss) r)))"

definition validateReadonlyStringArray :: "vm_space \<Rightarrow> (vaddr \<Rightarrow> u32) \<Rightarrow> (vaddr \<Rightarrow> u8) \<Rightarrow> vaddr \<Rightarrow>
    u8 list list option exec" where
  "validateReadonlyStringArray sp rdptr rd addr =
    sbind (validateReadonlyRange sp rdptr (\<lambda>p. p = 0) 4 4 addr) (\<lambda>strs.
    case strs of None \<Rightarrow> Inr None | Some ptrs \<Rightarrow> collect_strings sp rd ptrs)"

section \<open>The memory of the current task\<close>

record task_mm =
  mm_space :: vm_space
  mm_cr3 :: paddr
  mm_brkBase :: vaddr
  mm_brkAddr :: vaddr
  mm_stack_low :: vaddr

text \<open>The vector part of a mapping at a chosen place.\<close>

definition mmap_insert :: "vm_space \<Rightarrow> vaddr \<Rightarrow> u32 \<Rightarrow> u32 \<Rightarrow> u32 \<Rightarrow> (bool \<times> vm_space) exec" where
  "mmap_insert sp place len flags prot = range_insert sp (VMA place (place + len) flags prot ''mmap'')"

definition mmap_fixed :: "paddr \<Rightarrow> vm_space \<Rightarrow> vaddr \<Rightarrow> u32 \<Rightarrow> u32 \<Rightarrow> u32 \<Rightarrow> paging_state \<Rightarrow>
    ((u32 result \<times> vm_space) \<times> paging_state) exec" where
  "mmap_fixed d sp b len prot flags = pbind (vm_erase d sp b len) (\<lambda>(_, sp1) st.
    sbind (vm_find_free sp1 len b) (\<lambda>place.
    if place \<noteq> Some b then Inr ((Inl SYS_ENOMEM, sp1), st)
    else sbind (mmap_insert sp1 b len flags prot) (\<lambda>(ok, sp2).
      if \<not> ok then Inr ((Inl SYS_ENOMEM, sp2), st)
      else pbind (vma_alloc d (VMA b (b + len) flags prot ''mmap'')) (\<lambda>_. preturn (Inr b, sp2)) st)))"

definition mmap_pgoff :: "vaddr \<Rightarrow> u32 \<Rightarrow> u32 \<Rightarrow> u32 \<Rightarrow> task_mm \<Rightarrow> paging_state \<Rightarrow>
    ((u32 result \<times> task_mm) \<times> paging_state) exec" where
  "mmap_pgoff addr len prot flags mm st =
    (let upd = (\<lambda>(r, sp). preturn (r, mm\<lparr>mm_space := sp\<rparr>)) in
     if flags AND MAP_FILE \<noteq> 0 then Inr ((Inl SYS_ENOSYS, mm), st)
     else if flags AND MAP_FIXED \<noteq> 0 then
       (if len = 0 then Inr ((Inl SYS_EINVAL, mm), st)
        else if thisPage addr \<noteq> addr then Inr ((Inl SYS_EINVAL, mm), st)
        else pbind (with_mapper (mm_cr3 mm) (mmap_fixed (mm_cr3 mm) (mm_space mm) addr (alignUp len) prot flags)) upd st)
     else if flags AND MAP_PRIVATE \<noteq> 0 then
       (if len = 0 then Inr ((Inl SYS_EINVAL, mm), st)
        else sbind (vm_find_free (mm_space mm) (alignUp len) addr) (\<lambda>found. case found of
            None \<Rightarrow> Inr ((Inl SYS_ENOMEM, mm), st)
          | Some place \<Rightarrow> pbind (with_mapper (mm_cr3 mm) (\<lambda>st.
              sbind (mmap_insert (mm_space mm) place (alignUp len) flags prot) (\<lambda>(ok, sp).
              if \<not> ok then Inr ((Inl SYS_ENOMEM, sp), st)
              else pbind (vma_alloc (mm_cr3 mm) (VMA place (place + alignUp len) flags prot ''mmap''))
                (\<lambda>_. preturn (Inr place, sp)) st))) upd st))
     else if flags AND MAP_SHARED \<noteq> 0 then Inr ((Inl SYS_ENOSYS, mm), st)
     else Inr ((Inl SYS_EINVAL, mm), st))"

definition munmap :: "vaddr \<Rightarrow> u32 \<Rightarrow> task_mm \<Rightarrow> paging_state \<Rightarrow> ((unit result \<times> task_mm) \<times> paging_state) exec" where
  "munmap addr len mm st =
    (if thisPage addr \<noteq> addr then Inr ((Inl SYS_EINVAL, mm), st)
     else pbind (with_mapper (mm_cr3 mm) (vm_erase (mm_cr3 mm) (mm_space mm) addr (alignUp len))) (\<lambda>(ok, sp).
       preturn (if ok then Inr () else Inl SYS_EINVAL, mm\<lparr>mm_space := sp\<rparr>)) st)"

text \<open>\<^verbatim>\<open>UserDirectory::alloc\<close> returns its mapper, which the loops of \<^verbatim>\<open>brk\<close> and \<^verbatim>\<open>checkStack\<close> drop at once.\<close>

definition dir_alloc_drop :: "paddr \<Rightarrow> bool \<Rightarrow> vaddr \<Rightarrow> paging_state \<Rightarrow> (unit \<times> paging_state) exec" where
  "dir_alloc_drop d writable page = pbind (dir_alloc d page writable) mapper_close"

definition brk_areas :: "vm_space \<Rightarrow> vaddr \<Rightarrow> vaddr \<Rightarrow> (unit result \<times> vm_space) exec" where
  "brk_areas sp brkBase wantPage =
    (let i = find_name sp ''brk'' in
     if i = length sp
     then sbind (range_insert sp (VMA brkBase (nextPage wantPage) (MAP_PRIVATE OR MAP_ANONYMOUS)
         (PROT_READ OR PROT_WRITE) ''brk'')) (\<lambda>(_, sp'). Inr (Inr (), sp'))
     else if Suc i \<noteq> length sp \<and> nextPage wantPage > re_begin (sp ! Suc i) then Inr (Inl SYS_ENOMEM, sp)
     else Inr (Inr (), sp[i := (sp ! i)\<lparr>re_end := nextPage wantPage\<rparr>]))"

definition brk :: "vaddr \<Rightarrow> task_mm \<Rightarrow> paging_state \<Rightarrow> ((u32 result \<times> task_mm) \<times> paging_state) exec" where
  "brk addr mm st =
    (if addr = 0 \<or> addr \<le> mm_brkAddr mm then Inr ((Inr (mm_brkAddr mm), mm), st)
     else let currentPage = thisPage (mm_brkAddr mm - 1); wantPage = thisPage (addr - 1) in
       pbind (if currentPage \<noteq> wantPage
         then with_mapper (mm_cr3 mm)
           (for_pages (dir_alloc_drop (mm_cr3 mm) True) (nextPage currentPage) (nextPage wantPage))
         else preturn ()) (\<lambda>_ st.
       sbind (brk_areas (mm_space mm) (mm_brkBase mm) wantPage) (\<lambda>(r, sp). case r of
           Inl e \<Rightarrow> Inr ((Inl e, mm\<lparr>mm_space := sp\<rparr>), st)
         | Inr _ \<Rightarrow> Inr ((Inr addr, mm\<lparr>mm_space := sp, mm_brkAddr := addr\<rparr>), st))) st)"

section \<open>Checking user pointers\<close>

text \<open>The area \<^verbatim>\<open>checkStack\<close> would grow, and the pages it allocates for it, topmost first.\<close>

fun stack_pages :: "nat \<Rightarrow> vaddr \<Rightarrow> vaddr \<Rightarrow> vaddr list" where
  "stack_pages 0 nextAddr target = []"
| "stack_pages (Suc n) nextAddr target =
    (if nextAddr > target then prevPage nextAddr # stack_pages n (prevPage nextAddr) target else [])"

definition stack_candidate :: "task_mm \<Rightarrow> vaddr \<Rightarrow> nat option exec" where
  "stack_candidate mm target = sbind (range_locate (mm_space mm) target) (\<lambda>i.
    let sp = mm_space mm; checkUserland = (target \<ge> 0x00400000 \<and> target < 0xC0000000) in
    if \<not> checkUserland then Inr None
    else if Suc i \<ge> length sp then Inl OutOfBounds
    else if re_bounds_addr (sp ! i) (sp ! Suc i) target \<and> vma_flags (sp ! Suc i) AND MAP_GROWSDOWN \<noteq> 0 \<and>
      target \<ge> mm_stack_low mm
    then Inr (Some (Suc i)) else Inr None)"

definition checkStack :: "vaddr \<Rightarrow> task_mm \<Rightarrow> paging_state \<Rightarrow> ((bool \<times> task_mm) \<times> paging_state) exec" where
  "checkStack target mm st = sbind (stack_candidate mm target) (\<lambda>c. case c of
      None \<Rightarrow> Inr ((False, mm), st)
    | Some i \<Rightarrow>
        let v = mm_space mm ! i in
        pbind (with_mapper (mm_cr3 mm) (pfor (dir_alloc_drop (mm_cr3 mm) True)
            (stack_pages (2 ^ 20) (re_begin v) target)))
          (\<lambda>_. preturn (True, mm\<lparr>mm_space := (mm_space mm)[i := v\<lparr>re_begin := thisPage target\<rparr>]\<rparr>)) st)"

definition checkAddr :: "vaddr \<Rightarrow> u32 \<Rightarrow> u32 \<Rightarrow> task_mm \<Rightarrow> paging_state \<Rightarrow> ((unit result \<times> task_mm) \<times> paging_state) exec" where
  "checkAddr ptr sz prot mm st = sbind (vm_validate (mm_space mm) ptr sz prot) (\<lambda>ok.
    if ok then Inr ((Inr (), mm), st)
    else pbind (checkStack ptr mm) (\<lambda>(grown, mm'). preturn (if grown then Inr () else Inl SYS_EFAULT, mm')) st)"

definition checkString :: "task_mm \<Rightarrow> (vaddr \<Rightarrow> u8) \<Rightarrow> vaddr \<Rightarrow> (u8 list result) exec" where
  "checkString mm rd str = sbind (validateReadonlyString (mm_space mm) rd str) (\<lambda>r.
    Inr (case r of None \<Rightarrow> Inl SYS_EFAULT | Some s \<Rightarrow> Inr s))"

definition checkArgv :: "task_mm \<Rightarrow> (vaddr \<Rightarrow> u32) \<Rightarrow> (vaddr \<Rightarrow> u8) \<Rightarrow> vaddr \<Rightarrow> (u8 list list result) exec" where
  "checkArgv mm rdptr rd argv = sbind (validateReadonlyStringArray (mm_space mm) rdptr rd argv) (\<lambda>r.
    Inr (case r of None \<Rightarrow> Inl SYS_EFAULT | Some s \<Rightarrow> Inr s))"

section \<open>Page loops\<close>

lemma page_aligned_diff: "page_aligned a \<Longrightarrow> page_aligned b \<Longrightarrow> page_aligned (a - b)"
proof -
  assume a: "page_aligned a" "page_aligned b"
  have "unat (a - b + b) mod 4096 = (unat (a - b) + unat b) mod 4096" by (rule unat_add_mod_4096)
  then have "(unat (a - b) + unat b) mod 4096 = 0" using a by (simp add: page_aligned_def)
  then have "4096 dvd unat (a - b) + unat b" by (simp add: mod_eq_0_iff_dvd)
  moreover have "4096 dvd unat b" using a by (simp add: page_aligned_def mod_eq_0_iff_dvd)
  ultimately have "4096 dvd unat (a - b)" using dvd_add_left_iff by blast
  then show ?thesis by (simp add: page_aligned_def mod_eq_0_iff_dvd)
qed

lemma page_loop_aligned:
  assumes "page_aligned b" "page_aligned e" "unat (e - b) = 4096 * n"
  shows "page_loop b e = Some (map (\<lambda>k. b + of_nat k * 4096) [0..<n])"
  using assms
proof (induction n arbitrary: b)
  case 0
  then have "e - b = 0" by (simp add: unat_eq_zero)
  then have "b = e" by simp
  then show ?case by (subst page_loop.simps) simp
next
  case (Suc n)
  have ne: "b \<noteq> e" using Suc.prems(3) by auto
  have nx: "nextPage b = b + 4096" using Suc.prems(1) by (simp add: nextPage_aligned)
  have "unat (e - (b + 4096)) = unat ((e - b) - 4096)" by (simp add: algebra_simps)
  also have "\<dots> = 4096 * n" using Suc.prems(3) by (subst unat_sub) (auto simp: word_le_nat_alt)
  finally have "page_loop (b + 4096) e = Some (map (\<lambda>k. b + 4096 + of_nat k * 4096) [0..<n])"
    using Suc.IH [of "b + 4096"] Suc.prems(1,2) page_aligned_add [of b 4096] by simp
  moreover have "map (\<lambda>k. b + of_nat k * 4096) [0..<Suc n] = b # map (\<lambda>k. b + 4096 + of_nat k * 4096) [0..<n]"
    by (simp add: map_upt_Suc algebra_simps del: upt_Suc)
  ultimately show ?case using ne nx by (subst page_loop.simps) simp
qed

lemma page_loop_ends: "page_loop b e = Some ps \<Longrightarrow> b = e \<or> page_aligned e"
proof (erule page_loop.raw_induct [where P = "\<lambda>b e ps. b = e \<or> page_aligned e", rotated], goal_cases)
  case (1 f b e ps)
  show ?case
  proof (cases "b = e")
    case False
    then obtain qs where "f (nextPage b) e = Some qs" using 1(2) by (auto simp: Option.bind_eq_Some_conv)
    from 1(1) [OF this] show ?thesis by auto
  qed simp
qed

lemma page_loop_some:
  assumes "page_aligned e"
  shows "\<exists>ps. page_loop b e = Some ps"
proof (cases "b = e")
  case False
  have "page_aligned (e - nextPage b)" using assms by (simp add: page_aligned_diff)
  then obtain n where "unat (e - nextPage b) = 4096 * n" unfolding page_aligned_def by (metis mod_0_imp_dvd dvdE)
  then have "page_loop (nextPage b) e \<noteq> None" using page_loop_aligned assms by simp
  then show ?thesis using False by (subst page_loop.simps) auto
qed (subst page_loop.simps, simp)

text \<open>C33: the page loops of \<^verbatim>\<open>VMA::alloc\<close> and \<^verbatim>\<open>__release_range\<close> end exactly when the range is empty or its end
  starts a page; between two page boundaries they visit every page once, in order.\<close>

theorem page_loop_terminates:
  "((\<exists>ps. page_loop b e = Some ps) \<longleftrightarrow> b = e \<or> page_aligned e) \<and>
   (page_aligned b \<and> page_aligned e \<longrightarrow>
     page_loop b e = Some (map (\<lambda>k. b + of_nat k * 4096) [0..<unat (e - b) div 4096]))"
proof (intro conjI impI)
  show "(\<exists>ps. page_loop b e = Some ps) \<longleftrightarrow> b = e \<or> page_aligned e"
    using page_loop_ends page_loop_some by (metis page_loop.simps)
  assume a: "page_aligned b \<and> page_aligned e"
  then have "page_aligned (e - b)" by (simp add: page_aligned_diff)
  then have "unat (e - b) = 4096 * (unat (e - b) div 4096)" by (auto simp: page_aligned_def)
  with a page_loop_aligned show "page_loop b e = Some (map (\<lambda>k. b + of_nat k * 4096) [0..<unat (e - b) div 4096])"
    by blast
qed

theorem page_loop_terminates_witness:
  "page_loop 0x400000 0x403000 = Some [0x400000, 0x401000, 0x402000]"
proof -
  have "page_loop 0x400000 0x403000 = Some (map (\<lambda>k. 0x400000 + of_nat k * 4096) [0..<unat (0x403000 - 0x400000 :: u32) div 4096])"
    using page_loop_terminates [of "0x400000" "0x403000"] by (simp add: page_aligned_def)
  then show ?thesis by (simp add: upt_rec)
qed

section \<open>Areas\<close>

definition vm_inv :: "vm_space \<Rightarrow> bool" where
  "vm_inv sp \<longleftrightarrow> range_inv vm_base vm_top sp \<and> (\<forall>v\<in>set sp. page_aligned (re_begin v) \<and> page_aligned (re_end v))"

interpretation vmsp: splittable VMA_range split_range
  by unfold_locales (simp_all add: split_range_def VMA_range_def)

lemma vm_inv_init: "vm_inv VMSpace"
  by (simp add: vm_inv_def range_inv_def VMSpace_def range_init_def VMA_range_def vm_base_def vm_top_def page_aligned_def)

lemma clip_attributes:
  assumes "v' \<in> set (clip VMA_range split_range lower upper v)" "re_begin v \<le> re_end v" "lower < upper"
  shows "vma_protect v' = vma_protect v \<and> vma_name v' = vma_name v \<and> re_begin v \<le> re_begin v' \<and> re_end v' \<le> re_end v"
  using assms by (auto simp: clip_def split_range_def VMA_range_def split: if_splits)

lemma clip_aligned:
  assumes "v' \<in> set (clip VMA_range split_range lower upper v)" "page_aligned lower" "page_aligned upper"
    "page_aligned (re_begin v)" "page_aligned (re_end v)"
  shows "page_aligned (re_begin v') \<and> page_aligned (re_end v')"
  using assms by (auto simp: clip_def split_range_def VMA_range_def split: if_splits)

text \<open>Unmapping a page-aligned range of user space leaves exactly the rest mapped: the areas stay sorted,
  disjoint and page-aligned, every piece keeps the protection and the name of the area it was cut from,
  and the ranges handed to the page release are page-aligned and cover exactly what was mapped there.\<close>

lemma vm_erase_exact:
  assumes inv: "vm_inv sp" and al: "page_aligned addr" "page_aligned sz"
    and rng: "vm_base \<le> addr" "\<not> add_overflow addr sz" "0 < sz" "addr + sz \<le> vm_top"
  shows "\<exists>sp' rel. vm_erase_areas sp addr sz = Inr (True, sp', rel) \<and> vm_inv sp' \<and>
    (\<forall>p. covered sp' p \<longleftrightarrow> covered sp p \<and> \<not> (addr \<le> p \<and> p < addr + sz)) \<and>
    (\<forall>v'\<in>set sp'. \<exists>v\<in>set sp. vma_protect v' = vma_protect v \<and> vma_name v' = vma_name v \<and>
      re_begin v \<le> re_begin v' \<and> re_end v' \<le> re_end v) \<and>
    (\<forall>(b, e)\<in>set rel. page_aligned b \<and> page_aligned e \<and> b \<le> e \<and> e \<le> addr + sz) \<and>
    (\<forall>p. (\<exists>(b, e)\<in>set rel. b \<le> p \<and> p < e) \<longleftrightarrow> covered sp p \<and> addr \<le> p \<and> p < addr + sz)"
proof -
  have ri: "range_inv vm_base vm_top sp" using inv by (simp add: vm_inv_def)
  have lt: "addr < addr + sz" using rng(2,3) by (simp add: word_less_nat_alt add_overflow_no)
  have up: "page_aligned (addr + sz)" using al by (rule page_aligned_add)
  obtain sp' rel where r: "range_erase VMA_range split_range vm_top sp addr sz = Inr (True, sp', rel)"
    "range_inv vm_base vm_top sp'" "sp' = concat (map (clip VMA_range split_range addr (addr + sz)) sp)"
    "\<forall>p. covered sp' p \<longleftrightarrow> covered sp p \<and> \<not> (addr \<le> p \<and> p < addr + sz)"
    "mset rel = mset (concat (map (clip_released addr (addr + sz)) sp))"
    by (rule vmsp.erase_law [OF ri rng])
  have le: "\<forall>e\<in>set sp. re_begin e \<le> re_end e" using range_inv_begin_le [OF ri] by blast
  have set_rel: "set rel = set (concat (map (clip_released addr (addr + sz)) sp))"
    using r(5) by (metis set_mset_mset)
  have "vm_inv sp'" using r(2,3) inv clip_aligned [OF _ al(1) up] by (auto simp: vm_inv_def)
  moreover have "\<forall>v'\<in>set sp'. \<exists>v\<in>set sp. vma_protect v' = vma_protect v \<and> vma_name v' = vma_name v \<and>
      re_begin v \<le> re_begin v' \<and> re_end v' \<le> re_end v"
    using clip_attributes [OF _ _ lt] le by (fastforce simp: r(3))
  moreover have "\<forall>(b, e)\<in>set rel. page_aligned b \<and> page_aligned e \<and> b \<le> e \<and> e \<le> addr + sz"
    using lt le inv al(1) up by (auto simp: set_rel clip_released_def vm_inv_def max_def min_def split: if_splits)
  moreover have "\<forall>p. (\<exists>(b, e)\<in>set rel. b \<le> p \<and> p < e) \<longleftrightarrow> covered sp p \<and> addr \<le> p \<and> p < addr + sz"
    unfolding set_rel using released_covered [OF lt le] by blast
  ultimately show ?thesis using r(1,4) by (auto simp: vm_erase_areas_def)
qed

definition example_space :: vm_space where
  "example_space = [VMA_range 0 0x400000, VMA 0x500000 0x600000 0x22 3 ''mmap'', VMA_range 0xC0000000 0xFFFFF000]"

lemma example_space_inv: "vm_inv example_space"
  by (simp add: vm_inv_def range_inv_def example_space_def VMA_range_def VMA_def vm_base_def vm_top_def page_aligned_def)

text \<open>A place the search has just found is free: from a page-aligned hint it is page-aligned and inside user space, the insertion
  succeeds there, and the areas stay well-formed and cover exactly the new range more.\<close>

lemma mmap_place:
  assumes inv: "vm_inv sp" and len: "page_aligned len" "0 < len" and hint: "page_aligned hint"
    and found: "vm_find_free sp len hint = Inr (Some place)"
  obtains A C where "sp = A @ C" "mmap_insert sp place len flags prot = Inr (True, A @ VMA place (place + len) flags prot ''mmap'' # C)"
    "vm_inv (A @ VMA place (place + len) flags prot ''mmap'' # C)"
    "vm_base \<le> place" "hint \<le> place" "unat place + unat len \<le> unat vm_top" "page_aligned place"
    "\<And>p. covered (A @ VMA place (place + len) flags prot ''mmap'' # C) p \<longleftrightarrow> covered sp p \<or> place \<le> p \<and> p < place + len"
    "\<And>p. place \<le> p \<Longrightarrow> p < place + len \<Longrightarrow> \<not> covered sp p"
proof -
  have ri: "range_inv vm_base vm_top sp" using inv by (simp add: vm_inv_def)
  from range_find_free_law [OF ri, of len hint] found
  have S: "hint \<le> place \<and> vm_base \<le> place \<and> \<not> add_overflow place len \<and> place + len \<le> vm_top \<and>
      free_between sp place (place + len)" unfolding vm_find_free_def by (elim exE conjE) auto
  have al: "page_aligned place"
    using range_find_free_aligned [OF found [unfolded vm_find_free_def] hint] inv
    by (simp add: vm_inv_def vm_base_def page_aligned_def)
  have up: "unat (place + len) = unat place + unat len" using S by (simp add: add_overflow_no)
  have lt: "place < place + len" using len(2) by (simp add: word_less_nat_alt up)
  then have top: "place < vm_top" using S by (meson less_le_trans)
  let ?v = "VMA place (place + len) flags prot ''mmap''"
  have v: "re_begin ?v = place" "re_end ?v = place + len" by (simp_all add: VMA_def VMA_range_def)
  obtain A C where x: "sp = A @ C" "range_insert sp ?v = Inr (True, A @ ?v # C)" "range_inv vm_base vm_top (A @ ?v # C)"
    using range_insert_law(1) [OF ri, of ?v] lt top S by (auto simp: v)
  have inv': "vm_inv (A @ ?v # C)"
    using inv x(1,3) al len(1) by (auto simp: vm_inv_def v page_aligned_add)
  have cov: "covered (A @ ?v # C) p \<longleftrightarrow> covered sp p \<or> place \<le> p \<and> p < place + len" for p
    by (auto simp: covered_def x(1) re_contains_def v)
  have fresh: "\<not> covered sp p" if "place \<le> p" "p < place + len" for p
    using S that by (auto simp: covered_def free_between_def re_contains_def)
  have "unat place + unat len \<le> unat vm_top" using S by (simp add: word_le_nat_alt up)
  with that [OF x(1)] x(2) inv' S al cov fresh show thesis by (simp add: mmap_insert_def)
qed

lemma example_find: "vm_find_free example_space 0x2000 0x500000 = Inr (Some 0x600000)"
  by (simp add: vm_find_free_def range_find_free_def range_locate_def example_space_def VMA_def VMA_range_def
      vm_base_def vm_top_def add_overflow_def)

section \<open>User pointers\<close>

lemma located_unique:
  assumes inv: "range_inv Base Top sp" and v: "v \<in> set sp" "re_begin v \<le> a" "a < re_end v"
  obtains n where "range_locate sp a = Inr n" "n < length sp" "sp ! n = v"
proof -
  obtain A e C where xs: "sp = A @ e # C" and loc: "range_locate sp a = Inr (length A)" and e: "re_begin e \<le> a"
    and C: "\<forall>y\<in>set C. a < re_begin y"
    by (rule locate_split [OF inv])
  have "v \<notin> set C" using C v(2) by auto
  moreover have "v \<notin> set A" using range_split(1) [OF inv [unfolded xs]] v(3) e by (metis leD le_less_trans)
  ultimately have "v = e" using v(1) by (simp add: xs)
  then show ?thesis using that [OF loc] by (simp add: xs)
qed

text \<open>C16: for a non-empty buffer that does not run past the end of the address space, the pointer check says yes
  exactly when one area holds the whole buffer with the wanted protection.\<close>

theorem validate_exact:
  assumes inv: "vm_inv sp" and sz: "0 < sz" "\<not> add_overflow addr sz"
  shows "\<exists>ok. vm_validate sp addr sz prot = Inr ok \<and>
    (ok \<longleftrightarrow> (\<exists>v\<in>set sp. re_begin v \<le> addr \<and> addr + sz \<le> re_end v \<and> vma_protect v AND prot = prot))"
proof -
  have ri: "range_inv vm_base vm_top sp" using inv by (simp add: vm_inv_def)
  have lt: "addr < addr + sz" using sz by (simp add: word_less_nat_alt add_overflow_no)
  obtain A e C where xs: "sp = A @ e # C" and loc: "range_locate sp addr = Inr (length A)" and e: "re_begin e \<le> addr"
    by (rule locate_split [OF ri])
  have "v = e" if v: "v \<in> set sp" "re_begin v \<le> addr" "addr + sz \<le> re_end v" for v
  proof -
    have "addr < re_end v" using lt v(3) by simp
    then obtain n where "range_locate sp addr = Inr n" "sp ! n = v" using located_unique [OF ri v(1,2)] by metis
    then show ?thesis using loc by (simp add: xs)
  qed
  then have "(\<exists>v\<in>set sp. re_begin v \<le> addr \<and> addr + sz \<le> re_end v \<and> vma_protect v AND prot = prot) \<longleftrightarrow>
      addr + sz \<le> re_end e \<and> vma_protect e AND prot = prot"
    using e by (auto simp: xs)
  then show ?thesis
    using loc e by (simp add: vm_validate_def re_contains_range_def xs)
qed

theorem validate_exact_witness: "vm_validate example_space 0x5FF000 0x1000 3 = Inr True"
  using validate_exact [OF example_space_inv, of "0x1000" "0x5FF000" 3]
  by (auto simp: add_overflow_def example_space_def VMA_def VMA_range_def)

text \<open>Without that assumption the check is wrong: a buffer of almost four gigabytes that wraps around the
  address space passes it, although most of it is not mapped.\<close>

theorem validate_accepts_wrapping:
  "vm_validate example_space 0x540000 0xFFFFF000 3 = Inr True \<and> add_overflow 0x540000 0xFFFFF000 \<and>
   \<not> covered example_space 0x700000"
  by (simp add: vm_validate_def range_locate_def example_space_def VMA_def VMA_range_def re_contains_range_def
      add_overflow_def covered_def re_contains_def)

text \<open>The scan for a terminating zero byte.\<close>

lemma scan_area_bytes:
  assumes "scan_area rd (\<lambda>c. c = (0 :: u8)) 1 n cur acc = (acc', cur', found)"
  shows "\<exists>bs. acc' = acc @ bs \<and> cur' = cur + of_nat (length bs) \<and> length bs \<le> n \<and> (\<not> found \<longrightarrow> length bs = n) \<and>
    (\<forall>k<length bs. bs ! k = rd (cur + of_nat k) \<and> bs ! k \<noteq> 0) \<and> (found \<longrightarrow> rd cur' = 0 \<and> length bs < n)"
  using assms
proof (induction n arbitrary: cur acc)
  case (Suc n)
  show ?case
  proof (cases "rd cur = 0")
    case True
    with Suc.prems show ?thesis by (intro exI [of _ "[]"]) auto
  next
    case False
    with Suc.prems have "scan_area rd (\<lambda>c. c = 0) 1 n (cur + 1) (acc @ [rd cur]) = (acc', cur', found)" by simp
    from Suc.IH [OF this] obtain bs where bs: "acc' = acc @ [rd cur] @ bs" "cur' = cur + 1 + of_nat (length bs)" "length bs \<le> n"
      "\<not> found \<longrightarrow> length bs = n" "\<forall>k<length bs. bs ! k = rd (cur + 1 + of_nat k) \<and> bs ! k \<noteq> 0"
      "found \<longrightarrow> rd cur' = 0 \<and> length bs < n" by auto
    have "(rd cur # bs) ! k = rd (cur + of_nat k) \<and> (rd cur # bs) ! k \<noteq> 0" if "k < Suc (length bs)" for k
      using that bs(5) False by (cases k) (auto simp: algebra_simps)
    then have el: "\<forall>k<length (rd cur # bs). (rd cur # bs) ! k = rd (cur + of_nat k) \<and> (rd cur # bs) ! k \<noteq> 0"
      unfolding length_Cons by blast
    show ?thesis
      by (intro exI [of _ "rd cur # bs"] conjI, rule_tac [5] el)
        (use bs(1-4,6) in \<open>simp_all add: algebra_simps\<close>)
  qed
qed auto

lemma scan_areas_bytes:
  assumes "scan_areas rd (\<lambda>c. c = (0 :: u8)) 1 cur acc vs = Some s"
    "sorted_wrt (\<lambda>a b. re_end a \<le> re_begin b) vs" "\<forall>v\<in>set (butlast vs). re_begin v < re_end v"
    "re_begin (hd vs) \<le> cur" "cur \<le> re_end (hd vs)"
  shows "\<exists>bs. s = acc @ bs \<and> (\<forall>k<length bs. bs ! k = rd (cur + of_nat k) \<and> bs ! k \<noteq> 0) \<and>
    rd (cur + of_nat (length bs)) = 0 \<and>
    (\<forall>k\<le>length bs. \<exists>v\<in>set vs. re_contains v (cur + of_nat k) \<and> vma_protect v AND PROT_READ \<noteq> 0)"
  using assms
proof (induction vs arbitrary: cur acc)
  case (Cons p vs)
  then obtain q rest where vs: "vs = q # rest" by (cases vs) auto
  note IH = Cons.IH [unfolded vs] and 1 = Cons.prems [unfolded vs list.sel]
  let ?n = "unat (re_end p) - unat cur"
  have nn: "nat (addr_diff (re_end p) cur div uint (1 :: u32)) = ?n"
  proof -
    have "addr_diff (re_end p) cur div uint (1 :: u32) = int (unat (re_end p)) - int (unat cur)"
      by (simp add: addr_diff_def)
    then show ?thesis by (simp only: nat_minus_as_int)
  qed
  have rp: "vma_protect p AND PROT_READ \<noteq> 0" using 1(1) by (auto split: if_splits)
  obtain acc' cur' found where sc: "scan_area rd (\<lambda>c. c = 0) 1 ?n cur acc = (acc', cur', found)"
    by (metis prod_cases3)
  from scan_area_bytes [OF sc] obtain bs where bs: "acc' = acc @ bs" "cur' = cur + of_nat (length bs)" "length bs \<le> ?n"
    "\<not> found \<longrightarrow> length bs = ?n" "\<forall>k<length bs. bs ! k = rd (cur + of_nat k) \<and> bs ! k \<noteq> 0"
    "found \<longrightarrow> rd cur' = 0 \<and> length bs < ?n" by blast
  have inp: "re_contains p (cur + of_nat k)" if "k < ?n" for k
  proof -
    have "unat (cur + of_nat k) = unat cur + k"
      by (rule unat_add_of_nat) (use that unat_lt_u32 [of "re_end p"] in linarith)
    with that 1(4) show ?thesis by (simp add: re_contains_def word_le_nat_alt word_less_nat_alt)
  qed
  show ?case
  proof (cases found)
    case True
    then have "s = acc @ bs" using 1(1) rp sc nn bs(1) by simp
    with bs True rp inp show ?thesis by (intro exI [of _ bs]) force
  next
    case False
    then have r: "rest \<noteq> []" "re_end p = re_begin q" "scan_areas rd (\<lambda>c. c = 0) 1 cur' acc' (q # rest) = Some s"
      using 1(1) rp sc nn by (auto simp: re_besides_def split: if_splits)
    have "unat cur' = unat (re_end p)"
      using bs(2,4) False 1(5) unat_lt_u32 [of "re_end p"] unat_add_of_nat [of cur ?n]
      by (simp add: word_le_nat_alt)
    then have cur': "cur' = re_end p" by (simp add: word_unat_eq_iff)
    obtain cs where cs: "s = acc' @ cs" "\<forall>k<length cs. cs ! k = rd (cur' + of_nat k) \<and> cs ! k \<noteq> 0"
      "rd (cur' + of_nat (length cs)) = 0"
      "\<forall>k\<le>length cs. \<exists>v\<in>set (q # rest). re_contains v (cur' + of_nat k) \<and> vma_protect v AND PROT_READ \<noteq> 0"
      using IH [OF r(3)] 1(2,3) r(1,2) cur' by (auto simp: less_imp_le)
    have at: "cur' + of_nat k = cur + of_nat (length bs + k)" for k by (simp add: bs(2))
    have "(bs @ cs) ! k = rd (cur + of_nat k) \<and> (bs @ cs) ! k \<noteq> 0" if "k < length (bs @ cs)" for k
    proof (cases "k < length bs")
      case False
      then obtain m where m: "k = length bs + m" using le_Suc_ex not_less by blast
      then have "m < length cs" using that by simp
      then have "cs ! m = rd (cur' + of_nat m) \<and> cs ! m \<noteq> 0" by (rule cs(2) [rule_format])
      moreover have "(bs @ cs) ! k = cs ! m" by (simp add: m)
      ultimately show ?thesis unfolding at m by metis
    next
      case True
      with bs(5) show ?thesis by (metis nth_append)
    qed
    moreover have "\<exists>v\<in>set (p # q # rest). re_contains v (cur + of_nat k) \<and> vma_protect v AND PROT_READ \<noteq> 0"
      if "k \<le> length (bs @ cs)" for k
    proof (cases "k < length bs")
      case False
      then obtain m where m: "k = length bs + m" using le_Suc_ex not_less by blast
      then have "m \<le> length cs" using that by simp
      then obtain v where "v \<in> set (q # rest)" "re_contains v (cur' + of_nat m)" "vma_protect v AND PROT_READ \<noteq> 0"
        using cs(4) by blast
      then show ?thesis unfolding m at by (intro bexI [of _ v]) auto
    qed (use inp [of k] rp bs(4) False in auto)
    moreover have "s = acc @ (bs @ cs)" "rd (cur + of_nat (length (bs @ cs))) = 0"
      using cs(1,3) bs(1) at [of "length cs"] by simp_all
    ultimately show ?thesis unfolding vs by blast
  qed
qed simp

text \<open>When the check of a user string succeeds, the kernel's copy is exactly the bytes up to the first zero
  byte, and every byte it read, the terminator included, lies in an area the task may read.\<close>

theorem user_string_safe:
  assumes inv: "vm_inv sp" and s: "validateReadonlyString sp rd addr = Inr (Some s)"
  shows "(\<forall>k<length s. s ! k = rd (addr + of_nat k) \<and> s ! k \<noteq> 0) \<and> rd (addr + of_nat (length s)) = 0 \<and>
    (\<forall>k\<le>length s. \<exists>v\<in>set sp. re_contains v (addr + of_nat k) \<and> vma_protect v AND PROT_READ \<noteq> 0)"
proof -
  have ri: "range_inv vm_base vm_top sp" using inv by (simp add: vm_inv_def)
  obtain A e C where xs: "sp = A @ e # C" and loc: "range_locate sp addr = Inr (length A)"
    by (rule locate_split [OF ri])
  have e: "re_contains e addr" "scan_areas rd (\<lambda>c. c = 0) 1 addr [] (e # C) = Some s"
    using s loc by (auto simp: validateReadonlyString_def validateReadonlyRange_def xs split: if_splits)
  have "sorted_wrt (\<lambda>a b. re_end a \<le> re_begin b) (e # C)" "\<forall>v\<in>set (butlast (e # C)). re_begin v < re_end v"
    using ri by (auto simp: range_inv_def xs sorted_wrt_append butlast_append)
  from scan_areas_bytes [OF e(2) this] e(1) show ?thesis by (force simp: re_contains_def xs)
qed

theorem user_string_safe_witness:
  "\<exists>v\<in>set example_space. re_contains v 0x500001 \<and> vma_protect v AND PROT_READ \<noteq> 0"
proof -
  let ?rd = "\<lambda>a :: u32. if a = 0x500000 then 65 else (0 :: u8)"
  have e: "(1048576 :: nat) = Suc (Suc 1048574)" by simp
  have s1: "scan_area ?rd (\<lambda>c. c = 0) 1 1048576 0x500000 [] = ([65], 0x500001, True)"
    unfolding e by (simp only: scan_area.simps) simp
  have "validateReadonlyString example_space ?rd 0x500000 = Inr (Some [65])"
    by (simp add: s1 validateReadonlyString_def validateReadonlyRange_def range_locate_def example_space_def VMA_def
        VMA_range_def re_contains_def isAlignFor_def addr_diff_def PROT_READ_def)
  from user_string_safe [OF example_space_inv this, THEN conjunct2, THEN conjunct2, rule_format, of 1]
  show ?thesis by simp
qed

section \<open>Growing the stack\<close>

lemma stack_pages_down:
  assumes "page_aligned b" "page_aligned tp" "unat b = unat tp + 4096 * n" "unat tp \<le> unat target" "unat target < unat tp + 4096" "n \<le> k"
  shows "stack_pages (Suc k) b target = map (\<lambda>i. tp + of_nat (n - Suc i) * 4096) [0..<n]"
  using assms
proof (induction n arbitrary: b k)
  case 0
  then show ?case by (simp add: word_less_nat_alt)
next
  case (Suc n)
  have gt: "b > target" using Suc.prems(3,5) by (simp add: word_less_nat_alt)
  have pb: "prevPage b = b - 4096" using Suc.prems(1) by (simp add: prevPage_def page_aligned_eq thisPage_def alignDown_def)
  have ub: "unat (b - 4096) = unat tp + 4096 * n"
    using Suc.prems(3) by (subst unat_sub) (auto simp: word_le_nat_alt)
  then have bn: "b - 4096 = tp + of_nat n * 4096"
  proof -
    have "unat (tp + of_nat n * 4096) = unat tp + 4096 * n"
      using unat_add_of_nat [of tp "4096 * n"] unat_lt_u32 [of "b - 4096"] ub by (simp add: mult.commute)
    with ub show ?thesis by (simp add: word_unat_eq_iff)
  qed
  obtain k' where k: "k = Suc k'" "n \<le> k'" using Suc.prems(6) by (cases k) auto
  have "page_aligned (b - 4096)" using Suc.prems(2) ub by (simp add: page_aligned_def)
  from Suc.IH [OF this Suc.prems(2) ub Suc.prems(4,5) k(2)]
  have "stack_pages k (b - 4096) target = map (\<lambda>i. tp + of_nat (n - Suc i) * 4096) [0..<n]" by (simp add: k(1))
  moreover have "map (\<lambda>i. tp + of_nat (Suc n - Suc i) * 4096) [0..<Suc n] =
      (tp + of_nat n * 4096) # map (\<lambda>i. tp + of_nat (n - Suc i) * 4096) [0..<n]"
    by (simp add: map_upt_Suc del: upt_Suc)
  ultimately show ?case using gt by (simp add: pb bn del: upt_Suc)
qed

lemma aligned_le_thisPage: "page_aligned a \<Longrightarrow> a \<le> b \<Longrightarrow> a \<le> thisPage b"
proof -
  assume a: "page_aligned a" "a \<le> b"
  then obtain k where k: "unat a = 4096 * k" by (auto simp: page_aligned_def)
  have "unat (thisPage b) = 4096 * (unat b div 4096)" by (simp add: unat_thisPage minus_mod_eq_mult_div)
  moreover have "k \<le> unat b div 4096" using a(2) k by (simp add: word_le_nat_alt)
  ultimately show ?thesis by (simp add: word_le_nat_alt k)
qed

lemma pages_below:
  assumes "page_aligned t" "unat b = unat t + 4096 * n"
  shows "(\<lambda>i. t + of_nat (n - Suc i) * 4096) ` {0..<n} = {p. page_aligned p \<and> t \<le> p \<and> p < b}"
proof -
  have u: "unat (t + of_nat i * 4096) = unat t + 4096 * i" if "i < n" for i
    using unat_add_of_nat [of t "4096 * i"] unat_lt_u32 [of b] assms(2) that by (simp add: mult.commute)
  have "p \<in> (\<lambda>i. t + of_nat (n - Suc i) * 4096) ` {0..<n}" if p: "page_aligned p" "t \<le> p" "p < b" for p
  proof -
    have "4096 dvd unat p - unat t" using p(1) assms(1) by (auto simp: page_aligned_def mod_eq_0_iff_dvd)
    then obtain i where "unat p - unat t = 4096 * i" by (rule dvdE)
    then have i: "unat p = unat t + 4096 * i" using p(2) by (simp add: word_le_nat_alt)
    then have lt: "i < n" using p(3) assms(2) by (simp add: word_less_nat_alt)
    then have "p = t + of_nat (n - Suc (n - Suc i)) * 4096" using u [OF lt] i by (simp add: word_unat_eq_iff)
    with lt show ?thesis by (intro image_eqI [of _ _ "n - Suc i"]) auto
  qed
  moreover have "page_aligned (t + of_nat i * 4096) \<and> t \<le> t + of_nat i * 4096 \<and> t + of_nat i * 4096 < b" if "i < n" for i
    using u [OF that] assms that by (auto simp: page_aligned_def word_le_nat_alt word_less_nat_alt)
  ultimately show ?thesis by (auto simp del: of_nat_diff)
qed

lemma pages_below_inj:
  fixes b t :: vaddr
  assumes "unat b = unat t + 4096 * n"
  shows "inj_on (\<lambda>i. t + of_nat (n - Suc i) * 4096) {0..<n}"
proof (rule inj_onI)
  fix i j assume ij: "i \<in> {0..<n}" "j \<in> {0..<n}" and eq: "t + of_nat (n - Suc i) * 4096 = t + of_nat (n - Suc j) * 4096"
  have u: "unat (t + of_nat i * 4096) = unat t + 4096 * i" if "i < n" for i
    using unat_add_of_nat [of t "4096 * i"] unat_lt_u32 [of b] assms that by (simp add: mult.commute)
  have "unat t + 4096 * (n - Suc i) = unat t + 4096 * (n - Suc j)"
  proof -
    have lt: "n - Suc i < n" "n - Suc j < n" using ij by auto
    show ?thesis unfolding u [OF lt(1), symmetric] u [OF lt(2), symmetric] eq ..
  qed
  with ij show "i = j" by auto
qed

lemma stack_growth_law:
  assumes inv: "vm_inv (mm_space mm)" and c: "stack_candidate mm target = Inr (Some i)"
    and guard: "vma_flags (last (mm_space mm)) AND MAP_GROWSDOWN = 0"
  defines "v \<equiv> mm_space mm ! i"
  defines "sp' \<equiv> (mm_space mm)[i := v\<lparr>re_begin := thisPage target\<rparr>]"
  shows "vm_inv sp' \<and> mm_stack_low mm \<le> target \<and> covered sp' target \<and> \<not> covered (mm_space mm) target \<and>
    (\<forall>p. covered sp' p \<longleftrightarrow> covered (mm_space mm) p \<or> thisPage target \<le> p \<and> p < re_begin v) \<and>
    set (stack_pages (2 ^ 20) (re_begin v) target) = {p. page_aligned p \<and> thisPage target \<le> p \<and> p < re_begin v} \<and>
    distinct (stack_pages (2 ^ 20) (re_begin v) target)"
proof -
  let ?sp = "mm_space mm" and ?t = "thisPage target"
  have ri: "range_inv vm_base vm_top ?sp" using inv by (simp add: vm_inv_def)
  obtain A e C where xs: "?sp = A @ e # C" and loc: "range_locate ?sp target = Inr (length A)"
    by (rule locate_split [OF ri])
  have i: "i = Suc (length A)" "C \<noteq> []" and b: "re_end e \<le> target" "target < re_begin (hd C)"
    and gd: "vma_flags (hd C) AND MAP_GROWSDOWN \<noteq> 0" and low: "mm_stack_low mm \<le> target"
    using c loc by (auto simp: stack_candidate_def Let_def xs nth_append re_bounds_addr_def hd_conv_nth split: if_splits)
  obtain D where C: "C = v # D" using i by (cases C) (auto simp: v_def xs nth_append)
  have D: "D \<noteq> []" using guard gd C by (auto simp: xs)
  have sp': "sp' = A @ e # v\<lparr>re_begin := ?t\<rparr> # D" by (simp add: sp'_def xs C i(1) list_update_append)
  have "range_inv vm_base vm_top ((A @ [e]) @ v # D)" using ri by (simp add: xs C)
  note S = range_split [OF this]
  have v: "re_begin v < re_end v" "target < re_begin v" using S(4) D b(2) C by auto
  have al: "page_aligned (re_end e)" "page_aligned (re_begin v)" "page_aligned (re_end v)"
    using inv by (auto simp: vm_inv_def xs C)
  have te: "re_end e \<le> ?t" by (rule aligned_le_thisPage [OF al(1) b(1)])
  have tv: "?t < re_begin v" using v(2) thisPage_le [of target] by simp
  have At: "re_end x \<le> ?t" if "x \<in> set A" for x
    using range_split(1,6) [OF ri [unfolded xs]] that te by (meson order_trans)
  have inv': "vm_inv sp'"
    using inv At te tv v(1) D by (auto simp: vm_inv_def range_inv_def xs C sp' sorted_wrt_append hd_append butlast_append)
  have cov: "covered sp' p \<longleftrightarrow> covered ?sp p \<or> ?t \<le> p \<and> p < re_begin v" for p
    using v(1) tv by (auto simp: covered_def sp' xs C re_contains_def)
  have "\<not> re_contains x target" if "x \<in> set ?sp" for x
  proof -
    have "re_end x \<le> target" if "x \<in> set A" using At [OF that] thisPage_le [of target] by simp
    moreover have "target < re_begin x" if "x \<in> set D" using S(2) [OF that] v by simp
    ultimately have "re_end x \<le> target \<or> target < re_begin x" using that b(1) v(2) by (auto simp: xs C)
    then show ?thesis by (auto simp: re_contains_def)
  qed
  then have unc: "\<not> covered ?sp target" by (auto simp: covered_def)
  define n where "n = (unat (re_begin v) - unat ?t) div 4096"
  have tt: "page_aligned ?t" by simp
  have ub: "unat (re_begin v) = unat ?t + 4096 * n"
    using al(2) tt tv by (auto simp: n_def page_aligned_def word_less_nat_alt)
  have "n \<le> 1048575" using ub unat_lt_u32 [of "re_begin v"] by linarith
  moreover have "unat ?t \<le> unat target" "unat target < unat ?t + 4096" by (simp_all add: unat_thisPage)
  ultimately have "stack_pages (Suc 1048575) (re_begin v) target = map (\<lambda>i. ?t + of_nat (n - Suc i) * 4096) [0..<n]"
    using stack_pages_down [OF al(2) tt ub] by blast
  moreover have "inj_on (\<lambda>i. ?t + of_nat (n - Suc i) * 4096) {0..<n}" by (rule pages_below_inj [OF ub])
  ultimately have dist: "distinct (stack_pages (2 ^ 20) (re_begin v) target)"
    and set: "set (stack_pages (2 ^ 20) (re_begin v) target) = (\<lambda>i. ?t + of_nat (n - Suc i) * 4096) ` {0..<n}" by (simp_all add: distinct_map)
  note set
  also have "\<dots> = {p. page_aligned p \<and> ?t \<le> p \<and> p < re_begin v}" by (rule pages_below [OF tt ub])
  finally show ?thesis using dist inv' low cov unc tv thisPage_le [of target] v(2) by simp
qed

text \<open>When a fault just below the stack is accepted, the stack grows down to the page of the faulting address
  and nowhere else: the pages allocated are all the pages between, the loop ends when it reaches that page,
  the areas stay well-formed, and they cover exactly those pages more.\<close>

theorem stack_growth_exact:
  assumes inv: "vm_inv (mm_space mm)" and c: "stack_candidate mm target = Inr (Some i)"
    and guard: "vma_flags (last (mm_space mm)) AND MAP_GROWSDOWN = 0"
  defines "v \<equiv> mm_space mm ! i"
  defines "sp' \<equiv> (mm_space mm)[i := v\<lparr>re_begin := thisPage target\<rparr>]"
  shows "vm_inv sp' \<and> mm_stack_low mm \<le> target \<and> covered sp' target \<and> \<not> covered (mm_space mm) target \<and>
    (\<forall>p. covered sp' p \<longleftrightarrow> covered (mm_space mm) p \<or> thisPage target \<le> p \<and> p < re_begin v) \<and>
    set (stack_pages (2 ^ 20) (re_begin v) target) = {p. page_aligned p \<and> thisPage target \<le> p \<and> p < re_begin v}"
  using stack_growth_law [OF inv c guard] unfolding v_def sp'_def by blast

theorem stack_growth_exact_witness:
  "covered ([VMA_range 0 0x400000, (VMA 0xBFFFF000 0xC0000000 0x122 3 ''stack'')\<lparr>re_begin := 0xBFFFD000\<rparr>, VMA_range 0xC0000000 0xFFFFF000]) 0xBFFFD123"
proof -
  let ?sp = "[VMA_range 0 0x400000, VMA 0xBFFFF000 0xC0000000 0x122 3 ''stack'', VMA_range 0xC0000000 0xFFFFF000]"
  let ?mm = "\<lparr>mm_space = ?sp, mm_cr3 = 0, mm_brkBase = 0, mm_brkAddr = 0, mm_stack_low = 0xBF800000\<rparr>"
  have inv: "vm_inv (mm_space ?mm)"
    by (simp add: vm_inv_def range_inv_def VMA_range_def VMA_def vm_base_def vm_top_def page_aligned_def)
  have c: "stack_candidate ?mm 0xBFFFD123 = Inr (Some 1)"
    by (simp add: stack_candidate_def range_locate_def VMA_range_def VMA_def re_bounds_addr_def MAP_GROWSDOWN_def)
  have g: "vma_flags (last (mm_space ?mm)) AND MAP_GROWSDOWN = 0" by (simp add: VMA_range_def)
  from stack_growth_exact [OF inv c g] show ?thesis by (simp add: thisPage_def alignDown_def VMA_def VMA_range_def)
qed

end
