(* ===== verification/Nyan_List.thy ===== *)
theory Nyan_List
  imports Nyan_Prelude
begin

text \<open>
  The intrusive doubly linked list \<^verbatim>\<open>lib::List<Tag, WithTail>\<close> (kernel/lib/list/node.hpp and
  container.hpp). The nodes of all lists of a tag live in one heap of \<^verbatim>\<open>next\<close> and \<^verbatim>\<open>prev\<close>
  pointers; a list is its head and, with \<^verbatim>\<open>WithTail\<close>, its tail. Pointers are options, a null
  dereference is \<open>NullDeref\<close>, and \<^verbatim>\<open>__builtin_unreachable\<close> is \<open>OutOfBounds\<close>. The operations
  are proved to implement the ones on HOL lists.
\<close>

section \<open>Heap and list\<close>

record 'p list_heap =
  lh_next :: "'p \<Rightarrow> 'p option"
  lh_prev :: "'p \<Rightarrow> 'p option"

record 'p list_ends =
  le_head :: "'p option"
  le_tail :: "'p option"

type_synonym 'p list_state = "'p list_heap \<times> 'p list_ends"

definition set_next :: "'p \<Rightarrow> 'p option \<Rightarrow> 'p list_heap \<Rightarrow> 'p list_heap" where
  "set_next p v h = h\<lparr>lh_next := (lh_next h)(p := v)\<rparr>"

definition set_prev :: "'p \<Rightarrow> 'p option \<Rightarrow> 'p list_heap \<Rightarrow> 'p list_heap" where
  "set_prev p v h = h\<lparr>lh_prev := (lh_prev h)(p := v)\<rparr>"

definition node_clear :: "'p \<Rightarrow> 'p list_heap \<Rightarrow> 'p list_heap" where
  "node_clear p h = set_prev p None (set_next p None h)"

text \<open>\<open>wt\<close> is the template argument \<^verbatim>\<open>WithTail\<close>; without it \<open>le_tail\<close> is never touched.\<close>

definition list_clear :: "bool \<Rightarrow> 'p list_ends \<Rightarrow> 'p list_ends" where
  "list_clear wt l = (if wt then l\<lparr>le_head := None, le_tail := None\<rparr> else l\<lparr>le_head := None\<rparr>)"

definition list_empty :: "'p list_ends \<Rightarrow> bool" where
  "list_empty l \<longleftrightarrow> le_head l = None"

definition set_tail :: "bool \<Rightarrow> 'p option \<Rightarrow> 'p list_ends \<Rightarrow> 'p list_ends" where
  "set_tail wt v l = (if wt then l\<lparr>le_tail := v\<rparr> else l)"

definition insert_inclusive :: "bool \<Rightarrow> 'p option \<Rightarrow> 'p \<Rightarrow> 'p \<Rightarrow> 'p list_state \<Rightarrow> 'p list_state exec" where
  "insert_inclusive wt pos from to s = (case s of (h, l) \<Rightarrow>
    (case le_head l of
      None \<Rightarrow> Inr (set_next to None (set_prev from None h), set_tail wt (Some to) (l\<lparr>le_head := Some from\<rparr>))
    | Some head \<Rightarrow>
      (case pos of
        None \<Rightarrow>
          if wt then
            (case le_tail l of None \<Rightarrow> Inl NullDeref
             | Some tail \<Rightarrow> Inr (set_next tail (Some from) (set_next to None (set_prev from (Some tail) h)),
                 l\<lparr>le_tail := Some to\<rparr>))
          else Inl OutOfBounds
      | Some p \<Rightarrow>
          (case lh_prev h p of
            None \<Rightarrow> Inr (set_prev head (Some to) (set_next to (Some head) (set_prev from None h)),
              l\<lparr>le_head := Some from\<rparr>)
          | Some before \<Rightarrow> Inr (set_prev p (Some to) (set_next before (Some from)
              (set_next to (Some p) (set_prev from (Some before) h))), l)))))"

definition extract_inclusive :: "bool \<Rightarrow> 'p option \<Rightarrow> 'p option \<Rightarrow> 'p list_state \<Rightarrow> 'p list_state exec" where
  "extract_inclusive wt from to s = (case s of (h, l) \<Rightarrow>
    (let after = (case to of None \<Rightarrow> None | Some t \<Rightarrow> lh_next h t) in
     if le_head l = from then
       (case (to, after) of
          (Some t, Some n) \<Rightarrow> Inr (set_prev n None (set_next t None h), l\<lparr>le_head := Some n\<rparr>)
        | _ \<Rightarrow> Inr (h, list_clear wt l))
     else
       (case from of None \<Rightarrow> Inl NullDeref | Some f \<Rightarrow>
         (case lh_prev h f of None \<Rightarrow> Inl NullDeref | Some before \<Rightarrow>
           (case (to, after) of
              (Some t, Some n) \<Rightarrow>
                Inr (set_next t None (set_prev f None (set_prev n (Some before) (set_next before (Some n) h))), l)
            | _ \<Rightarrow> Inr (set_prev f None (set_next before None h), set_tail wt (Some before) l))))))"

section \<open>Operations\<close>

definition list_push_front :: "bool \<Rightarrow> 'p \<Rightarrow> 'p list_state \<Rightarrow> 'p list_state exec" where
  "list_push_front wt item s = insert_inclusive wt (le_head (snd s)) item item s"

definition list_pop_front :: "bool \<Rightarrow> 'p list_state \<Rightarrow> 'p list_state exec" where
  "list_pop_front wt s = extract_inclusive wt (le_head (snd s)) (le_head (snd s)) s"

definition list_push_back :: "'p \<Rightarrow> 'p list_state \<Rightarrow> 'p list_state exec" where
  "list_push_back item s = insert_inclusive True None item item s"

definition list_pop_back :: "'p list_state \<Rightarrow> 'p list_state exec" where
  "list_pop_back s = extract_inclusive True (le_tail (snd s)) (le_tail (snd s)) s"

definition list_erase :: "bool \<Rightarrow> 'p \<Rightarrow> 'p list_state \<Rightarrow> ('p option \<times> 'p list_state) exec" where
  "list_erase wt pos s = (let nxt = lh_next (fst s) pos in
    sbind (extract_inclusive wt (Some pos) (Some pos) s) (\<lambda>s'. Inr (nxt, s')))"

definition list_erase_range :: "bool \<Rightarrow> 'p option \<Rightarrow> 'p option \<Rightarrow> 'p list_state \<Rightarrow> ('p option \<times> 'p list_state) exec" where
  "list_erase_range wt from to s =
    (if from = to then Inr (to, s)
     else case to of
       None \<Rightarrow> sbind (extract_inclusive wt from None s) (\<lambda>s'. Inr (None, s'))
     | Some t \<Rightarrow> sbind (extract_inclusive wt from (lh_prev (fst s) t) s) (\<lambda>s'. Inr (to, s')))"

definition list_insert :: "bool \<Rightarrow> 'p option \<Rightarrow> 'p \<Rightarrow> 'p list_state \<Rightarrow> ('p \<times> 'p list_state) exec" where
  "list_insert wt pos item s = sbind (insert_inclusive wt pos item item s) (\<lambda>s'. Inr (item, s'))"

text \<open>Two lists of one heap: the spliced list \<open>l2\<close> always has a tail.\<close>

definition list_splice_all :: "bool \<Rightarrow> 'p option \<Rightarrow> 'p list_ends \<Rightarrow> 'p list_state \<Rightarrow> ('p list_ends \<times> 'p list_state) exec" where
  "list_splice_all wt pos l2 s =
    (case le_head l2 of None \<Rightarrow> Inr (l2, s)
     | Some f \<Rightarrow> (case le_tail l2 of None \<Rightarrow> Inl NullDeref
       | Some t \<Rightarrow> sbind (insert_inclusive wt pos f t s) (\<lambda>s'. Inr (list_clear True l2, s'))))"

definition list_splice_range :: "bool \<Rightarrow> 'p option \<Rightarrow> 'p list_ends \<Rightarrow> 'p \<Rightarrow> 'p \<Rightarrow> 'p list_state \<Rightarrow>
    ('p list_ends \<times> 'p list_state) exec" where
  "list_splice_range wt pos l2 from to s = (case s of (h, l) \<Rightarrow>
    sbind (extract_inclusive True (Some from) (Some to) (h, l2)) (\<lambda>(h', l2').
    sbind (insert_inclusive wt pos from to (h', l)) (\<lambda>s'. Inr (l2', s'))))"

definition list_splice_item :: "bool \<Rightarrow> 'p option \<Rightarrow> 'p list_ends \<Rightarrow> 'p \<Rightarrow> 'p list_state \<Rightarrow>
    ('p list_ends \<times> 'p list_state) exec" where
  "list_splice_item wt pos l2 item s = list_splice_range wt pos l2 item item s"

section \<open>Representation\<close>

fun linked :: "'p list_heap \<Rightarrow> 'p list \<Rightarrow> bool" where
  "linked h (x # y # xs) \<longleftrightarrow> lh_next h x = Some y \<and> lh_prev h y = Some x \<and> linked h (y # xs)"
| "linked h _ \<longleftrightarrow> True"

text \<open>The nodes \<open>xs\<close> form a chain that is closed at both ends.\<close>

definition chain :: "'p list_heap \<Rightarrow> 'p list \<Rightarrow> bool" where
  "chain h xs \<longleftrightarrow> distinct xs \<and> linked h xs \<and> (xs \<noteq> [] \<longrightarrow> lh_prev h (hd xs) = None \<and> lh_next h (last xs) = None)"

definition is_list :: "bool \<Rightarrow> 'p list_state \<Rightarrow> 'p list \<Rightarrow> bool" where
  "is_list wt s xs \<longleftrightarrow> chain (fst s) xs \<and> le_head (snd s) = (if xs = [] then None else Some (hd xs)) \<and>
    (wt \<longrightarrow> le_tail (snd s) = (if xs = [] then None else Some (last xs)))"

lemma heap_sel [simp]:
  "lh_next (set_next p v h) = (lh_next h)(p := v)" "lh_prev (set_next p v h) = lh_prev h"
  "lh_next (set_prev p v h) = lh_next h" "lh_prev (set_prev p v h) = (lh_prev h)(p := v)"
  by (simp_all add: set_next_def set_prev_def)

lemma linked_append:
  "linked h (xs @ ys) \<longleftrightarrow> linked h xs \<and> linked h ys \<and>
    (xs \<noteq> [] \<and> ys \<noteq> [] \<longrightarrow> lh_next h (last xs) = Some (hd ys) \<and> lh_prev h (hd ys) = Some (last xs))"
proof (induction xs)
  case (Cons x xs)
  then show ?case by (cases xs; cases ys) auto
qed simp

lemma linked_cong:
  assumes "\<And>x. x \<in> set (butlast xs) \<Longrightarrow> lh_next h' x = lh_next h x" "\<And>x. x \<in> set (tl xs) \<Longrightarrow> lh_prev h' x = lh_prev h x"
  shows "linked h' xs = linked h xs"
  using assms by (induction xs rule: linked.induct[of _ h]) (auto split: if_splits)

text \<open>A change of the pointers that leave a segment, at its ends, keeps the segment.\<close>

lemma linked_frame:
  assumes "distinct xs"
  shows "p \<notin> set xs \<or> xs \<noteq> [] \<and> p = last xs \<Longrightarrow> linked (set_next p v h) xs = linked h xs"
    "p \<notin> set xs \<or> xs \<noteq> [] \<and> p = hd xs \<Longrightarrow> linked (set_prev p v h) xs = linked h xs"
proof -
  show "linked (set_next p v h) xs = linked h xs" if p: "p \<notin> set xs \<or> xs \<noteq> [] \<and> p = last xs"
  proof (rule linked_cong)
    fix x assume "x \<in> set (butlast xs)"
    then have "x \<noteq> p" using p assms
      by (metis append_butlast_last_id distinct_append disjoint_insert(2) in_set_butlastD list.set_intros(1)
          inf_commute list.simps(15) disjoint_iff)
    then show "lh_next (set_next p v h) x = lh_next h x" by simp
  qed simp
  show "linked (set_prev p v h) xs = linked h xs" if p: "p \<notin> set xs \<or> xs \<noteq> [] \<and> p = hd xs"
  proof (rule linked_cong)
    fix x assume "x \<in> set (tl xs)"
    then have "x \<noteq> p" using p assms by (cases xs) auto
    then show "lh_prev (set_prev p v h) x = lh_prev h x" by simp
  qed simp
qed

section \<open>Refinement\<close>

definition heap_same :: "'p set \<Rightarrow> 'p list_heap \<Rightarrow> 'p list_heap \<Rightarrow> bool" where
  "heap_same X h h' \<longleftrightarrow> (\<forall>x. x \<notin> X \<longrightarrow> lh_next h' x = lh_next h x \<and> lh_prev h' x = lh_prev h x)"

lemma insert_inclusive_law:
  assumes l: "is_list wt (h, l) (A @ B)" and ys: "chain h ys" "ys \<noteq> []" "set ys \<inter> set (A @ B) = {}"
    and wt: "B = [] \<longrightarrow> A = [] \<or> wt"
  shows "\<exists>h' l'. insert_inclusive wt (if B = [] then None else Some (hd B)) (hd ys) (last ys) (h, l) = Inr (h', l') \<and>
    is_list wt (h', l') (A @ ys @ B) \<and> heap_same (set (A @ ys @ B)) h h'"
proof -
  have d: "distinct A" "distinct B" "distinct ys" "set A \<inter> set B = {}" "set ys \<inter> set A = {}" "set ys \<inter> set B = {}"
    using l ys by (auto simp: is_list_def chain_def)
  have lk: "linked h A" "linked h B" "linked h ys" using l ys by (auto simp: is_list_def chain_def linked_append)
  have m: "hd ys \<in> set ys" "last ys \<in> set ys" using ys(2) by auto
  have mA: "A \<noteq> [] \<Longrightarrow> hd A \<in> set A \<and> last A \<in> set A" and mB: "B \<noteq> [] \<Longrightarrow> hd B \<in> set B \<and> last B \<in> set B" by auto
  note sets = d(4-6) m
  have nin: "hd ys \<notin> set A" "hd ys \<notin> set B" "last ys \<notin> set A" "last ys \<notin> set B" using sets by auto
  have nA: "A \<noteq> [] \<Longrightarrow> last A \<notin> set B \<and> last A \<notin> set ys \<and> hd A \<notin> set B \<and> hd A \<notin> set ys" using mA sets by blast
  have nB: "B \<noteq> [] \<Longrightarrow> hd B \<notin> set A \<and> hd B \<notin> set ys \<and> last B \<notin> set A \<and> last B \<notin> set ys" using mB sets by blast
  note facts = linked_frame [OF d(1)] linked_frame [OF d(2)] linked_frame [OF d(3)] lk nin d
  consider (none) "A = []" "B = []" | (atend) "A \<noteq> []" "B = []" | (atbegin) "A = []" "B \<noteq> []" | (mid) "A \<noteq> []" "B \<noteq> []"
    by blast
  then show ?thesis
  proof cases
    case none
    with l ys facts show ?thesis
      by (auto simp: insert_inclusive_def is_list_def chain_def set_tail_def heap_same_def)
  next
    case atend
    then have "le_head l = Some (hd A)" "le_tail l = Some (last A)" "wt" using l wt by (auto simp: is_list_def)
    with atend l ys facts nA show ?thesis
      by (auto simp: insert_inclusive_def is_list_def chain_def linked_append heap_same_def)
  next
    case atbegin
    then have "le_head l = Some (hd B)" "lh_prev h (hd B) = None" using l by (auto simp: is_list_def chain_def)
    with atbegin l ys facts nB show ?thesis
      by (auto simp: insert_inclusive_def is_list_def chain_def linked_append heap_same_def)
  next
    case mid
    then have "le_head l = Some (hd A)" "lh_prev h (hd B) = Some (last A)"
      using l by (auto simp: is_list_def chain_def linked_append)
    with mid l ys facts nA nB show ?thesis
      by (auto simp: insert_inclusive_def is_list_def chain_def linked_append heap_same_def)
  qed
qed

lemma extract_inclusive_law:
  assumes l: "is_list wt (h, l) (A @ ys @ B)" and ys: "ys \<noteq> []" and to: "to = Some (last ys) \<or> to = None \<and> B = []"
  shows "\<exists>h' l'. extract_inclusive wt (Some (hd ys)) to (h, l) = Inr (h', l') \<and>
    is_list wt (h', l') (A @ B) \<and> chain h' ys \<and> heap_same (set (A @ ys @ B)) h h'"
proof -
  have d: "distinct A" "distinct B" "distinct ys" "set A \<inter> set B = {}" "set ys \<inter> set A = {}" "set ys \<inter> set B = {}"
    using l ys by (auto simp: is_list_def chain_def)
  have lk: "linked h A" "linked h B" "linked h ys" using l by (auto simp: is_list_def chain_def linked_append)
  have m: "hd ys \<in> set ys" "last ys \<in> set ys" using ys by auto
  have nin: "hd ys \<notin> set A" "hd ys \<notin> set B" "last ys \<notin> set A" "last ys \<notin> set B" using d m by auto
  have nA: "A \<noteq> [] \<Longrightarrow> last A \<notin> set B \<and> last A \<notin> set ys \<and> hd A \<notin> set B \<and> hd A \<notin> set ys"
    using d by (meson disjoint_iff hd_in_set last_in_set)
  have nB: "B \<noteq> [] \<Longrightarrow> hd B \<notin> set A \<and> hd B \<notin> set ys \<and> last B \<notin> set A \<and> last B \<notin> set ys"
    using d by (meson disjoint_iff hd_in_set last_in_set)
  note facts = linked_frame [OF d(1)] linked_frame [OF d(2)] linked_frame [OF d(3)] lk nin d
  consider (none) "A = []" "B = []" | (atend) "A \<noteq> []" "B = []" | (atbegin) "A = []" "B \<noteq> []" | (mid) "A \<noteq> []" "B \<noteq> []"
    by blast
  then show ?thesis
  proof cases
    case none
    then have "le_head l = Some (hd ys)" "lh_next h (last ys) = None" using l ys by (auto simp: is_list_def chain_def)
    with none l to show ?thesis
      by (auto simp: extract_inclusive_def is_list_def chain_def list_clear_def heap_same_def)
  next
    case atend
    then have "le_head l = Some (hd A)" "hd A \<noteq> hd ys" "lh_next h (last ys) = None" "lh_prev h (hd ys) = Some (last A)"
      using l ys nA m by (auto simp: is_list_def chain_def linked_append)
    with atend l ys to facts nA show ?thesis
      by (auto simp: extract_inclusive_def is_list_def chain_def linked_append set_tail_def heap_same_def)
  next
    case atbegin
    then have "le_head l = Some (hd ys)" "lh_next h (last ys) = Some (hd B)" "to = Some (last ys)"
      using l ys to by (auto simp: is_list_def chain_def linked_append)
    with atbegin l ys facts nB show ?thesis
      by (auto simp: extract_inclusive_def is_list_def chain_def linked_append heap_same_def)
  next
    case mid
    then have "le_head l = Some (hd A)" "hd A \<noteq> hd ys" "lh_next h (last ys) = Some (hd B)" "lh_prev h (hd ys) = Some (last A)"
      "to = Some (last ys)"
      using l ys nA m to by (auto simp: is_list_def chain_def linked_append)
    with mid l ys facts nA nB show ?thesis
      by (auto simp: extract_inclusive_def is_list_def chain_def linked_append heap_same_def)
  qed
qed

text \<open>A node that is in no list: what \<^verbatim>\<open>ListNode\<close> starts as, and what an extracted node is again.\<close>

definition detached :: "'p list_heap \<Rightarrow> 'p \<Rightarrow> bool" where
  "detached h p \<longleftrightarrow> chain h [p]"

lemma insert_one:
  assumes "is_list wt (h, l) (A @ B)" "detached h p" "p \<notin> set (A @ B)" "B = [] \<longrightarrow> A = [] \<or> wt"
  shows "\<exists>h' l'. insert_inclusive wt (if B = [] then None else Some (hd B)) p p (h, l) = Inr (h', l') \<and>
    is_list wt (h', l') (A @ p # B) \<and> heap_same (set (A @ p # B)) h h'"
  using insert_inclusive_law [OF assms(1), of "[p]"] assms(2-4) by (simp add: detached_def)

lemma extract_one:
  assumes "is_list wt (h, l) (A @ p # B)"
  shows "\<exists>h' l'. extract_inclusive wt (Some p) (Some p) (h, l) = Inr (h', l') \<and>
    is_list wt (h', l') (A @ B) \<and> detached h' p \<and> heap_same (set (A @ p # B)) h h'"
  using extract_inclusive_law [of wt h l A "[p]" B "Some p"] assms by (simp add: detached_def)

section \<open>Histories\<close>

text \<open>The operations the kernel uses on a list with a tail, on pointers and on HOL lists.\<close>

datatype 'p list_op = PushFront 'p | PushBack 'p | PopFront | PopBack | Erase 'p | InsertBefore 'p 'p

fun list_step :: "'p list_op \<Rightarrow> 'p list_state \<Rightarrow> 'p list_state exec" where
  "list_step (PushFront p) s = list_push_front True p s"
| "list_step (PushBack p) s = list_push_back p s"
| "list_step PopFront s = list_pop_front True s"
| "list_step PopBack s = list_pop_back s"
| "list_step (Erase p) s = sbind (list_erase True p s) (\<lambda>(_, s'). Inr s')"
| "list_step (InsertBefore q p) s = sbind (list_insert True (Some q) p s) (\<lambda>(_, s'). Inr s')"

fun spec_step :: "'p list_op \<Rightarrow> 'p list \<Rightarrow> 'p list" where
  "spec_step (PushFront p) xs = p # xs"
| "spec_step (PushBack p) xs = xs @ [p]"
| "spec_step PopFront xs = tl xs"
| "spec_step PopBack xs = butlast xs"
| "spec_step (Erase p) xs = remove1 p xs"
| "spec_step (InsertBefore q p) xs = takeWhile (\<lambda>x. x \<noteq> q) xs @ p # dropWhile (\<lambda>x. x \<noteq> q) xs"

text \<open>The caller's side: insert only nodes that are in no list, erase and insert only at nodes of the list.\<close>

fun op_allowed :: "'p list_op \<Rightarrow> 'p list \<Rightarrow> bool" where
  "op_allowed (PushFront p) xs \<longleftrightarrow> p \<notin> set xs"
| "op_allowed (PushBack p) xs \<longleftrightarrow> p \<notin> set xs"
| "op_allowed (Erase p) xs \<longleftrightarrow> p \<in> set xs"
| "op_allowed (InsertBefore q p) xs \<longleftrightarrow> q \<in> set xs \<and> p \<notin> set xs"
| "op_allowed _ xs \<longleftrightarrow> True"

fun run_allowed :: "'p list_op list \<Rightarrow> 'p list \<Rightarrow> bool" where
  "run_allowed [] xs \<longleftrightarrow> True"
| "run_allowed (op # ops) xs \<longleftrightarrow> op_allowed op xs \<and> run_allowed ops (spec_step op xs)"

fun list_run :: "'p list_op list \<Rightarrow> 'p list_state \<Rightarrow> 'p list_state exec" where
  "list_run [] s = Inr s"
| "list_run (op # ops) s = sbind (list_step op s) (list_run ops)"

definition all_detached :: "'p list_heap \<Rightarrow> 'p set \<Rightarrow> bool" where
  "all_detached h X \<longleftrightarrow> (\<forall>p. p \<notin> X \<longrightarrow> detached h p)"

lemma detached_same: "heap_same X h h' \<Longrightarrow> p \<notin> X \<Longrightarrow> detached h p \<Longrightarrow> detached h' p"
  by (simp add: heap_same_def detached_def chain_def)

lemma erase_step:
  assumes l: "is_list True (h, l) (A @ p # B)" and det: "all_detached h (set (A @ p # B))"
  shows "\<exists>h' l'. extract_inclusive True (Some p) (Some p) (h, l) = Inr (h', l') \<and>
    is_list True (h', l') (A @ B) \<and> all_detached h' (set (A @ B))"
proof -
  obtain h' l' where e: "extract_inclusive True (Some p) (Some p) (h, l) = Inr (h', l')"
    "is_list True (h', l') (A @ B)" "detached h' p" "heap_same (set (A @ p # B)) h h'"
    using extract_one [OF l] by blast
  have "detached h' q" if "q \<notin> set (A @ B)" for q
    using that det e(3) detached_same [OF e(4), of q] by (cases "q = p") (auto simp: all_detached_def)
  then have "all_detached h' (set (A @ B))" by (simp add: all_detached_def)
  with e show ?thesis by blast
qed

lemma insert_step:
  assumes l: "is_list True (h, l) (A @ B)" and det: "all_detached h (set (A @ B))" and p: "p \<notin> set (A @ B)"
  shows "\<exists>h' l'. insert_inclusive True (if B = [] then None else Some (hd B)) p p (h, l) = Inr (h', l') \<and>
    is_list True (h', l') (A @ p # B) \<and> all_detached h' (set (A @ p # B))"
proof -
  have "detached h p" using det p by (simp add: all_detached_def)
  from insert_one [OF l this p] obtain h' l' where i:
    "insert_inclusive True (if B = [] then None else Some (hd B)) p p (h, l) = Inr (h', l')"
    "is_list True (h', l') (A @ p # B)" "heap_same (set (A @ p # B)) h h'" by auto
  have "all_detached h' (set (A @ p # B))"
    using det detached_same [OF i(3)] by (auto simp: all_detached_def)
  with i show ?thesis by blast
qed

lemma list_step_refines:
  assumes l: "is_list True (h, l) xs" and det: "all_detached h (set xs)" and ok: "op_allowed op xs"
  shows "\<exists>h' l'. list_step op (h, l) = Inr (h', l') \<and> is_list True (h', l') (spec_step op xs) \<and>
    all_detached h' (set (spec_step op xs))"
proof (cases op)
  case (PushFront p)
  have "le_head l = (if xs = [] then None else Some (hd xs))" using l by (simp add: is_list_def)
  with PushFront insert_step [of h l "[]" xs p] l det ok show ?thesis by (simp add: list_push_front_def)
next
  case (PushBack p)
  with insert_step [of h l xs "[]" p] l det ok show ?thesis by (simp add: list_push_back_def)
next
  case PopFront
  show ?thesis
  proof (cases xs)
    case Nil
    with l det PopFront show ?thesis
      by (auto simp: list_pop_front_def extract_inclusive_def is_list_def chain_def list_clear_def)
  next
    case (Cons x ys)
    with PopFront erase_step [of h l "[]" x ys] l det show ?thesis by (simp add: list_pop_front_def is_list_def)
  qed
next
  case PopBack
  show ?thesis
  proof (cases xs rule: rev_cases)
    case Nil
    with l det PopBack show ?thesis
      by (auto simp: list_pop_back_def extract_inclusive_def is_list_def chain_def list_clear_def)
  next
    case (snoc ys x)
    with PopBack erase_step [of h l ys x "[]"] l det show ?thesis by (simp add: list_pop_back_def is_list_def)
  qed
next
  case (Erase p)
  then obtain A B where xs: "xs = A @ p # B" using ok by (auto dest: split_list)
  moreover have "p \<notin> set A" using l by (auto simp: is_list_def chain_def xs)
  ultimately show ?thesis
    using Erase erase_step [of h l A p B] l det by (auto simp: list_erase_def remove1_append)
next
  case (InsertBefore q p)
  then have q: "q \<in> set xs" and p: "p \<notin> set xs" using ok by auto
  obtain A B where xs: "xs = A @ q # B" "q \<notin> set A" using q by (meson split_list_first)
  then have "takeWhile (\<lambda>x. x \<noteq> q) xs = A" "dropWhile (\<lambda>x. x \<noteq> q) xs = q # B"
    by (auto simp: takeWhile_tail dropWhile_append)
  with InsertBefore insert_step [of h l A "q # B" p] l det p xs show ?thesis by (auto simp: list_insert_def)
qed

lemma list_run_refines:
  assumes "is_list True (h, l) xs" "all_detached h (set xs)" "run_allowed ops xs"
  shows "\<exists>h' l'. list_run ops (h, l) = Inr (h', l') \<and> is_list True (h', l') (fold spec_step ops xs)"
  using assms
proof (induction ops arbitrary: h l xs)
  case (Cons op ops)
  obtain h' l' where s: "list_step op (h, l) = Inr (h', l')" "is_list True (h', l') (spec_step op xs)"
    "all_detached h' (set (spec_step op xs))"
    using list_step_refines Cons.prems by (metis run_allowed.simps(2))
  with Cons.IH [OF s(2,3)] Cons.prems(3) show ?case by simp
qed auto

text \<open>Walking a list with \<^verbatim>\<open>++\<close> from \<^verbatim>\<open>begin()\<close>, and with \<^verbatim>\<open>--\<close> from the tail, for at most \<open>n\<close> steps.\<close>

fun walk :: "('p \<Rightarrow> 'p option) \<Rightarrow> nat \<Rightarrow> 'p option \<Rightarrow> 'p list" where
  "walk step (Suc n) (Some p) = p # walk step n (step p)"
| "walk step _ _ = []"

lemma walk_next:
  assumes "linked h xs" "xs \<noteq> []" "lh_next h (last xs) = None" "length xs \<le> n"
  shows "walk (lh_next h) n (Some (hd xs)) = xs"
  using assms
proof (induction xs arbitrary: n)
  case (Cons x xs)
  then obtain m where n: "n = Suc m" by (cases n) auto
  show ?case
  proof (cases xs)
    case Nil
    with Cons.prems n show ?thesis by (cases m) auto
  next
    case (Cons y ys)
    with Cons.IH [of m] Cons.prems n show ?thesis by simp
  qed
qed simp

lemma walk_prev:
  assumes "linked h xs" "xs \<noteq> []" "lh_prev h (hd xs) = None" "length xs \<le> n"
  shows "walk (lh_prev h) n (Some (last xs)) = rev xs"
  using assms
proof (induction xs arbitrary: n rule: rev_induct)
  case (snoc x xs)
  then obtain m where n: "n = Suc m" by (cases n) auto
  show ?case
  proof (cases "xs = []")
    case True
    with snoc.prems n show ?thesis by (cases m) auto
  next
    case False
    with snoc.IH [of m] snoc.prems n show ?thesis by (simp add: linked_append)
  qed
qed simp

text \<open>C15: whatever sequence of insertions, removals and erasures the kernel performs on an intrusive list, the
  pointers stay consistent: no null pointer is followed, walking forward from the head gives exactly the
  sequence the same operations give on an abstract list, and walking backward from the tail gives its
  reverse.\<close>

theorem list_history:
  assumes "run_allowed ops []"
  shows "\<exists>h l. list_run ops (\<lparr>lh_next = \<lambda>_. None, lh_prev = \<lambda>_. None\<rparr>, \<lparr>le_head = None, le_tail = None\<rparr>) = Inr (h, l) \<and>
    (\<forall>n\<ge>length (fold spec_step ops []).
      walk (lh_next h) n (le_head l) = fold spec_step ops [] \<and>
      walk (lh_prev h) n (le_tail l) = rev (fold spec_step ops []))"
proof -
  let ?h = "\<lparr>lh_next = \<lambda>_ :: 'a. None, lh_prev = \<lambda>_ :: 'a. None\<rparr> :: 'a list_heap"
  have "is_list True (?h, \<lparr>le_head = None, le_tail = None\<rparr>) []" "all_detached ?h (set [])"
    by (simp_all add: is_list_def chain_def all_detached_def detached_def)
  from list_run_refines [OF this assms] obtain h l where
    r: "list_run ops (?h, \<lparr>le_head = None, le_tail = None\<rparr>) = Inr (h, l)" and i: "is_list True (h, l) (fold spec_step ops [])"
    by blast
  have "walk (lh_next h) n (le_head l) = fold spec_step ops [] \<and>
      walk (lh_prev h) n (le_tail l) = rev (fold spec_step ops [])" if "length (fold spec_step ops []) \<le> n" for n
    using i that walk_next [of h] walk_prev [of h]
    by (cases "fold spec_step ops [] = []") (auto simp: is_list_def chain_def)
  with r show ?thesis by blast
qed

theorem list_history_witness:
  "\<exists>h l. list_run [PushBack (1::nat), PushBack 2, PushFront 3, Erase 1, PopBack]
      (\<lparr>lh_next = \<lambda>_. None, lh_prev = \<lambda>_. None\<rparr>, \<lparr>le_head = None, le_tail = None\<rparr>) = Inr (h, l) \<and>
    walk (lh_next h) 5 (le_head l) = [3]"
  using list_history [of "[PushBack (1::nat), PushBack 2, PushFront 3, Erase 1, PopBack]"] by auto

text \<open>Moving a segment from one list to another moves exactly its nodes: the segment leaves the first list,
  arrives in order before the given node of the second, and both lists stay well-formed.\<close>

theorem splice_moves_segment:
  assumes l: "is_list wt (h, l) (A @ B)" and l2: "is_list True (h, l2) (C @ ys @ D)" and ys: "ys \<noteq> []"
    and disj: "set (A @ B) \<inter> set (C @ ys @ D) = {}" and wt: "B = [] \<longrightarrow> A = [] \<or> wt"
  shows "\<exists>h' l' l2'. list_splice_range wt (if B = [] then None else Some (hd B)) l2 (hd ys) (last ys) (h, l) =
      Inr (l2', (h', l')) \<and> is_list wt (h', l') (A @ ys @ B) \<and> is_list True (h', l2') (C @ D)"
proof -
  obtain h1 l2' where x: "extract_inclusive True (Some (hd ys)) (Some (last ys)) (h, l2) = Inr (h1, l2')"
    "is_list True (h1, l2') (C @ D)" "chain h1 ys" "heap_same (set (C @ ys @ D)) h h1"
    using extract_inclusive_law [OF l2 ys, of "Some (last ys)"] by auto
  have same: "chain h' xs" if "heap_same X h h'" "set xs \<inter> X = {}" "chain h xs" for h h' :: "'a list_heap" and X xs
  proof -
    have eq: "lh_next h' x = lh_next h x \<and> lh_prev h' x = lh_prev h x" if "x \<in> set xs" for x
      using that \<open>heap_same X h h'\<close> \<open>set xs \<inter> X = {}\<close> by (auto simp: heap_same_def)
    have "linked h' xs = linked h xs"
      by (rule linked_cong) (use eq in_set_butlastD [of _ xs] in \<open>(blast | metis list.sel(2) list.set_sel(2))+\<close>)
    with \<open>chain h xs\<close> eq show ?thesis by (auto simp: chain_def)
  qed
  have "chain h1 (A @ B)" using same [OF x(4), of "A @ B"] disj l by (simp add: is_list_def)
  then have l1: "is_list wt (h1, l) (A @ B)" using l by (simp add: is_list_def)
  obtain h' l' where i: "insert_inclusive wt (if B = [] then None else Some (hd B)) (hd ys) (last ys) (h1, l) = Inr (h', l')"
    "is_list wt (h', l') (A @ ys @ B)" "heap_same (set (A @ ys @ B)) h1 h'"
    using insert_inclusive_law [OF l1 x(3) ys _ wt] disj by auto
  have "set (C @ D) \<inter> set (A @ ys @ B) = {}" using disj l2 by (auto simp: is_list_def chain_def)
  then have "chain h' (C @ D)" using same [OF i(3)] x(2) by (simp add: is_list_def)
  then have "is_list True (h', l2') (C @ D)" using x(2) by (simp add: is_list_def)
  with x(1) i(1,2) show ?thesis by (simp add: list_splice_range_def)
qed

theorem splice_moves_segment_witness:
  "\<exists>h' l' l2'. list_splice_range True None \<lparr>le_head = Some 1, le_tail = Some 2\<rparr> (1::nat) 2
      (\<lparr>lh_next = (\<lambda>_. None)(1 := Some 2), lh_prev = (\<lambda>_. None)(2 := Some 1)\<rparr>, \<lparr>le_head = Some 3, le_tail = Some 3\<rparr>) =
    Inr (l2', (h', l')) \<and> is_list True (h', l') [3, 1, 2]"
  using splice_moves_segment [of True "\<lparr>lh_next = (\<lambda>_. None)(1 := Some 2), lh_prev = (\<lambda>_. None)(2 := Some 1)\<rparr>"
      "\<lparr>le_head = Some 3, le_tail = Some 3\<rparr>" "[3::nat]" "[]" "\<lparr>le_head = Some 1, le_tail = Some 2\<rparr>" "[]" "[1, 2]" "[]"]
  by (auto simp: is_list_def chain_def)

end
