(* ===== verification/Nyan_Ring.thy ===== *)
theory Nyan_Ring
  imports Nyan_Prelude
begin

text \<open>
  Arrays used as rings, and the contract of a bounded first-in first-out buffer. The two
  ring buffers of the kernel, \<^verbatim>\<open>lib::RingQueue\<close> and the pipe buffer of \<^verbatim>\<open>fs::PipeState\<close>,
  interpret the locale \<open>bounded_fifo\<close>; what a client may conclude from any sequence of
  insertions and removals is proved once, inside the locale.
\<close>

section \<open>Slices of a ring\<close>

definition ring_slice :: "'a list \<Rightarrow> nat \<Rightarrow> nat \<Rightarrow> 'a list" where
  "ring_slice d h n = map (\<lambda>i. d ! ((h + i) mod length d)) [0..<n]"

text \<open>A block copy into the ring, split where it passes the end of the array.\<close>

definition ring_put :: "'a list \<Rightarrow> nat \<Rightarrow> 'a list \<Rightarrow> 'a list" where
  "ring_put d left xs =
    (if left + length xs > length d
     then splice_at (splice_at d left (take (length d - left) xs)) 0 (drop (length d - left) xs)
     else splice_at d left xs)"

datatype 'a fifo_op = Put "'a list" | Get nat

fun fifo_run :: "('s \<Rightarrow> 'a list \<Rightarrow> 's \<times> nat) \<Rightarrow> ('s \<Rightarrow> nat \<Rightarrow> 's \<times> 'a list) \<Rightarrow>
    's \<Rightarrow> 'a fifo_op list \<Rightarrow> 's \<times> 'a list \<times> 'a list" where
  "fifo_run put get s [] = (s, [], [])"
| "fifo_run put get s (Put xs # ops) =
    (let (s1, n) = put s xs; (s2, inn, out) = fifo_run put get s1 ops
     in (s2, take n xs @ inn, out))"
| "fifo_run put get s (Get k # ops) =
    (let (s1, ys) = get s k; (s2, inn, out) = fifo_run put get s1 ops
     in (s2, inn, ys @ out))"

lemma length_ring_slice [simp]: "length (ring_slice d h n) = n"
  by (simp add: ring_slice_def)

lemma ring_slice_0 [simp]: "ring_slice d h 0 = []"
  by (simp add: ring_slice_def)

lemma nth_ring_slice [simp]: "i < n \<Longrightarrow> ring_slice d h n ! i = d ! ((h + i) mod length d)"
  by (simp add: ring_slice_def)

lemma ring_slice_mod: "ring_slice d (h mod length d) n = ring_slice d h n"
  by (simp add: ring_slice_def mod_add_left_eq)

lemma ring_slice_cong:
  "h mod length d = h' mod length d \<Longrightarrow> ring_slice d h n = ring_slice d h' n"
  by (metis ring_slice_mod)

lemma take_ring_slice: "take k (ring_slice d h n) = ring_slice d h (min k n)"
  by (rule nth_equalityI) auto

lemma drop_ring_slice: "drop k (ring_slice d h n) = ring_slice d (h + k) (n - k)"
  by (rule nth_equalityI) (auto simp: ac_simps)

lemma ring_index_inj:
  assumes "i < N" "j < N" "(h + i) mod N = (h + j) mod (N :: nat)"
  shows "i = j"
proof -
  have "int i mod int N = int j mod int N"
    using assms(3) by (metis add_diff_cancel_left' mod_diff_left_eq of_nat_add of_nat_mod)
  with assms(1,2) show ?thesis by simp
qed

lemma length_ring_put [simp]:
  "left < length d \<Longrightarrow> length xs \<le> length d \<Longrightarrow> length (ring_put d left xs) = length d"
  by (simp add: ring_put_def)

text \<open>The split copy writes exactly the slots the modular indices name.\<close>

lemma nth_ring_put:
  assumes "left < length d" "length xs \<le> length d" "i < length d"
  shows "ring_put d left xs ! ((left + i) mod length d) =
    (if i < length xs then xs ! i else d ! ((left + i) mod length d))"
proof (cases "left + i < length d")
  case True
  with assms show ?thesis
    by (auto simp: ring_put_def nth_splice_at)
next
  case False
  with assms have "(left + i) mod length d = left + i - length d"
    by (simp add: mod_if)
  with False assms show ?thesis
    by (auto simp: ring_put_def nth_splice_at)
qed

lemma ring_slice_put:
  assumes "0 < length d" "n + length xs \<le> length d"
  shows "ring_slice (ring_put d ((h + n) mod length d) xs) h (n + length xs)
    = ring_slice d h n @ xs"
proof (rule nth_equalityI, goal_cases)
  case (2 i)
  let ?N = "length d" and ?l = "(h + n) mod length d"
  have l: "?l < ?N" using assms by simp
  from 2 have i: "i < n + length xs" by simp
  define j where "j = (if i < n then i + ?N - n else i - n)"
  have j: "j < ?N" using i assms by (auto simp: j_def)
  have idx: "(h + i) mod ?N = (?l + j) mod ?N"
  proof (cases "i < n")
    case True
    then have "h + n + j = h + i + ?N" using assms by (simp add: j_def)
    then show ?thesis by (metis mod_add_left_eq mod_add_self2)
  next
    case False
    then have "h + n + j = h + i" by (simp add: j_def)
    then show ?thesis by (metis mod_add_left_eq)
  qed
  have "length xs \<le> ?N" using assms by simp
  from nth_ring_put [OF l this j]
  have "ring_put d ?l xs ! ((h + i) mod ?N) =
    (if j < length xs then xs ! j else d ! ((h + i) mod ?N))"
    by (simp only: idx)
  moreover have "j < length xs \<longleftrightarrow> n \<le> i"
    using i assms by (auto simp: j_def)
  ultimately show ?case
    using i assms l by (auto simp: nth_append j_def)
qed (use assms in simp)

lemma ring_put_single: "left < length d \<Longrightarrow> ring_put d left [x] = d[left := x]"
  by (simp add: ring_put_def splice_at_def upd_conv_take_nth_drop)

section \<open>Counters that run past the ring\<close>

text \<open>
  The counters are 32-bit words that are never reduced; since the capacity divides
  \<open>2 ^ 32\<close>, the distance of two counters and their residues agree across the wrap-around.
\<close>

lemma counter_residue:
  assumes "N dvd 4294967296"
  shows "unat (h + of_nat n :: u32) mod N = (unat h + n) mod N"
proof -
  have "unat (h + of_nat n :: u32) = (unat h + n) mod 4294967296"
    by (simp add: unat_add_u32 unat_of_nat mod_add_right_eq)
  then show ?thesis
    using assms by (simp add: mod_mod_cancel)
qed

lemma counter_split: "(t :: u32) = h + of_nat (unat (t - h))"
  by simp

lemma dvd_pow_32: "k \<le> 32 \<Longrightarrow> (2 :: nat) ^ k dvd 4294967296"
  using le_imp_power_dvd [of k 32 "2 :: nat"] by simp

section \<open>The contract of a bounded FIFO\<close>

locale bounded_fifo =
  fixes invar :: "'s \<Rightarrow> bool"
    and contents :: "'s \<Rightarrow> 'a list"
    and capacity :: "'s \<Rightarrow> nat"
    and put :: "'s \<Rightarrow> 'a list \<Rightarrow> 's \<times> nat"
    and get :: "'s \<Rightarrow> nat \<Rightarrow> 's \<times> 'a list"
  assumes within: "invar s \<Longrightarrow> length (contents s) \<le> capacity s"
    and put_law: "invar s \<Longrightarrow> put s xs = (s', n) \<Longrightarrow>
      invar s' \<and> capacity s' = capacity s \<and>
      n = min (length xs) (capacity s - length (contents s)) \<and>
      contents s' = contents s @ take n xs"
    and get_law: "invar s \<Longrightarrow> get s k = (s', ys) \<Longrightarrow>
      invar s' \<and> capacity s' = capacity s \<and>
      ys = take k (contents s) \<and> contents s' = drop k (contents s)"
begin

lemma run_stream:
  "invar s \<Longrightarrow> fifo_run put get s ops = (s', inn, out) \<Longrightarrow>
    invar s' \<and> out @ contents s' = contents s @ inn \<and> length (contents s') \<le> capacity s"
proof (induction ops arbitrary: s s' inn out)
  case Nil
  then show ?case by (auto simp: within)
next
  case (Cons op ops)
  show ?case
  proof (cases op)
    case (Put xs)
    obtain s1 n where p: "put s xs = (s1, n)" by fastforce
    obtain s2 i2 o2 where r: "fifo_run put get s1 ops = (s2, i2, o2)" by (metis prod_cases3)
    note l = put_law [OF Cons.prems(1) p]
    from Cons.IH [OF _ r] l have "invar s2 \<and> o2 @ contents s2 = contents s1 @ i2 \<and>
        length (contents s2) \<le> capacity s1" by blast
    moreover from Cons.prems(2) have "s' = s2" "inn = take n xs @ i2" "out = o2"
      by (simp_all add: Put p r)
    ultimately show ?thesis using l by simp
  next
    case (Get k)
    obtain s1 ys where p: "get s k = (s1, ys)" by fastforce
    obtain s2 i2 o2 where r: "fifo_run put get s1 ops = (s2, i2, o2)" by (metis prod_cases3)
    note l = get_law [OF Cons.prems(1) p]
    from Cons.IH [OF _ r] l have *: "invar s2 \<and> o2 @ contents s2 = contents s1 @ i2 \<and>
        length (contents s2) \<le> capacity s1" by blast
    moreover from Cons.prems(2) have e: "s' = s2" "inn = i2" "out = ys @ o2"
      by (simp_all add: Get p r)
    moreover from l have "ys @ contents s1 = contents s" by simp
    ultimately show ?thesis using l by (metis append.assoc)
  qed
qed

lemma put_then_get:
  assumes "invar s" "put s xs = (s1, n)" "get s1 (length (contents s) + n) = (s2, ys)"
  shows "ys = contents s @ take n xs \<and> contents s2 = []"
proof -
  from put_law [OF assms(1,2)] have l: "invar s1" "contents s1 = contents s @ take n xs"
    "n \<le> length xs" by auto
  from get_law [OF l(1) assms(3)] l show ?thesis by simp
qed

end

end
