(* ===== verification/Nyan_Queue.thy ===== *)
theory Nyan_Queue
  imports Nyan_Ring
begin

unbundle bit_operations_syntax

text \<open>
  \<^verbatim>\<open>lib::RingQueue<T, N>\<close> (kernel/lib/queue.hpp). The array is \<open>rq_data\<close>, whose length is
  the template parameter \<open>N\<close>; \<open>rq_head\<close> and \<open>rq_tail\<close> are the unreduced \<^verbatim>\<open>size_t\<close> counters.
  The operations return the queue with the value the member function returns.
\<close>

record 'a ring_queue =
  rq_data :: "'a list"
  rq_head :: u32
  rq_tail :: u32

definition rq_Mask :: "'a ring_queue \<Rightarrow> u32" where
  "rq_Mask q = of_nat (length (rq_data q)) - 1"

definition rq_size :: "'a ring_queue \<Rightarrow> u32" where
  "rq_size q = rq_tail q - rq_head q"

definition rq_empty :: "'a ring_queue \<Rightarrow> bool" where
  "rq_empty q \<longleftrightarrow> rq_head q = rq_tail q"

definition rq_full :: "'a ring_queue \<Rightarrow> bool" where
  "rq_full q \<longleftrightarrow> rq_size q = of_nat (length (rq_data q))"

definition rq_store :: "'a ring_queue \<Rightarrow> 'a \<Rightarrow> 'a ring_queue" where
  "rq_store q x = q\<lparr>rq_data := (rq_data q)[unat (rq_tail q AND rq_Mask q) := x],
                   rq_tail := rq_tail q + 1\<rparr>"

definition rq_push :: "'a ring_queue \<Rightarrow> 'a \<Rightarrow> 'a ring_queue \<times> bool" where
  "rq_push q x = (if rq_full q then (q, False) else (rq_store q x, True))"

fun rq_pushSome :: "'a ring_queue \<Rightarrow> 'a list \<Rightarrow> 'a ring_queue \<times> nat" where
  "rq_pushSome q [] = (q, 0)"
| "rq_pushSome q (x # xs) =
    (if rq_full q then (q, 0)
     else let (q', result) = rq_pushSome (rq_store q x) xs in (q', Suc result))"

definition rq_front :: "'a ring_queue \<Rightarrow> 'a" where
  "rq_front q = rq_data q ! unat (rq_head q AND rq_Mask q)"

definition rq_pop :: "'a ring_queue \<Rightarrow> 'a ring_queue \<times> 'a option" where
  "rq_pop q = (if rq_empty q then (q, None)
    else (q\<lparr>rq_head := rq_head q + 1\<rparr>, Some (rq_front q)))"

fun rq_popSome :: "'a ring_queue \<Rightarrow> nat \<Rightarrow> 'a ring_queue \<times> 'a list" where
  "rq_popSome q 0 = (q, [])"
| "rq_popSome q (Suc count) =
    (if rq_empty q then (q, [])
     else let (q', items) = rq_popSome (q\<lparr>rq_head := rq_head q + 1\<rparr>) count
          in (q', rq_front q # items))"

text \<open>The template's constraint on \<open>N\<close> (a positive power of two that a \<^verbatim>\<open>size_t\<close> holds), and
  that the counters are at most \<open>N\<close> apart.\<close>

definition rq_pow2 :: "nat \<Rightarrow> bool" where
  "rq_pow2 n \<longleftrightarrow> (\<exists>k\<in>{0..31}. n = 2 ^ k)"

definition rq_inv :: "'a ring_queue \<Rightarrow> bool" where
  "rq_inv q \<longleftrightarrow> rq_pow2 (length (rq_data q)) \<and> unat (rq_size q) \<le> length (rq_data q)"

definition rq_contents :: "'a ring_queue \<Rightarrow> 'a list" where
  "rq_contents q = ring_slice (rq_data q) (unat (rq_head q)) (unat (rq_size q))"

definition rq_capacity :: "'a ring_queue \<Rightarrow> nat" where
  "rq_capacity q = length (rq_data q)"

lemma rq_pow2_facts:
  assumes "rq_pow2 N"
  shows "0 < N" "N dvd 4294967296" "N < 4294967296"
    "unat (of_nat N :: u32) = N" "unat (w AND (of_nat N - 1) :: u32) = unat w mod N"
proof -
  from assms obtain k where k: "k \<le> 31" "N = 2 ^ k" by (auto simp: rq_pow2_def)
  from k show "0 < N" by simp
  from k show "N dvd 4294967296" by (simp add: dvd_pow_32)
  have "(2 :: nat) ^ k \<le> 2 ^ 31" using k(1) by (intro power_increasing) auto
  with k show *: "N < 4294967296" by simp
  then show "unat (of_nat N :: u32) = N" by (simp add: unat_of_nat)
  have "(of_nat N - 1 :: u32) = mask k" using k by (simp add: mask_eq_exp_minus_1)
  with k show "unat (w AND (of_nat N - 1)) = unat w mod N" by (simp add: unat_and_mask)
qed

lemma rq_full_iff: "rq_inv q \<Longrightarrow> rq_full q \<longleftrightarrow> length (rq_contents q) = rq_capacity q"
  using rq_pow2_facts(4) [of "length (rq_data q)"]
  by (simp add: rq_inv_def rq_full_def rq_contents_def rq_capacity_def word_unat_eq_iff)

lemma rq_empty_iff: "rq_empty q \<longleftrightarrow> rq_contents q = []"
proof -
  have "rq_empty q \<longleftrightarrow> length (rq_contents q) = 0"
    by (auto simp: rq_empty_def rq_contents_def rq_size_def unat_eq_0)
  then show ?thesis by simp
qed

lemma rq_tail_index:
  assumes "rq_inv q"
  shows "unat (rq_tail q AND rq_Mask q) = (unat (rq_head q) + unat (rq_size q)) mod length (rq_data q)"
proof -
  have N: "rq_pow2 (length (rq_data q))" using assms by (simp add: rq_inv_def)
  have "rq_tail q = rq_head q + of_nat (unat (rq_size q))"
    by (simp add: rq_size_def)
  then have "unat (rq_tail q) mod length (rq_data q) =
      (unat (rq_head q) + unat (rq_size q)) mod length (rq_data q)"
    using counter_residue [OF rq_pow2_facts(2) [OF N]] by metis
  then show ?thesis by (simp add: rq_Mask_def rq_pow2_facts(5) [OF N])
qed

lemma rq_store_law:
  assumes "rq_inv q" "\<not> rq_full q"
  shows "rq_inv (rq_store q x)" "rq_capacity (rq_store q x) = rq_capacity q"
    "rq_contents (rq_store q x) = rq_contents q @ [x]"
proof -
  let ?d = "rq_data q" and ?n = "unat (rq_size q)"
  have N: "rq_pow2 (length ?d)" using assms by (simp add: rq_inv_def)
  note Nf = rq_pow2_facts [OF N]
  have lt: "?n < length ?d"
    using assms rq_full_iff [OF assms(1)] by (simp add: rq_inv_def rq_contents_def rq_capacity_def)
  have sz: "unat (rq_size (rq_store q x)) = Suc ?n"
  proof -
    have "rq_size (rq_store q x) = rq_size q + 1" by (simp add: rq_store_def rq_size_def)
    then show ?thesis using lt Nf(3) by (simp add: unat_add_u32)
  qed
  show "rq_capacity (rq_store q x) = rq_capacity q" by (simp add: rq_capacity_def rq_store_def)
  from N sz lt show "rq_inv (rq_store q x)" by (simp add: rq_inv_def rq_store_def)
  have "?d[unat (rq_tail q AND rq_Mask q) := x]
      = ring_put ?d ((unat (rq_head q) + ?n) mod length ?d) [x]"
    using Nf(1) by (simp add: ring_put_single rq_tail_index [OF assms(1)])
  with ring_slice_put [of ?d ?n "[x]" "unat (rq_head q)"] lt Nf(1) sz
  show "rq_contents (rq_store q x) = rq_contents q @ [x]"
    by (simp add: rq_contents_def) (simp add: rq_store_def)
qed

lemma rq_pop_law:
  assumes "rq_inv q" "\<not> rq_empty q"
  shows "rq_inv (q\<lparr>rq_head := rq_head q + 1\<rparr>)"
    "rq_contents q = rq_front q # rq_contents (q\<lparr>rq_head := rq_head q + 1\<rparr>)"
proof -
  let ?d = "rq_data q" and ?n = "unat (rq_size q)" and ?q = "q\<lparr>rq_head := rq_head q + 1\<rparr>"
  have N: "rq_pow2 (length ?d)" using assms by (simp add: rq_inv_def)
  note Nf = rq_pow2_facts [OF N]
  have nz: "rq_size q \<noteq> 0" using assms(2) by (auto simp: rq_empty_def rq_size_def)
  have "rq_size ?q = rq_size q - 1" by (simp add: rq_size_def)
  then have sz: "unat (rq_size ?q) = ?n - 1" using nz by (simp add: unat_minus_one)
  from assms sz show "rq_inv ?q" by (auto simp: rq_inv_def)
  have pos: "0 < ?n" using nz by (simp add: unat_gt_0)
  have "unat (rq_head q + 1) mod length ?d = (unat (rq_head q) + 1) mod length ?d"
    using counter_residue [OF Nf(2), of "rq_head q" 1] by simp
  then have "rq_contents ?q = ring_slice ?d (unat (rq_head q) + 1) (?n - 1)"
    using ring_slice_cong [of "unat (rq_head q + 1)" ?d "unat (rq_head q) + 1" "?n - 1"]
    by (simp add: rq_contents_def sz)
  also have "\<dots> = drop 1 (rq_contents q)"
    by (simp add: rq_contents_def drop_ring_slice)
  finally have "rq_contents q = hd (rq_contents q) # rq_contents ?q"
    using pos by (metis drop_0 drop_Suc_Cons hd_Cons_tl length_greater_0_conv length_ring_slice
        One_nat_def drop_Suc rq_contents_def)
  moreover have "hd (rq_contents q) = rq_front q"
    using pos by (simp add: rq_contents_def rq_front_def hd_conv_nth rq_Mask_def Nf(5)
        flip: length_greater_0_conv)
  ultimately show "rq_contents q = rq_front q # rq_contents ?q" by simp
qed

lemma rq_pushSome_law:
  "rq_inv q \<Longrightarrow> rq_pushSome q xs = (q', n) \<Longrightarrow>
    rq_inv q' \<and> rq_capacity q' = rq_capacity q \<and>
    n = min (length xs) (rq_capacity q - length (rq_contents q)) \<and>
    rq_contents q' = rq_contents q @ take n xs"
proof (induction xs arbitrary: q q' n)
  case (Cons x xs)
  show ?case
  proof (cases "rq_full q")
    case True
    with Cons.prems show ?thesis by (auto simp: rq_full_iff)
  next
    case False
    obtain q1 m where r: "rq_pushSome (rq_store q x) xs = (q1, m)" by fastforce
    note s = rq_store_law [OF Cons.prems(1) False, of x]
    have "length (rq_contents q) < rq_capacity q"
      using Cons.prems(1) False rq_full_iff [OF Cons.prems(1)]
      by (simp add: rq_inv_def rq_contents_def rq_capacity_def)
    with Cons.IH [OF s(1) r] Cons.prems False r s(2,3) show ?thesis by auto
  qed
qed simp

lemma rq_popSome_law:
  "rq_inv q \<Longrightarrow> rq_popSome q k = (q', ys) \<Longrightarrow>
    rq_inv q' \<and> rq_capacity q' = rq_capacity q \<and>
    ys = take k (rq_contents q) \<and> rq_contents q' = drop k (rq_contents q)"
proof (induction k arbitrary: q q' ys)
  case (Suc k)
  show ?case
  proof (cases "rq_empty q")
    case True
    with Suc.prems show ?thesis by (auto simp: rq_empty_iff)
  next
    case False
    obtain q1 zs where r: "rq_popSome (q\<lparr>rq_head := rq_head q + 1\<rparr>) k = (q1, zs)" by fastforce
    note p = rq_pop_law [OF Suc.prems(1) False]
    have "rq_capacity (q\<lparr>rq_head := rq_head q + 1\<rparr>) = rq_capacity q" by (simp add: rq_capacity_def)
    with Suc.IH [OF p(1) r] Suc.prems False r p(2) show ?thesis by auto
  qed
qed simp

interpretation rq: bounded_fifo rq_inv rq_contents rq_capacity rq_pushSome rq_popSome
proof
  show "length (rq_contents q) \<le> rq_capacity q" if "rq_inv q" for q :: "'a ring_queue"
    using that by (simp add: rq_inv_def rq_contents_def rq_capacity_def)
qed (rule rq_pushSome_law rq_popSome_law; assumption)+

section \<open>Properties\<close>

text \<open>C32: any sequence of \<^verbatim>\<open>pushSome\<close> and \<^verbatim>\<open>popSome\<close> calls treats the ring queue as a first-in
  first-out queue of capacity \<open>N\<close>: the items popped, followed by what is stored, are the items
  stored before followed by the items accepted, also when \<open>head\<close> and \<open>tail\<close> wrap around.\<close>

theorem ring_queue_is_fifo:
  "rq_inv q \<Longrightarrow> fifo_run rq_pushSome rq_popSome q ops = (q', inn, out) \<Longrightarrow>
    rq_inv q' \<and> out @ rq_contents q' = rq_contents q @ inn \<and>
    length (rq_contents q') \<le> length (rq_data q)"
  using rq.run_stream by (fastforce simp: rq_capacity_def)

theorem ring_queue_is_fifo_witness:
  "\<exists>q'. fifo_run rq_pushSome rq_popSome
      \<lparr>rq_data = [0, 0], rq_head = 0xFFFFFFFF, rq_tail = 0xFFFFFFFF\<rparr>
      [Put [5, 6, 7 :: int], Get 1, Put [8]] = (q', [5, 6, 8], [5]) \<and>
    rq_inv q' \<and> [5] @ rq_contents q' = [5, 6, 8]"
proof -
  let ?q = "\<lparr>rq_data = [0, 0 :: int], rq_head = 0xFFFFFFFF, rq_tail = 0xFFFFFFFF\<rparr>"
  let ?ops = "[Put [5, 6, 7 :: int], Get 1, Put [8]]"
  have i: "rq_inv ?q"
    by (auto simp: rq_inv_def rq_pow2_def rq_size_def intro!: bexI [of _ 1])
  have c: "rq_contents ?q = []" by (simp add: rq_contents_def rq_size_def)
  obtain q' inn out where r: "fifo_run rq_pushSome rq_popSome ?q ?ops = (q', inn, out)"
    by (metis prod_cases3)
  moreover have "inn = [5, 6, 8] \<and> out = [5]"
    using r by (simp add: rq_full_def rq_empty_def rq_size_def rq_store_def rq_front_def rq_Mask_def)
  ultimately show ?thesis using ring_queue_is_fifo [OF i r] c by auto
qed

text \<open>\<^verbatim>\<open>push\<close> refuses exactly when the queue is full and otherwise appends; \<^verbatim>\<open>pop\<close> refuses
  exactly when it is empty and otherwise removes the oldest item.\<close>

theorem ring_queue_push_pop:
  assumes "rq_inv q"
  shows "(case rq_push q x of (q1, b) \<Rightarrow>
      b = (length (rq_contents q) < length (rq_data q)) \<and> rq_inv q1 \<and>
      rq_contents q1 = (if b then rq_contents q @ [x] else rq_contents q)) \<and>
    (case rq_pop q of (q2, r) \<Rightarrow> rq_inv q2 \<and>
      (case r of None \<Rightarrow> rq_contents q = [] \<and> q2 = q
       | Some y \<Rightarrow> rq_contents q = y # rq_contents q2))"
  using assms rq.within [OF assms] rq_store_law [OF assms, of x] rq_pop_law [OF assms]
  by (auto simp: rq_push_def rq_pop_def rq_full_iff rq_empty_iff rq_capacity_def)

theorem ring_queue_push_pop_witness:
  "rq_inv \<lparr>rq_data = [3 :: int], rq_head = 0, rq_tail = 1\<rparr> \<and>
   snd (rq_push \<lparr>rq_data = [3 :: int], rq_head = 0, rq_tail = 1\<rparr> 4) = False \<and>
   snd (rq_pop \<lparr>rq_data = [3 :: int], rq_head = 0, rq_tail = 1\<rparr>) = Some 3"
proof -
  let ?q = "\<lparr>rq_data = [3 :: int], rq_head = 0, rq_tail = 1\<rparr>"
  have i: "rq_inv ?q" by (auto simp: rq_inv_def rq_pow2_def rq_size_def intro!: bexI [of _ 0])
  have c: "rq_contents ?q = [3]" by (simp add: rq_contents_def rq_size_def ring_slice_def)
  show ?thesis
    using i c ring_queue_push_pop [OF i, of 4] by (auto split: option.splits prod.splits)
qed

end
