(* ===== verification/Nyan_Pipe.thy ===== *)
theory Nyan_Pipe
  imports Nyan_Ring Nyan_Result
begin

unbundle bit_operations_syntax

text \<open>
  Pipes (kernel/fs/pipe.hpp, kernel/fs/pipe.cpp). \<open>pipe_state\<close> is \<^verbatim>\<open>fs::PipeState\<close>: a 4096-byte
  ring whose unreduced counters are \<open>p_head\<close> (bytes written) and \<open>p_tail\<close> (bytes read), the two
  wait lists and the liveness flags. A read or write is one pass through the waiting loop
  \<^verbatim>\<open>syncWaitForRead\<close> / \<^verbatim>\<open>syncWaitForWrite\<close> followed, when it does not block, by the copy; a
  blocked task is appended to the wait list and makes the next pass when it is woken, or
  returns \<^verbatim>\<open>EINTR\<close> when a signal woke it. \<open>pipe_step\<close> interleaves the passes of any tasks.
\<close>

type_synonym pid = int

datatype wake_reason = WR_Normal | WR_Signal

record pipe_state =
  p_buffer :: "u8 list"
  p_head :: u32
  p_tail :: u32
  p_read_wait :: "pid list"
  p_write_wait :: "pid list"
  p_read_alive :: bool
  p_write_alive :: bool

definition pipe_buffer_size :: nat where
  "pipe_buffer_size = 0x1000"

definition pipe_buffer_mask :: u32 where
  "pipe_buffer_mask = 0xFFF"

definition pipe_init :: pipe_state where
  "pipe_init = \<lparr>p_buffer = replicate pipe_buffer_size 0, p_head = 0, p_tail = 0,
     p_read_wait = [], p_write_wait = [], p_read_alive = True, p_write_alive = True\<rparr>"

definition pipe_size :: "pipe_state \<Rightarrow> u32" where
  "pipe_size p = p_head p - p_tail p"

definition pipe_empty :: "pipe_state \<Rightarrow> bool" where
  "pipe_empty p \<longleftrightarrow> p_head p = p_tail p"

definition pipe_full :: "pipe_state \<Rightarrow> bool" where
  "pipe_full p \<longleftrightarrow> pipe_size p = of_nat pipe_buffer_size"

text \<open>What a pass yields to the caller: the task blocks, or the call returns.\<close>

datatype 'a pass = Block | Return "'a result"

text \<open>What it does to other tasks: it wakes the listed tasks, or raises a signal in the caller.\<close>

datatype effect = Wakes "pid list" | Raises nat

definition syncWaitForRead :: "pid \<Rightarrow> pipe_state \<Rightarrow> pipe_state \<times> bool" where
  "syncWaitForRead t p =
    (if \<not> pipe_empty p \<or> \<not> p_write_alive p then (p, True)
     else (p\<lparr>p_read_wait := p_read_wait p @ [t]\<rparr>, False))"

definition syncWaitForWrite :: "pid \<Rightarrow> pipe_state \<Rightarrow> pipe_state \<times> bool" where
  "syncWaitForWrite t p =
    (if \<not> pipe_full p \<or> \<not> p_read_alive p then (p, True)
     else (p\<lparr>p_write_wait := p_write_wait p @ [t]\<rparr>, False))"

definition onReadClosed :: "pipe_state \<Rightarrow> pipe_state \<times> effect list" where
  "onReadClosed p = (p\<lparr>p_read_alive := False, p_write_wait := []\<rparr>, [Wakes (p_write_wait p)])"

definition onWriteClosed :: "pipe_state \<Rightarrow> pipe_state \<times> effect list" where
  "onWriteClosed p = (p\<lparr>p_write_alive := False, p_read_wait := []\<rparr>, [Wakes (p_read_wait p)])"

text \<open>The copy out of the ring, in one or two \<^verbatim>\<open>memcpy\<close>s.\<close>

definition pipe_drain :: "pipe_state \<Rightarrow> nat \<Rightarrow> pipe_state \<times> u8 list" where
  "pipe_drain p sz =
    (let len = min (unat (pipe_size p)) sz;
         left = unat (p_tail p AND pipe_buffer_mask);
         right = left + len;
         data = (if right > pipe_buffer_size
                 then take (pipe_buffer_size - left) (drop left (p_buffer p))
                      @ take (len - (pipe_buffer_size - left)) (p_buffer p)
                 else take len (drop left (p_buffer p)))
     in (p\<lparr>p_tail := p_tail p + of_nat len\<rparr>, data))"

text \<open>The copy into the ring; the second component is the number of bytes taken.\<close>

definition pipe_fill :: "pipe_state \<Rightarrow> u8 list \<Rightarrow> pipe_state \<times> nat" where
  "pipe_fill p buf =
    (let len = min (pipe_buffer_size - unat (pipe_size p)) (length buf);
         left = unat (p_head p AND pipe_buffer_mask)
     in (p\<lparr>p_buffer := ring_put (p_buffer p) left (take len buf),
           p_head := p_head p + of_nat len\<rparr>, len))"

definition pipe_read :: "pid \<Rightarrow> nat \<Rightarrow> pipe_state \<Rightarrow> pipe_state \<times> effect list \<times> u8 list pass" where
  "pipe_read t sz p =
    (let (p1, go) = syncWaitForRead t p in
     if \<not> go then (p1, [], Block)
     else if pipe_empty p1 \<and> \<not> p_write_alive p1 then (p1, [], Return (Inr []))
     else let (p2, data) = pipe_drain p1 sz
          in (p2\<lparr>p_write_wait := []\<rparr>, [Wakes (p_write_wait p2)], Return (Inr data)))"

definition pipe_write :: "pid \<Rightarrow> u8 list \<Rightarrow> pipe_state \<Rightarrow> pipe_state \<times> effect list \<times> nat pass" where
  "pipe_write t buf p =
    (let (p1, go) = syncWaitForWrite t p in
     if \<not> go then (p1, [], Block)
     else if \<not> p_read_alive p1 then (p1, [Raises 13], Return (Inl SYS_EPIPE))
     else let (p2, len) = pipe_fill p1 buf
          in (p2\<lparr>p_read_wait := []\<rparr>, [Wakes (p_read_wait p2)], Return (Inr len)))"

text \<open>\<^verbatim>\<open>PipeObj\<close>: the members besides read and write. \<open>O_ACCMODE\<close> is \<^verbatim>\<open>03 | O_PATH\<close> of fcntl.h.\<close>

definition O_ACCMODE :: u32 where
  "O_ACCMODE = 0x200003"

definition O_RDONLY :: u32 where "O_RDONLY = 0"

definition O_WRONLY :: u32 where "O_WRONLY = 1"

definition O_RDWR :: u32 where "O_RDWR = 2"

definition S_IFIFO :: u32 where "S_IFIFO = 0x1000"

definition PipeObj_stat_mode :: u32 where
  "PipeObj_stat_mode = S_IFIFO OR 0x180"

definition PipeObj_ioctl :: "u32 \<Rightarrow> u32 \<Rightarrow> unit result" where
  "PipeObj_ioctl req param = Inl SYS_ENOTTY"

definition PipeObj_seek :: "int \<Rightarrow> int \<Rightarrow> int result" where
  "PipeObj_seek offset whence = Inl SYS_ESPIPE"

definition PipeObj_onFdClose :: "u32 \<Rightarrow> pipe_state \<Rightarrow> (pipe_state \<times> effect list) exec" where
  "PipeObj_onFdClose mode p =
    (if mode AND O_ACCMODE = O_RDONLY then Inr (onReadClosed p)
     else if mode AND O_ACCMODE = O_WRONLY then Inr (onWriteClosed p)
     else Inl (Kfatal ''pipe shouldn't use O_RDWR''))"

text \<open>Interleavings: which task makes a pass next, and with what, is up to the environment. A
  signal detaches a waiting task from whichever list holds it.\<close>

datatype pipe_event =
  ERead pid nat | EWrite pid "u8 list" | ECloseRead | ECloseWrite | ESignal pid

fun pipe_step :: "pipe_state \<Rightarrow> pipe_event \<Rightarrow> pipe_state \<times> u8 list \<times> u8 list" where
  "pipe_step p (ERead t sz) =
    (case pipe_read t sz p of (p', _, Return (Inr data)) \<Rightarrow> (p', [], data) | (p', _) \<Rightarrow> (p', [], []))"
| "pipe_step p (EWrite t buf) =
    (case pipe_write t buf p of (p', _, Return (Inr n)) \<Rightarrow> (p', take n buf, []) | (p', _) \<Rightarrow> (p', [], []))"
| "pipe_step p ECloseRead = (fst (onReadClosed p), [], [])"
| "pipe_step p ECloseWrite = (fst (onWriteClosed p), [], [])"
| "pipe_step p (ESignal t) =
    (p\<lparr>p_read_wait := removeAll t (p_read_wait p), p_write_wait := removeAll t (p_write_wait p)\<rparr>, [], [])"

fun pipe_run :: "pipe_state \<Rightarrow> pipe_event list \<Rightarrow> pipe_state \<times> u8 list \<times> u8 list" where
  "pipe_run p [] = (p, [], [])"
| "pipe_run p (e # es) =
    (let (p1, i1, o1) = pipe_step p e; (p2, i2, o2) = pipe_run p1 es in (p2, i1 @ i2, o1 @ o2))"

definition pipe_inv :: "pipe_state \<Rightarrow> bool" where
  "pipe_inv p \<longleftrightarrow> length (p_buffer p) = pipe_buffer_size \<and> unat (pipe_size p) \<le> pipe_buffer_size"

definition pipe_contents :: "pipe_state \<Rightarrow> u8 list" where
  "pipe_contents p = ring_slice (p_buffer p) (unat (p_tail p)) (unat (pipe_size p))"

text \<open>No lost wake-up: a task sits on a wait list only while what it waits for is false.\<close>

definition pipe_waits_ok :: "pipe_state \<Rightarrow> bool" where
  "pipe_waits_ok p \<longleftrightarrow>
    (p_read_wait p \<noteq> [] \<longrightarrow> pipe_empty p \<and> p_write_alive p) \<and>
    (p_write_wait p \<noteq> [] \<longrightarrow> pipe_full p \<and> p_read_alive p)"

lemma pipe_mask: "unat (w AND pipe_buffer_mask) = unat w mod pipe_buffer_size"
  by (simp add: pipe_buffer_mask_def pipe_buffer_size_def unat_and_4095)

lemma pipe_size_dvd: "pipe_buffer_size dvd 4294967296"
  by (simp add: pipe_buffer_size_def)

lemma pipe_inv_init: "pipe_inv pipe_init" "pipe_contents pipe_init = []" "pipe_waits_ok pipe_init"
  by (simp_all add: pipe_inv_def pipe_contents_def pipe_waits_ok_def pipe_init_def pipe_size_def)

lemma pipe_empty_iff: "pipe_empty p \<longleftrightarrow> pipe_contents p = []"
proof -
  have "pipe_empty p \<longleftrightarrow> length (pipe_contents p) = 0"
    by (auto simp: pipe_empty_def pipe_contents_def pipe_size_def unat_eq_0)
  then show ?thesis by simp
qed

lemma pipe_full_iff: "pipe_full p \<longleftrightarrow> length (pipe_contents p) = pipe_buffer_size"
  by (simp add: pipe_full_def pipe_contents_def pipe_buffer_size_def word_unat_eq_iff)

lemma pipe_drain_law:
  assumes "pipe_inv p" "pipe_drain p k = (p', ys)"
  shows "pipe_inv p'" "ys = take k (pipe_contents p)" "pipe_contents p' = drop k (pipe_contents p)"
proof -
  let ?d = "p_buffer p" and ?N = "pipe_buffer_size" and ?n = "unat (pipe_size p)"
  define len where "len = min ?n k"
  define left where "left = unat (p_tail p) mod ?N"
  have d: "length ?d = ?N" and nN: "?n \<le> ?N" using assms(1) by (simp_all add: pipe_inv_def)
  have left: "left < ?N" by (simp add: left_def pipe_buffer_size_def)
  have ys: "ys = (if left + len > ?N then drop left ?d @ take (len - (?N - left)) ?d
      else take len (drop left ?d))" and p': "p' = p\<lparr>p_tail := p_tail p + of_nat len\<rparr>"
    using assms(2) d
    by (auto simp: pipe_drain_def Let_def pipe_mask len_def left_def)
  have "ys = ring_slice ?d left len"
  proof (rule nth_equalityI)
    show "length ys = length (ring_slice ?d left len)"
      using ys d left nN by (auto simp: len_def)
    fix i assume "i < length ys"
    with ys d left nN have i: "i < len" by (auto simp: len_def split: if_splits)
    have "(left + i) mod ?N = (if left + i < ?N then left + i else left + i - ?N)"
      using i left nN by (auto simp: mod_if len_def)
    with i show "ys ! i = ring_slice ?d left len ! i"
      using d left nN by (auto simp: ys nth_append len_def add.commute)
  qed
  also have "\<dots> = take k (pipe_contents p)"
    unfolding pipe_contents_def take_ring_slice left_def d [symmetric] ring_slice_mod
    by (simp add: len_def min.commute)
  finally show "ys = take k (pipe_contents p)" .
  have sz: "unat (pipe_size p') = ?n - len"
  proof -
    have "pipe_size p' = pipe_size p - of_nat len" by (simp add: p' pipe_size_def)
    moreover have "unat (of_nat len :: u32) = len"
      using nN by (simp add: unat_of_nat len_def pipe_buffer_size_def)
    ultimately show ?thesis by (simp add: unat_sub_if' len_def)
  qed
  then show "pipe_inv p'" using d nN by (simp add: pipe_inv_def p')
  have "unat (p_tail p') mod length ?d = (unat (p_tail p) + len) mod length ?d"
    unfolding p' using counter_residue [OF pipe_size_dvd] d by simp
  then have "pipe_contents p' = ring_slice ?d (unat (p_tail p) + len) (?n - len)"
    unfolding pipe_contents_def sz
    using ring_slice_cong [of "unat (p_tail p')" ?d "unat (p_tail p) + len" "?n - len"]
    by (simp add: p' del: of_nat_min)
  moreover have "?n - len = ?n - k" "k \<le> ?n \<Longrightarrow> len = k" by (auto simp: len_def)
  ultimately show "pipe_contents p' = drop k (pipe_contents p)"
    by (cases "k \<le> ?n") (simp_all add: pipe_contents_def drop_ring_slice)
qed

lemma pipe_fill_law:
  assumes "pipe_inv p" "pipe_fill p xs = (p', n)"
  shows "pipe_inv p'" "n = min (length xs) (pipe_buffer_size - length (pipe_contents p))"
    "pipe_contents p' = pipe_contents p @ take n xs"
proof -
  let ?d = "p_buffer p" and ?N = "pipe_buffer_size" and ?m = "unat (pipe_size p)"
  have d: "length ?d = ?N" and mN: "?m \<le> ?N" using assms(1) by (simp_all add: pipe_inv_def)
  have N: "0 < ?N" "?N < 4294967296" by (simp_all add: pipe_buffer_size_def)
  have n: "n = min (?N - ?m) (length xs)"
    and p': "p' = p\<lparr>p_buffer := ring_put ?d (unat (p_head p) mod ?N) (take n xs),
        p_head := p_head p + of_nat n\<rparr>"
    using assms(2) by (auto simp: pipe_fill_def Let_def pipe_mask)
  show "n = min (length xs) (?N - length (pipe_contents p))"
    by (simp add: n pipe_contents_def min.commute)
  have sz: "unat (pipe_size p') = ?m + n"
  proof -
    have "pipe_size p' = pipe_size p + of_nat n" by (simp add: p' pipe_size_def)
    moreover have "unat (of_nat n :: u32) = n" using N n by (simp add: unat_of_nat)
    ultimately show ?thesis using N mN n by (simp add: unat_add_u32)
  qed
  have lx: "length (take n xs) = n" using n by simp
  have "?m + n \<le> ?N" using n mN by simp
  then show "pipe_inv p'"
    unfolding pipe_inv_def sz using d N n by (simp add: p')
  have "p_head p = p_tail p + of_nat ?m" by (simp add: pipe_size_def)
  then have "unat (p_head p) mod ?N = (unat (p_tail p) + ?m) mod ?N"
    using counter_residue [OF pipe_size_dvd] by metis
  then have "p_buffer p' = ring_put ?d ((unat (p_tail p) + ?m) mod length ?d) (take n xs)"
    by (simp add: p' d)
  then have "pipe_contents p' =
      ring_slice (ring_put ?d ((unat (p_tail p) + ?m) mod length ?d) (take n xs))
        (unat (p_tail p)) (?m + length (take n xs))"
    unfolding pipe_contents_def sz lx by (simp add: p')
  also have "\<dots> = ring_slice ?d (unat (p_tail p)) ?m @ take n xs"
    by (rule ring_slice_put) (use d N n mN in auto)
  finally show "pipe_contents p' = pipe_contents p @ take n xs"
    by (simp add: pipe_contents_def)
qed

interpretation pipe: bounded_fifo pipe_inv pipe_contents "\<lambda>_. pipe_buffer_size" pipe_fill pipe_drain
proof
  show "length (pipe_contents p) \<le> pipe_buffer_size" if "pipe_inv p" for p
    using that by (simp add: pipe_inv_def pipe_contents_def)
qed (auto dest: pipe_fill_law pipe_drain_law)

lemma pipe_frame [simp]:
  "pipe_contents (p\<lparr>p_read_wait := r\<rparr>) = pipe_contents p"
  "pipe_contents (p\<lparr>p_write_wait := r\<rparr>) = pipe_contents p"
  "pipe_contents (p\<lparr>p_read_alive := b\<rparr>) = pipe_contents p"
  "pipe_contents (p\<lparr>p_write_alive := b\<rparr>) = pipe_contents p"
  "pipe_inv (p\<lparr>p_read_wait := r\<rparr>) = pipe_inv p"
  "pipe_inv (p\<lparr>p_write_wait := r\<rparr>) = pipe_inv p"
  "pipe_inv (p\<lparr>p_read_alive := b\<rparr>) = pipe_inv p"
  "pipe_inv (p\<lparr>p_write_alive := b\<rparr>) = pipe_inv p"
  by (simp_all add: pipe_contents_def pipe_inv_def pipe_size_def)

lemma pipe_copy_frame:
  "pipe_drain p k = (p', ys) \<Longrightarrow> p_read_wait p' = p_read_wait p \<and> p_write_wait p' = p_write_wait p \<and>
    p_read_alive p' = p_read_alive p \<and> p_write_alive p' = p_write_alive p"
  "pipe_fill p xs = (p', n) \<Longrightarrow> p_read_wait p' = p_read_wait p \<and> p_write_wait p' = p_write_wait p \<and>
    p_read_alive p' = p_read_alive p \<and> p_write_alive p' = p_write_alive p"
  by (auto simp: pipe_drain_def pipe_fill_def Let_def)

text \<open>The branches of a read and of a write, over the abstract contents.\<close>

lemma pipe_read_cases:
  assumes "pipe_inv p" "pipe_read t sz p = (p', eff, r)"
  obtains (blocks) "pipe_contents p = []" "p_write_alive p" "r = Block" "eff = []"
      "p' = p\<lparr>p_read_wait := p_read_wait p @ [t]\<rparr>"
    | (eof) "pipe_contents p = []" "\<not> p_write_alive p" "r = Return (Inr [])" "eff = []" "p' = p"
    | (copies) p2 where "pipe_contents p \<noteq> []" "pipe_drain p sz = (p2, take sz (pipe_contents p))"
      "r = Return (Inr (take sz (pipe_contents p)))" "eff = [Wakes (p_write_wait p)]"
      "p' = p2\<lparr>p_write_wait := []\<rparr>"
proof -
  obtain p2 ys where d: "pipe_drain p sz = (p2, ys)" by fastforce
  have "ys = take sz (pipe_contents p)" by (rule pipe_drain_law(2) [OF assms(1) d])
  with d assms(2) pipe_copy_frame(1) [OF d] show ?thesis
    using that by (auto simp: pipe_read_def syncWaitForRead_def pipe_empty_iff split: if_splits)
qed

lemma pipe_write_cases:
  assumes "pipe_write t buf p = (p', eff, r)"
  obtains (blocks) "pipe_full p" "p_read_alive p" "r = Block" "eff = []"
      "p' = p\<lparr>p_write_wait := p_write_wait p @ [t]\<rparr>"
    | (epipe) "\<not> p_read_alive p" "r = Return (Inl SYS_EPIPE)" "eff = [Raises 13]" "p' = p"
    | (copies) p2 n where "\<not> pipe_full p" "p_read_alive p" "pipe_fill p buf = (p2, n)"
      "r = Return (Inr n)" "eff = [Wakes (p_read_wait p)]" "p' = p2\<lparr>p_read_wait := []\<rparr>"
proof -
  obtain p2 n where d: "pipe_fill p buf = (p2, n)" by fastforce
  with assms pipe_copy_frame(2) [OF d] show ?thesis
    using that by (auto simp: pipe_write_def syncWaitForWrite_def split: if_splits)
qed

lemma pipe_step_stream:
  assumes "pipe_inv p" "pipe_step p e = (p', inn, out)"
  shows "pipe_inv p' \<and> out @ pipe_contents p' = pipe_contents p @ inn"
proof (cases e)
  case (ERead t sz)
  obtain p1 eff r where rd: "pipe_read t sz p = (p1, eff, r)" by (metis prod_cases3)
  from assms(1) rd show ?thesis
    by (cases rule: pipe_read_cases)
      (use assms ERead rd in \<open>auto dest: pipe_drain_law\<close>)
next
  case (EWrite t buf)
  obtain p1 eff r where wr: "pipe_write t buf p = (p1, eff, r)" by (metis prod_cases3)
  then show ?thesis
    by (cases rule: pipe_write_cases)
      (use assms EWrite wr in \<open>auto dest: pipe_fill_law\<close>)
qed (use assms in \<open>auto simp: onReadClosed_def onWriteClosed_def\<close>)

lemma pipe_run_stream:
  "pipe_inv p \<Longrightarrow> pipe_run p es = (p', inn, out) \<Longrightarrow>
    pipe_inv p' \<and> out @ pipe_contents p' = pipe_contents p @ inn"
proof (induction es arbitrary: p inn out)
  case (Cons e es)
  obtain p1 i1 o1 where s: "pipe_step p e = (p1, i1, o1)" by (metis prod_cases3)
  obtain i2 o2 where r: "pipe_run p1 es = (p', i2, o2)" "inn = i1 @ i2" "out = o1 @ o2"
    using Cons.prems(2) s by (auto split: prod.splits)
  note l = pipe_step_stream [OF Cons.prems(1) s]
  with Cons.IH [OF _ r(1)] have "pipe_inv p'" "o2 @ pipe_contents p' = pipe_contents p1 @ i2" by auto
  with l r(2,3) show ?case by (metis append.assoc)
qed simp

lemma pipe_step_waits:
  assumes "pipe_inv p" "pipe_waits_ok p" "pipe_step p e = (p', inn, out)"
  shows "pipe_waits_ok p'"
proof (cases e)
  case (ERead t sz)
  obtain p1 eff r where rd: "pipe_read t sz p = (p1, eff, r)" by (metis prod_cases3)
  from assms(1) rd show ?thesis
  proof (cases rule: pipe_read_cases)
    case (copies p2)
    with assms ERead rd pipe_copy_frame(1) [OF copies(2)] show ?thesis
      by (auto simp: pipe_waits_ok_def pipe_empty_iff)
  qed (use assms ERead rd in \<open>auto simp: pipe_waits_ok_def pipe_empty_iff pipe_full_iff\<close>)
next
  case (EWrite t buf)
  obtain p1 eff r where wr: "pipe_write t buf p = (p1, eff, r)" by (metis prod_cases3)
  then show ?thesis
  proof (cases rule: pipe_write_cases)
    case (copies p2 n)
    with assms EWrite wr pipe_copy_frame(2) [OF copies(3)] show ?thesis
      by (auto simp: pipe_waits_ok_def)
  qed (use assms EWrite wr in \<open>auto simp: pipe_waits_ok_def pipe_empty_iff pipe_full_iff\<close>)
qed (use assms in \<open>auto simp: pipe_waits_ok_def onReadClosed_def onWriteClosed_def pipe_empty_iff pipe_full_iff\<close>)

lemma pipe_run_waits:
  "pipe_inv p \<Longrightarrow> pipe_waits_ok p \<Longrightarrow> pipe_run p es = (p', inn, out) \<Longrightarrow> pipe_waits_ok p'"
proof (induction es arbitrary: p inn out)
  case (Cons e es)
  obtain p1 i1 o1 where s: "pipe_step p e = (p1, i1, o1)" by (metis prod_cases3)
  obtain i2 o2 where r: "pipe_run p1 es = (p', i2, o2)"
    using Cons.prems(3) s by (auto split: prod.splits)
  from pipe_step_stream [OF Cons.prems(1) s] have "pipe_inv p1" by blast
  from Cons.IH [OF this pipe_step_waits [OF Cons.prems(1,2) s] r] show ?case .
qed simp

section \<open>Properties\<close>

text \<open>C6: whatever the interleaving of reads, writes, closes and signals on a fresh pipe, the
  bytes the readers got, followed by what is still buffered, are exactly the bytes the writers
  had accepted, in order; at most 4096 bytes are buffered. The counters may wrap around.\<close>

theorem pipe_is_a_stream:
  "pipe_run pipe_init es = (p, inn, out) \<Longrightarrow>
    inn = out @ pipe_contents p \<and> length (pipe_contents p) \<le> 4096"
  using pipe_run_stream [OF pipe_inv_init(1)] pipe.within [of p]
  by (fastforce simp: pipe_inv_init pipe_buffer_size_def)

theorem pipe_is_a_stream_witness:
  "\<exists>p. pipe_run pipe_init [EWrite 1 [7, 8, 9], ERead 2 2] = (p, [7, 8, 9], [7, 8]) \<and>
    [7, 8, 9] = [7, 8] @ pipe_contents p \<and> length (pipe_contents p) \<le> 4096"
proof -
  let ?es = "[EWrite 1 [7, 8, 9], ERead 2 2] :: pipe_event list"
  obtain p inn out where r: "pipe_run pipe_init ?es = (p, inn, out)" by (metis prod_cases3)
  moreover have "inn = [7, 8, 9] \<and> out = [7, 8]"
    using r by (auto simp: pipe_write_def pipe_read_def syncWaitForWrite_def syncWaitForRead_def
        pipe_fill_def pipe_drain_def pipe_size_def pipe_full_def pipe_empty_def pipe_mask Let_def
        pipe_init_def pipe_buffer_size_def ring_put_def splice_at_def split: if_splits)
  ultimately show ?thesis using pipe_is_a_stream [OF r] by metis
qed

text \<open>C14: no wake-up is lost: in every state an interleaving reaches, a task waits to read only
  while the pipe is empty and still has its write end, and waits to write only while the pipe
  is full and still has its read end.\<close>

theorem pipe_no_lost_wakeup:
  "pipe_run pipe_init es = (p, inn, out) \<Longrightarrow>
    (p_read_wait p \<noteq> [] \<longrightarrow> pipe_contents p = [] \<and> p_write_alive p) \<and>
    (p_write_wait p \<noteq> [] \<longrightarrow> length (pipe_contents p) = 4096 \<and> p_read_alive p)"
  using pipe_run_waits [OF pipe_inv_init(1,3)]
  by (fastforce simp: pipe_waits_ok_def pipe_empty_iff pipe_full_iff pipe_buffer_size_def)

theorem pipe_no_lost_wakeup_witness:
  "\<exists>p inn out. pipe_run pipe_init [ERead 4 10] = (p, inn, out) \<and> p_read_wait p = [4] \<and>
    pipe_contents p = [] \<and> p_write_alive p"
proof -
  obtain p inn out where r: "pipe_run pipe_init [ERead 4 10] = (p, inn, out)" by (metis prod_cases3)
  moreover have "p_read_wait p = [4]"
    using r by (auto simp: pipe_read_def syncWaitForRead_def pipe_empty_def pipe_init_def)
  ultimately show ?thesis using pipe_no_lost_wakeup [OF r] by auto
qed

end
