(* ===== verification/Nyan_RamFS.thy ===== *)
theory Nyan_RamFS
  imports Nyan_Result
begin

unbundle bit_operations_syntax

text \<open>
  The file nodes of the in-memory file system (kernel/fs/vnode.hpp, kernel/fs/fs/ramfs.hpp,
  kernel/fs/fs/ramfs.cpp). Nodes live in a heap indexed by node numbers, a \<^verbatim>\<open>Ref<VNode>\<close> is a node
  number and the null reference is \<open>None\<close>. The virtual methods of \<^verbatim>\<open>VNode\<close> are functions that look at the
  kind of the node, with the defaults of the base class for the kinds that do not override them.
  Reference counts are not part of the heap: \<open>stat\<close> takes the count as an argument. Node memory is
  unlimited.
\<close>

section \<open>Nodes\<close>

type_synonym vid = nat

datatype vnode_type = VNT_Regular | VNT_Directory | VNT_CharDevice | VNT_BlockDevice | VNT_Pipe | VNT_Symlink

fun vnode_type_no :: "vnode_type \<Rightarrow> u8" where
  "vnode_type_no VNT_Pipe = 1"
| "vnode_type_no VNT_CharDevice = 2"
| "vnode_type_no VNT_Directory = 4"
| "vnode_type_no VNT_BlockDevice = 6"
| "vnode_type_no VNT_Regular = 8"
| "vnode_type_no VNT_Symlink = 10"

datatype ramfs_body =
    DirectoryVNode "(string \<times> vid) list"
  | FileVNode "u8 list"
  | SymlinkVNode string
  | DynSymlinkVNode
  | CharDevVNode nat

record vnode =
  vn_super :: nat
  vn_mode :: u32
  vn_inode :: u64
  vn_body :: ramfs_body

fun body_type :: "ramfs_body \<Rightarrow> vnode_type" where
  "body_type (DirectoryVNode _) = VNT_Directory"
| "body_type (FileVNode _) = VNT_Regular"
| "body_type (SymlinkVNode _) = VNT_Symlink"
| "body_type DynSymlinkVNode = VNT_Symlink"
| "body_type (CharDevVNode _) = VNT_CharDevice"

definition vn_type :: "vnode \<Rightarrow> vnode_type" where
  "vn_type v = body_type (vn_body v)"

record super_block =
  sb_fs :: nat
  sb_counter :: u64

record ramfs =
  rf_nodes :: "vid \<Rightarrow> vnode option"
  rf_next :: vid
  rf_supers :: "super_block list"

definition with_vnode :: "vid \<Rightarrow> (vnode \<Rightarrow> ('a, 'm ramfs_scheme) sys) \<Rightarrow> ('a, 'm ramfs_scheme) sys" where
  "with_vnode v f st = (case rf_nodes st v of None \<Rightarrow> Inl NullDeref | Some n \<Rightarrow> f n st)"

definition set_body :: "vid \<Rightarrow> vnode \<Rightarrow> ramfs_body \<Rightarrow> (unit, 'm ramfs_scheme) sys" where
  "set_body v n b st = Inr (Inr (), st\<lparr>rf_nodes := (rf_nodes st)(v \<mapsto> n\<lparr>vn_body := b\<rparr>)\<rparr>)"

definition RamFSVNode :: "nat \<Rightarrow> u32 \<Rightarrow> ramfs_body \<Rightarrow> (vid, 'm ramfs_scheme) sys" where
  "RamFSVNode sb mode b st =
    (if sb \<ge> length (rf_supers st) then Inl NullDeref
     else let s = rf_supers st ! sb; counter = sb_counter s + 1
          in Inr (Inr (rf_next st), st\<lparr>
            rf_supers := (rf_supers st)[sb := s\<lparr>sb_counter := counter\<rparr>],
            rf_nodes := (rf_nodes st)(rf_next st \<mapsto> \<lparr>vn_super = sb, vn_mode = mode, vn_inode = counter, vn_body = b\<rparr>),
            rf_next := rf_next st + 1\<rparr>))"

section \<open>Directories\<close>

definition dir_find :: "string \<Rightarrow> (string \<times> vid) list \<Rightarrow> (string \<times> vid) option" where
  "dir_find name es = find (\<lambda>e. fst e = name) es"

definition dir_exists :: "string \<Rightarrow> (string \<times> vid) list \<Rightarrow> bool" where
  "dir_exists name es \<longleftrightarrow> dir_find name es \<noteq> None"

fun dir_erase :: "string \<Rightarrow> (string \<times> vid) list \<Rightarrow> (string \<times> vid) list" where
  "dir_erase name [] = []"
| "dir_erase name (e # es) = (if fst e = name then es else e # dir_erase name es)"

definition vnode_lookup :: "vid \<Rightarrow> string \<Rightarrow> (vid option, 'm ramfs_scheme) sys" where
  "vnode_lookup v name = with_vnode v (\<lambda>n. case vn_body n of
      DirectoryVNode es \<Rightarrow> (case dir_find name es of
        Some e \<Rightarrow> sys_return (Some (snd e))
      | None \<Rightarrow> sys_fail SYS_ENOENT)
    | _ \<Rightarrow> sys_return None)"

definition vnode_mkdir :: "vid \<Rightarrow> string \<Rightarrow> u32 \<Rightarrow> (unit, 'm ramfs_scheme) sys" where
  "vnode_mkdir v name mode = with_vnode v (\<lambda>n. case vn_body n of
      DirectoryVNode es \<Rightarrow>
        if dir_exists name es then sys_fail SYS_EEXIST
        else sys_bind (RamFSVNode (vn_super n) mode (DirectoryVNode [])) (\<lambda>x.
          set_body v n (DirectoryVNode (es @ [(name, x)])))
    | _ \<Rightarrow> sys_fail SYS_ENOTDIR)"

definition vnode_create :: "vid \<Rightarrow> string \<Rightarrow> u32 \<Rightarrow> (unit, 'm ramfs_scheme) sys" where
  "vnode_create v name mode = with_vnode v (\<lambda>n. case vn_body n of
      DirectoryVNode es \<Rightarrow>
        if dir_exists name es then sys_fail SYS_EEXIST
        else sys_bind (RamFSVNode (vn_super n) mode (FileVNode [])) (\<lambda>x.
          set_body v n (DirectoryVNode (es @ [(name, x)])))
    | _ \<Rightarrow> sys_fail SYS_ENOTDIR)"

definition super_fs :: "nat \<Rightarrow> 'm ramfs_scheme \<Rightarrow> nat option" where
  "super_fs sb st = (if sb < length (rf_supers st) then Some (sb_fs (rf_supers st ! sb)) else None)"

definition vnode_link :: "vid \<Rightarrow> string \<Rightarrow> vid \<Rightarrow> (unit, 'm ramfs_scheme) sys" where
  "vnode_link v name target = with_vnode v (\<lambda>n. case vn_body n of
      DirectoryVNode es \<Rightarrow> with_vnode target (\<lambda>t st.
        if super_fs (vn_super t) st \<noteq> super_fs (vn_super n) st then Inr (Inl SYS_EXDEV, st)
        else if dir_exists name es then Inr (Inl SYS_EEXIST, st)
        else set_body v n (DirectoryVNode (es @ [(name, target)])) st)
    | _ \<Rightarrow> sys_fail SYS_ENOTDIR)"

definition vnode_unlink :: "vid \<Rightarrow> string \<Rightarrow> (unit, 'm ramfs_scheme) sys" where
  "vnode_unlink v name = with_vnode v (\<lambda>n. case vn_body n of
      DirectoryVNode es \<Rightarrow>
        if dir_exists name es then set_body v n (DirectoryVNode (dir_erase name es))
        else sys_fail SYS_ENOENT
    | _ \<Rightarrow> sys_fail SYS_ENOTDIR)"

definition vnode_symlink :: "vid \<Rightarrow> string \<Rightarrow> string \<Rightarrow> (unit, 'm ramfs_scheme) sys" where
  "vnode_symlink v name target = with_vnode v (\<lambda>n. case vn_body n of
      DirectoryVNode es \<Rightarrow>
        if dir_exists name es then sys_fail SYS_EEXIST
        else sys_bind (RamFSVNode (vn_super n) 0x1FF (SymlinkVNode target)) (\<lambda>x.
          set_body v n (DirectoryVNode (es @ [(name, x)])))
    | _ \<Rightarrow> sys_fail SYS_ENOTDIR)"

text \<open>\<^verbatim>\<open>readdir\<close> writes records into the buffer one after another; a record is the inode, the index of the
  next entry, its length, the kind and the name. \<^verbatim>\<open>offsetof(struct dirent, d_name)\<close> is 19.\<close>

record dirent =
  d_ino :: u64
  d_off :: int
  d_reclen :: nat
  d_type :: u8
  d_name :: string

definition dirent_reclen :: "string \<Rightarrow> nat" where
  "dirent_reclen name = (19 + length name + 1 + 7) div 8 * 8"

function readdir_loop :: "(vid \<Rightarrow> vnode option) \<Rightarrow> (string \<times> vid) list \<Rightarrow> nat \<Rightarrow> nat \<Rightarrow> nat \<Rightarrow>
    (dirent list \<times> nat \<times> nat) exec" where
  "readdir_loop nodes es sz written idx =
    (if idx < length es
     then let (name, v) = es ! idx; reclen = dirent_reclen name in
       if written + reclen > sz then Inr ([], written, idx)
       else case nodes v of None \<Rightarrow> Inl NullDeref
       | Some n \<Rightarrow> sbind (readdir_loop nodes es sz (written + reclen) (idx + 1)) (\<lambda>(ds, w, i).
           Inr (\<lparr>d_ino = vn_inode n, d_off = int idx + 1, d_reclen = reclen,
             d_type = vnode_type_no (vn_type n), d_name = name\<rparr> # ds, w, i))
     else Inr ([], written, idx))"
  by auto
termination by (relation "measure (\<lambda>(_, es, _, _, idx). length es - idx)") auto

declare readdir_loop.simps [simp del]

definition vnode_readdir :: "vid \<Rightarrow> nat \<Rightarrow> int \<Rightarrow> (dirent list \<times> nat \<times> int, 'm ramfs_scheme) sys" where
  "vnode_readdir v sz off = with_vnode v (\<lambda>n. case vn_body n of
      DirectoryVNode es \<Rightarrow> (\<lambda>st.
        if off < 0 then Inl OutOfBounds
        else sbind (readdir_loop (rf_nodes st) es sz 0 (nat off)) (\<lambda>(ds, w, i). Inr (Inr (ds, w, int i), st)))
    | _ \<Rightarrow> sys_fail SYS_ENOTDIR)"

section \<open>Contents\<close>

text \<open>Reading and writing a device node is forwarded to the device.\<close>

datatype 'a forwarded = Here 'a | ToDevice nat

text \<open>Offsets are 64-bit signed, sizes 32-bit unsigned: their sum is 64-bit signed, and
  \<^verbatim>\<open>vector::resize\<close> takes its low 32 bits.\<close>

definition file_read :: "u8 list \<Rightarrow> nat \<Rightarrow> int \<Rightarrow> u8 list result" where
  "file_read data sz offset =
    (if offset < 0 then Inl SYS_EINVAL
     else if offset \<ge> int (length data) then Inr []
     else Inr (take (min (length data - nat offset) sz) (drop (nat offset) data)))"

definition resize_zero :: "nat \<Rightarrow> u8 list \<Rightarrow> u8 list" where
  "resize_zero n data = take n data @ replicate (n - length data) 0"

definition file_write :: "u8 list \<Rightarrow> u8 list \<Rightarrow> int \<Rightarrow> u8 list exec" where
  "file_write data buf offset =
    (let newSize = int (length buf) + offset;
         data' = (if int (length data) \<le> newSize then resize_zero (nat (newSize mod 2 ^ 32)) data else data)
     in if 0 \<le> offset \<and> nat offset + length buf \<le> length data' then Inr (splice_at data' (nat offset) buf)
        else Inl OutOfBounds)"

definition file_truncate :: "u8 list \<Rightarrow> int \<Rightarrow> u8 list" where
  "file_truncate data len = (let len = (if len < 0 then 0 else len)
    in if int (length data) > len then resize_zero (nat (len mod 2 ^ 32)) data else data)"

definition vnode_read :: "vid \<Rightarrow> nat \<Rightarrow> int \<Rightarrow> (u8 list forwarded, 'm ramfs_scheme) sys" where
  "vnode_read v sz offset = with_vnode v (\<lambda>n. case vn_body n of
      FileVNode data \<Rightarrow> sys_bind (sys_of (file_read data sz offset)) (\<lambda>out. sys_return (Here out))
    | CharDevVNode dev \<Rightarrow> sys_return (ToDevice dev)
    | _ \<Rightarrow> sys_fail SYS_EISDIR)"

definition vnode_write :: "vid \<Rightarrow> u8 list \<Rightarrow> int \<Rightarrow> (nat forwarded, 'm ramfs_scheme) sys" where
  "vnode_write v buf offset = with_vnode v (\<lambda>n. case vn_body n of
      FileVNode data \<Rightarrow> (\<lambda>st. sbind (file_write data buf offset) (\<lambda>data'.
        sys_bind (set_body v n (FileVNode data')) (\<lambda>_. sys_return (Here (length buf))) st))
    | CharDevVNode dev \<Rightarrow> sys_return (ToDevice dev)
    | _ \<Rightarrow> sys_fail SYS_EISDIR)"

definition vnode_truncate :: "vid \<Rightarrow> int \<Rightarrow> (unit, 'm ramfs_scheme) sys" where
  "vnode_truncate v len = with_vnode v (\<lambda>n. case vn_body n of
      FileVNode data \<Rightarrow> set_body v n (FileVNode (file_truncate data len))
    | _ \<Rightarrow> sys_fail SYS_EISDIR)"

text \<open>The link \<^verbatim>\<open>/dev/tty\<close> computes its target when it is read: \<open>dyn\<close> is what it computes.\<close>

definition vnode_readlink :: "string result \<Rightarrow> vid \<Rightarrow> (string, 'm ramfs_scheme) sys" where
  "vnode_readlink dyn v = with_vnode v (\<lambda>n. case vn_body n of
      SymlinkVNode target \<Rightarrow> sys_return target
    | DynSymlinkVNode \<Rightarrow> sys_of dyn
    | _ \<Rightarrow> sys_fail SYS_EINVAL)"

definition vnode_ioctl :: "vid \<Rightarrow> (unit forwarded, 'm ramfs_scheme) sys" where
  "vnode_ioctl v = with_vnode v (\<lambda>n. case vn_body n of
      CharDevVNode dev \<Rightarrow> sys_return (ToDevice dev)
    | _ \<Rightarrow> sys_fail SYS_ENOTTY)"

record file_stat =
  st_dev :: u64
  st_mode :: u32
  st_nlink :: u32
  st_size :: int
  st_blksize :: u32
  st_ino :: u64

fun body_size :: "ramfs_body \<Rightarrow> nat" where
  "body_size (FileVNode data) = length data"
| "body_size (SymlinkVNode target) = length target"
| "body_size _ = 0"

fun type_mode :: "vnode_type \<Rightarrow> u32" where
  "type_mode VNT_Pipe = 0x1000"
| "type_mode VNT_CharDevice = 0x2000"
| "type_mode VNT_Directory = 0x4000"
| "type_mode VNT_BlockDevice = 0x6000"
| "type_mode VNT_Regular = 0x8000"
| "type_mode VNT_Symlink = 0xA000"

definition vnode_stat :: "u32 \<Rightarrow> vid \<Rightarrow> (file_stat, 'm ramfs_scheme) sys" where
  "vnode_stat ref_count v = with_vnode v (\<lambda>n. sys_return \<lparr>
    st_dev = 1, st_mode = type_mode (vn_type n) OR vn_mode n, st_nlink = ref_count,
    st_size = int (body_size (vn_body n)), st_blksize = 4096, st_ino = vn_inode n\<rparr>)"

section \<open>Well-formed heaps\<close>

definition body_ok :: "(vid \<Rightarrow> vnode option) \<Rightarrow> ramfs_body \<Rightarrow> bool" where
  "body_ok nodes b \<longleftrightarrow> (case b of
      DirectoryVNode es \<Rightarrow> distinct (map fst es) \<and> (\<forall>e\<in>set es. nodes (snd e) \<noteq> None)
    | _ \<Rightarrow> True)"

definition ramfs_inv :: "'m ramfs_scheme \<Rightarrow> bool" where
  "ramfs_inv st \<longleftrightarrow> (\<forall>v n. rf_nodes st v = Some n \<longrightarrow>
    v < rf_next st \<and> vn_super n < length (rf_supers st) \<and> body_ok (rf_nodes st) (vn_body n))"

lemma body_ok_mono: "body_ok nodes b \<Longrightarrow> dom nodes \<subseteq> dom nodes' \<Longrightarrow> body_ok nodes' b"
  by (force simp: body_ok_def split: ramfs_body.splits)

lemma with_vnode_eq [simp]: "rf_nodes st v = Some n \<Longrightarrow> with_vnode v f st = f n st"
  by (simp add: with_vnode_def)

lemma set_body_inv:
  assumes inv: "ramfs_inv st" and n: "rf_nodes st v = Some m" "vn_super n = vn_super m" and b: "body_ok (rf_nodes st) b"
  shows "ramfs_inv (st\<lparr>rf_nodes := (rf_nodes st)(v \<mapsto> n\<lparr>vn_body := b\<rparr>)\<rparr>)"
proof -
  have "dom (rf_nodes st) \<subseteq> dom ((rf_nodes st)(v \<mapsto> n\<lparr>vn_body := b\<rparr>))" by auto
  from body_ok_mono [OF _ this] show ?thesis using inv n b by (auto simp: ramfs_inv_def)
qed

text \<open>A new node is at a number nobody used, and the nodes there were stay.\<close>

lemma RamFSVNode_new:
  assumes inv: "ramfs_inv st" and sb: "sb < length (rf_supers st)" and b: "body_ok (rf_nodes st) b"
  obtains n supers where
    "RamFSVNode sb mode b st = Inr (Inr (rf_next st), st\<lparr>rf_supers := supers,
      rf_nodes := (rf_nodes st)(rf_next st \<mapsto> n), rf_next := rf_next st + 1\<rparr>)"
    "rf_nodes st (rf_next st) = None" "vn_body n = b" "vn_super n = sb" "vn_mode n = mode"
    "length supers = length (rf_supers st)"
    "ramfs_inv (st\<lparr>rf_supers := supers, rf_nodes := (rf_nodes st)(rf_next st \<mapsto> n), rf_next := rf_next st + 1\<rparr>)"
proof -
  define s where "s = rf_supers st ! sb"
  define n where "n = \<lparr>vn_super = sb, vn_mode = mode, vn_inode = sb_counter s + 1, vn_body = b\<rparr>"
  define supers where "supers = (rf_supers st)[sb := s\<lparr>sb_counter := sb_counter s + 1\<rparr>]"
  have fresh: "rf_nodes st (rf_next st) = None"
  proof (cases "rf_nodes st (rf_next st)")
    case (Some m)
    then show ?thesis using inv unfolding ramfs_inv_def by blast
  qed
  have "dom (rf_nodes st) \<subseteq> dom ((rf_nodes st)(rf_next st \<mapsto> n))" by auto
  from body_ok_mono [OF _ this]
  have "ramfs_inv (st\<lparr>rf_supers := supers, rf_nodes := (rf_nodes st)(rf_next st \<mapsto> n), rf_next := rf_next st + 1\<rparr>)"
    using inv b sb by (auto simp: ramfs_inv_def n_def supers_def less_SucI)
  then show thesis
    using sb fresh by (intro that [of n supers]) (auto simp: RamFSVNode_def Let_def n_def supers_def s_def)
qed

section \<open>A directory is a map\<close>

definition dir_map :: "'m ramfs_scheme \<Rightarrow> vid \<Rightarrow> (string \<Rightarrow> vid option) option" where
  "dir_map st v = (case rf_nodes st v of
      Some n \<Rightarrow> (case vn_body n of DirectoryVNode es \<Rightarrow> Some (map_of es) | _ \<Rightarrow> None)
    | None \<Rightarrow> None)"

lemma dir_mapE:
  assumes "dir_map st v = Some M"
  obtains n es where "rf_nodes st v = Some n" "vn_body n = DirectoryVNode es" "M = map_of es"
  using assms by (auto simp: dir_map_def split: option.splits ramfs_body.splits)

lemma dir_find_map_of: "dir_find name es = map_option (\<lambda>x. (name, x)) (map_of es name)"
  by (induction es) (auto simp: dir_find_def)

lemma dir_exists_dom: "dir_exists name es \<longleftrightarrow> map_of es name \<noteq> None"
  by (simp add: dir_exists_def dir_find_map_of)

lemma map_of_snoc: "M name = None \<Longrightarrow> [name \<mapsto> x] ++ M = M(name \<mapsto> x)"
  by (auto simp: map_add_def fun_eq_iff split: option.splits)

lemma dir_erase_set: "set (dir_erase name es) \<subseteq> set es"
  by (induction es) auto

lemma dir_erase_distinct: "distinct (map fst es) \<Longrightarrow> distinct (map fst (dir_erase name es))"
proof (induction es)
  case (Cons e es)
  then show ?case using image_mono [OF dir_erase_set [of name es], of fst] by auto
qed simp

lemma dir_erase_map_of:
  "distinct (map fst es) \<Longrightarrow> map_of (dir_erase name es) = (map_of es)(name := None)"
proof (induction es)
  case (Cons e es)
  show ?case
  proof (cases "fst e = name")
    case True
    then have "map_of es name = None" using Cons.prems by (force simp: map_of_eq_None_iff)
    with True show ?thesis by (auto simp: fun_eq_iff)
  next
    case False
    then show ?thesis using Cons by (auto simp: fun_eq_iff)
  qed
qed simp

lemma snoc_body_ok:
  assumes "body_ok nodes (DirectoryVNode es)" "map_of es name = None" "nodes x \<noteq> None"
  shows "body_ok nodes (DirectoryVNode (es @ [(name, x)]))"
  using assms by (auto simp: body_ok_def map_of_eq_None_iff)

text \<open>Adding a name for a new node, as \<^verbatim>\<open>mkdir\<close>, \<^verbatim>\<open>create\<close> and \<^verbatim>\<open>symlink\<close> do.\<close>

definition dir_gains :: "vid \<Rightarrow> string \<Rightarrow> ramfs_body \<Rightarrow> u32 \<Rightarrow> 'm ramfs_scheme \<Rightarrow> 'm ramfs_scheme \<Rightarrow> bool" where
  "dir_gains v name b mode st st' \<longleftrightarrow> (\<exists>x n. rf_nodes st x = None \<and> rf_nodes st' x = Some n \<and> vn_body n = b \<and>
    vn_mode n = mode \<and> dir_map st' v = Some ((the (dir_map st v))(name \<mapsto> x)) \<and>
    (\<forall>u. u \<noteq> v \<longrightarrow> u \<noteq> x \<longrightarrow> rf_nodes st' u = rf_nodes st u))"

lemma dir_add_new:
  assumes inv: "ramfs_inv st" and v: "rf_nodes st v = Some n" "vn_body n = DirectoryVNode es"
    and b: "body_ok (rf_nodes st) b" and new: "map_of es name = None"
  shows "\<exists>st'. sys_bind (RamFSVNode (vn_super n) mode b) (\<lambda>x. set_body v n (DirectoryVNode (es @ [(name, x)]))) st =
    Inr (Inr (), st') \<and> ramfs_inv st' \<and> dir_gains v name b mode st st'"
proof -
  have ok: "vn_super n < length (rf_supers st)" "body_ok (rf_nodes st) (DirectoryVNode es)"
    using inv v unfolding ramfs_inv_def by (metis v(2))+
  obtain m supers where N: "RamFSVNode (vn_super n) mode b st = Inr (Inr (rf_next st), st\<lparr>rf_supers := supers,
      rf_nodes := (rf_nodes st)(rf_next st \<mapsto> m), rf_next := rf_next st + 1\<rparr>)"
    "rf_nodes st (rf_next st) = None" "vn_body m = b" "vn_super m = vn_super n" "vn_mode m = mode"
    "length supers = length (rf_supers st)"
    "ramfs_inv (st\<lparr>rf_supers := supers, rf_nodes := (rf_nodes st)(rf_next st \<mapsto> m), rf_next := rf_next st + 1\<rparr>)"
    using RamFSVNode_new [OF inv ok(1) b] by metis
  define st1 where "st1 = st\<lparr>rf_supers := supers, rf_nodes := (rf_nodes st)(rf_next st \<mapsto> m), rf_next := rf_next st + 1\<rparr>"
  define st2 where "st2 = st1\<lparr>rf_nodes := (rf_nodes st1)(v \<mapsto> n\<lparr>vn_body := DirectoryVNode (es @ [(name, rf_next st)])\<rparr>)\<rparr>"
  have ne: "v \<noteq> rf_next st" using N(2) v(1) by auto
  have n1: "rf_nodes st1 v = Some n" using ne v(1) by (simp add: st1_def)
  have "dom (rf_nodes st) \<subseteq> dom (rf_nodes st1)" by (auto simp: st1_def)
  then have "body_ok (rf_nodes st1) (DirectoryVNode (es @ [(name, rf_next st)]))"
    by (intro snoc_body_ok [OF body_ok_mono [OF ok(2)]] new) (auto simp: st1_def)
  then have "ramfs_inv st2" unfolding st2_def using N(7) n1 by (intro set_body_inv) (simp_all add: st1_def)
  moreover have "sys_bind (RamFSVNode (vn_super n) mode b) (\<lambda>x. set_body v n (DirectoryVNode (es @ [(name, x)]))) st =
      Inr (Inr (), st2)"
    using N(1) by (simp add: sys_bind_eq set_body_def st2_def st1_def)
  moreover have "dir_gains v name b mode st st2"
    unfolding dir_gains_def
    by (rule exI [of _ "rf_next st"], rule exI [of _ m])
      (use N(2,3,5) ne v new in \<open>simp add: st2_def st1_def dir_map_def map_of_snoc\<close>)
  ultimately show ?thesis by blast
qed

text \<open>C20: a directory behaves as a finite map from names to nodes. Looking a name up gives its node or
  \<^verbatim>\<open>ENOENT\<close>; creating a file, a directory or a symbolic link refuses a name that is there with \<^verbatim>\<open>EEXIST\<close> and
  otherwise adds the name for a new node of the right kind; linking refuses a node of another file system with \<^verbatim>\<open>EXDEV\<close>, a name that
  is there with \<^verbatim>\<open>EEXIST\<close> and otherwise adds the name for the node given; unlinking removes exactly that name and refuses one that is not there with
  \<^verbatim>\<open>ENOENT\<close>. A refused operation changes nothing, no other node changes and the heap stays well-formed.\<close>

theorem directory_is_a_map:
  assumes inv: "ramfs_inv st" and M: "dir_map st v = Some M"
  shows "vnode_lookup v name st = Inr (case M name of None \<Rightarrow> Inl SYS_ENOENT | Some x \<Rightarrow> Inr (Some x), st) \<and>
    (case M name of
      Some x \<Rightarrow> vnode_create v name mode st = Inr (Inl SYS_EEXIST, st) \<and> vnode_mkdir v name mode st = Inr (Inl SYS_EEXIST, st) \<and>
        vnode_symlink v name target st = Inr (Inl SYS_EEXIST, st) \<and>
        (\<exists>st'. vnode_unlink v name st = Inr (Inr (), st') \<and> ramfs_inv st' \<and> dir_map st' v = Some (M(name := None)) \<and>
          (\<forall>u. u \<noteq> v \<longrightarrow> rf_nodes st' u = rf_nodes st u))
    | None \<Rightarrow> vnode_unlink v name st = Inr (Inl SYS_ENOENT, st) \<and>
        (\<exists>st'. vnode_create v name mode st = Inr (Inr (), st') \<and> ramfs_inv st' \<and> dir_gains v name (FileVNode []) mode st st') \<and>
        (\<exists>st'. vnode_mkdir v name mode st = Inr (Inr (), st') \<and> ramfs_inv st' \<and> dir_gains v name (DirectoryVNode []) mode st st') \<and>
        (\<exists>st'. vnode_symlink v name target st = Inr (Inr (), st') \<and> ramfs_inv st' \<and>
          dir_gains v name (SymlinkVNode target) 0x1FF st st')) \<and>
    (\<forall>x y. rf_nodes st x = Some y \<longrightarrow>
      (if super_fs (vn_super y) st \<noteq> super_fs (vn_super (the (rf_nodes st v))) st then vnode_link v name x st = Inr (Inl SYS_EXDEV, st)
       else if M name \<noteq> None then vnode_link v name x st = Inr (Inl SYS_EEXIST, st)
       else \<exists>st'. vnode_link v name x st = Inr (Inr (), st') \<and> ramfs_inv st' \<and> dir_map st' v = Some (M(name \<mapsto> x)) \<and>
         (\<forall>u. u \<noteq> v \<longrightarrow> rf_nodes st' u = rf_nodes st u)))"
proof -
  obtain n es where n: "rf_nodes st v = Some n" "vn_body n = DirectoryVNode es" and M_eq: "M = map_of es"
    using M by (rule dir_mapE)
  have ok: "distinct (map fst es)" "body_ok (rf_nodes st) (DirectoryVNode es)"
    using inv n unfolding ramfs_inv_def by (fastforce simp: body_ok_def)+
  have look: "vnode_lookup v name st = Inr (case M name of None \<Rightarrow> Inl SYS_ENOENT | Some x \<Rightarrow> Inr (Some x), st)"
    using n by (simp add: vnode_lookup_def dir_find_map_of M_eq split: option.split)
  have link: "if super_fs (vn_super y) st \<noteq> super_fs (vn_super n) st then vnode_link v name x st = Inr (Inl SYS_EXDEV, st)
       else if M name \<noteq> None then vnode_link v name x st = Inr (Inl SYS_EEXIST, st)
       else \<exists>st'. vnode_link v name x st = Inr (Inr (), st') \<and> ramfs_inv st' \<and> dir_map st' v = Some (M(name \<mapsto> x)) \<and>
         (\<forall>u. u \<noteq> v \<longrightarrow> rf_nodes st' u = rf_nodes st u)" if x: "rf_nodes st x = Some y" for x y
  proof (cases "map_of es name")
    case None
    then show ?thesis using set_body_inv [OF inv n(1) refl snoc_body_ok [OF ok(2) None, of x]] x n
      by (simp add: vnode_link_def dir_exists_dom set_body_def dir_map_def map_of_snoc M_eq)
  next
    case (Some z)
    then show ?thesis using x n by (auto simp: vnode_link_def dir_exists_dom M_eq)
  qed
  show ?thesis
  proof (cases "M name")
    case None
    then have new: "map_of es name = None" by (simp add: M_eq)
    show ?thesis
      using look link new n dir_add_new [OF inv n _ new]
      by (simp add: None vnode_create_def vnode_mkdir_def vnode_symlink_def vnode_unlink_def dir_exists_dom body_ok_def)
  next
    case (Some x)
    then have old: "map_of es name = Some x" by (simp add: M_eq)
    have "body_ok (rf_nodes st) (DirectoryVNode (dir_erase name es))"
      using ok dir_erase_set [of name es] by (auto simp: body_ok_def dir_erase_distinct)
    from set_body_inv [OF inv n(1) refl this] show ?thesis
      using look link n old ok(1)
      by (simp add: Some vnode_create_def vnode_mkdir_def vnode_symlink_def vnode_unlink_def dir_exists_dom set_body_def
          dir_map_def dir_erase_map_of M_eq)
  qed
qed

definition example_fs :: ramfs where
  "example_fs = \<lparr>rf_nodes = [0 \<mapsto> \<lparr>vn_super = 0, vn_mode = 0x1ED, vn_inode = 1, vn_body = DirectoryVNode [(''a'', 1)]\<rparr>,
      1 \<mapsto> \<lparr>vn_super = 0, vn_mode = 0x1A4, vn_inode = 2, vn_body = FileVNode [1, 2, 3]\<rparr>],
    rf_next = 2, rf_supers = [\<lparr>sb_fs = 0, sb_counter = 2\<rparr>]\<rparr>"

lemma example_fs_inv: "ramfs_inv example_fs"
  by (auto simp: ramfs_inv_def example_fs_def body_ok_def)

theorem directory_is_a_map_witness:
  "\<exists>st'. vnode_create 0 ''b'' 0x1A4 example_fs = Inr (Inr (), st') \<and> dir_gains 0 ''b'' (FileVNode []) 0x1A4 example_fs st'"
proof -
  have "dir_map example_fs 0 = Some (map_of [(''a'', 1)])" by (simp add: dir_map_def example_fs_def)
  from directory_is_a_map [OF example_fs_inv this, where name = "''b''" and mode = "0x1A4" and target = "[]"] show ?thesis
    by (auto split: option.splits)
qed

section \<open>Contents of a file\<close>

lemma file_write_law:
  assumes "0 \<le> off" "nat off + length buf < 2 ^ 32"
  obtains data' where "file_write data buf off = Inr data'" "length data' = max (length data) (nat off + length buf)"
    "\<forall>i<length data'. data' ! i = (if nat off \<le> i \<and> i < nat off + length buf then buf ! (i - nat off)
      else if i < length data then data ! i else 0)"
proof -
  define d where "d = (if int (length data) \<le> int (length buf) + off then resize_zero (nat off + length buf) data else data)"
  have m: "nat ((int (length buf) + off) mod 2 ^ 32) = nat off + length buf"
    using assms by (simp add: nat_add_distrib)
  have len: "length d = max (length data) (nat off + length buf)" using assms(1) by (auto simp: d_def resize_zero_def)
  have "d ! i = (if i < length data then data ! i else 0)" if "i < length d" for i
    using that assms(1) by (auto simp: d_def resize_zero_def nth_append split: if_splits)
  moreover have "file_write data buf off = Inr (splice_at d (nat off) buf)"
    unfolding file_write_def Let_def m d_def [symmetric] using assms(1) len by simp
  ultimately show thesis using len by (intro that [of "splice_at d (nat off) buf"]) (auto simp: nth_splice_at)
qed

text \<open>C22: writing to a file and reading back at the same place gives the bytes written; every other byte of the
  file is what it was, a gap before the place reads as zero, and no other node changes. The place must lie
  below four gigabytes.\<close>

theorem file_write_read:
  assumes v: "rf_nodes st v = Some n" "vn_body n = FileVNode data"
    and off: "0 \<le> off" "nat off + length buf < 2 ^ 32"
  shows "\<exists>st' data'. vnode_write v buf off st = Inr (Inr (Here (length buf)), st') \<and>
    rf_nodes st' = (rf_nodes st)(v \<mapsto> n\<lparr>vn_body := FileVNode data'\<rparr>) \<and>
    vnode_read v (length buf) off st' = Inr (Inr (Here buf), st') \<and>
    length data' = max (length data) (nat off + length buf) \<and>
    (\<forall>i<length data'. i < nat off \<or> nat off + length buf \<le> i \<longrightarrow> data' ! i = (if i < length data then data ! i else 0))"
proof -
  obtain data' where d: "file_write data buf off = Inr data'" "length data' = max (length data) (nat off + length buf)"
    "\<forall>i<length data'. data' ! i = (if nat off \<le> i \<and> i < nat off + length buf then buf ! (i - nat off)
      else if i < length data then data ! i else 0)"
    by (rule file_write_law [OF off])
  have "take (length buf) (drop (nat off) data') = buf"
    using d(2,3) by (intro nth_equalityI) auto
  then have r: "file_read data' (length buf) off = Inr buf"
    using off(1) d(2) by (auto simp: file_read_def)
  show ?thesis
    by (rule exI [of _ "st\<lparr>rf_nodes := (rf_nodes st)(v \<mapsto> n\<lparr>vn_body := FileVNode data'\<rparr>)\<rparr>"], rule exI [of _ data'])
      (use v d r in \<open>simp add: vnode_write_def vnode_read_def sys_bind_eq set_body_def\<close>)
qed

theorem file_write_read_witness:
  "\<exists>st'. vnode_write 1 [9, 8] 4 example_fs = Inr (Inr (Here 2), st') \<and> vnode_read 1 2 4 st' = Inr (Inr (Here [9, 8]), st')"
proof -
  have n: "rf_nodes example_fs 1 = Some \<lparr>vn_super = 0, vn_mode = 0x1A4, vn_inode = 2, vn_body = FileVNode [1, 2, 3]\<rparr>"
    by (simp add: example_fs_def)
  from file_write_read [OF n, of "[1, 2, 3]" 4 "[9, 8]"] show ?thesis
    by (fastforce simp flip: numeral_2_eq_2)
qed

section \<open>Reading a directory\<close>

lemma readdir_loop_law:
  assumes "\<forall>e\<in>set es. nodes (snd e) \<noteq> None" "idx \<le> length es" "written \<le> sz"
  shows "\<exists>ds w i. readdir_loop nodes es sz written idx = Inr (ds, w, i) \<and> idx \<le> i \<and> i \<le> length es \<and>
    map d_name ds = map fst (take (i - idx) (drop idx es)) \<and> w = written + sum_list (map d_reclen ds) \<and> w \<le> sz \<and>
    (i < length es \<longrightarrow> w + dirent_reclen (fst (es ! i)) > sz)"
  using assms
proof (induction nodes es sz written idx rule: readdir_loop.induct)
  case (1 nodes es sz written idx)
  show ?case
  proof (cases "idx < length es \<and> written + dirent_reclen (fst (es ! idx)) \<le> sz")
    case False
    then have "readdir_loop nodes es sz written idx = Inr ([], written, idx)"
      by (subst readdir_loop.simps) (auto simp: Let_def case_prod_beta)
    with False 1 show ?thesis by auto
  next
    case True
    obtain name v where e: "es ! idx = (name, v)" by (cases "es ! idx")
    then have "(name, v) \<in> set es" using True by (metis nth_mem)
    then obtain n where n: "nodes v = Some n" using 1 by fastforce
    let ?w = "written + dirent_reclen name"
    obtain ds w i where r: "readdir_loop nodes es sz ?w (idx + 1) = Inr (ds, w, i)" "idx + 1 \<le> i" "i \<le> length es"
      "map d_name ds = map fst (take (i - (idx + 1)) (drop (idx + 1) es))" "w = ?w + sum_list (map d_reclen ds)" "w \<le> sz"
      "i < length es \<longrightarrow> w + dirent_reclen (fst (es ! i)) > sz"
      using 1(1) [OF _ e [symmetric] refl refl _ n] True 1(2,3) e by (auto simp: not_less)
    have "take (i - idx) (drop idx es) = (name, v) # take (i - (idx + 1)) (drop (idx + 1) es)"
      using True e r(2) by (simp add: Cons_nth_drop_Suc [symmetric] take_Cons' Suc_diff_le)
    moreover have "readdir_loop nodes es sz written idx = Inr (\<lparr>d_ino = vn_inode n, d_off = int idx + 1,
        d_reclen = dirent_reclen name, d_type = vnode_type_no (vn_type n), d_name = name\<rparr> # ds, w, i)"
      by (subst readdir_loop.simps) (use True e n r(1) in \<open>simp add: Let_def\<close>)
    ultimately show ?thesis using r by auto
  qed
qed

text \<open>One \<^verbatim>\<open>getdents64\<close> pass over a directory returns the names from the file offset on, in order and without
  gaps, as many as fit: the records fill exactly the length returned, which is within the buffer, and the new
  offset is the first entry left out, which would not have fitted.\<close>

theorem readdir_consecutive:
  assumes inv: "ramfs_inv st" and v: "rf_nodes st v = Some n" "vn_body n = DirectoryVNode es"
    and off: "0 \<le> off" "off \<le> int (length es)"
  shows "\<exists>ds w off'. vnode_readdir v sz off st = Inr (Inr (ds, w, off'), st) \<and> off \<le> off' \<and> off' \<le> int (length es) \<and>
    map d_name ds = map fst (take (nat off' - nat off) (drop (nat off) es)) \<and> w = sum_list (map d_reclen ds) \<and> w \<le> sz \<and>
    (off' < int (length es) \<longrightarrow> w + dirent_reclen (fst (es ! nat off')) > sz)"
proof -
  have "\<forall>e\<in>set es. rf_nodes st (snd e) \<noteq> None" using inv v unfolding ramfs_inv_def body_ok_def by fastforce
  moreover have "nat off \<le> length es" using off by simp
  ultimately
  obtain ds w i where r: "readdir_loop (rf_nodes st) es sz 0 (nat off) = Inr (ds, w, i)" "nat off \<le> i" "i \<le> length es"
    "map d_name ds = map fst (take (i - nat off) (drop (nat off) es))" "w = sum_list (map d_reclen ds)" "w \<le> sz"
    "i < length es \<longrightarrow> w + dirent_reclen (fst (es ! i)) > sz"
    using readdir_loop_law [of es "rf_nodes st" "nat off" 0 sz] by auto
  show ?thesis
    by (rule exI [of _ ds], rule exI [of _ w], rule exI [of _ "int i"]) (use r v off in \<open>simp add: vnode_readdir_def\<close>)
qed

theorem readdir_consecutive_witness:
  "\<exists>ds off'. vnode_readdir 0 100 0 example_fs = Inr (Inr (ds, 24, off'), example_fs) \<and> map d_name ds = [''a'']"
proof -
  have n: "rf_nodes example_fs 0 = Some \<lparr>vn_super = 0, vn_mode = 0x1ED, vn_inode = 1, vn_body = DirectoryVNode [(''a'', 1)]\<rparr>"
    by (simp add: example_fs_def)
  from readdir_consecutive [OF example_fs_inv n, of "[(''a'', 1)]" 0 100]
  obtain ds w off' where r: "vnode_readdir 0 100 0 example_fs = Inr (Inr (ds, w, off'), example_fs)" "0 \<le> off'" "off' \<le> 1"
    "map d_name ds = map fst (take (nat off') [(''a'', 1 :: nat)])" "w = sum_list (map d_reclen ds)"
    "off' < 1 \<longrightarrow> w + dirent_reclen ''a'' > 100" by auto
  have "vnode_readdir 0 100 0 example_fs = Inr (Inr ([\<lparr>d_ino = 2, d_off = 1, d_reclen = 24, d_type = 8, d_name = ''a''\<rparr>], 24, 1), example_fs)"
    by (simp add: vnode_readdir_def example_fs_def readdir_loop.simps dirent_reclen_def vn_type_def)
  with r show ?thesis by auto
qed

end
