(* ===== verification/Nyan_Path.thy ===== *)
theory Nyan_Path
  imports Nyan_Prelude
begin

text \<open>
  Paths (kernel/fs/path.hpp, kernel/fs/path.cpp): the components of a path string between slashes, without the
  empty ones and the dots, and whether the string is relative, empty or ends in a slash.
\<close>

section \<open>Operations\<close>

record path =
  pt_portions :: "string list"
  pt_trailing_slash :: bool
  pt_relative :: bool
  pt_invalid :: bool

text \<open>\<^verbatim>\<open>std::views::split('/')\<close>: no piece for the empty string, otherwise one more piece than there are slashes.\<close>

fun split_rest :: "string \<Rightarrow> string \<Rightarrow> string list" where
  "split_rest piece [] = [piece]"
| "split_rest piece (c # cs) = (if c = CHR ''/'' then piece # split_rest [] cs else split_rest (piece @ [c]) cs)"

definition split_slash :: "string \<Rightarrow> string list" where
  "split_slash s = (if s = [] then [] else split_rest [] s)"

definition Path :: "string \<Rightarrow> path" where
  "Path s = \<lparr>
    pt_portions = filter (\<lambda>portion. \<not> (portion = [] \<or> portion = ''.'')) (split_slash s),
    pt_trailing_slash = (s \<noteq> [] \<and> last s = CHR ''/''),
    pt_relative = (\<not> (s \<noteq> [] \<and> hd s = CHR ''/'')),
    pt_invalid = (s = [])\<rparr>"

definition path_parent :: "path \<Rightarrow> path" where
  "path_parent p = p\<lparr>pt_portions := butlast (pt_portions p), pt_invalid := False\<rparr>"

definition path_last :: "path \<Rightarrow> string" where
  "path_last p = (if pt_portions p = [] then [] else last (pt_portions p))"

section \<open>Splitting\<close>

definition portion_ok :: "string \<Rightarrow> bool" where
  "portion_ok s \<longleftrightarrow> s \<noteq> [] \<and> s \<noteq> ''.'' \<and> CHR ''/'' \<notin> set s"

lemma split_rest_no_slash: "CHR ''/'' \<notin> set piece \<Longrightarrow> \<forall>p\<in>set (split_rest piece s). CHR ''/'' \<notin> set p"
  by (induction piece s rule: split_rest.induct) auto

lemma Path_portions_ok: "\<forall>p\<in>set (pt_portions (Path s)). portion_ok p"
  using split_rest_no_slash [of "[]" s] by (auto simp: Path_def split_slash_def portion_ok_def)

lemma split_rest_piece: "CHR ''/'' \<notin> set t \<Longrightarrow> split_rest piece (t @ s) = split_rest (piece @ t) s"
  by (induction t arbitrary: piece) auto

text \<open>The string of a sequence of names: a slash before each.\<close>

definition slash_names :: "string list \<Rightarrow> string" where
  "slash_names ps = concat (map (\<lambda>p. CHR ''/'' # p) ps)"

lemma split_rest_slash_names:
  "\<forall>p\<in>set ps. portion_ok p \<Longrightarrow> CHR ''/'' \<notin> set piece \<Longrightarrow> split_rest piece (slash_names ps) = piece # ps"
proof (induction ps arbitrary: piece)
  case (Cons q ps)
  then have "CHR ''/'' \<notin> set q" by (simp add: portion_ok_def)
  with Cons show ?case by (simp add: slash_names_def split_rest_piece)
qed (simp add: slash_names_def)

lemma Path_slash_names:
  assumes "\<forall>p\<in>set ps. portion_ok p" "ps \<noteq> []"
  shows "Path (slash_names ps) =
    \<lparr>pt_portions = ps, pt_trailing_slash = False, pt_relative = False, pt_invalid = False\<rparr>"
proof -
  have ne: "slash_names ps \<noteq> []" "hd (slash_names ps) = CHR ''/''"
    using assms by (cases ps; simp add: slash_names_def)+
  have "last (slash_names ps) = last (last ps)" "last ps \<noteq> []" "CHR ''/'' \<notin> set (last ps)"
    using assms by (cases ps rule: rev_cases; simp add: slash_names_def portion_ok_def)+
  then have "last (slash_names ps) \<noteq> CHR ''/''" by (metis last_in_set)
  moreover have "filter (\<lambda>p. \<not> (p = [] \<or> p = ''.'')) (split_slash (slash_names ps)) = ps"
    using ne split_rest_slash_names [of ps "[]"] assms(1)
    by (simp add: split_slash_def) (simp add: portion_ok_def)
  ultimately show ?thesis using ne by (simp add: Path_def)
qed

lemma Path_root: "Path ''/'' = \<lparr>pt_portions = [], pt_trailing_slash = True, pt_relative = False, pt_invalid = False\<rparr>"
  by (simp add: Path_def split_slash_def)

end
