(* ===== verification/Nyan_VFS.thy ===== *)
theory Nyan_VFS
  imports Nyan_RamFS Nyan_Path
begin

unbundle bit_operations_syntax

text \<open>
  The name space above the file nodes: directory entries and their cache (kernel/fs/dentry.hpp,
  kernel/fs/dentry.cpp, kernel/fs/mount.hpp), path resolution and opening (kernel/fs/mod.cpp), the initial
  file system (kernel/fs/load.cpp) and the system calls on names (kernel/syscall). A \<^verbatim>\<open>Ref<DEntry>\<close> is the
  number of an entry in a heap of entries. What a call reads of the running task is an environment: its
  working directory and its controlling terminal. A user string arrives as the outcome of
  \<^verbatim>\<open>task::checkString\<close>.
\<close>

section \<open>Entries\<close>

record dentry =
  de_id :: u64
  de_parent :: "nat option"
  de_node :: "vid option"
  de_name :: string
  de_mount :: "nat option"

record mount_entry =
  me_mount_point :: nat
  me_super_block :: nat
  me_root_node :: vid

record vfs = ramfs +
  vf_dentries :: "nat \<Rightarrow> dentry option"
  vf_dnext :: nat
  vf_counter :: u64
  vf_cache :: "u64 \<times> string \<Rightarrow> nat option"
  vf_mounts :: "mount_entry list"

record fs_env =
  env_cwd :: "nat option"
  env_ctty :: "nat option"

definition with_dentry :: "nat \<Rightarrow> (dentry \<Rightarrow> ('a, vfs) sys) \<Rightarrow> ('a, vfs) sys" where
  "with_dentry d f st = (case vf_dentries st d of None \<Rightarrow> Inl NullDeref | Some e \<Rightarrow> f e st)"

definition deref :: "'r option \<Rightarrow> ('r, 's) sys" where
  "deref r = (case r of None \<Rightarrow> sys_fault NullDeref | Some v \<Rightarrow> sys_return v)"

definition effectiveVNode :: "dentry \<Rightarrow> (vid option, vfs) sys" where
  "effectiveVNode e st = (case de_mount e of
      Some m \<Rightarrow> if m < length (vf_mounts st) then Inr (Inr (Some (me_root_node (vf_mounts st ! m))), st) else Inl NullDeref
    | None \<Rightarrow> Inr (Inr (de_node e), st))"

definition dentry_vnode :: "nat \<Rightarrow> (vid, vfs) sys" where
  "dentry_vnode d = with_dentry d (\<lambda>e. sys_bind (effectiveVNode e) deref)"

definition isType :: "vnode_type \<Rightarrow> vid \<Rightarrow> (bool, vfs) sys" where
  "isType t v = with_vnode v (\<lambda>n. sys_return (vn_type n = t))"

text \<open>\<^verbatim>\<open>DEntry::asPath\<close> follows the parents up to the root.\<close>

partial_function (option) asPath :: "vfs \<Rightarrow> nat \<Rightarrow> string option" where
  "asPath st d = (case vf_dentries st d of None \<Rightarrow> None
    | Some e \<Rightarrow> (case de_parent e of
        None \<Rightarrow> Some ''/''
      | Some p \<Rightarrow> (case vf_dentries st p of None \<Rightarrow> None
          | Some pe \<Rightarrow> if de_parent pe = None then Some (''/'' @ de_name e)
              else Option.bind (asPath st p) (\<lambda>s. Some (s @ ''/'' @ de_name e)))))"

declare asPath.simps [code]

definition new_dentry :: "nat \<Rightarrow> vid option \<Rightarrow> string \<Rightarrow> u64 \<times> string \<Rightarrow> (nat, vfs) sys" where
  "new_dentry parent node name key st =
    (let d = vf_dnext st; id = vf_counter st + 1
     in Inr (Inr d, st\<lparr>vf_counter := id, vf_dnext := d + 1,
       vf_dentries := (vf_dentries st)(d \<mapsto>
         \<lparr>de_id = id, de_parent = Some parent, de_node = node, de_name = name, de_mount = None\<rparr>),
       vf_cache := (vf_cache st)(key \<mapsto> d)\<rparr>))"

definition dentry_lookup :: "nat \<Rightarrow> string \<Rightarrow> (nat, vfs) sys" where
  "dentry_lookup parent name = with_dentry parent (\<lambda>p st.
    case vf_cache st (de_id p, name) of
      Some d \<Rightarrow> Inr (Inr d, st)
    | None \<Rightarrow> sys_bind (sys_bind (effectiveVNode p) deref) (\<lambda>target_vnode.
        sys_bind (vnode_lookup target_vnode name) (\<lambda>next. new_dentry parent next name (de_id p, name))) st)"

section \<open>Resolution\<close>

text \<open>The link \<^verbatim>\<open>/dev/tty\<close> and the names of the terminals (\<^verbatim>\<open>lib::format("tty{}", i)\<close>).\<close>

fun decimal :: "nat \<Rightarrow> string" where
  "decimal n = (if n < 10 then [char_of (48 + n)] else decimal (n div 10) @ [char_of (48 + n mod 10)])"

declare decimal.simps [simp del]

definition tty_target :: "fs_env \<Rightarrow> string result" where
  "tty_target env = (case env_ctty env of None \<Rightarrow> Inl SYS_ENXIO | Some i \<Rightarrow> Inr (''/dev/tty'' @ decimal i))"

primrec walk_path :: "(path \<Rightarrow> nat \<Rightarrow> (nat, vfs) sys) \<Rightarrow> string result \<Rightarrow> bool \<Rightarrow> string list \<Rightarrow> nat \<Rightarrow> (nat, vfs) sys" where
  "walk_path rec dyn follow [] current = sys_return current"
| "walk_path rec dyn follow (portion # rest) current =
    (if portion = ''..''
     then with_dentry current (\<lambda>e. walk_path rec dyn follow rest (case de_parent e of Some p \<Rightarrow> p | None \<Rightarrow> current))
     else sys_bind (dentry_lookup current portion) (\<lambda>next.
       if follow \<or> rest \<noteq> []
       then sys_bind (dentry_vnode next) (\<lambda>v. sys_bind (isType VNT_Symlink v) (\<lambda>link.
         if link
         then sys_bind (vnode_readlink dyn v) (\<lambda>target. sys_bind (rec (Path target) current)
           (walk_path rec dyn follow rest))
         else walk_path rec dyn follow rest next))
       else walk_path rec dyn follow rest next))"

definition resolve_start :: "fs_env \<Rightarrow> path \<Rightarrow> nat option \<Rightarrow> (nat, vfs) sys" where
  "resolve_start env p from st =
    (if pt_relative p
     then (case (case from of Some d \<Rightarrow> Some d | None \<Rightarrow> env_cwd env) of
         None \<Rightarrow> Inr (Inl SYS_ENOENT, st) | Some d \<Rightarrow> Inr (Inr d, st))
     else case vf_mounts st of [] \<Rightarrow> Inl OutOfBounds | m # _ \<Rightarrow> Inr (Inr (me_mount_point m), st))"

text \<open>The depth is how many more links may be followed: ten less the \<^verbatim>\<open>loop\<close> argument.\<close>

primrec resolve_depth :: "nat \<Rightarrow> fs_env \<Rightarrow> path \<Rightarrow> bool \<Rightarrow> nat option \<Rightarrow> (nat, vfs) sys" where
  "resolve_depth 0 env p follow from = sys_fail SYS_ELOOP"
| "resolve_depth (Suc k) env p follow from =
    (if pt_invalid p then sys_fail SYS_ENOENT
     else sys_bind (resolve_start env p from) (\<lambda>current.
       walk_path (\<lambda>target c. resolve_depth k env target True (Some c)) (tty_target env) follow (pt_portions p) current))"

definition resolve :: "fs_env \<Rightarrow> path \<Rightarrow> bool \<Rightarrow> nat option \<Rightarrow> nat \<Rightarrow> (nat, vfs) sys" where
  "resolve env p follow from loop = resolve_depth (10 - loop) env p follow from"

section \<open>Opening\<close>

definition O_CREAT :: u32 where "O_CREAT = 0x40"
definition O_EXCL :: u32 where "O_EXCL = 0x80"
definition O_TRUNC :: u32 where "O_TRUNC = 0x200"
definition O_APPEND :: u32 where "O_APPEND = 0x400"
definition O_DIRECTORY :: u32 where "O_DIRECTORY = 0x10000"
definition O_NOFOLLOW :: u32 where "O_NOFOLLOW = 0x20000"
definition ACCMODE :: u32 where "ACCMODE = 0x200003"

text \<open>An opened node: \<^verbatim>\<open>VNodeFileObj\<close>.\<close>

record file_obj =
  fo_vnode :: vid
  fo_mode :: u32
  fo_offset :: int

definition VNodeFileObj :: "vid \<Rightarrow> u32 \<Rightarrow> file_obj" where
  "VNodeFileObj v mode = \<lparr>fo_vnode = v, fo_mode = mode, fo_offset = 0\<rparr>"

definition open_parent_entry :: "fs_env \<Rightarrow> path \<Rightarrow> u32 \<Rightarrow> u32 \<Rightarrow> nat \<Rightarrow> (unit, vfs) sys" where
  "open_parent_entry env p flags mode parentEntry =
    sys_bind (dentry_vnode parentEntry) (\<lambda>pv. sys_catch (vnode_lookup pv (path_last p)) (\<lambda>r. case r of
      Inl e \<Rightarrow>
        if e \<noteq> SYS_ENOENT then sys_fail e
        else if flags AND O_CREAT \<noteq> 0 \<and> \<not> pt_trailing_slash p then vnode_create pv (path_last p) mode
        else sys_fail SYS_ENOENT
    | Inr _ \<Rightarrow>
        if flags AND (O_CREAT OR O_EXCL) = O_CREAT OR O_EXCL then sys_fail SYS_EEXIST else sys_return ()))"

definition open_follow :: "fs_env \<Rightarrow> u32 \<Rightarrow> vid \<Rightarrow> (vid, vfs) sys" where
  "open_follow env flags v = sys_bind (isType VNT_Symlink v) (\<lambda>link.
    if link \<and> flags AND O_NOFOLLOW = 0
    then sys_bind (vnode_readlink (tty_target env) v) (\<lambda>target.
      sys_bind (resolve env (Path target) True None 0) dentry_vnode)
    else sys_return v)"

definition open_vnode :: "path \<Rightarrow> u32 \<Rightarrow> vid \<Rightarrow> (file_obj, vfs) sys" where
  "open_vnode p flags v = with_vnode v (\<lambda>n.
    if (flags AND O_DIRECTORY \<noteq> 0 \<or> pt_trailing_slash p) \<and> vn_type n \<noteq> VNT_Directory then sys_fail SYS_ENOTDIR
    else sys_bind
      (if flags AND ACCMODE \<noteq> 0 \<and> flags AND O_TRUNC \<noteq> 0 \<and> vn_type n = VNT_Regular then vnode_truncate v 0
       else sys_return ())
      (\<lambda>_. sys_return (VNodeFileObj v (flags AND (ACCMODE OR O_APPEND)))))"

definition fs_open :: "fs_env \<Rightarrow> string \<Rightarrow> u32 \<Rightarrow> u32 \<Rightarrow> (file_obj, vfs) sys" where
  "fs_open env s flags mode =
    (let p = Path s in
     if pt_invalid p then sys_fail SYS_ENOENT
     else if pt_portions p = []
     then sys_bind (resolve env p True None 0) (\<lambda>entry.
       if flags AND O_CREAT \<noteq> 0 then sys_fail SYS_EEXIST
       else sys_bind (dentry_vnode entry) (\<lambda>v. sys_return (VNodeFileObj v (flags AND ACCMODE))))
     else sys_bind (resolve env (path_parent p) True None 0) (\<lambda>parentEntry.
       sys_bind (open_parent_entry env p flags mode parentEntry) (\<lambda>_.
       sys_bind (dentry_vnode parentEntry) (\<lambda>pv.
       sys_bind (sys_bind (vnode_lookup pv (path_last p)) deref) (\<lambda>v.
       sys_bind (open_follow env flags v) (open_vnode p flags))))))"

section \<open>System calls on names\<close>

definition new_name :: "fs_env \<Rightarrow> string \<Rightarrow> (nat \<times> string, vfs) sys" where
  "new_name env newname =
    (let newPath = Path newname in
     if pt_invalid newPath then sys_fail SYS_ENOENT
     else if pt_portions newPath = [] then sys_fail SYS_EEXIST
     else sys_bind (resolve env (path_parent newPath) True None 0) (\<lambda>parentEntry.
       sys_bind (dentry_vnode parentEntry) (\<lambda>pv.
       sys_catch (vnode_lookup pv (path_last newPath)) (\<lambda>r. case r of
         Inr _ \<Rightarrow> sys_fail SYS_EEXIST
       | Inl e \<Rightarrow> if e \<noteq> SYS_ENOENT then sys_fail e else sys_return (parentEntry, path_last newPath)))))"

definition sys_link :: "fs_env \<Rightarrow> string result \<Rightarrow> string result \<Rightarrow> (u32, vfs) sys" where
  "sys_link env old new = sys_bind (sys_of old) (\<lambda>oldname. sys_bind (sys_of new) (\<lambda>newname.
    sys_bind (resolve env (Path oldname) True None 0) (\<lambda>oldEntry.
    sys_bind (new_name env newname) (\<lambda>(parentEntry, name).
    sys_bind (dentry_vnode parentEntry) (\<lambda>pv. sys_bind (dentry_vnode oldEntry) (\<lambda>ov.
    sys_bind (vnode_link pv name ov) (\<lambda>_. sys_return 0)))))))"

definition sys_symlink :: "fs_env \<Rightarrow> string result \<Rightarrow> string result \<Rightarrow> (u32, vfs) sys" where
  "sys_symlink env old new = sys_bind (sys_of old) (\<lambda>oldname. sys_bind (sys_of new) (\<lambda>newname.
    sys_bind (new_name env newname) (\<lambda>(parentEntry, name).
    sys_bind (dentry_vnode parentEntry) (\<lambda>pv. sys_bind (vnode_symlink pv name oldname) (\<lambda>_. sys_return 0)))))"

definition sys_unlink :: "fs_env \<Rightarrow> string result \<Rightarrow> (u32, vfs) sys" where
  "sys_unlink env path = sys_bind (sys_of path) (\<lambda>pathname.
    sys_bind (resolve env (Path pathname) True None 0) (\<lambda>entry.
    sys_bind (dentry_vnode entry) (\<lambda>v. sys_bind (isType VNT_Directory v) (\<lambda>dir.
      if dir then sys_fail SYS_EISDIR
      else with_dentry entry (\<lambda>e. sys_bind (deref (de_parent e)) (\<lambda>p. sys_bind (dentry_vnode p) (\<lambda>pv.
        sys_bind (vnode_unlink pv (de_name e)) (\<lambda>_. sys_return 0))))))))"

definition sys_readlink :: "fs_env \<Rightarrow> string result \<Rightarrow> unit result \<Rightarrow> nat \<Rightarrow> (string, vfs) sys" where
  "sys_readlink env path bufOk sz =
    (if sz = 0 then sys_fail SYS_EINVAL
     else sys_bind (sys_of path) (\<lambda>path. sys_bind (sys_of bufOk) (\<lambda>_.
       sys_bind (resolve env (Path path) False None 0) (\<lambda>dentry. sys_bind (dentry_vnode dentry) (\<lambda>v.
       sys_bind (vnode_readlink (tty_target env) v) (\<lambda>target.
         if sz < length target then sys_fail SYS_ERANGE else sys_return target))))))"

text \<open>\<^verbatim>\<open>chdir\<close> returns the new working directory of the task (\<^verbatim>\<open>task::setCwd\<close>).\<close>

definition setCwd :: "nat \<Rightarrow> (nat, vfs) sys" where
  "setCwd dentry = sys_bind (dentry_vnode dentry) (\<lambda>v. sys_bind (isType VNT_Directory v) (\<lambda>dir.
    if dir then sys_return dentry else sys_fail SYS_ENOTDIR))"

definition sys_chdir :: "fs_env \<Rightarrow> string result \<Rightarrow> (nat, vfs) sys" where
  "sys_chdir env path = sys_bind (sys_of path) (\<lambda>filename.
    sys_bind (resolve env (Path filename) True None 0) setCwd)"

text \<open>\<^verbatim>\<open>getcwd\<close> gives the bytes written before the terminating zero.\<close>

definition sys_getcwd :: "fs_env \<Rightarrow> unit result \<Rightarrow> nat \<Rightarrow> (string, vfs) sys" where
  "sys_getcwd env bufOk sz =
    (if sz = 0 then sys_fail SYS_EINVAL
     else sys_bind (sys_of bufOk) (\<lambda>_. sys_bind (deref (env_cwd env)) (\<lambda>d st.
       case asPath st d of None \<Rightarrow> Inl Diverges
       | Some cwd \<Rightarrow> if sz < length cwd + 1 then Inr (Inl SYS_ERANGE, st) else Inr (Inr cwd, st))))"

definition sys_stat :: "bool \<Rightarrow> u32 \<Rightarrow> fs_env \<Rightarrow> string result \<Rightarrow> unit result \<Rightarrow> (file_stat, vfs) sys" where
  "sys_stat follow ref_count env path bufOk = sys_bind (sys_of path) (\<lambda>filename. sys_bind (sys_of bufOk) (\<lambda>_.
    sys_bind (resolve env (Path filename) follow None 0) (\<lambda>dentry.
    sys_bind (dentry_vnode dentry) (vnode_stat ref_count))))"

section \<open>The initial file system\<close>

definition fs_empty :: vfs where
  "fs_empty = \<lparr>rf_nodes = \<lambda>_. None, rf_next = 0, rf_supers = [], vf_dentries = \<lambda>_. None, vf_dnext = 0, vf_counter = 0,
    vf_cache = \<lambda>_. None, vf_mounts = []\<rparr>"

definition ramfs_mount :: "nat \<Rightarrow> (nat \<times> vid, vfs) sys" where
  "ramfs_mount fs st = (let sb = length (rf_supers st) in
    sys_bind (RamFSVNode sb 0x1ED (DirectoryVNode [])) (\<lambda>root. sys_return (sb, root))
      (st\<lparr>rf_supers := rf_supers st @ [\<lparr>sb_fs = fs, sb_counter = 0\<rparr>]\<rparr>))"

text \<open>\<^verbatim>\<open>| __ignore\<close> and \<^verbatim>\<open>| __unwrap\<close>.\<close>

definition sys_ignore :: "('a, 's) sys \<Rightarrow> (unit, 's) sys" where
  "sys_ignore m = sys_catch m (\<lambda>_. sys_return ())"

definition sys_unwrap :: "('a option, 's) sys \<Rightarrow> ('a, 's) sys" where
  "sys_unwrap m = sys_catch m (\<lambda>r. case r of Inr (Some v) \<Rightarrow> sys_return v | _ \<Rightarrow> sys_fault NullDeref)"

primrec sys_each :: "('i \<Rightarrow> (unit, 's) sys) \<Rightarrow> 'i list \<Rightarrow> (unit, 's) sys" where
  "sys_each f [] = sys_return ()"
| "sys_each f (i # is) = sys_bind (f i) (\<lambda>_. sys_each f is)"

definition load_program :: "vid \<Rightarrow> string \<times> u8 list \<Rightarrow> (unit, vfs) sys" where
  "load_program bin prog = sys_bind (sys_ignore (vnode_create bin (fst prog) 0x1ED)) (\<lambda>_.
    sys_bind (sys_unwrap (vnode_lookup bin (fst prog))) (\<lambda>file. sys_ignore (vnode_write file (snd prog) 0)))"

definition applets :: "string list" where
  "applets = [''ash'', ''cat'', ''clear'', ''echo'', ''env'', ''false'', ''kill'', ''ln'', ''ls'', ''pwd'', ''rm'',
    ''sh'', ''sleep'', ''test'', ''true'']"

definition loadInitFs :: "(string \<times> u8 list) list \<Rightarrow> nat \<Rightarrow> vid \<Rightarrow> (unit, vfs) sys" where
  "loadInitFs programs tty_count root =
    sys_bind (sys_ignore (vnode_mkdir root ''bin'' 0x1ED)) (\<lambda>_.
    sys_bind (sys_unwrap (vnode_lookup root ''bin'')) (\<lambda>bin.
    sys_bind (sys_each (load_program bin) programs) (\<lambda>_.
    sys_bind (sys_each (\<lambda>target. sys_ignore (vnode_symlink bin target ''busybox'')) applets) (\<lambda>_.
    sys_bind (sys_ignore (vnode_mkdir root ''dev'' 0x1ED)) (\<lambda>_.
    sys_bind (sys_unwrap (vnode_lookup root ''dev'')) (\<lambda>dev. with_vnode dev (\<lambda>dn.
    sys_bind (sys_each (\<lambda>i. sys_bind (RamFSVNode (vn_super dn) 0x1A4 (CharDevVNode i)) (\<lambda>x.
      sys_ignore (vnode_link dev (''tty'' @ decimal i) x))) [0..<tty_count]) (\<lambda>_.
    sys_bind (sys_bind (RamFSVNode (vn_super dn) 0x1B6 DynSymlinkVNode) (\<lambda>x. sys_ignore (vnode_link dev ''tty'' x))) (\<lambda>_.
    sys_bind (sys_ignore (vnode_create root ''hello'' 0x1ED)) (\<lambda>_.
    sys_bind (sys_unwrap (vnode_lookup root ''hello'')) (\<lambda>hello.
      sys_ignore (vnode_write hello (map of_char ''Hello world!'') 0)))))))))))) "

definition fs_load :: "(string \<times> u8 list) list \<Rightarrow> nat \<Rightarrow> (unit, vfs) sys" where
  "fs_load programs tty_count = sys_bind (ramfs_mount 0) (\<lambda>(sb, root) st.
    let d = vf_dnext st; id = vf_counter st + 1 in
    loadInitFs programs tty_count root
      (st\<lparr>vf_dnext := d + 1, vf_counter := id,
        vf_dentries := (vf_dentries st)(d \<mapsto>
          \<lparr>de_id = id, de_parent = None, de_node = None, de_name = [], de_mount = Some (length (vf_mounts st))\<rparr>),
        vf_mounts := vf_mounts st @ [\<lparr>me_mount_point = d, me_super_block = sb, me_root_node = root\<rparr>]\<rparr>))"

section \<open>The cache of entries\<close>

text \<open>An entry one can look names up in: the root, or one whose node is there and no symbolic link.\<close>

definition solid :: "vfs \<Rightarrow> nat \<Rightarrow> bool" where
  "solid st d \<longleftrightarrow> (\<exists>e. vf_dentries st d = Some e \<and> (de_parent e = None \<or>
    (\<exists>v n. de_node e = Some v \<and> rf_nodes st v = Some n \<and> vn_type n \<noteq> VNT_Symlink)))"

definition name_ok :: "string \<Rightarrow> bool" where
  "name_ok s \<longleftrightarrow> portion_ok s \<and> s \<noteq> ''..''"

text \<open>The root is the only entry without a parent; every other entry is what the cache gives for its name
  under its parent, and the parent is older and solid.\<close>

definition dentry_ok :: "vfs \<Rightarrow> nat \<Rightarrow> dentry \<Rightarrow> bool" where
  "dentry_ok st d e \<longleftrightarrow> d < vf_dnext st \<and> (case de_parent e of
      None \<Rightarrow> d = me_mount_point (hd (vf_mounts st)) \<and> de_mount e = Some 0
    | Some p \<Rightarrow> p < d \<and> de_mount e = None \<and> name_ok (de_name e) \<and> solid st p \<and>
        (\<exists>pe. vf_dentries st p = Some pe \<and> vf_cache st (de_id pe, de_name e) = Some d))"

definition dcache_inv :: "vfs \<Rightarrow> bool" where
  "dcache_inv st \<longleftrightarrow> vf_mounts st \<noteq> [] \<and> (\<forall>d e. vf_dentries st d = Some e \<longrightarrow> dentry_ok st d e) \<and>
    (\<exists>e. vf_dentries st (me_mount_point (hd (vf_mounts st))) = Some e \<and> de_parent e = None) \<and>
    (\<forall>k d. vf_cache st k = Some d \<longrightarrow> vf_dentries st d \<noteq> None)"

definition grows :: "vfs \<Rightarrow> vfs \<Rightarrow> bool" where
  "grows st st' \<longleftrightarrow> vf_dentries st \<subseteq>\<^sub>m vf_dentries st' \<and> rf_nodes st' = rf_nodes st \<and> vf_mounts st' = vf_mounts st"

lemma grows_refl [simp]: "grows st st"
  by (simp add: grows_def)

lemma grows_trans: "grows a b \<Longrightarrow> grows b c \<Longrightarrow> grows a c"
  by (auto simp: grows_def intro: map_le_trans)

lemma grows_dentry: "grows st st' \<Longrightarrow> vf_dentries st d = Some e \<Longrightarrow> vf_dentries st' d = Some e"
  by (force simp: grows_def map_le_def dom_def)

lemma grows_solid: "grows st st' \<Longrightarrow> solid st d \<Longrightarrow> solid st' d"
  unfolding solid_def by (metis grows_dentry grows_def)

lemma with_dentry_eq [simp]: "vf_dentries st d = Some e \<Longrightarrow> with_dentry d f st = f e st"
  by (simp add: with_dentry_def)

lemma effectiveVNode_keeps: "sys_bind (effectiveVNode e) deref st = Inr (r, st') \<Longrightarrow> st' = st"
  by (auto simp: sys_bind_eq effectiveVNode_def deref_def split: option.splits if_splits sum.splits)

lemma sys_bind_InrE:
  assumes "sys_bind m f s = Inr (r, s')"
  obtains (error) e where "m s = Inr (Inl e, s')" "r = Inl e"
  | (val) a s1 where "m s = Inr (Inr a, s1)" "f a s1 = Inr (r, s')"
  using assms by (auto simp: sys_bind_eq split: sum.splits)

lemma new_dentry_law:
  assumes inv: "dcache_inv st" and p: "vf_dentries st p = Some pe" "solid st p" and name: "name_ok name"
    and miss: "vf_cache st (de_id pe, name) = None" and run: "new_dentry p node name (de_id pe, name) st = Inr (r, st')"
  shows "dcache_inv st' \<and> grows st st'"
proof -
  define d where "d = vf_dnext st"
  define e where "e = \<lparr>de_id = vf_counter st + 1, de_parent = Some p, de_node = node, de_name = name, de_mount = None\<rparr>"
  have st': "st' = st\<lparr>vf_counter := vf_counter st + 1, vf_dnext := d + 1, vf_dentries := (vf_dentries st)(d \<mapsto> e),
      vf_cache := (vf_cache st)((de_id pe, name) \<mapsto> d)\<rparr>"
    using run by (simp add: new_dentry_def Let_def d_def e_def)
  have ok: "dentry_ok st c f" if "vf_dentries st c = Some f" for c f
    using inv that unfolding dcache_inv_def by blast
  have fresh: "vf_dentries st d = None"
    using ok [of d] by (cases "vf_dentries st d") (auto simp: d_def dentry_ok_def)
  have g: "grows st st'" using fresh by (auto simp: grows_def st' map_le_def dom_def)
  have "dentry_ok st' c f" if c: "vf_dentries st' c = Some f" for c f
  proof (cases "c = d")
    case True
    then have "f = e" using c by (simp add: st')
    moreover have "p < d" using ok [OF p(1)] by (simp add: d_def dentry_ok_def)
    ultimately show ?thesis
      using True p grows_solid [OF g p(2)] name by (auto simp: dentry_ok_def e_def st')
  next
    case False
    then have o: "dentry_ok st c f" using c by (intro ok) (simp add: st')
    show ?thesis
    proof (cases "de_parent f")
      case None
      then show ?thesis using o by (simp add: dentry_ok_def st' d_def)
    next
      case (Some q)
      obtain qe where q: "solid st q" "vf_dentries st q = Some qe" "vf_cache st (de_id qe, de_name f) = Some c"
        using o Some by (auto simp: dentry_ok_def)
      then have "vf_cache st' (de_id qe, de_name f) = Some c" using miss by (auto simp: st')
      then show ?thesis
        using o Some grows_solid [OF g q(1)] grows_dentry [OF g q(2)] by (auto simp: dentry_ok_def st' d_def)
    qed
  qed
  then show ?thesis using inv g fresh by (auto simp: dcache_inv_def st')
qed

lemma dentry_lookup_law:
  assumes inv: "dcache_inv st" and p: "solid st p" and name: "name_ok name"
    and run: "dentry_lookup p name st = Inr (r, st')"
  shows "dcache_inv st' \<and> grows st st'"
proof -
  obtain pe where pe: "vf_dentries st p = Some pe" using p by (auto simp: solid_def)
  show ?thesis
  proof (cases "vf_cache st (de_id pe, name)")
    case (Some d)
    with run pe inv show ?thesis by (auto simp: dentry_lookup_def)
  next
    case None
    have run': "sys_bind (sys_bind (effectiveVNode pe) deref) (\<lambda>v. sys_bind (vnode_lookup v name)
        (\<lambda>next. new_dentry p next name (de_id pe, name))) st = Inr (r, st')"
      using run pe None by (simp add: dentry_lookup_def)
    have look: "s1 = st" if "vnode_lookup v name st = Inr (a, s1)" for v a s1
      using that by (auto simp: vnode_lookup_def with_vnode_def split: option.splits ramfs_body.splits)
    from run' show ?thesis
    proof (cases rule: sys_bind_InrE)
      case (error e)
      then show ?thesis using effectiveVNode_keeps inv by fastforce
    next
      case (val v s1)
      then have s1: "s1 = st" using effectiveVNode_keeps by blast
      from val(2) show ?thesis
      proof (cases rule: sys_bind_InrE)
        case (error e)
        then show ?thesis using look s1 inv by fastforce
      next
        case (val nx s2)
        then have "s2 = st" using look s1 by blast
        with val show ?thesis using new_dentry_law [OF inv pe p name None] s1 by blast
      qed
    qed
  qed
qed

section \<open>Resolution keeps the cache\<close>

lemma dentry_vnode_keeps: "dentry_vnode d st = Inr (r, st') \<Longrightarrow> st' = st"
  using effectiveVNode_keeps by (fastforce simp: dentry_vnode_def with_dentry_def split: option.splits)

lemma isType_keeps: "isType t v st = Inr (r, st') \<Longrightarrow> st' = st"
  by (auto simp: isType_def with_vnode_def split: option.splits)

lemma vnode_readlink_keeps: "vnode_readlink dyn v st = Inr (r, st') \<Longrightarrow> st' = st"
  by (auto simp: vnode_readlink_def with_vnode_def split: option.splits ramfs_body.splits)

lemma not_link_solid:
  assumes inv: "dcache_inv st" and v: "dentry_vnode d st = Inr (Inr v, st)" "isType VNT_Symlink v st = Inr (Inr False, st)"
  shows "solid st d"
proof -
  obtain e where e: "vf_dentries st d = Some e" using v(1) by (auto simp: dentry_vnode_def with_dentry_def split: option.splits)
  obtain n where n: "rf_nodes st v = Some n" "vn_type n \<noteq> VNT_Symlink"
    using v(2) by (auto simp: isType_def with_vnode_def split: option.splits)
  have "dentry_ok st d e" using inv e unfolding dcache_inv_def by blast
  then have "de_parent e = None \<or> de_node e = Some v"
    using v(1) e by (cases "de_node e") (auto simp: dentry_ok_def dentry_vnode_def sys_bind_eq effectiveVNode_def deref_def
      split: option.splits)
  with e n show ?thesis by (auto simp: solid_def)
qed

definition resolver_ok :: "(path \<Rightarrow> nat \<Rightarrow> (nat, vfs) sys) \<Rightarrow> bool" where
  "resolver_ok rec \<longleftrightarrow> (\<forall>t c st r st'. dcache_inv st \<longrightarrow> solid st c \<longrightarrow> (\<forall>p\<in>set (pt_portions t). portion_ok p) \<longrightarrow>
    rec t c st = Inr (r, st') \<longrightarrow> dcache_inv st' \<and> grows st st' \<and> (\<forall>d. r = Inr d \<longrightarrow> solid st' d))"

text \<open>What a step of the walk leaves: where the walk goes on, or the error it ends with.\<close>

lemma walk_step:
  assumes rec: "resolver_ok rec" and inv: "dcache_inv st" and cur: "solid st c" and q: "portion_ok q"
    and run: "walk_path rec dyn follow (q # ps) c st = Inr (r, st')"
  obtains (stop) e where "dcache_inv st'" "grows st st'" "r = Inl e"
  | (go) d st1 where "dcache_inv st1" "grows st st1" "follow \<or> ps \<noteq> [] \<longrightarrow> solid st1 d"
      "walk_path rec dyn follow ps d st1 = Inr (r, st')"
proof (cases "q = ''..''")
  case True
  obtain e where e: "vf_dentries st c = Some e" using cur by (auto simp: solid_def)
  then have o: "dentry_ok st c e" using inv unfolding dcache_inv_def by blast
  then have "solid st (case de_parent e of Some p \<Rightarrow> p | None \<Rightarrow> c)"
    using cur by (auto simp: dentry_ok_def split: option.splits)
  then show thesis using run e True inv by (intro go) auto
next
  case False
  then have name: "name_ok q" using q by (simp add: name_ok_def)
  from run False have "sys_bind (dentry_lookup c q) (\<lambda>next. if follow \<or> ps \<noteq> []
       then sys_bind (dentry_vnode next) (\<lambda>v. sys_bind (isType VNT_Symlink v) (\<lambda>link.
         if link then sys_bind (vnode_readlink dyn v) (\<lambda>target. sys_bind (rec (Path target) c) (walk_path rec dyn follow ps))
         else walk_path rec dyn follow ps next))
       else walk_path rec dyn follow ps next) st = Inr (r, st')" by simp
  then show thesis
  proof (cases rule: sys_bind_InrE)
    case (error e)
    then show ?thesis using dentry_lookup_law [OF inv cur name] by (intro stop) auto
  next
    case (val d s1)
    have s1: "dcache_inv s1" "grows st s1" using dentry_lookup_law [OF inv cur name val(1)] by auto
    show ?thesis
    proof (cases "follow \<or> ps \<noteq> []")
      case no: False
      then show ?thesis using val(2) s1 by (intro go) auto
    next
      case yes: True
      with val(2) have r1: "sys_bind (dentry_vnode d) (\<lambda>v. sys_bind (isType VNT_Symlink v) (\<lambda>link.
         if link then sys_bind (vnode_readlink dyn v) (\<lambda>target. sys_bind (rec (Path target) c) (walk_path rec dyn follow ps))
         else walk_path rec dyn follow ps d)) s1 = Inr (r, st')" by simp
      then show ?thesis
      proof (cases rule: sys_bind_InrE)
        case (error e)
        then show ?thesis using s1 dentry_vnode_keeps [OF error(1)] by (intro stop) auto
      next
        case v: (val v s2)
        have s2: "s2 = s1" using v(1) dentry_vnode_keeps by blast
        from v(2) [unfolded s2] show ?thesis
        proof (cases rule: sys_bind_InrE)
          case (error e)
          then show ?thesis using s1 isType_keeps [OF error(1)] by (intro stop) auto
        next
          case t: (val link s3)
          have s3: "s3 = s1" using t(1) isType_keeps by blast
          show ?thesis
          proof (cases link)
            case False
            have "solid s1 d" using not_link_solid [OF s1(1)] v(1) t(1) s2 s3 False by simp
            then show ?thesis using t(2) s1 s3 False by (intro go) auto
          next
            case True
            with t(2) s3 have "sys_bind (vnode_readlink dyn v) (\<lambda>target. sys_bind (rec (Path target) c) (walk_path rec dyn follow ps)) s1 = Inr (r, st')"
              by simp
            then show ?thesis
            proof (cases rule: sys_bind_InrE)
              case (error e)
              then show ?thesis using s1 vnode_readlink_keeps [OF error(1)] by (intro stop) auto
            next
              case l: (val target s4)
              have s4: "s4 = s1" using l(1) vnode_readlink_keeps by blast
              have rk: "dcache_inv s5 \<and> grows s1 s5 \<and> (\<forall>d. x = Inr d \<longrightarrow> solid s5 d)"
                if "rec (Path target) c s1 = Inr (x, s5)" for x s5
                using rec [unfolded resolver_ok_def] s1(1) grows_solid [OF s1(2) cur] Path_portions_ok that by blast
              from l(2) [unfolded s4] show ?thesis
              proof (cases rule: sys_bind_InrE)
                case (error e)
                then show ?thesis using rk grows_trans [OF s1(2)] by (intro stop) auto
              next
                case (val nx s5)
                then show ?thesis using rk grows_trans [OF s1(2)] by (intro go) auto
              qed
            qed
          qed
        qed
      qed
    qed
  qed
qed

lemma walk_path_law:
  assumes rec: "resolver_ok rec"
  shows "dcache_inv st \<Longrightarrow> solid st c \<Longrightarrow> \<forall>p\<in>set ps. portion_ok p \<Longrightarrow> walk_path rec dyn follow ps c st = Inr (r, st') \<Longrightarrow>
    dcache_inv st' \<and> grows st st' \<and> (follow \<longrightarrow> (\<forall>d. r = Inr d \<longrightarrow> solid st' d))"
proof (induction ps arbitrary: c st)
  case (Cons q ps)
  have q: "portion_ok q" using Cons.prems by simp
  show ?case
  proof (cases rule: walk_step [OF rec Cons.prems(1,2) q Cons.prems(4), case_names stop go])
    case (go d st1)
    show ?thesis
    proof (cases "follow \<or> ps \<noteq> []")
      case True
      then show ?thesis using Cons.IH [of st1 d] go Cons.prems(3) grows_trans [OF go(2)] by auto
    next
      case False
      then show ?thesis using go by auto
    qed
  qed auto
qed auto

lemma resolve_start_law:
  assumes inv: "dcache_inv st" and run: "resolve_start env p from st = Inr (r, st')"
    and fr: "pt_relative p \<longrightarrow> (\<forall>c. (case from of Some d \<Rightarrow> Some d | None \<Rightarrow> env_cwd env) = Some c \<longrightarrow> solid st c)"
  shows "st' = st \<and> (\<forall>d. r = Inr d \<longrightarrow> solid st d)"
proof -
  have "solid st (me_mount_point (hd (vf_mounts st)))" using inv by (auto simp: dcache_inv_def solid_def)
  then show ?thesis
    using run fr by (auto simp: resolve_start_def split: if_splits option.splits list.splits)
qed

lemma resolve_depth_law:
  "dcache_inv st \<Longrightarrow> \<forall>p\<in>set (pt_portions t). portion_ok p \<Longrightarrow>
   pt_relative t \<longrightarrow> (\<forall>c. (case from of Some d \<Rightarrow> Some d | None \<Rightarrow> env_cwd env) = Some c \<longrightarrow> solid st c) \<Longrightarrow>
   resolve_depth k env t follow from st = Inr (r, st') \<Longrightarrow>
   dcache_inv st' \<and> grows st st' \<and> (follow \<longrightarrow> (\<forall>d. r = Inr d \<longrightarrow> solid st' d))"
proof (induction k arbitrary: t follow "from" st r st')
  case (Suc k)
  have rec: "resolver_ok (\<lambda>target c. resolve_depth k env target True (Some c))"
  proof (unfold resolver_ok_def, intro allI impI)
    fix t c s r s' assume a: "dcache_inv s" "solid s c" "\<forall>p\<in>set (pt_portions t). portion_ok p"
      "resolve_depth k env t True (Some c) s = Inr (r, s')"
    show "dcache_inv s' \<and> grows s s' \<and> (\<forall>d. r = Inr d \<longrightarrow> solid s' d)"
      using Suc.IH [OF a(1,3) _ a(4)] a(2) by simp
  qed
  show ?case
  proof (cases "pt_invalid t")
    case False
    with Suc.prems(4) have "sys_bind (resolve_start env t from) (\<lambda>c.
        walk_path (\<lambda>target c. resolve_depth k env target True (Some c)) (tty_target env) follow (pt_portions t) c) st = Inr (r, st')"
      by simp
    then show ?thesis
    proof (cases rule: sys_bind_InrE)
      case (error e)
      then show ?thesis using resolve_start_law [OF Suc.prems(1) error(1) Suc.prems(3)] Suc.prems(1) by auto
    next
      case (val c s1)
      then show ?thesis
        using resolve_start_law [OF Suc.prems(1) val(1) Suc.prems(3)] walk_path_law [OF rec Suc.prems(1) _ Suc.prems(2)] by blast
    qed
  qed (use Suc.prems in auto)
qed auto

section \<open>The path of an entry\<close>

lemma walk_path_append:
  "walk_path rec dyn True (ps @ qs) c = sys_bind (walk_path rec dyn True ps c) (walk_path rec dyn True qs)"
proof (induction ps arbitrary: c)
  case (Cons p ps)
  show ?case
    by (rule ext) (auto simp: Cons.IH sys_bind_eq with_dentry_def split: sum.splits option.splits)
qed (simp add: fun_eq_iff sys_bind_eq)

lemma walk_cached:
  assumes inv: "dcache_inv st" and d: "vf_dentries st d = Some e" "de_parent e = Some p" "solid st d"
  shows "walk_path rec dyn True [de_name e] p st = Inr (Inr d, st)"
proof -
  have o: "dentry_ok st d e" using inv d(1) unfolding dcache_inv_def by blast
  then obtain pe where pe: "vf_dentries st p = Some pe" "vf_cache st (de_id pe, de_name e) = Some d" "de_name e \<noteq> ''..''"
    "de_mount e = None"
    using d(2) by (auto simp: dentry_ok_def name_ok_def)
  obtain v n where v: "de_node e = Some v" "rf_nodes st v = Some n" "vn_type n \<noteq> VNT_Symlink"
    using d by (auto simp: solid_def)
  have "dentry_lookup p (de_name e) st = Inr (Inr d, st)" using pe by (simp add: dentry_lookup_def)
  moreover have "dentry_vnode d st = Inr (Inr v, st)"
    using d(1) v(1) pe(4) by (simp add: dentry_vnode_def sys_bind_eq effectiveVNode_def deref_def)
  moreover have "isType VNT_Symlink v st = Inr (Inr False, st)" using v by (simp add: isType_def)
  ultimately show ?thesis using pe(3) by (simp add: sys_bind_eq)
qed

lemma asPath_law:
  assumes inv: "dcache_inv st" and d: "vf_dentries st d = Some e"
  shows "\<exists>ns. asPath st d = Some (if ns = [] then ''/'' else slash_names ns) \<and> (\<forall>n\<in>set ns. portion_ok n) \<and>
    (ns = [] \<longleftrightarrow> de_parent e = None) \<and>
    (solid st d \<longrightarrow> walk_path rec dyn True ns (me_mount_point (hd (vf_mounts st))) st = Inr (Inr d, st))"
  using d
proof (induction d arbitrary: e rule: less_induct)
  case (less d)
  have o: "dentry_ok st d e" using inv less.prems unfolding dcache_inv_def by blast
  show ?case
  proof (cases "de_parent e")
    case None
    then have "d = me_mount_point (hd (vf_mounts st))" using o by (simp add: dentry_ok_def)
    then show ?thesis using None less.prems by (intro exI [of _ "[]"]) (simp add: asPath.simps)
  next
    case (Some p)
    then obtain pe where p: "p < d" "solid st p" "vf_dentries st p = Some pe" "name_ok (de_name e)"
      using o by (auto simp: dentry_ok_def)
    obtain ns where ns: "asPath st p = Some (if ns = [] then ''/'' else slash_names ns)" "\<forall>n\<in>set ns. portion_ok n"
      "ns = [] \<longleftrightarrow> de_parent pe = None" "walk_path rec dyn True ns (me_mount_point (hd (vf_mounts st))) st = Inr (Inr p, st)"
      using less.IH [OF p(1,3)] p(2) by (elim exE conjE) simp
    have "asPath st d = Some (slash_names (ns @ [de_name e]))"
      by (subst asPath.simps) (use less.prems Some p(3) ns(1,3) in \<open>auto simp: slash_names_def\<close>)
    moreover have "walk_path rec dyn True (ns @ [de_name e]) (me_mount_point (hd (vf_mounts st))) st = Inr (Inr d, st)" if "solid st d"
      using ns(4) walk_cached [OF inv less.prems Some that] by (simp only: walk_path_append sys_bind_eq) simp
    ultimately show ?thesis
      using ns(2) p(4) Some by (intro exI [of _ "ns @ [de_name e]"]) (auto simp: name_ok_def)
  qed
qed

lemma resolve_asPath:
  assumes inv: "dcache_inv st" and d: "solid st d" "loop < 10"
  obtains s where "asPath st d = Some s" "\<not> pt_relative (Path s)"
    "\<forall>env from. resolve env (Path s) True from loop st = Inr (Inr d, st)"
proof -
  obtain e where e: "vf_dentries st d = Some e" using d by (auto simp: solid_def)
  obtain k where k: "10 - loop = Suc k" using d(2) by (metis Suc_diff_Suc)
  have hd: "\<exists>m ms. vf_mounts st = m # ms" using inv by (cases "vf_mounts st") (auto simp: dcache_inv_def)
  obtain ns where ns: "asPath st d = Some (if ns = [] then ''/'' else slash_names ns)" "\<forall>n\<in>set ns. portion_ok n"
    using asPath_law [OF inv e] by blast
  have "walk_path rec dyn True ns (me_mount_point (hd (vf_mounts st))) st = Inr (Inr d, st)" for rec dyn
  proof -
    obtain ms where ms: "asPath st d = Some (if ms = [] then ''/'' else slash_names ms)" "\<forall>n\<in>set ms. portion_ok n"
      "walk_path rec dyn True ms (me_mount_point (hd (vf_mounts st))) st = Inr (Inr d, st)"
      using asPath_law [OF inv e] d(1) by blast
    have "Path (if ms = [] then ''/'' else slash_names ms) = Path (if ns = [] then ''/'' else slash_names ns)"
      using ms(1) ns(1) by simp
    then have "ms = ns"
      using Path_slash_names [OF ms(2)] Path_slash_names [OF ns(2)] Path_root by (auto split: if_splits)
    with ms(3) show ?thesis by simp
  qed
  moreover have "Path (if ns = [] then ''/'' else slash_names ns) =
      \<lparr>pt_portions = ns, pt_trailing_slash = (ns = []), pt_relative = False, pt_invalid = False\<rparr>"
    using Path_slash_names [OF ns(2)] Path_root by simp
  ultimately show thesis
    using ns(1) hd by (intro that [of "if ns = [] then ''/'' else slash_names ns"])
      (auto simp: resolve_def k sys_bind_eq resolve_start_def)
qed

text \<open>C21: changing the working directory and asking for it agree: the path \<^verbatim>\<open>getcwd\<close> prints after a successful
  \<^verbatim>\<open>chdir\<close> is absolute and leads back to the same directory, from anywhere, whatever links and dots the
  original path went through. The directory can be the starting point of the next \<^verbatim>\<open>chdir\<close>.\<close>

theorem chdir_getcwd:
  assumes inv: "dcache_inv st" and cwd: "\<forall>c. env_cwd env = Some c \<longrightarrow> solid st c"
    and run: "sys_chdir env (Inr s) st = Inr (Inr d, st')"
  shows "dcache_inv st' \<and> solid st' d \<and>
    (\<exists>p. (\<forall>sz. length p < sz \<longrightarrow> sys_getcwd (env\<lparr>env_cwd := Some d\<rparr>) (Inr ()) sz st' = Inr (Inr p, st')) \<and>
      \<not> pt_relative (Path p) \<and> (\<forall>env'. sys_chdir env' (Inr p) st' = Inr (Inr d, st')))"
proof -
  obtain c s1 where r: "resolve env (Path s) True None 0 st = Inr (Inr c, s1)" "setCwd c s1 = Inr (Inr d, st')"
    using run by (auto simp: sys_chdir_def sys_bind_eq split: sum.splits)
  have set: "c = d \<and> st' = s1"
  proof -
    obtain v s2 where v: "dentry_vnode c s1 = Inr (Inr v, s2)" using r(2) by (auto simp: setCwd_def sys_bind_eq split: sum.splits)
    then have "s2 = s1" by (rule dentry_vnode_keeps)
    with r(2) v show ?thesis
      by (auto simp: setCwd_def sys_bind_eq isType_def with_vnode_def split: sum.splits option.splits if_splits)
  qed
  have "\<forall>c. (case None of Some d \<Rightarrow> Some d | None \<Rightarrow> env_cwd env) = Some c \<longrightarrow> solid st c" using cwd by simp
  from resolve_depth_law [OF inv Path_portions_ok _ r(1) [unfolded resolve_def]] this set
  have i: "dcache_inv st'" "solid st' d" by auto
  obtain p where p: "asPath st' d = Some p" "\<not> pt_relative (Path p)"
    "\<forall>env from. resolve env (Path p) True from 0 st' = Inr (Inr d, st')"
    using resolve_asPath [OF i, of 0] by auto
  show ?thesis
    using i p r(2) set by (auto intro!: exI [of _ p] simp: sys_getcwd_def sys_chdir_def sys_bind_eq deref_def)
qed

section \<open>Names below a file\<close>

text \<open>Opening a path whose parent is not a directory stops the kernel with a null dereference instead of
  returning \<^verbatim>\<open>ENOTDIR\<close>: the base class \<^verbatim>\<open>VNode::lookup\<close> reports success with a null reference.\<close>

theorem open_below_file_faults:
  assumes path: "pt_portions (Path s) \<noteq> []" "\<not> pt_invalid (Path s)"
    and up: "resolve env (path_parent (Path s)) True None 0 st = Inr (Inr d, st1)" "dentry_vnode d st1 = Inr (Inr v, st1)"
    and v: "rf_nodes st1 v = Some n" "vn_type n \<noteq> VNT_Directory"
    and flags: "flags AND (O_CREAT OR O_EXCL) \<noteq> O_CREAT OR O_EXCL"
  shows "fs_open env s flags mode st = Inl NullDeref"
proof -
  have look: "vnode_lookup v name st1 = Inr (Inr None, st1)" for name
    using v by (cases "vn_body n") (auto simp: vnode_lookup_def vn_type_def)
  show ?thesis
    using assms look by (simp add: fs_open_def Let_def sys_bind_eq open_parent_entry_def sys_catch_eq deref_def)
qed

section \<open>The initial file system\<close>

text \<open>Operations on nodes leave the entries alone.\<close>

definition entries_are :: "vfs \<Rightarrow> vfs \<Rightarrow> bool" where
  "entries_are st0 st \<longleftrightarrow> vf_dentries st = vf_dentries st0 \<and> vf_cache st = vf_cache st0 \<and>
    vf_mounts st = vf_mounts st0 \<and> vf_dnext st = vf_dnext st0"

lemma keeps_with_vnode: "(\<And>n. sys_keeps (entries_are s0) (f n)) \<Longrightarrow> sys_keeps (entries_are s0) (with_vnode v f)"
  unfolding sys_keeps_def with_vnode_def by (auto split: option.splits)

lemma keeps_set_body: "sys_keeps (entries_are s0) (set_body v n b)"
  by (auto simp: sys_keeps_def set_body_def entries_are_def)

lemma keeps_new_vnode: "sys_keeps (entries_are s0) (RamFSVNode sb mode b)"
  by (auto simp: sys_keeps_def RamFSVNode_def entries_are_def Let_def split: if_splits)

lemma keeps_look: "sys_keeps (entries_are s0) (vnode_lookup v name)"
  unfolding vnode_lookup_def by (rule keeps_with_vnode) (auto split: ramfs_body.splits option.splits)

lemma keeps_write: "sys_keeps (entries_are s0) (vnode_write v buf off)"
  by (auto simp: vnode_write_def sys_keeps_def with_vnode_def sbind_eq_Inr_iff sys_bind_eq set_body_def entries_are_def
      split: ramfs_body.splits option.splits)

lemma keeps_link: "sys_keeps (entries_are s0) (vnode_link v name t)"
  by (auto simp: vnode_link_def sys_keeps_def with_vnode_def set_body_def entries_are_def
      split: ramfs_body.splits option.splits if_splits)

lemma keeps_adds:
  "sys_keeps (entries_are s0) (vnode_mkdir v name mode)"
  "sys_keeps (entries_are s0) (vnode_create v name mode)"
  "sys_keeps (entries_are s0) (vnode_symlink v name t)"
  unfolding vnode_mkdir_def vnode_create_def vnode_symlink_def
  by (rule keeps_with_vnode; auto intro!: sys_keeps_bind keeps_new_vnode keeps_set_body split: ramfs_body.splits)+

lemma keeps_each: "(\<And>i. sys_keeps I (f i)) \<Longrightarrow> sys_keeps I (sys_each f is)"
  by (induction "is") (auto intro: sys_keeps_bind)

lemma keeps_ignore: "sys_keeps I m \<Longrightarrow> sys_keeps I (sys_ignore m)"
  unfolding sys_ignore_def by (rule sys_keeps_catch) auto

lemma keeps_unwrap: "sys_keeps I m \<Longrightarrow> sys_keeps I (sys_unwrap m)"
  unfolding sys_unwrap_def by (rule sys_keeps_catch) (auto split: sum.splits option.splits)

lemmas keeps_rules = sys_keeps_bind keeps_with_vnode keeps_new_vnode keeps_look keeps_write keeps_link keeps_adds
  keeps_each keeps_ignore keeps_unwrap

lemma keeps_loadInitFs: "sys_keeps (entries_are s0) (loadInitFs programs k root)"
  unfolding loadInitFs_def load_program_def by (intro keeps_rules)

lemma fs_load_inv:
  assumes "fs_load programs k fs_empty = Inr (r, st)"
  shows "dcache_inv st" "solid st 0"
proof -
  define s0 :: vfs where "s0 = \<lparr>rf_nodes = [0 \<mapsto> \<lparr>vn_super = 0, vn_mode = 0x1ED, vn_inode = 1, vn_body = DirectoryVNode []\<rparr>],
    rf_next = 1, rf_supers = [\<lparr>sb_fs = 0, sb_counter = 1\<rparr>],
    vf_dentries = [0 \<mapsto> \<lparr>de_id = 1, de_parent = None, de_node = None, de_name = [], de_mount = Some 0\<rparr>], vf_dnext = 1,
    vf_counter = 1, vf_cache = \<lambda>_. None, vf_mounts = [\<lparr>me_mount_point = 0, me_super_block = 0, me_root_node = 0\<rparr>]\<rparr>"
  have l: "loadInitFs programs k 0 s0 = Inr (r, st)"
    using assms by (simp add: fs_load_def fs_empty_def ramfs_mount_def RamFSVNode_def sys_bind_eq Let_def s0_def)
  have "entries_are s0 st"
    by (rule sys_keepsD [OF keeps_loadInitFs l]) (simp add: entries_are_def)
  then show "dcache_inv st" "solid st 0"
    by (auto simp: entries_are_def s0_def dcache_inv_def dentry_ok_def solid_def split: if_splits)
qed

text \<open>A file system with a directory, two files and a relative link.\<close>

definition small_fs :: vfs where
  "small_fs = \<lparr>rf_nodes = [
      0 \<mapsto> \<lparr>vn_super = 0, vn_mode = 0x1ED, vn_inode = 1, vn_body = DirectoryVNode [(''bin'', 1), (''hello'', 2)]\<rparr>,
      1 \<mapsto> \<lparr>vn_super = 0, vn_mode = 0x1ED, vn_inode = 2, vn_body = DirectoryVNode [(''busybox'', 3), (''ls'', 4)]\<rparr>,
      2 \<mapsto> \<lparr>vn_super = 0, vn_mode = 0x1A4, vn_inode = 3, vn_body = FileVNode [72, 105]\<rparr>,
      3 \<mapsto> \<lparr>vn_super = 0, vn_mode = 0x1ED, vn_inode = 4, vn_body = FileVNode [1, 2, 3]\<rparr>,
      4 \<mapsto> \<lparr>vn_super = 0, vn_mode = 0x1FF, vn_inode = 5, vn_body = SymlinkVNode ''busybox''\<rparr>],
    rf_next = 5, rf_supers = [\<lparr>sb_fs = 0, sb_counter = 5\<rparr>],
    vf_dentries = [0 \<mapsto> \<lparr>de_id = 1, de_parent = None, de_node = None, de_name = [], de_mount = Some 0\<rparr>], vf_dnext = 1,
    vf_counter = 1, vf_cache = \<lambda>_. None, vf_mounts = [\<lparr>me_mount_point = 0, me_super_block = 0, me_root_node = 0\<rparr>]\<rparr>"

definition small_env :: fs_env where
  "small_env = \<lparr>env_cwd = Some 0, env_ctty = None\<rparr>"

lemma small_fs_inv: "dcache_inv small_fs" "solid small_fs 0"
  by (auto simp: small_fs_def dcache_inv_def dentry_ok_def solid_def split: if_splits)

lemma resolve_walk: "resolve env p follow from 0 st = (if pt_invalid p then Inr (Inl SYS_ENOENT, st)
    else sys_bind (resolve_start env p from)
      (walk_path (\<lambda>t c. resolve_depth 9 env t True (Some c)) (tty_target env) follow (pt_portions p)) st)"
proof -
  have ten: "10 - 0 = Suc 9" by simp
  show ?thesis unfolding resolve_def ten resolve_depth.simps by simp
qed

lemma resolve_depth_9: "resolve_depth 9 env p follow from = (if pt_invalid p then sys_fail SYS_ENOENT
    else sys_bind (resolve_start env p from)
      (walk_path (\<lambda>t c. resolve_depth 8 env t True (Some c)) (tty_target env) follow (pt_portions p)))"
proof -
  have nine: "9 = Suc 8" by simp
  show ?thesis unfolding nine resolve_depth.simps by simp
qed

lemma sys_bind_weak_cong: "m = m' \<Longrightarrow> sys_bind m f = sys_bind m' f"
  by simp

lemma sys_catch_weak_cong: "m = m' \<Longrightarrow> sys_catch m f = sys_catch m' f"
  by simp

lemmas fs_eval = resolve_walk resolve_start_def sys_bind_eq sys_catch_eq dentry_lookup_def dentry_vnode_def new_dentry_def
  effectiveVNode_def deref_def isType_def vn_type_def vnode_lookup_def dir_find_def vnode_readlink_def Path_def split_slash_def
  path_parent_def path_last_def sys_chdir_def setCwd_def small_fs_def small_env_def with_dentry_def with_vnode_def Let_def

lemma result_of_run:
  assumes "map_sum id fst m = Inr r"
  obtains st where "m = Inr (r, st)"
  using assms by (cases m) auto

theorem chdir_getcwd_witness:
  "\<exists>st' p. sys_chdir small_env (Inr ''/bin/../bin'') small_fs = Inr (Inr 1, st') \<and> solid st' 1 \<and>
    sys_chdir small_env (Inr p) st' = Inr (Inr 1, st')"
proof -
  have "map_sum id fst (sys_chdir small_env (Inr ''/bin/../bin'') small_fs) = Inr (Inr 1)"
    by (simp add: fs_eval cong: sys_bind_weak_cong sys_catch_weak_cong)
  then obtain st' where st': "sys_chdir small_env (Inr ''/bin/../bin'') small_fs = Inr (Inr 1, st')"
    by (rule result_of_run)
  from chdir_getcwd [OF small_fs_inv(1) _ st'] small_fs_inv(2) st' show ?thesis by (auto simp: small_env_def)
qed

theorem open_below_file_faults_witness: "fs_open small_env ''/hello/x'' 0 0 small_fs = Inl NullDeref"
proof -
  have r: "map_sum id fst (resolve small_env (path_parent (Path ''/hello/x'')) True None 0 small_fs) = Inr (Inr 1)"
    by (simp add: fs_eval cong: sys_bind_weak_cong sys_catch_weak_cong)
  then obtain st1 where st1: "resolve small_env (path_parent (Path ''/hello/x'')) True None 0 small_fs = Inr (Inr 1, st1)"
    by (rule result_of_run)
  have "map_sum id fst (sys_bind (resolve small_env (path_parent (Path ''/hello/x'')) True None 0)
      (\<lambda>d. sys_bind (dentry_vnode d) (\<lambda>v. with_vnode v (\<lambda>n. sys_return (vn_type n)))) small_fs) = Inr (Inr VNT_Regular)"
    by (simp add: fs_eval cong: sys_bind_weak_cong sys_catch_weak_cong)
  then obtain v s2 n where v: "dentry_vnode 1 st1 = Inr (Inr v, s2)" "rf_nodes s2 v = Some n" "vn_type n = VNT_Regular"
    using st1 by (auto simp: sys_bind_eq with_vnode_def split: sum.splits option.splits)
  moreover from v(1) have "s2 = st1" by (rule dentry_vnode_keeps)
  ultimately show ?thesis
    by (intro open_below_file_faults [OF _ _ st1, of v n]) (simp_all add: Path_def split_slash_def O_CREAT_def O_EXCL_def)
qed

text \<open>Opening a link follows its relative target from the working directory, resolution from the directory of the
  link: the link of \<^verbatim>\<open>/bin\<close> resolves but does not open from the root.\<close>

lemma open_and_resolve_disagree:
  "map_sum id fst (sys_bind (resolve small_env (Path ''/bin/ls'') True None 0) dentry_vnode small_fs) = Inr (Inr 3)"
  "map_sum id fst (fs_open small_env ''/bin/ls'' 0 0 small_fs) = Inr (Inl SYS_ENOENT)"
  by (simp_all add: fs_eval resolve_depth_9 fs_open_def open_parent_entry_def open_follow_def O_CREAT_def O_EXCL_def cong: sys_bind_weak_cong sys_catch_weak_cong)

text \<open>The cache outlives the name: after \<^verbatim>\<open>unlink\<close> a path that had been resolved still resolves.\<close>

lemma unlinked_name_resolves:
  "map_sum id fst (sys_bind (sys_unlink small_env (Inr ''/hello'')) (\<lambda>_. resolve small_env (Path ''/hello'') True None 0) small_fs) =
    Inr (Inr 1)"
  by (simp add: fs_eval sys_unlink_def vnode_unlink_def dir_exists_def set_body_def cong: sys_bind_weak_cong sys_catch_weak_cong)

end
