(* ===== verification/Nyan_Fd.thy ===== *)
theory Nyan_Fd
  imports Nyan_VFS Nyan_Pipe
begin

unbundle bit_operations_syntax

text \<open>
  Open files (kernel/task/tcb/file.cpp, the descriptor part of kernel/task/mod.cpp, kernel/fs/fd.cpp,
  kernel/fs/file.hpp, kernel/fs/vnode_file.cpp and the system calls on descriptors). The slots of the 16-entry tables
  of all tasks, the descriptor objects (\<^verbatim>\<open>FdObj\<close>), the file objects (\<^verbatim>\<open>VNodeFileObj\<close>, \<^verbatim>\<open>PipeObj\<close>) and the pipes are
  four maps; a \<^verbatim>\<open>Ref\<close> is a key of the next map and the reference counts of \<^verbatim>\<open>lib::Shared\<close> are kept in the objects, so
  an object is removed when its count reaches zero and a stale reference is a \<open>NullDeref\<close>. New objects get addresses
  that were never used before. Counts are integers: there are at most 16 times 256 references to an object, far below
  the 32-bit limit. What a device driver returns is an argument, and so are the outcomes of the checks of user
  pointers. A call that has to wait returns \<open>None\<close> and makes the same pass again when it is woken.
\<close>

section \<open>Objects\<close>

type_synonym oid = nat

type_synonym fid = nat

type_synonym qid = nat

datatype file_body = VNodeFile vid | PipeFile qid

record fdobj =
  o_ref :: int
  o_file :: fid
  o_cloexec :: bool

record fileobj =
  f_ref :: int
  f_mode :: u32
  f_offset :: int
  f_body :: file_body

record pipeobj =
  q_ref :: int
  q_state :: pipe_state

record fds =
  fd_slots :: "pid \<times> nat \<Rightarrow> oid option"
  fd_objs :: "oid \<Rightarrow> fdobj option"
  fd_files :: "fid \<Rightarrow> fileobj option"
  fd_pipes :: "qid \<Rightarrow> pipeobj option"
  fd_next :: nat
  fd_effects :: "effect list"
  fd_fs :: vfs

definition max_fd :: nat where "max_fd = 16"

section \<open>Reference counts\<close>

definition ref_obj :: "oid \<Rightarrow> fds \<Rightarrow> fds exec" where
  "ref_obj x st = (case fd_objs st x of None \<Rightarrow> Inl NullDeref
    | Some b \<Rightarrow> Inr (st\<lparr>fd_objs := (fd_objs st)(x \<mapsto> b\<lparr>o_ref := o_ref b + 1\<rparr>)\<rparr>))"

definition ref_file :: "fid \<Rightarrow> fds \<Rightarrow> fds exec" where
  "ref_file f st = (case fd_files st f of None \<Rightarrow> Inl NullDeref
    | Some b \<Rightarrow> Inr (st\<lparr>fd_files := (fd_files st)(f \<mapsto> b\<lparr>f_ref := f_ref b + 1\<rparr>)\<rparr>))"

definition ref_pipe :: "qid \<Rightarrow> fds \<Rightarrow> fds exec" where
  "ref_pipe q st = (case fd_pipes st q of None \<Rightarrow> Inl NullDeref
    | Some b \<Rightarrow> Inr (st\<lparr>fd_pipes := (fd_pipes st)(q \<mapsto> b\<lparr>q_ref := q_ref b + 1\<rparr>)\<rparr>))"

definition unref_pipe :: "qid \<Rightarrow> fds \<Rightarrow> fds exec" where
  "unref_pipe q st = (case fd_pipes st q of None \<Rightarrow> Inl NullDeref
    | Some b \<Rightarrow> Inr (st\<lparr>fd_pipes := (fd_pipes st)(q := if q_ref b - 1 = 0 then None else Some (b\<lparr>q_ref := q_ref b - 1\<rparr>))\<rparr>))"

definition unref_file :: "fid \<Rightarrow> fds \<Rightarrow> fds exec" where
  "unref_file f st = (case fd_files st f of None \<Rightarrow> Inl NullDeref
    | Some b \<Rightarrow>
        if f_ref b - 1 = 0
        then let st = st\<lparr>fd_files := (fd_files st)(f := None)\<rparr>
             in (case f_body b of PipeFile q \<Rightarrow> unref_pipe q st | VNodeFile _ \<Rightarrow> Inr st)
        else Inr (st\<lparr>fd_files := (fd_files st)(f \<mapsto> b\<lparr>f_ref := f_ref b - 1\<rparr>)\<rparr>))"

definition onFdClose :: "fid \<Rightarrow> fds \<Rightarrow> fds exec" where
  "onFdClose f st = (case fd_files st f of None \<Rightarrow> Inl NullDeref
    | Some b \<Rightarrow> (case f_body b of
        VNodeFile _ \<Rightarrow> Inr st
      | PipeFile q \<Rightarrow> (case fd_pipes st q of None \<Rightarrow> Inl NullDeref
        | Some p \<Rightarrow> sbind (PipeObj_onFdClose (f_mode b) (q_state p)) (\<lambda>(s, es).
            Inr (st\<lparr>fd_pipes := (fd_pipes st)(q \<mapsto> p\<lparr>q_state := s\<rparr>), fd_effects := fd_effects st @ es\<rparr>)))))"

definition unref_obj :: "oid \<Rightarrow> fds \<Rightarrow> fds exec" where
  "unref_obj x st = (case fd_objs st x of None \<Rightarrow> Inl NullDeref
    | Some b \<Rightarrow>
        if o_ref b - 1 = 0
        then sbind (onFdClose (o_file b) st) (\<lambda>st. unref_file (o_file b) (st\<lparr>fd_objs := (fd_objs st)(x := None)\<rparr>))
        else Inr (st\<lparr>fd_objs := (fd_objs st)(x \<mapsto> b\<lparr>o_ref := o_ref b - 1\<rparr>)\<rparr>))"

text \<open>\<^verbatim>\<open>makeRef\<close> of the three kinds of objects: the new object has one reference, the caller's.\<close>

definition new_pipe :: "fds \<Rightarrow> qid \<times> fds" where
  "new_pipe st = (fd_next st, st\<lparr>fd_next := fd_next st + 1,
    fd_pipes := (fd_pipes st)(fd_next st \<mapsto> \<lparr>q_ref = 1, q_state = pipe_init\<rparr>)\<rparr>)"

definition new_file :: "file_body \<Rightarrow> u32 \<Rightarrow> fds \<Rightarrow> (fid \<times> fds) exec" where
  "new_file body mode st = sbind (case body of PipeFile q \<Rightarrow> ref_pipe q st | VNodeFile _ \<Rightarrow> Inr st) (\<lambda>st.
    Inr (fd_next st, st\<lparr>fd_next := fd_next st + 1,
      fd_files := (fd_files st)(fd_next st \<mapsto> \<lparr>f_ref = 1, f_mode = mode, f_offset = 0, f_body = body\<rparr>)\<rparr>))"

definition makeFd :: "fid \<Rightarrow> fds \<Rightarrow> (oid \<times> fds) exec" where
  "makeFd f st = sbind (ref_file f st) (\<lambda>st.
    Inr (fd_next st, st\<lparr>fd_next := fd_next st + 1,
      fd_objs := (fd_objs st)(fd_next st \<mapsto> \<lparr>o_ref = 1, o_file = f, o_cloexec = False\<rparr>)\<rparr>))"

text \<open>Assignment to a slot: what it held is released, then it takes over the caller's reference.\<close>

definition set_slot :: "pid \<times> nat \<Rightarrow> oid option \<Rightarrow> fds \<Rightarrow> fds exec" where
  "set_slot k x st = sbind (case fd_slots st k of None \<Rightarrow> Inr st | Some old \<Rightarrow> unref_obj old st) (\<lambda>st.
    Inr (st\<lparr>fd_slots := (fd_slots st)(k := x)\<rparr>))"

section \<open>The descriptor table\<close>

definition lift_exec :: "('s \<Rightarrow> ('a \<times> 's) exec) \<Rightarrow> ('a, 's) sys" where
  "lift_exec f st = sbind (f st) (\<lambda>(a, st). Inr (Inr a, st))"

definition lift_step :: "('s \<Rightarrow> 's exec) \<Rightarrow> (unit, 's) sys" where
  "lift_step f st = sbind (f st) (\<lambda>st. Inr (Inr (), st))"

definition lift_fs :: "('a, vfs) sys \<Rightarrow> ('a, fds) sys" where
  "lift_fs m st = sbind (m (fd_fs st)) (\<lambda>(r, fs). Inr (r, st\<lparr>fd_fs := fs\<rparr>))"

definition getFileSlot :: "pid \<Rightarrow> int \<Rightarrow> (pid \<times> nat, fds) sys" where
  "getFileSlot t fd = (if fd < 0 \<or> nat fd \<ge> max_fd then sys_fail SYS_EBADF else sys_return (t, nat fd))"

text \<open>\<^verbatim>\<open>getFile\<close> tests the address of the slot, which is never null, and returns what the slot holds.\<close>

definition getFile :: "pid \<Rightarrow> int \<Rightarrow> (oid option, fds) sys" where
  "getFile t fd = sys_bind (getFileSlot t fd) (\<lambda>k st. Inr (Inr (fd_slots st k), st))"

definition findFileSlot :: "pid \<Rightarrow> nat \<Rightarrow> (nat, fds) sys" where
  "findFileSlot t hint st = (case find (\<lambda>i. fd_slots st (t, i) = None) [hint..<max_fd] of
      Some i \<Rightarrow> Inr (Inr i, st)
    | None \<Rightarrow> Inr (Inl SYS_EMFILE, st))"

definition with_obj :: "oid option \<Rightarrow> (oid \<Rightarrow> fdobj \<Rightarrow> ('a, fds) sys) \<Rightarrow> ('a, fds) sys" where
  "with_obj r f st = (case r of None \<Rightarrow> Inl NullDeref | Some x \<Rightarrow>
    (case fd_objs st x of None \<Rightarrow> Inl NullDeref | Some b \<Rightarrow> f x b st))"

definition with_file :: "fid \<Rightarrow> (fileobj \<Rightarrow> ('a, fds) sys) \<Rightarrow> ('a, fds) sys" where
  "with_file f g st = (case fd_files st f of None \<Rightarrow> Inl NullDeref | Some b \<Rightarrow> g b st)"

definition set_cloexec :: "oid \<Rightarrow> bool \<Rightarrow> (unit, fds) sys" where
  "set_cloexec x v = with_obj (Some x) (\<lambda>x b st. Inr (Inr (), st\<lparr>fd_objs := (fd_objs st)(x \<mapsto> b\<lparr>o_cloexec := v\<rparr>)\<rparr>))"

definition closeFd :: "pid \<Rightarrow> int \<Rightarrow> (unit, fds) sys" where
  "closeFd t fd = sys_bind (getFileSlot t fd) (\<lambda>k st.
    if fd_slots st k = None then Inr (Inl SYS_EBADF, st) else lift_step (set_slot k None) st)"

definition installFile :: "pid \<Rightarrow> fid \<Rightarrow> (nat \<times> oid, fds) sys" where
  "installFile t f = sys_bind (findFileSlot t 0) (\<lambda>i. sys_bind (lift_exec (makeFd f)) (\<lambda>x.
    sys_bind (lift_step (set_slot (t, i) (Some x))) (\<lambda>_. sys_return (i, x))))"

definition installFileTo :: "pid \<Rightarrow> fid \<Rightarrow> int \<Rightarrow> (oid, fds) sys" where
  "installFileTo t f fd = sys_bind (getFileSlot t fd) (\<lambda>k. sys_bind (lift_exec (makeFd f)) (\<lambda>x.
    sys_bind (lift_step (set_slot k (Some x))) (\<lambda>_. sys_return x)))"

definition installFd :: "pid \<Rightarrow> oid option \<Rightarrow> nat \<Rightarrow> bool \<Rightarrow> (nat, fds) sys" where
  "installFd t r hint cloexec = sys_bind (findFileSlot t hint) (\<lambda>i. with_obj r (\<lambda>_ b.
    sys_bind (lift_exec (makeFd (o_file b))) (\<lambda>x. sys_bind (set_cloexec x cloexec) (\<lambda>_.
    sys_bind (lift_step (set_slot (t, i) (Some x))) (\<lambda>_. sys_return i)))))"

definition installFdTo :: "pid \<Rightarrow> oid option \<Rightarrow> int \<Rightarrow> (unit, fds) sys" where
  "installFdTo t r fd = sys_bind (getFileSlot t fd) (\<lambda>k. with_obj r (\<lambda>_ b.
    sys_bind (lift_exec (makeFd (o_file b))) (\<lambda>x. lift_step (set_slot k (Some x)))))"

text \<open>\<^verbatim>\<open>fork\<close> copies the table slot by slot, \<^verbatim>\<open>exec\<close> closes the marked descriptors and \<^verbatim>\<open>exit\<close> all of them.\<close>

definition copy_slot :: "pid \<Rightarrow> pid \<Rightarrow> nat \<Rightarrow> fds \<Rightarrow> fds exec" where
  "copy_slot parent child i st = sbind (set_slot (child, i) (fd_slots st (parent, i)) st) (\<lambda>st.
    case fd_slots st (parent, i) of None \<Rightarrow> Inr st | Some x \<Rightarrow> ref_obj x st)"

definition exec_slot :: "pid \<Rightarrow> nat \<Rightarrow> fds \<Rightarrow> fds exec" where
  "exec_slot t i st = (case fd_slots st (t, i) of None \<Rightarrow> Inr st
    | Some x \<Rightarrow> (case fd_objs st x of None \<Rightarrow> Inl NullDeref
      | Some b \<Rightarrow> if o_cloexec b then set_slot (t, i) None st else Inr st))"

fun each_slot :: "(nat \<Rightarrow> fds \<Rightarrow> fds exec) \<Rightarrow> nat list \<Rightarrow> fds \<Rightarrow> fds exec" where
  "each_slot f [] st = Inr st"
| "each_slot f (i # js) st = sbind (f i st) (each_slot f js)"

definition fork_files :: "pid \<Rightarrow> pid \<Rightarrow> fds \<Rightarrow> fds exec" where
  "fork_files parent child = each_slot (copy_slot parent child) [0..<max_fd]"

definition file_prepareForExec :: "pid \<Rightarrow> fds \<Rightarrow> fds exec" where
  "file_prepareForExec t = each_slot (exec_slot t) [0..<max_fd]"

definition exit_files :: "pid \<Rightarrow> fds \<Rightarrow> fds exec" where
  "exit_files t = each_slot (\<lambda>i. set_slot (t, i) None) [0..<max_fd]"

section \<open>Reading and writing\<close>

text \<open>What the driver of a device answers.\<close>

record devices =
  dv_read :: "nat \<Rightarrow> nat \<Rightarrow> u8 list result"
  dv_write :: "nat \<Rightarrow> u8 list \<Rightarrow> nat result"
  dv_ioctl :: "nat \<Rightarrow> u32 \<Rightarrow> u32 \<Rightarrow> unit result"

definition set_offset :: "fid \<Rightarrow> int \<Rightarrow> (unit, fds) sys" where
  "set_offset f v = with_file f (\<lambda>b st. Inr (Inr (), st\<lparr>fd_files := (fd_files st)(f \<mapsto> b\<lparr>f_offset := v\<rparr>)\<rparr>))"

definition advance :: "fid \<Rightarrow> nat \<Rightarrow> 'a \<Rightarrow> ('a option, fds) sys" where
  "advance f n a = with_file f (\<lambda>b. sys_bind (set_offset f (f_offset b + int n)) (\<lambda>_. sys_return (Some a)))"

definition on_pipe :: "qid \<Rightarrow> (pipe_state \<Rightarrow> pipe_state \<times> effect list \<times> 'a pass) \<Rightarrow> ('a option, fds) sys" where
  "on_pipe q f st = (case fd_pipes st q of None \<Rightarrow> Inl NullDeref
    | Some p \<Rightarrow> (case f (q_state p) of (s, es, r) \<Rightarrow>
        let st = st\<lparr>fd_pipes := (fd_pipes st)(q \<mapsto> p\<lparr>q_state := s\<rparr>), fd_effects := fd_effects st @ es\<rparr>
        in (case r of Block \<Rightarrow> Inr (Inr None, st) | Return (Inr a) \<Rightarrow> Inr (Inr (Some a), st) | Return (Inl e) \<Rightarrow> Inr (Inl e, st))))"

definition SEEK_SET :: int where "SEEK_SET = 0"
definition SEEK_CUR :: int where "SEEK_CUR = 1"
definition SEEK_END :: int where "SEEK_END = 2"

definition off_overflow :: "int \<Rightarrow> bool" where
  "off_overflow x \<longleftrightarrow> x < - (2 ^ 63) \<or> x \<ge> 2 ^ 63"

text \<open>\<^verbatim>\<open>SEEK_SET\<close> goes to offset 0 whatever the argument, and a successful seek returns 0.\<close>

definition vnode_seek :: "fid \<Rightarrow> vid \<Rightarrow> int \<Rightarrow> int \<Rightarrow> (int, fds) sys" where
  "vnode_seek f v offset whence = sys_bind (lift_fs (isType VNT_Pipe v)) (\<lambda>pipe.
    if pipe then sys_fail SYS_ESPIPE
    else sys_bind
      (if whence = SEEK_SET then sys_return 0
       else if whence = SEEK_CUR then with_file f (\<lambda>b.
         if off_overflow (f_offset b + offset) then sys_fail SYS_EOVERFLOW else sys_return (f_offset b + offset))
       else if whence = SEEK_END then sys_bind (lift_fs (isType VNT_Directory v)) (\<lambda>dir.
         if dir then sys_fail SYS_EINVAL
         else sys_bind (lift_fs (vnode_stat 0 v)) (\<lambda>info.
           if off_overflow (st_size info + offset) then sys_fail SYS_EOVERFLOW else sys_return (st_size info + offset)))
       else sys_fail SYS_EINVAL)
      (\<lambda>newOff. if newOff < 0 then sys_fail SYS_EINVAL else sys_bind (set_offset f newOff) (\<lambda>_. sys_return 0)))"

definition vnode_file_read :: "devices \<Rightarrow> fid \<Rightarrow> vid \<Rightarrow> nat \<Rightarrow> (u8 list option, fds) sys" where
  "vnode_file_read dv f v sz = with_file f (\<lambda>b.
    sys_bind (lift_fs (vnode_read v sz (f_offset b))) (\<lambda>r.
    sys_bind (case r of Here data \<Rightarrow> sys_return data | ToDevice d \<Rightarrow> sys_of (dv_read dv d sz)) (\<lambda>data.
    advance f (length data) data)))"

definition vnode_file_write :: "devices \<Rightarrow> fid \<Rightarrow> vid \<Rightarrow> u8 list \<Rightarrow> (nat option, fds) sys" where
  "vnode_file_write dv f v buf = with_file f (\<lambda>b.
    sys_bind (if f_mode b AND O_APPEND \<noteq> 0 then vnode_seek f v 0 SEEK_END else sys_return 0) (\<lambda>_.
    with_file f (\<lambda>b.
    sys_bind (lift_fs (vnode_write v buf (f_offset b))) (\<lambda>r.
    sys_bind (case r of Here n \<Rightarrow> sys_return n | ToDevice d \<Rightarrow> sys_of (dv_write dv d buf)) (\<lambda>n.
    advance f n n)))))"

definition FdObj_read :: "devices \<Rightarrow> pid \<Rightarrow> fdobj \<Rightarrow> nat \<Rightarrow> (u8 list option, fds) sys" where
  "FdObj_read dv t x sz = with_file (o_file x) (\<lambda>b.
    let mode = f_mode b AND O_ACCMODE in
    if mode \<noteq> O_RDONLY \<and> mode \<noteq> O_RDWR then sys_fail SYS_EBADF
    else case f_body b of
      VNodeFile v \<Rightarrow> vnode_file_read dv (o_file x) v sz
    | PipeFile q \<Rightarrow> on_pipe q (pipe_read t sz))"

definition FdObj_write :: "devices \<Rightarrow> pid \<Rightarrow> fdobj \<Rightarrow> u8 list \<Rightarrow> (nat option, fds) sys" where
  "FdObj_write dv t x buf = with_file (o_file x) (\<lambda>b.
    let mode = f_mode b AND O_ACCMODE in
    if mode \<noteq> O_WRONLY \<and> mode \<noteq> O_RDWR then sys_fail SYS_EBADF
    else case f_body b of
      VNodeFile v \<Rightarrow> vnode_file_write dv (o_file x) v buf
    | PipeFile q \<Rightarrow> on_pipe q (pipe_write t buf))"

definition FdObj_ioctl :: "devices \<Rightarrow> fdobj \<Rightarrow> u32 \<Rightarrow> u32 \<Rightarrow> (unit, fds) sys" where
  "FdObj_ioctl dv x req param = with_file (o_file x) (\<lambda>b. case f_body b of
      VNodeFile v \<Rightarrow> sys_bind (lift_fs (vnode_ioctl v)) (\<lambda>r. case r of
        Here _ \<Rightarrow> sys_return () | ToDevice d \<Rightarrow> sys_of (dv_ioctl dv d req param))
    | PipeFile _ \<Rightarrow> sys_of (PipeObj_ioctl req param))"

definition FdObj_seek :: "fdobj \<Rightarrow> int \<Rightarrow> int \<Rightarrow> (int, fds) sys" where
  "FdObj_seek x offset whence = with_file (o_file x) (\<lambda>b. case f_body b of
      VNodeFile v \<Rightarrow> vnode_seek (o_file x) v offset whence
    | PipeFile _ \<Rightarrow> sys_of (PipeObj_seek offset whence))"

text \<open>The reference count that \<^verbatim>\<open>stat\<close> of a node reports is an argument.\<close>

definition file_stat_of :: "u32 \<Rightarrow> fdobj \<Rightarrow> (file_stat, fds) sys" where
  "file_stat_of nref x = with_file (o_file x) (\<lambda>b. case f_body b of
      VNodeFile v \<Rightarrow> lift_fs (vnode_stat nref v)
    | PipeFile _ \<Rightarrow> sys_return \<lparr>st_dev = 0, st_mode = PipeObj_stat_mode, st_nlink = 0, st_size = 0, st_blksize = 0, st_ino = 0\<rparr>)"

section \<open>System calls\<close>

definition INT_MAX :: nat where "INT_MAX = 2 ^ 31 - 1"

definition sys_read :: "devices \<Rightarrow> pid \<Rightarrow> int \<Rightarrow> unit result \<Rightarrow> nat \<Rightarrow> (u8 list option, fds) sys" where
  "sys_read dv t fd check count = (if count > INT_MAX then sys_fail SYS_EINVAL
    else sys_bind (sys_of check) (\<lambda>_. sys_bind (getFile t fd) (\<lambda>r. with_obj r (\<lambda>_ b. FdObj_read dv t b count))))"

definition sys_write :: "devices \<Rightarrow> pid \<Rightarrow> int \<Rightarrow> unit result \<Rightarrow> u8 list \<Rightarrow> (nat option, fds) sys" where
  "sys_write dv t fd check buf = (if length buf > INT_MAX then sys_fail SYS_EINVAL
    else sys_bind (sys_of check) (\<lambda>_. sys_bind (getFile t fd) (\<lambda>r. with_obj r (\<lambda>_ b. FdObj_write dv t b buf))))"

definition sys_close :: "pid \<Rightarrow> int \<Rightarrow> (nat, fds) sys" where
  "sys_close t fd = sys_bind (closeFd t fd) (\<lambda>_. sys_return 0)"

definition sys_dup :: "pid \<Rightarrow> int \<Rightarrow> (nat, fds) sys" where
  "sys_dup t fd = sys_bind (getFile t fd) (\<lambda>r. installFd t r 0 False)"

definition sys_dup2 :: "pid \<Rightarrow> int \<Rightarrow> int \<Rightarrow> (int, fds) sys" where
  "sys_dup2 t oldfd newfd = sys_bind (getFile t oldfd) (\<lambda>r.
    if oldfd = newfd then sys_return oldfd else sys_bind (installFdTo t r newfd) (\<lambda>_. sys_return newfd))"

definition F_DUPFD :: u32 where "F_DUPFD = 0"
definition F_GETFD :: u32 where "F_GETFD = 1"
definition F_SETFD :: u32 where "F_SETFD = 2"
definition F_DUPFD_CLOEXEC :: u32 where "F_DUPFD_CLOEXEC = 1030"
definition FD_CLOEXEC :: u32 where "FD_CLOEXEC = 1"
definition O_CLOEXEC :: u32 where "O_CLOEXEC = 0x80000"

definition sys_fcntl64 :: "pid \<Rightarrow> int \<Rightarrow> u32 \<Rightarrow> u32 \<Rightarrow> (nat, fds) sys" where
  "sys_fcntl64 t fd cmd arg = sys_bind (getFile t fd) (\<lambda>r.
    if cmd = F_DUPFD then installFd t r (unat arg) False
    else if cmd = F_DUPFD_CLOEXEC then installFd t r (unat arg) True
    else if cmd = F_SETFD then with_obj r (\<lambda>x _. sys_bind (set_cloexec x (arg AND FD_CLOEXEC \<noteq> 0)) (\<lambda>_. sys_return 0))
    else if cmd = F_GETFD then with_obj r (\<lambda>_ b. sys_return (if o_cloexec b then unat FD_CLOEXEC else 0))
    else sys_fail SYS_ENOSYS)"

text \<open>The local references of the function are released at its end, the last one first.\<close>

definition sys_pipe :: "pid \<Rightarrow> unit result \<Rightarrow> (nat \<times> nat, fds) sys" where
  "sys_pipe t check = sys_bind (sys_of check) (\<lambda>_.
    sys_bind (findFileSlot t 0) (\<lambda>readFd. sys_bind (findFileSlot t (readFd + 1)) (\<lambda>writeFd.
    sys_bind (lift_exec (\<lambda>st. Inr (new_pipe st))) (\<lambda>q.
    sys_bind (lift_exec (new_file (PipeFile q) O_RDONLY)) (\<lambda>fr.
    sys_bind (lift_exec (new_file (PipeFile q) O_WRONLY)) (\<lambda>fw.
    sys_bind (lift_exec (makeFd fr)) (\<lambda>xr. sys_bind (lift_step (set_slot (t, readFd) (Some xr))) (\<lambda>_.
    sys_bind (lift_exec (makeFd fw)) (\<lambda>xw. sys_bind (lift_step (set_slot (t, writeFd) (Some xw))) (\<lambda>_.
    sys_bind (lift_step (unref_file fw)) (\<lambda>_. sys_bind (lift_step (unref_file fr)) (\<lambda>_.
    sys_bind (lift_step (unref_pipe q)) (\<lambda>_. sys_return (readFd, writeFd))))))))))))))"

definition sys_open :: "fs_env \<Rightarrow> pid \<Rightarrow> string result \<Rightarrow> u32 \<Rightarrow> u32 \<Rightarrow> (nat, fds) sys" where
  "sys_open env t name flags mode = sys_bind (sys_of name) (\<lambda>filename.
    sys_bind (lift_fs (fs_open env filename flags mode)) (\<lambda>file.
    sys_bind (lift_exec (new_file (VNodeFile (fo_vnode file)) (fo_mode file))) (\<lambda>f.
    sys_catch (sys_bind (installFile t f) (\<lambda>(fd, x).
      sys_bind (if flags AND O_CLOEXEC \<noteq> 0 then set_cloexec x True else sys_return ()) (\<lambda>_. sys_return fd)))
      (\<lambda>r. sys_bind (lift_step (unref_file f)) (\<lambda>_. sys_of r)))))"

text \<open>\<^verbatim>\<open>readv\<close> and \<^verbatim>\<open>writev\<close> run the call on one buffer after another, to its completion; \<open>io\<close> is that call.\<close>

fun iov_loop :: "('v \<Rightarrow> (nat, 's) sys) \<Rightarrow> ('v \<Rightarrow> nat) \<Rightarrow> 'v list \<Rightarrow> nat \<Rightarrow> (nat, 's) sys" where
  "iov_loop io len [] result = sys_return result"
| "iov_loop io len (v # vs) result =
    (if len v = 0 then iov_loop io len vs result
     else sys_catch (io v) (\<lambda>r. case r of
         Inl e \<Rightarrow> if result > 0 then sys_return result else sys_fail e
       | Inr ret \<Rightarrow> if ret < len v then sys_return (result + ret) else iov_loop io len vs (result + ret)))"

definition sys_iov :: "('v \<Rightarrow> (nat, 's) sys) \<Rightarrow> ('v \<Rightarrow> nat) \<Rightarrow> unit result \<Rightarrow> 'v list \<Rightarrow> (nat, 's) sys" where
  "sys_iov io len check vecs = (if vecs = [] \<or> length vecs > 16 then sys_fail SYS_EINVAL
    else sys_bind (sys_of check) (\<lambda>_. iov_loop io len vecs 0))"

definition sys_llseek :: "pid \<Rightarrow> int \<Rightarrow> unit result \<Rightarrow> u32 \<Rightarrow> u32 \<Rightarrow> int \<Rightarrow> (int, fds) sys" where
  "sys_llseek t fd check high low whence = sys_bind (sys_of check) (\<lambda>_.
    if high \<ge> 0x80000000 then sys_fail SYS_EINVAL
    else sys_bind (getFile t fd) (\<lambda>r. with_obj r (\<lambda>_ b. FdObj_seek b (uint high * 2 ^ 32 + uint low) whence)))"

definition sys_fstat64 :: "u32 \<Rightarrow> pid \<Rightarrow> int \<Rightarrow> unit result \<Rightarrow> (file_stat, fds) sys" where
  "sys_fstat64 nref t fd check = sys_bind (sys_of check) (\<lambda>_.
    sys_bind (getFile t fd) (\<lambda>r. with_obj r (\<lambda>_ b. file_stat_of nref b)))"

definition sys_getdents64 :: "pid \<Rightarrow> int \<Rightarrow> unit result \<Rightarrow> nat \<Rightarrow> (dirent list \<times> nat, fds) sys" where
  "sys_getdents64 t fd check count = sys_bind (sys_of check) (\<lambda>_. sys_bind (getFile t fd) (\<lambda>r.
    with_obj r (\<lambda>_ x. with_file (o_file x) (\<lambda>b. case f_body b of
      PipeFile _ \<Rightarrow> sys_fail SYS_ENOTDIR
    | VNodeFile v \<Rightarrow> sys_bind (lift_fs (isType VNT_Directory v)) (\<lambda>dir.
        if \<not> dir then sys_fail SYS_ENOTDIR
        else sys_bind (lift_fs (vnode_readdir v count (f_offset b))) (\<lambda>(ds, n, off).
          sys_bind (set_offset (o_file x) off) (\<lambda>_. sys_return (ds, n))))))))"

definition sys_ioctl :: "devices \<Rightarrow> pid \<Rightarrow> int \<Rightarrow> u32 \<Rightarrow> u32 \<Rightarrow> (unit, fds) sys" where
  "sys_ioctl dv t fd cmd arg = sys_bind (getFile t fd) (\<lambda>r. with_obj r (\<lambda>_ b. FdObj_ioctl dv b cmd arg))"

section \<open>Counting references\<close>

definition refs :: "('k \<Rightarrow> 'x option) \<Rightarrow> 'x \<Rightarrow> nat" where
  "refs m x = card {k. m k = Some x}"

lemma refs_finite: "finite (dom m) \<Longrightarrow> finite {k. m k = Some x}"
  by (rule finite_subset [of _ "dom m"]) auto

lemma refs_upd:
  assumes "finite (dom m)"
  shows "int (refs (m(k := y)) x) = int (refs m x) - (if m k = Some x then 1 else 0) + (if y = Some x then 1 else 0)"
proof -
  let ?A = "{j. m j = Some x}"
  have f: "finite ?A" using refs_finite [OF assms] .
  have "{j. (m(k := y)) j = Some x} = (if y = Some x then insert k (?A - {k}) else ?A - {k})" by auto
  moreover have "int (card (?A - {k})) = int (card ?A) - (if m k = Some x then 1 else 0)"
    using f card_Suc_Diff1 [OF f, of k] by (auto simp: Diff_insert_absorb)
  moreover have "card (insert k (?A - {k})) = Suc (card (?A - {k}))" using f card.insert_remove [of "?A - {k}" k] by simp
  ultimately show ?thesis unfolding refs_def by (auto split: if_splits)
qed

lemma refs_pos: "finite (dom m) \<Longrightarrow> m k = Some x \<Longrightarrow> 0 < refs m x"
  unfolding refs_def using refs_finite [of m x] by (auto simp: card_gt_0_iff)

lemma refs_none: "(\<And>k. m k \<noteq> Some x) \<Longrightarrow> refs m x = 0"
  by (simp add: refs_def)

text \<open>The contract of \<^verbatim>\<open>lib::Shared\<close>: objects of a heap that carry their count. \<open>m\<close> holds the references stored in
  other objects, \<open>e\<close> counts the ones local variables of the running call hold besides.\<close>

locale refcounted =
  fixes cnt :: "'b \<Rightarrow> int" and set_cnt :: "int \<Rightarrow> 'b \<Rightarrow> 'b"
  assumes cnt_set: "cnt (set_cnt n b) = n"
begin

definition exact :: "'b option \<Rightarrow> nat \<Rightarrow> int \<Rightarrow> bool" where
  "exact b n e \<longleftrightarrow> 0 \<le> e \<and> (case b of None \<Rightarrow> n = 0 \<and> e = 0 | Some b \<Rightarrow> cnt b = int n + e \<and> 0 < cnt b)"

definition counts :: "('x \<Rightarrow> 'b option) \<Rightarrow> ('k \<Rightarrow> 'x option) \<Rightarrow> ('x \<Rightarrow> int) \<Rightarrow> bool" where
  "counts h m e \<longleftrightarrow> (\<forall>x. exact (h x) (refs m x) (e x))"

lemma countsD: "counts h m e \<Longrightarrow> exact (h x) (refs m x) (e x)"
  by (simp add: counts_def)

lemma counts_at:
  assumes "counts h m e" "exact b (refs m x) v"
  shows "counts (h(x := b)) m (e(x := v))"
  using assms by (simp add: counts_def)

lemma counts_live: "counts h m e \<Longrightarrow> finite (dom m) \<Longrightarrow> m k = Some x \<Longrightarrow> \<exists>b. h x = Some b"
  using refs_pos [of m k x] countsD [of h m e x] by (cases "h x") (auto simp: exact_def)

lemma counts_temp: "counts h m e \<Longrightarrow> 1 \<le> e x \<Longrightarrow> \<exists>b. h x = Some b"
  using countsD [of h m e x] by (cases "h x") (auto simp: exact_def)

lemma counts_inc: "counts h m e \<Longrightarrow> h x = Some b \<Longrightarrow> counts (h(x \<mapsto> set_cnt (cnt b + 1) b)) m (e(x := e x + 1))"
  using countsD [of h m e x] by (intro counts_at) (auto simp: exact_def cnt_set)

lemma counts_dec:
  "counts h m e \<Longrightarrow> 1 \<le> e x \<Longrightarrow> h x = Some b \<Longrightarrow>
    counts (h(x := if cnt b - 1 = 0 then None else Some (set_cnt (cnt b - 1) b))) m (e(x := e x - 1))"
  using countsD [of h m e x] by (intro counts_at) (auto simp: exact_def cnt_set)

lemma counts_new: "counts h m e \<Longrightarrow> h x = None \<Longrightarrow> cnt b = 1 \<Longrightarrow> counts (h(x \<mapsto> b)) m (e(x := 1))"
  using countsD [of h m e x] by (intro counts_at) (auto simp: exact_def)

lemma counts_same: "counts h m e \<Longrightarrow> h x = Some b \<Longrightarrow> cnt b' = cnt b \<Longrightarrow> counts (h(x \<mapsto> b')) m e"
  using counts_at [of h m e "Some b'" x "e x"] countsD [of h m e x] by (auto simp: exact_def)

lemma counts_upd:
  assumes c: "counts h m e" and f: "finite (dom m)" and y: "\<And>x. y = Some x \<Longrightarrow> 1 \<le> e x"
  shows "counts h (m(k := y)) (\<lambda>x. e x + (if m k = Some x then 1 else 0) - (if y = Some x then 1 else 0))"
  unfolding counts_def
proof
  fix x
  have c1: "exact (h x) (refs m x) (e x)" using countsD [OF c] .
  have u: "int (refs (m(k := y)) x) = int (refs m x) - (if m k = Some x then 1 else 0) + (if y = Some x then 1 else 0)"
    using refs_upd [OF f] .
  have y1: "y = Some x \<Longrightarrow> 1 \<le> e x" using y .
  have l: "h x = None \<Longrightarrow> m k \<noteq> Some x" using counts_live [OF c f, of k x] by auto
  show "exact (h x) (refs (m(k := y)) x) (e x + (if m k = Some x then 1 else 0) - (if y = Some x then 1 else 0))"
    using c1 u y1 l unfolding exact_def by (cases "h x") (auto split: if_splits)
qed

end

interpretation objs: refcounted o_ref "\<lambda>n b. b\<lparr>o_ref := n\<rparr>"
  by unfold_locales simp

interpretation files: refcounted f_ref "\<lambda>n b. b\<lparr>f_ref := n\<rparr>"
  by unfold_locales simp

interpretation pipes: refcounted q_ref "\<lambda>n b. b\<lparr>q_ref := n\<rparr>"
  by unfold_locales simp

definition obj_files :: "(oid \<Rightarrow> fdobj option) \<Rightarrow> oid \<Rightarrow> fid option" where
  "obj_files h x = map_option o_file (h x)"

definition file_pipes :: "(fid \<Rightarrow> fileobj option) \<Rightarrow> fid \<Rightarrow> qid option" where
  "file_pipes h f = (case h f of Some b \<Rightarrow> (case f_body b of PipeFile q \<Rightarrow> Some q | VNodeFile _ \<Rightarrow> None) | None \<Rightarrow> None)"

text \<open>All counts are exact up to the references \<open>eo\<close>, \<open>ef\<close> and \<open>eq\<close> that the running call holds.\<close>

definition modes_ok :: "(fid \<Rightarrow> fileobj option) \<Rightarrow> bool" where
  "modes_ok h \<longleftrightarrow> (\<forall>f b q. h f = Some b \<and> f_body b = PipeFile q \<longrightarrow> f_mode b = O_RDONLY \<or> f_mode b = O_WRONLY)"

definition unused :: "nat \<Rightarrow> fds \<Rightarrow> bool" where
  "unused k st \<longleftrightarrow> (\<forall>n\<ge>k. fd_objs st n = None \<and> fd_files st n = None \<and> fd_pipes st n = None)"

definition rc :: "(oid \<Rightarrow> int) \<Rightarrow> (fid \<Rightarrow> int) \<Rightarrow> (qid \<Rightarrow> int) \<Rightarrow> fds \<Rightarrow> bool" where
  "rc eo ef eq st \<longleftrightarrow>
    finite (dom (fd_slots st)) \<and> finite (dom (fd_objs st)) \<and> finite (dom (fd_files st)) \<and>
    objs.counts (fd_objs st) (fd_slots st) eo \<and>
    files.counts (fd_files st) (obj_files (fd_objs st)) ef \<and>
    pipes.counts (fd_pipes st) (file_pipes (fd_files st)) eq \<and>
    unused (fd_next st) st \<and> modes_ok (fd_files st)"

lemma obj_files_upd [simp]: "obj_files (h(x := b)) = (obj_files h)(x := map_option o_file b)"
  by (auto simp: obj_files_def)

lemma file_pipes_upd [simp]:
  "file_pipes (h(f := b)) = (file_pipes h)(f := (case b of Some b \<Rightarrow> (case f_body b of PipeFile q \<Rightarrow> Some q | VNodeFile _ \<Rightarrow> None) | None \<Rightarrow> None))"
  by (auto simp: file_pipes_def)

lemma obj_files_dom: "dom (obj_files h) = dom h"
  by (auto simp: obj_files_def dom_def)

lemma file_pipes_dom: "finite (dom h) \<Longrightarrow> finite (dom (file_pipes h))"
  by (rule finite_subset [of _ "dom h"]) (auto simp: file_pipes_def dom_def split: option.splits)

lemma unusedD:
  "unused k st \<Longrightarrow> fd_objs st n = Some a \<Longrightarrow> n < k" "unused k st \<Longrightarrow> fd_files st n = Some b \<Longrightarrow> n < k"
  "unused k st \<Longrightarrow> fd_pipes st n = Some c \<Longrightarrow> n < k"
  unfolding unused_def by (metis not_le option.distinct(1))+

lemma unused_upd:
  "unused k st \<Longrightarrow> n < k \<Longrightarrow> unused k (st\<lparr>fd_objs := (fd_objs st)(n := a)\<rparr>)"
  "unused k st \<Longrightarrow> n < k \<Longrightarrow> unused k (st\<lparr>fd_files := (fd_files st)(n := b)\<rparr>)"
  "unused k st \<Longrightarrow> n < k \<Longrightarrow> unused k (st\<lparr>fd_pipes := (fd_pipes st)(n := c)\<rparr>)"
  "unused k (st\<lparr>fd_slots := s\<rparr>) = unused k st"
  by (auto simp: unused_def)

lemma modes_ok_upd:
  "modes_ok h \<Longrightarrow> modes_ok (h(f := None))"
  "modes_ok h \<Longrightarrow> h f = Some b \<Longrightarrow> f_body b' = f_body b \<Longrightarrow> f_mode b' = f_mode b \<Longrightarrow> modes_ok (h(f \<mapsto> b'))"
  by (auto simp: modes_ok_def)

lemma rcD:
  assumes "rc eo ef eq st"
  shows "finite (dom (fd_slots st))" "finite (dom (fd_objs st))" "finite (dom (fd_files st))"
    "objs.counts (fd_objs st) (fd_slots st) eo" "files.counts (fd_files st) (obj_files (fd_objs st)) ef"
    "pipes.counts (fd_pipes st) (file_pipes (fd_files st)) eq" "unused (fd_next st) st" "modes_ok (fd_files st)"
    "finite (dom (obj_files (fd_objs st)))" "finite (dom (file_pipes (fd_files st)))"
  using assms file_pipes_dom by (auto simp: rc_def obj_files_dom)

lemma unref_pipe_rc:
  assumes r: "rc eo ef eq st" and q: "1 \<le> eq q"
  shows "\<exists>st'. unref_pipe q st = Inr st' \<and> rc eo ef (eq(q := eq q - 1)) st'"
proof -
  note d = rcD [OF r]
  obtain b where b: "fd_pipes st q = Some b" using pipes.counts_temp [OF d(6) q] by blast
  show ?thesis using d b pipes.counts_dec [OF d(6) q b] unusedD(3) [OF d(7) b]
    by (simp add: unref_pipe_def rc_def unused_upd)
qed

lemma unref_file_rc:
  assumes r: "rc eo ef eq st" and q: "1 \<le> ef f"
  shows "\<exists>st'. unref_file f st = Inr st' \<and> rc eo (ef(f := ef f - 1)) eq st'"
proof -
  note d = rcD [OF r]
  obtain b where b: "fd_files st f = Some b" using files.counts_temp [OF d(5) q] by blast
  note c = files.counts_dec [OF d(5) q b] and u = unusedD(2) [OF d(7) b]
  have fp: "file_pipes (fd_files st) f = (case f_body b of PipeFile p \<Rightarrow> Some p | VNodeFile _ \<Rightarrow> None)"
    by (simp add: file_pipes_def b)
  show ?thesis
  proof (cases "f_ref b - 1 = 0")
    case False
    have "(file_pipes (fd_files st))(f := (case f_body b of PipeFile p \<Rightarrow> Some p | VNodeFile _ \<Rightarrow> None)) = file_pipes (fd_files st)"
      using fp by auto
    with False d b c u show ?thesis
      by (simp add: unref_file_def rc_def unused_upd modes_ok_upd(2) [OF d(8) b])
  next
    case True
    let ?s = "st\<lparr>fd_files := (fd_files st)(f := None)\<rparr>"
    note p = pipes.counts_upd [OF d(6,10), of None f]
    show ?thesis
    proof (cases "f_body b")
      case (VNodeFile v)
      then have "file_pipes (fd_files st) f = None" using fp by simp
      with p have "pipes.counts (fd_pipes st) ((file_pipes (fd_files st))(f := None)) eq" by simp
      with True VNodeFile d b c u show ?thesis
        by (simp add: unref_file_def rc_def unused_upd modes_ok_upd)
    next
      case (PipeFile pq)
      then have fq: "file_pipes (fd_files st) f = Some pq" using fp by simp
      have ee: "(\<lambda>x. eq x + (if Some pq = Some x then 1 else 0)) = eq(pq := eq pq + 1)" by auto
      from p have "pipes.counts (fd_pipes st) ((file_pipes (fd_files st))(f := None)) (eq(pq := eq pq + 1))"
        unfolding fq by (simp add: ee del: option.inject)
      with True d b c u have r1: "rc eo (ef(f := ef f - 1)) (eq(pq := eq pq + 1)) ?s"
        by (simp add: rc_def unused_upd modes_ok_upd)
      have "0 \<le> eq pq" using pipes.countsD [OF d(6), of pq] by (simp add: pipes.exact_def)
      then have "\<exists>st'. unref_pipe pq ?s = Inr st' \<and> rc eo (ef(f := ef f - 1)) ((eq(pq := eq pq + 1))(pq := (eq(pq := eq pq + 1)) pq - 1)) st'"
        by (intro unref_pipe_rc [OF r1]) simp
      with True PipeFile b show ?thesis by (simp add: unref_file_def)
    qed
  qed
qed

lemma pipe_state_rc:
  "rc eo ef eq st \<Longrightarrow> fd_pipes st q = Some p \<Longrightarrow>
    rc eo ef eq (st\<lparr>fd_pipes := (fd_pipes st)(q \<mapsto> p\<lparr>q_state := s\<rparr>), fd_effects := es\<rparr>)"
  using pipes.counts_same [of "fd_pipes st" "file_pipes (fd_files st)" eq q p "p\<lparr>q_state := s\<rparr>"]
    unusedD(3) [of "fd_next st" st q p]
  by (auto simp: rc_def unused_def)

lemma onFdClose_rc:
  assumes r: "rc eo ef eq st" and f: "fd_files st f = Some b"
  shows "\<exists>st'. onFdClose f st = Inr st' \<and> rc eo ef eq st' \<and> fd_objs st' = fd_objs st \<and> fd_files st' = fd_files st \<and>
    fd_slots st' = fd_slots st \<and> fd_next st' = fd_next st"
proof (cases "f_body b")
  case (VNodeFile v)
  then show ?thesis using r f by (simp add: onFdClose_def)
next
  case (PipeFile q)
  note d = rcD [OF r]
  have "file_pipes (fd_files st) f = Some q" using PipeFile f by (simp add: file_pipes_def)
  then obtain p where p: "fd_pipes st q = Some p" using pipes.counts_live [OF d(6,10)] by blast
  have "f_mode b = O_RDONLY \<or> f_mode b = O_WRONLY" using d(8) f PipeFile by (auto simp: modes_ok_def)
  then have "\<exists>r. PipeObj_onFdClose (f_mode b) (q_state p) = Inr r"
    by (auto simp: PipeObj_onFdClose_def O_RDONLY_def O_WRONLY_def O_ACCMODE_def)
  then obtain s es where "PipeObj_onFdClose (f_mode b) (q_state p) = Inr (s, es)" by auto
  with p f PipeFile pipe_state_rc [OF r p, where s = s and es = "fd_effects st @ es"] show ?thesis by (simp add: onFdClose_def)
qed

lemma unref_obj_rc:
  assumes r: "rc eo ef eq st" and q: "1 \<le> eo x"
  shows "\<exists>st'. unref_obj x st = Inr st' \<and> rc (eo(x := eo x - 1)) ef eq st'"
proof -
  obtain b where b: "fd_objs st x = Some b" using objs.counts_temp [OF rcD(4) [OF r] q] by blast
  show ?thesis
  proof (cases "o_ref b - 1 = 0")
    case False
    note d = rcD [OF r]
    have "(obj_files (fd_objs st))(x \<mapsto> o_file b) = obj_files (fd_objs st)" using b by (auto simp: obj_files_def)
    with False d b objs.counts_dec [OF d(4) q b] unusedD(1) [OF d(7) b] show ?thesis
      by (simp add: unref_obj_def rc_def unused_upd)
  next
    case True
    have of: "obj_files (fd_objs st) x = Some (o_file b)" using b by (simp add: obj_files_def)
    obtain fb where fb: "fd_files st (o_file b) = Some fb"
      using files.counts_live [OF rcD(5,9) [OF r] of] by blast
    obtain s1 where s1: "onFdClose (o_file b) st = Inr s1" "rc eo ef eq s1" "fd_objs s1 = fd_objs st"
      using onFdClose_rc [OF r fb] by blast
    note d = rcD [OF s1(2)]
    let ?s = "s1\<lparr>fd_objs := (fd_objs s1)(x := None)\<rparr>" and ?f = "o_file b"
    have of1: "obj_files (fd_objs s1) x = Some ?f" using of s1(3) by simp
    have ee: "(\<lambda>y. ef y + (if Some ?f = Some y then 1 else 0)) = ef(?f := ef ?f + 1)" by auto
    have b1: "fd_objs s1 x = Some b" using b s1(3) by simp
    from files.counts_upd [OF d(5,9), of None x]
    have "files.counts (fd_files s1) ((obj_files (fd_objs s1))(x := None)) (ef(?f := ef ?f + 1))"
      unfolding of1 by (simp add: ee del: option.inject)
    then have r1: "rc (eo(x := eo x - 1)) (ef(?f := ef ?f + 1)) eq ?s"
      using True d objs.counts_dec [OF d(4) q b1] unusedD(1) [OF d(7) b1] by (simp add: rc_def unused_upd)
    have "0 \<le> ef ?f" using files.countsD [OF d(5), of ?f] by (simp add: files.exact_def)
    then have "\<exists>st'. unref_file ?f ?s = Inr st' \<and> rc (eo(x := eo x - 1)) ((ef(?f := ef ?f + 1))(?f := (ef(?f := ef ?f + 1)) ?f - 1)) eq st'"
      by (intro unref_file_rc [OF r1]) simp
    with True b s1(1,3) show ?thesis by (simp add: unref_obj_def)
  qed
qed

text \<open>Releasing an object does not look at the slots.\<close>

lemma unref_slots:
  "unref_pipe q (st\<lparr>fd_slots := s\<rparr>) = map_sum id (fd_slots_update (\<lambda>_. s)) (unref_pipe q st)"
  "unref_file f (st\<lparr>fd_slots := s\<rparr>) = map_sum id (fd_slots_update (\<lambda>_. s)) (unref_file f st)"
  "onFdClose f (st\<lparr>fd_slots := s\<rparr>) = map_sum id (fd_slots_update (\<lambda>_. s)) (onFdClose f st)"
  "unref_obj x (st\<lparr>fd_slots := s\<rparr>) = map_sum id (fd_slots_update (\<lambda>_. s)) (unref_obj x st)"
proof -
  have rec: "fd_pipes_update u (st\<lparr>fd_slots := s\<rparr>) = (fd_pipes_update u st)\<lparr>fd_slots := s\<rparr>"
    "fd_files_update v (st\<lparr>fd_slots := s\<rparr>) = (fd_files_update v st)\<lparr>fd_slots := s\<rparr>"
    "fd_objs_update w (st\<lparr>fd_slots := s\<rparr>) = (fd_objs_update w st)\<lparr>fd_slots := s\<rparr>"
    "fd_effects_update z (st\<lparr>fd_slots := s\<rparr>) = (fd_effects_update z st)\<lparr>fd_slots := s\<rparr>" for u v w z st
    by simp_all
  have p: "unref_pipe q (st\<lparr>fd_slots := s\<rparr>) = map_sum id (fd_slots_update (\<lambda>_. s)) (unref_pipe q st)" for q st
    by (simp add: unref_pipe_def split: option.split)
  have f: "unref_file f (st\<lparr>fd_slots := s\<rparr>) = map_sum id (fd_slots_update (\<lambda>_. s)) (unref_file f st)" for f st
    using p [of _ "st\<lparr>fd_files := (fd_files st)(f := None)\<rparr>"]
    by (simp add: unref_file_def Let_def rec split: option.split file_body.split)
  have c: "onFdClose f (st\<lparr>fd_slots := s\<rparr>) = map_sum id (fd_slots_update (\<lambda>_. s)) (onFdClose f st)" for f st
    by (auto simp: onFdClose_def sbind_def split: option.split file_body.split sum.split)
  show "unref_pipe q (st\<lparr>fd_slots := s\<rparr>) = map_sum id (fd_slots_update (\<lambda>_. s)) (unref_pipe q st)" by (rule p)
  show "unref_file f (st\<lparr>fd_slots := s\<rparr>) = map_sum id (fd_slots_update (\<lambda>_. s)) (unref_file f st)" by (rule f)
  show "onFdClose f (st\<lparr>fd_slots := s\<rparr>) = map_sum id (fd_slots_update (\<lambda>_. s)) (onFdClose f st)" by (rule c)
  show "unref_obj x (st\<lparr>fd_slots := s\<rparr>) = map_sum id (fd_slots_update (\<lambda>_. s)) (unref_obj x st)"
  proof (cases "fd_objs st x")
    case (Some b)
    show ?thesis
    proof (cases "onFdClose (o_file b) st")
      case (Inr s1)
      then show ?thesis using Some f [of "o_file b" "s1\<lparr>fd_objs := (fd_objs s1)(x := None)\<rparr>"]
        by (simp add: unref_obj_def c rec)
    qed (use Some in \<open>simp add: unref_obj_def c\<close>)
  qed (simp add: unref_obj_def)
qed

lemma unref_keeps_slots:
  "unref_pipe q st = Inr st' \<Longrightarrow> fd_slots st' = fd_slots st"
  "unref_file f st = Inr st' \<Longrightarrow> fd_slots st' = fd_slots st"
  "onFdClose f st = Inr st' \<Longrightarrow> fd_slots st' = fd_slots st"
  "unref_obj x st = Inr st' \<Longrightarrow> fd_slots st' = fd_slots st"
proof -
  show p: "unref_pipe q st = Inr st' \<Longrightarrow> fd_slots st' = fd_slots st" for q st
    by (auto simp: unref_pipe_def split: option.splits)
  show f: "unref_file f st = Inr st' \<Longrightarrow> fd_slots st' = fd_slots st" for f st
    by (auto simp: unref_file_def Let_def split: option.splits if_splits file_body.splits dest!: p)
  show c: "onFdClose f st = Inr st' \<Longrightarrow> fd_slots st' = fd_slots st" for f st st'
    by (auto simp: onFdClose_def sbind_def split: option.splits file_body.splits sum.splits)
  show "unref_obj x st = Inr st' \<Longrightarrow> fd_slots st' = fd_slots st"
    by (auto simp: unref_obj_def sbind_def split: option.splits if_splits sum.splits dest!: f c)
qed

lemma set_slot_rc:
  assumes r: "rc eo ef eq st" and x: "\<And>y. x = Some y \<Longrightarrow> 1 \<le> eo y"
  shows "\<exists>st'. set_slot k x st = Inr st' \<and> rc (case x of None \<Rightarrow> eo | Some y \<Rightarrow> eo(y := eo y - 1)) ef eq st' \<and>
    fd_slots st' = (fd_slots st)(k := x)"
proof -
  note d = rcD [OF r]
  let ?s = "st\<lparr>fd_slots := (fd_slots st)(k := x)\<rparr>" and ?e = "\<lambda>y. eo y + (if fd_slots st k = Some y then 1 else 0) - (if x = Some y then 1 else 0)"
  have c: "objs.counts (fd_objs st) ((fd_slots st)(k := x)) ?e" by (rule objs.counts_upd [OF d(4,1)]) (rule x)
  have r1: "rc ?e ef eq ?s"
    using d c by (simp add: rc_def unused_upd)
  show ?thesis
  proof (cases "fd_slots st k")
    case None
    have "(case x of None \<Rightarrow> eo | Some y \<Rightarrow> eo(y := eo y - 1)) = ?e" using None by (auto split: option.splits)
    with None r1 show ?thesis by (simp add: set_slot_def)
  next
    case (Some old)
    have "0 \<le> eo old" using objs.countsD [OF d(4), of old] by (simp add: objs.exact_def)
    have pre: "1 \<le> ?e old"
      using Some x [of old] \<open>0 \<le> eo old\<close> by auto
    obtain s1 where s1: "unref_obj old ?s = Inr s1" "rc (?e(old := ?e old - 1)) ef eq s1"
      using unref_obj_rc [OF r1 pre] by blast
    have ee: "(case x of None \<Rightarrow> eo | Some y \<Rightarrow> eo(y := eo y - 1)) = ?e(old := ?e old - 1)"
      using Some by (auto split: option.splits)
    obtain s2 where s2: "unref_obj old st = Inr s2" "s1 = s2\<lparr>fd_slots := (fd_slots st)(k := x)\<rparr>"
      using s1(1) unfolding unref_slots by (cases "unref_obj old st") auto
    have "set_slot k x st = Inr s1" using Some s2 unref_keeps_slots(4) [OF s2(1)] by (simp add: set_slot_def)
    moreover have "fd_slots s1 = (fd_slots st)(k := x)" using s2(2) by simp
    ultimately show ?thesis unfolding ee using s1(2) by blast
  qed
qed

text \<open>New objects start with the reference of the call that makes them.\<close>

lemma fresh_next:
  assumes "rc eo ef eq st"
  shows "fd_objs st (fd_next st) = None" "fd_files st (fd_next st) = None" "fd_pipes st (fd_next st) = None"
    "eo (fd_next st) = 0" "ef (fd_next st) = 0" "eq (fd_next st) = 0"
    "\<And>f. file_pipes (fd_files st) f \<noteq> Some (fd_next st)" "\<And>x. obj_files (fd_objs st) x \<noteq> Some (fd_next st)"
proof -
  note d = rcD [OF assms]
  show n: "fd_objs st (fd_next st) = None" "fd_files st (fd_next st) = None" "fd_pipes st (fd_next st) = None"
    using d(7) by (auto simp: unused_def)
  show "eo (fd_next st) = 0" "ef (fd_next st) = 0" "eq (fd_next st) = 0"
    using objs.countsD [OF d(4), of "fd_next st"] files.countsD [OF d(5), of "fd_next st"] pipes.countsD [OF d(6), of "fd_next st"] n
    by (auto simp: objs.exact_def files.exact_def pipes.exact_def)
  show "\<And>f. file_pipes (fd_files st) f \<noteq> Some (fd_next st)" using pipes.counts_live [OF d(6,10)] n by fastforce
  show "\<And>x. obj_files (fd_objs st) x \<noteq> Some (fd_next st)" using files.counts_live [OF d(5,9)] n by fastforce
qed

lemma new_pipe_rc:
  assumes r: "rc eo ef eq st"
  shows "\<exists>q st'. new_pipe st = (q, st') \<and> q = fd_next st \<and> rc eo ef (eq(q := 1)) st' \<and> fd_slots st' = fd_slots st \<and> fd_next st' = Suc q"
  using rcD [OF r] pipes.counts_new [OF rcD(6) [OF r] fresh_next(3) [OF r], of "\<lparr>q_ref = 1, q_state = pipe_init\<rparr>"]
  by (auto simp: new_pipe_def rc_def unused_def)

lemma new_file_rc:
  assumes r: "rc eo ef eq st" and m: "\<And>q. body = PipeFile q \<Longrightarrow> 1 \<le> eq q \<and> (mode = O_RDONLY \<or> mode = O_WRONLY)"
  shows "\<exists>f st'. new_file body mode st = Inr (f, st') \<and> f = fd_next st \<and> rc eo (ef(f := 1)) eq st' \<and> fd_slots st' = fd_slots st \<and>
    fd_next st' = Suc f"
proof (cases body)
  case (VNodeFile v)
  note d = rcD [OF r]
  let ?b = "\<lparr>f_ref = 1, f_mode = mode, f_offset = 0, f_body = body\<rparr>"
  have fp: "file_pipes (fd_files st) (fd_next st) = None" using fresh_next(2) [OF r] by (simp add: file_pipes_def)
  then have "(file_pipes (fd_files st))(fd_next st := None) = file_pipes (fd_files st)" by auto
  with d files.counts_new [OF d(5) fresh_next(2) [OF r], of ?b] VNodeFile show ?thesis
    by (auto simp: new_file_def rc_def unused_def modes_ok_def)
next
  case (PipeFile q)
  note d = rcD [OF r]
  let ?b = "\<lparr>f_ref = 1, f_mode = mode, f_offset = 0, f_body = body\<rparr>" and ?n = "fd_next st"
  have q: "1 \<le> eq q" and md: "mode = O_RDONLY \<or> mode = O_WRONLY" using m [OF PipeFile] by auto
  obtain p where p: "fd_pipes st q = Some p" using pipes.counts_temp [OF d(6) q] by blast
  have fp: "file_pipes (fd_files st) ?n = None" using fresh_next(2) [OF r] by (simp add: file_pipes_def)
  have c: "pipes.counts ((fd_pipes st)(q \<mapsto> p\<lparr>q_ref := q_ref p + 1\<rparr>)) (file_pipes (fd_files st)) (eq(q := eq q + 1))"
    using pipes.counts_inc [OF d(6) p] .
  have "pipes.counts ((fd_pipes st)(q \<mapsto> p\<lparr>q_ref := q_ref p + 1\<rparr>)) ((file_pipes (fd_files st))(?n := Some q))
      (\<lambda>y. (eq(q := eq q + 1)) y + (if file_pipes (fd_files st) ?n = Some y then 1 else 0) - (if Some q = Some y then 1 else 0))"
    by (rule pipes.counts_upd [OF c d(10)]) (use q in auto)
  moreover have "(\<lambda>y. (eq(q := eq q + 1)) y + (if file_pipes (fd_files st) ?n = Some y then 1 else 0) - (if Some q = Some y then 1 else 0)) = eq"
    using fp by auto
  ultimately have c2: "pipes.counts ((fd_pipes st)(q \<mapsto> p\<lparr>q_ref := q_ref p + 1\<rparr>)) ((file_pipes (fd_files st))(?n := Some q)) eq" by simp
  have "unused (Suc ?n) (st\<lparr>fd_pipes := (fd_pipes st)(q \<mapsto> p\<lparr>q_ref := q_ref p + 1\<rparr>), fd_next := Suc ?n, fd_files := (fd_files st)(?n \<mapsto> ?b)\<rparr>)"
    using d(7) unusedD(3) [OF d(7) p] by (auto simp: unused_def)
  moreover have "modes_ok ((fd_files st)(?n \<mapsto> ?b))" using d(8) md by (auto simp: modes_ok_def)
  ultimately show ?thesis
    using d(1-5) c2 files.counts_new [OF d(5) fresh_next(2) [OF r], of ?b] PipeFile p
    by (auto simp: new_file_def ref_pipe_def rc_def)
qed

lemma makeFd_rc:
  assumes r: "rc eo ef eq st" and f: "fd_files st f = Some b"
  shows "\<exists>x st'. makeFd f st = Inr (x, st') \<and> x = fd_next st \<and> rc (eo(x := 1)) ef eq st' \<and> fd_slots st' = fd_slots st \<and>
    fd_objs st' x = Some \<lparr>o_ref = 1, o_file = f, o_cloexec = False\<rparr> \<and> fd_next st' = Suc x"
proof -
  note d = rcD [OF r]
  let ?o = "\<lparr>o_ref = 1, o_file = f, o_cloexec = False\<rparr>" and ?n = "fd_next st" and ?b = "b\<lparr>f_ref := f_ref b + 1\<rparr>"
  have of: "obj_files (fd_objs st) ?n = None" using fresh_next(1) [OF r] by (simp add: obj_files_def)
  have c: "files.counts ((fd_files st)(f \<mapsto> ?b)) (obj_files (fd_objs st)) (ef(f := ef f + 1))"
    using files.counts_inc [OF d(5) f] .
  have ge: "0 \<le> ef f" using files.countsD [OF d(5), of f] by (simp add: files.exact_def)
  have "files.counts ((fd_files st)(f \<mapsto> ?b)) ((obj_files (fd_objs st))(?n := Some f))
      (\<lambda>y. (ef(f := ef f + 1)) y + (if obj_files (fd_objs st) ?n = Some y then 1 else 0) - (if Some f = Some y then 1 else 0))"
    by (rule files.counts_upd [OF c d(9)]) (use ge in auto)
  moreover have "(\<lambda>y. (ef(f := ef f + 1)) y + (if obj_files (fd_objs st) ?n = Some y then 1 else 0) - (if Some f = Some y then 1 else 0)) = ef"
    using of by auto
  ultimately have c2: "files.counts ((fd_files st)(f \<mapsto> ?b)) ((obj_files (fd_objs st))(?n := Some f)) ef" by simp
  have fp: "(file_pipes (fd_files st))(f := (case f_body b of PipeFile p \<Rightarrow> Some p | VNodeFile _ \<Rightarrow> None)) = file_pipes (fd_files st)"
    using f by (auto simp: file_pipes_def)
  have "unused (Suc ?n) (st\<lparr>fd_files := (fd_files st)(f \<mapsto> ?b), fd_next := Suc ?n, fd_objs := (fd_objs st)(?n \<mapsto> ?o)\<rparr>)"
    using d(7) unusedD(2) [OF d(7) f] by (auto simp: unused_def)
  with d(1-4,6,8) c2 fp objs.counts_new [OF d(4) fresh_next(1) [OF r], of ?o] f modes_ok_upd(2) [OF d(8) f, of ?b] show ?thesis
    by (simp add: makeFd_def ref_file_def rc_def)
qed

lemma ref_obj_rc:
  assumes r: "rc eo ef eq st" and x: "fd_objs st x = Some b"
  shows "\<exists>st'. ref_obj x st = Inr st' \<and> rc (eo(x := eo x + 1)) ef eq st' \<and> fd_slots st' = fd_slots st"
proof -
  note d = rcD [OF r]
  have "(obj_files (fd_objs st))(x \<mapsto> o_file b) = obj_files (fd_objs st)" using x by (auto simp: obj_files_def)
  with d objs.counts_inc [OF d(4) x] unusedD(1) [OF d(7) x] x show ?thesis
    by (simp add: ref_obj_def rc_def unused_upd)
qed

lemma set_cloexec_rc:
  assumes r: "rc eo ef eq st" and x: "fd_objs st x = Some b"
  shows "\<exists>st'. set_cloexec x v st = Inr (Inr (), st') \<and> rc eo ef eq st' \<and> fd_slots st' = fd_slots st \<and> fd_next st' = fd_next st"
proof -
  note d = rcD [OF r]
  have "(obj_files (fd_objs st))(x \<mapsto> o_file b) = obj_files (fd_objs st)" using x by (auto simp: obj_files_def)
  with d objs.counts_same [OF d(4) x, of "b\<lparr>o_cloexec := v\<rparr>"] unusedD(1) [OF d(7) x] x show ?thesis
    by (simp add: set_cloexec_def with_obj_def rc_def unused_upd)
qed

section \<open>The calls keep the counts\<close>

abbreviation none :: "nat \<Rightarrow> int" where
  "none \<equiv> \<lambda>_. 0"

definition rc0 :: "fds \<Rightarrow> bool" where
  "rc0 st \<longleftrightarrow> rc none none none st"

lemma obj_file_live:
  assumes "rc eo ef eq st" "fd_objs st x = Some b"
  shows "\<exists>c. fd_files st (o_file b) = Some c"
  using files.counts_live [OF rcD(5,9) [OF assms(1)], of x "o_file b"] assms(2) by (simp add: obj_files_def)

lemma slot_live: "rc eo ef eq st \<Longrightarrow> fd_slots st k = Some x \<Longrightarrow> \<exists>b. fd_objs st x = Some b"
  using objs.counts_live [OF rcD(4,1)] by blast

lemmas live0 = obj_file_live [of none none none, folded rc0_def] slot_live [of none none none, folded rc0_def]

lemma put_rc:
  assumes r: "rc none ef eq st" and f: "fd_files st f = Some b"
  shows "\<exists>x s1 s2 st'. makeFd f st = Inr (x, s1) \<and> set_cloexec x c s1 = Inr (Inr (), s2) \<and> set_slot k (Some x) s1 = Inr st' \<and>
    rc none ef eq st'"
    and "\<exists>x s1 s2 st'. makeFd f st = Inr (x, s1) \<and> set_cloexec x c s1 = Inr (Inr (), s2) \<and> set_slot k (Some x) s2 = Inr st' \<and>
    rc none ef eq st'"
proof -
  obtain x s1 where s1: "makeFd f st = Inr (x, s1)" "rc (none(x := 1)) ef eq s1" "\<exists>b. fd_objs s1 x = Some b"
    using makeFd_rc [OF r f] by blast
  obtain s2 where s2: "set_cloexec x c s1 = Inr (Inr (), s2)" "rc (none(x := 1)) ef eq s2"
    using set_cloexec_rc [OF s1(2)] s1(3) by blast
  have z: "(none(x := 1))(x := (none(x := 1)) x - 1) = none" by auto
  have k: "\<exists>st'. set_slot k (Some x) s = Inr st' \<and> rc none ef eq st'" if "rc (none(x := 1)) ef eq s" for s
    using set_slot_rc [OF that, of "Some x" k] z by auto
  show "\<exists>x s1 s2 st'. makeFd f st = Inr (x, s1) \<and> set_cloexec x c s1 = Inr (Inr (), s2) \<and> set_slot k (Some x) s1 = Inr st' \<and>
      rc none ef eq st'" using s1 s2 k [OF s1(2)] by blast
  show "\<exists>x s1 s2 st'. makeFd f st = Inr (x, s1) \<and> set_cloexec x c s1 = Inr (Inr (), s2) \<and> set_slot k (Some x) s2 = Inr st' \<and>
      rc none ef eq st'" using s1 s2 k [OF s2(2)] by blast
qed

lemmas call_eval = sys_bind_eq sys_catch_eq lift_exec_def lift_step_def

lemma closeFd_total: "rc0 st \<Longrightarrow> \<exists>r st'. closeFd t fd st = Inr (r, st') \<and> rc0 st'"
  using set_slot_rc [of none none none st None "(t, nat fd)"]
  by (auto simp: closeFd_def getFileSlot_def call_eval rc0_def)

lemma set_none_total: "rc0 st \<Longrightarrow> \<exists>st'. set_slot k None st = Inr st' \<and> rc0 st' \<and> fd_slots st' = (fd_slots st)(k := None)"
  using set_slot_rc [of none none none st None k] by (auto simp: rc0_def)

lemma exec_slot_total: "rc0 st \<Longrightarrow> \<exists>st'. exec_slot t i st = Inr st' \<and> rc0 st'"
  using set_none_total [of st "(t, i)"] slot_live [of none none none st "(t, i)"]
  by (cases "fd_slots st (t, i)") (auto simp: exec_slot_def rc0_def)

lemma copy_slot_total:
  assumes r: "rc0 st" and ne: "fd_slots st (child, i) = None"
  shows "\<exists>st'. copy_slot parent child i st = Inr st' \<and> rc0 st' \<and> fd_slots st' = (fd_slots st)((child, i) := fd_slots st (parent, i))"
proof (cases "fd_slots st (parent, i)")
  case None
  then show ?thesis using set_none_total [OF r, of "(child, i)"] by (auto simp: copy_slot_def)
next
  case (Some x)
  then obtain b where b: "fd_objs st x = Some b" using live0(2) [OF r] by blast
  let ?s = "st\<lparr>fd_slots := (fd_slots st)((child, i) := Some x)\<rparr>"
  obtain s1 where s1: "ref_obj x st = Inr s1" "rc (none(x := 1)) none none s1" "fd_slots s1 = fd_slots st"
    using ref_obj_rc [of none none none st x b] r b by (auto simp: rc0_def)
  have z: "(none(x := 1))(x := (none(x := 1)) x - 1) = none" by auto
  obtain s2 where s2: "set_slot (child, i) (Some x) s1 = Inr s2" "rc none none none s2"
    "fd_slots s2 = (fd_slots st)((child, i) := Some x)"
    using set_slot_rc [OF s1(2), of "Some x" "(child, i)"] z s1(3) by auto
  have "copy_slot parent child i st = Inr s2"
    using s1(1,3) s2(1) ne Some b by (auto simp: copy_slot_def set_slot_def ref_obj_def)
  with s2(2,3) Some show ?thesis by (simp add: rc0_def)
qed

lemma each_slot_total:
  assumes "\<And>i st. i \<in> set js \<Longrightarrow> rc0 st \<Longrightarrow> \<exists>st'. f i st = Inr st' \<and> rc0 st'" "rc0 st"
  shows "\<exists>st'. each_slot f js st = Inr st' \<and> rc0 st'"
  using assms
proof (induction js arbitrary: st)
  case (Cons i js)
  obtain s1 where s1: "f i st = Inr s1" "rc0 s1" using Cons.prems(1) [of i st] Cons.prems(2) by auto
  obtain s2 where "each_slot f js s1 = Inr s2" "rc0 s2" using Cons.IH [OF _ s1(2)] Cons.prems(1) by auto
  with s1 show ?case by simp
qed simp

lemma file_prepareForExec_total: "rc0 st \<Longrightarrow> \<exists>st'. file_prepareForExec t st = Inr st' \<and> rc0 st'"
  unfolding file_prepareForExec_def by (rule each_slot_total) (auto intro: exec_slot_total)

lemma clear_slots:
  "rc0 st \<Longrightarrow> \<exists>st'. each_slot (\<lambda>i. set_slot (t, i) None) js st = Inr st' \<and> rc0 st' \<and>
    (\<forall>k. fd_slots st' k = (if fst k = t \<and> snd k \<in> set js then None else fd_slots st k))"
proof (induction js arbitrary: st)
  case (Cons i js)
  obtain s1 where s1: "set_slot (t, i) None st = Inr s1" "rc0 s1" "fd_slots s1 = (fd_slots st)((t, i) := None)"
    using set_none_total [OF Cons.prems] by blast
  obtain s2 where s2: "each_slot (\<lambda>i. set_slot (t, i) None) js s1 = Inr s2" "rc0 s2"
    "\<forall>k. fd_slots s2 k = (if fst k = t \<and> snd k \<in> set js then None else fd_slots s1 k)"
    using Cons.IH [OF s1(2)] by blast
  then show ?case using s1 by auto
qed auto

lemma copy_slots:
  "rc0 st \<Longrightarrow> parent \<noteq> child \<Longrightarrow> distinct js \<Longrightarrow> \<forall>i\<in>set js. fd_slots st (child, i) = None \<Longrightarrow>
    \<exists>st'. each_slot (copy_slot parent child) js st = Inr st' \<and> rc0 st' \<and>
    (\<forall>k. fd_slots st' k = (if fst k = child \<and> snd k \<in> set js then fd_slots st (parent, snd k) else fd_slots st k))"
proof (induction js arbitrary: st)
  case (Cons i js)
  obtain s1 where s1: "copy_slot parent child i st = Inr s1" "rc0 s1"
    "fd_slots s1 = (fd_slots st)((child, i) := fd_slots st (parent, i))"
    using copy_slot_total [OF Cons.prems(1), of child i parent] Cons.prems(4) by auto
  have e: "\<forall>j\<in>set js. fd_slots s1 (child, j) = None" using Cons.prems(3,4) s1(3) by auto
  obtain s2 where s2: "each_slot (copy_slot parent child) js s1 = Inr s2" "rc0 s2"
    "\<forall>k. fd_slots s2 k = (if fst k = child \<and> snd k \<in> set js then fd_slots s1 (parent, snd k) else fd_slots s1 k)"
    using Cons.IH [OF s1(2) Cons.prems(2) _ e] Cons.prems(3) by auto
  then show ?case using s1 Cons.prems(2,3) by auto
qed auto

lemma findFileSlot_cases:
  obtains i where "findFileSlot t h st = Inr (Inr i, st)" "fd_slots st (t, i) = None" "h \<le> i" "i < max_fd"
    "\<forall>j. h \<le> j \<and> j < i \<longrightarrow> fd_slots st (t, j) \<noteq> None"
  | "findFileSlot t h st = Inr (Inl SYS_EMFILE, st)" "\<forall>j. h \<le> j \<and> j < max_fd \<longrightarrow> fd_slots st (t, j) \<noteq> None"
proof (cases "find (\<lambda>i. fd_slots st (t, i) = None) [h..<max_fd]")
  case None
  then have "findFileSlot t h st = Inr (Inl SYS_EMFILE, st)" by (simp add: findFileSlot_def)
  with None show thesis using that(2) by (auto simp: find_None_iff)
next
  case (Some i)
  then obtain n where n: "n < max_fd - h" "fd_slots st (t, h + n) = None" "i = h + n" "\<forall>j<n. fd_slots st (t, h + j) \<noteq> None"
    by (auto simp: find_Some_iff)
  have "fd_slots st (t, j) \<noteq> None" if "h \<le> j" "j < i" for j
    using n(4) [rule_format, of "j - h"] n(3) that by auto
  with n Some show thesis by (intro that(1) [of i]) (auto simp: findFileSlot_def)
qed

lemma installFd_rc:
  assumes "rc0 st" "installFd t r h c st = Inr (q, st')"
  shows "rc0 st'"
proof (cases rule: findFileSlot_cases [of t h st])
  case (1 i)
  obtain x b where x: "r = Some x" "fd_objs st x = Some b"
    using assms(2) 1(1) by (auto simp: installFd_def call_eval with_obj_def split: option.splits)
  obtain fb where "fd_files st (o_file b) = Some fb" using live0(1) [OF assms(1) x(2)] by blast
  from put_rc(2) [OF _ this, of none none c "(t, i)"] assms x 1(1) show ?thesis
    by (auto simp: installFd_def call_eval with_obj_def rc0_def)
next
  case 2
  then show ?thesis using assms by (auto simp: installFd_def call_eval)
qed

lemma installFdTo_rc:
  assumes "rc0 st" "installFdTo t r fd st = Inr (q, st')"
  shows "rc0 st'"
proof (cases "fd < 0 \<or> nat fd \<ge> max_fd")
  case True
  then show ?thesis using assms by (auto simp: installFdTo_def call_eval getFileSlot_def)
next
  case False
  then obtain x b where x: "r = Some x" "fd_objs st x = Some b"
    using assms(2) by (auto simp: installFdTo_def call_eval with_obj_def getFileSlot_def split: option.splits)
  obtain fb where "fd_files st (o_file b) = Some fb" using live0(1) [OF assms(1) x(2)] by blast
  from put_rc(1) [OF _ this, of none none False "(t, nat fd)"] assms x False show ?thesis
    by (auto simp: installFdTo_def call_eval with_obj_def rc0_def getFileSlot_def)
qed

lemma lift_fs_rc: "rc eo ef eq st \<Longrightarrow> lift_fs m st = Inr (r, st') \<Longrightarrow> rc eo ef eq st'"
  by (auto simp: lift_fs_def rc_def unused_def sbind_def split: sum.splits)

lemma set_slot_at: "set_slot k x st = Inr st' \<Longrightarrow> fd_slots st' k = x"
  by (auto simp: set_slot_def sbind_def split: sum.splits)

lemma sys_open_rc:
  assumes r: "rc0 st" and ok: "sys_open env t name flags mode st = Inr (q, st')"
  shows "rc0 st'"
proof (cases name)
  case (Inl e)
  then show ?thesis using r ok by (auto simp: sys_open_def call_eval)
next
  case (Inr fname)
  obtain q1 s1 where l1: "lift_fs (fs_open env fname flags mode) st = Inr (q1, s1)"
    using ok Inr by (cases "lift_fs (fs_open env fname flags mode) st") (auto simp: sys_open_def call_eval)
  note s1 = l1 lift_fs_rc [OF r [unfolded rc0_def] l1]
  show ?thesis
  proof (cases q1)
    case (Inl e)
    with s1 \<open>name = Inr fname\<close> ok show ?thesis by (simp add: sys_open_def call_eval rc0_def)
  next
    case opened: (Inr fob)
    obtain f s2 where s2: "new_file (VNodeFile (fo_vnode fob)) (fo_mode fob) s1 = Inr (f, s2)" "rc none (none(f := 1)) none s2"
      using new_file_rc [OF s1(2), of "VNodeFile (fo_vnode fob)" "fo_mode fob"] by auto
    obtain fb where fb: "fd_files s2 f = Some fb" using files.counts_temp [OF rcD(5) [OF s2(2)], of f] by auto
    have z: "(none(f := 1))(f := (none(f := 1)) f - 1) = none" by auto
    have drop: "\<exists>st'. unref_file f s = Inr st' \<and> rc0 st'" if "rc none (none(f := 1)) none s" for s
      using unref_file_rc [OF that, of f] z by (auto simp: rc0_def)
    note ev = sys_open_def call_eval Inr s1(1) opened s2(1) installFile_def
    show ?thesis
    proof (cases rule: findFileSlot_cases [of t 0 s2])
      case 2
      then show ?thesis using ok drop [OF s2(2)] by (auto simp: ev)
    next
      case (1 i)
      obtain x s3 s4 where s3: "makeFd f s2 = Inr (x, s3)" "set_slot (t, i) (Some x) s3 = Inr s4" "rc none (none(f := 1)) none s4"
        "fd_slots s4 (t, i) = Some x"
        using put_rc(1) [OF s2(2) fb, of False "(t, i)"] set_slot_at by blast
      obtain b where b: "fd_objs s4 x = Some b" using slot_live [OF s3(3,4)] by blast
      obtain s5 where s5: "set_cloexec x True s4 = Inr (Inr (), s5)" "rc none (none(f := 1)) none s5"
        using set_cloexec_rc [OF s3(3) b] by blast
      show ?thesis using ok 1(1) s3(1,2) s5(1) drop [OF s3(3)] drop [OF s5(2)] by (auto simp: ev split: if_splits)
    qed
  qed
qed

lemma sys_pipe_total:
  assumes r: "rc0 st"
  shows "\<exists>q st'. sys_pipe t check st = Inr (q, st') \<and> rc0 st'"
proof (cases check)
  case (Inl e)
  then show ?thesis using r by (simp add: sys_pipe_def call_eval)
next
  case ck: (Inr u)
  show ?thesis
  proof (cases rule: findFileSlot_cases [of t 0 st])
    case 2
    then show ?thesis using r ck by (simp add: sys_pipe_def call_eval)
  next
    case (1 i)
    note first = 1(1)
    show ?thesis
    proof (cases rule: findFileSlot_cases [of t "Suc i" st])
      case 2
      then show ?thesis using r ck first by (simp add: sys_pipe_def call_eval)
    next
      case (1 j)
      obtain q s1 where s1: "new_pipe st = (q, s1)" "q = fd_next st" "rc none none (none(q := 1)) s1" "fd_next s1 = Suc q"
        using new_pipe_rc [of none none none st] r by (auto simp: rc0_def)
      obtain fr s2 where s2: "new_file (PipeFile q) O_RDONLY s1 = Inr (fr, s2)" "rc none (none(fr := 1)) (none(q := 1)) s2"
          "fr = fd_next s1" "fd_next s2 = Suc fr"
        using new_file_rc [OF s1(3), of "PipeFile q" O_RDONLY] by auto
      obtain fw s3 where s3: "new_file (PipeFile q) O_WRONLY s2 = Inr (fw, s3)" "rc none (none(fr := 1, fw := 1)) (none(q := 1)) s3"
          "fw = fd_next s2"
        using new_file_rc [OF s2(2), of "PipeFile q" O_WRONLY] by auto
      have ne: "fr \<noteq> fw" using s2(4) s3(3) by simp
      have e3: "(none(fr := 1, fw := 1)) fr = 1" "(none(fr := 1, fw := 1)) fw = 1" using ne by simp_all
      obtain br where br: "fd_files s3 fr = Some br" using files.counts_temp [OF rcD(5) [OF s3(2)], of fr] e3 by auto
      obtain xr s4 s5 where s5: "makeFd fr s3 = Inr (xr, s4)" "set_slot (t, i) (Some xr) s4 = Inr s5"
          "rc none (none(fr := 1, fw := 1)) (none(q := 1)) s5"
        using put_rc(1) [OF s3(2) br, of False "(t, i)"] by auto
      obtain bw where bw: "fd_files s5 fw = Some bw" using files.counts_temp [OF rcD(5) [OF s5(3)], of fw] e3 by auto
      obtain xw s6 s7 where s7: "makeFd fw s5 = Inr (xw, s6)" "set_slot (t, j) (Some xw) s6 = Inr s7"
          "rc none (none(fr := 1, fw := 1)) (none(q := 1)) s7"
        using put_rc(1) [OF s5(3) bw, of False "(t, j)"] by auto
      have z: "(none(fr := 1, fw := 1))(fw := 1 - 1) = none(fr := 1)" using ne by auto
      obtain s8 where s8: "unref_file fw s7 = Inr s8" "rc none (none(fr := 1)) (none(q := 1)) s8"
        using unref_file_rc [OF s7(3), of fw] e3 z by auto
      have z2: "(none(fr := 1))(fr := 1 - 1) = none" "(none(q := 1))(q := 1 - 1) = none" by auto
      obtain s9 where s9: "unref_file fr s8 = Inr s9" "rc none none (none(q := 1)) s9"
        using unref_file_rc [OF s8(2), of fr] z2 by auto
      obtain s10 where s10: "unref_pipe q s9 = Inr s10" "rc none none none s10"
        using unref_pipe_rc [OF s9(2), of q] z2 by auto
      show ?thesis using ck first 1(1) s1(1) s2(1) s3(1) s5(1,2) s7(1,2) s8(1) s9(1) s10
        by (simp add: sys_pipe_def call_eval rc0_def)
    qed
  qed
qed

text \<open>The other calls change offsets, the file system and the contents of pipes.\<close>

lemma sys_keeps_with_obj: "(\<And>x b. sys_keeps rc0 (f x b)) \<Longrightarrow> sys_keeps rc0 (with_obj r f)"
  unfolding sys_keeps_def with_obj_def by (auto split: option.splits)

lemma sys_keeps_with_file: "(\<And>b. sys_keeps rc0 (g b)) \<Longrightarrow> sys_keeps rc0 (with_file f g)"
  unfolding sys_keeps_def with_file_def by (auto split: option.splits)

lemma sys_keeps_lift_fs: "sys_keeps rc0 (lift_fs m)"
  unfolding sys_keeps_def rc0_def using lift_fs_rc by blast

lemma sys_keeps_getFile: "sys_keeps rc0 (getFile t fd)"
  by (auto simp: sys_keeps_def getFile_def getFileSlot_def sys_bind_eq)

lemma set_offset_keeps: "sys_keeps rc0 (set_offset f v)"
proof (unfold sys_keeps_def, intro allI impI)
  fix st r st' assume r: "rc0 st" and ok: "set_offset f v st = Inr (r, st')"
  note d = rcD [OF r [unfolded rc0_def]]
  obtain b where b: "fd_files st f = Some b" "st' = st\<lparr>fd_files := (fd_files st)(f \<mapsto> b\<lparr>f_offset := v\<rparr>)\<rparr>"
    using ok by (auto simp: set_offset_def with_file_def split: option.splits)
  have "(file_pipes (fd_files st))(f := (case f_body b of PipeFile p \<Rightarrow> Some p | VNodeFile _ \<Rightarrow> None)) = file_pipes (fd_files st)"
    using b(1) by (auto simp: file_pipes_def)
  with d b files.counts_same [OF d(5) b(1), of "b\<lparr>f_offset := v\<rparr>"] unusedD(2) [OF d(7) b(1)]
    modes_ok_upd(2) [OF d(8) b(1), of "b\<lparr>f_offset := v\<rparr>"]
  show "rc0 st'" by (simp add: rc0_def rc_def unused_upd)
qed

lemma on_pipe_keeps: "sys_keeps rc0 (on_pipe q f)"
  unfolding sys_keeps_def rc0_def on_pipe_def Let_def
  by (auto intro: pipe_state_rc split: option.splits prod.splits pass.splits sum.splits)

lemma set_cloexec_keeps: "sys_keeps rc0 (set_cloexec x v)"
  unfolding sys_keeps_def
  using set_cloexec_rc [of none none none, folded rc0_def] by (auto simp: set_cloexec_def with_obj_def split: option.splits)

lemmas fd_keeps = sys_keeps_bind sys_keeps_with_obj sys_keeps_with_file sys_keeps_lift_fs sys_keeps_getFile set_offset_keeps
  on_pipe_keeps set_cloexec_keeps

lemma vnode_seek_keeps: "sys_keeps rc0 (vnode_seek f v offset whence)"
  unfolding vnode_seek_def by (auto intro!: fd_keeps)

lemma advance_keeps: "sys_keeps rc0 (advance f n a)"
  unfolding advance_def by (auto intro!: fd_keeps)

lemma io_keeps:
  "sys_keeps rc0 (FdObj_read dv t b n)" "sys_keeps rc0 (FdObj_write dv t b buf)" "sys_keeps rc0 (FdObj_seek b off wh)"
  "sys_keeps rc0 (FdObj_ioctl dv b rq pm)" "sys_keeps rc0 (file_stat_of nref b)"
  unfolding FdObj_read_def FdObj_write_def FdObj_seek_def FdObj_ioctl_def file_stat_of_def vnode_file_read_def vnode_file_write_def Let_def
  by (auto intro!: fd_keeps vnode_seek_keeps advance_keeps split: file_body.split forwarded.split)

lemma calls_keep:
  "sys_keeps rc0 (sys_read dv t fd ck n)" "sys_keeps rc0 (sys_write dv t fd ck buf)" "sys_keeps rc0 (sys_llseek t fd ck hi lo wh)"
  "sys_keeps rc0 (sys_ioctl dv t fd rq pm)" "sys_keeps rc0 (sys_fstat64 nref t fd ck)" "sys_keeps rc0 (sys_getdents64 t fd ck n)"
  "sys_keeps rc0 (sys_dup t fd)" "sys_keeps rc0 (sys_dup2 t fd fd2)" "sys_keeps rc0 (sys_fcntl64 t fd cmd arg)"
  "sys_keeps rc0 (sys_open env t name flags mode)" "sys_keeps rc0 (sys_pipe t ck)" "sys_keeps rc0 (sys_close t fd)"
proof -
  have i: "sys_keeps rc0 (installFd t r h c)" "sys_keeps rc0 (installFdTo t r fd)" "sys_keeps rc0 (closeFd t fd)" for t r h c fd
    unfolding sys_keeps_def using installFd_rc installFdTo_rc closeFd_total by (blast | metis sum.inject(2) prod.inject)+
  show "sys_keeps rc0 (sys_read dv t fd ck n)" "sys_keeps rc0 (sys_write dv t fd ck buf)" "sys_keeps rc0 (sys_llseek t fd ck hi lo wh)"
    "sys_keeps rc0 (sys_ioctl dv t fd rq pm)" "sys_keeps rc0 (sys_fstat64 nref t fd ck)" "sys_keeps rc0 (sys_getdents64 t fd ck n)"
    unfolding sys_read_def sys_write_def sys_llseek_def sys_ioctl_def sys_fstat64_def sys_getdents64_def
    by (auto intro!: fd_keeps io_keeps split: file_body.split prod.split)
  show "sys_keeps rc0 (sys_dup t fd)" "sys_keeps rc0 (sys_dup2 t fd fd2)" "sys_keeps rc0 (sys_fcntl64 t fd cmd arg)" "sys_keeps rc0 (sys_close t fd)"
    unfolding sys_dup_def sys_dup2_def sys_fcntl64_def sys_close_def by (auto intro!: fd_keeps i)
  show "sys_keeps rc0 (sys_open env t name flags mode)" unfolding sys_keeps_def using sys_open_rc by blast
  show "sys_keeps rc0 (sys_pipe t ck)" unfolding sys_keeps_def using sys_pipe_total by (metis sum.inject(2) prod.inject)
qed

section \<open>Properties\<close>

text \<open>The life of the descriptor tables: any task makes any call, is forked, executes a program or exits. The table of
  a new task is empty.\<close>

inductive fd_step :: "fds \<Rightarrow> fds \<Rightarrow> bool" where
  reads: "sys_read dv t fd ck n st = Inr (r1, st') \<Longrightarrow> fd_step st st'"
| writes: "sys_write dv t fd ck buf st = Inr (r2, st') \<Longrightarrow> fd_step st st'"
| seeks: "sys_llseek t fd ck hi lo wh st = Inr (r3, st') \<Longrightarrow> fd_step st st'"
| controls: "sys_ioctl dv t fd rq pm st = Inr (r4, st') \<Longrightarrow> fd_step st st'"
| lists: "sys_getdents64 t fd ck n st = Inr (r5, st') \<Longrightarrow> fd_step st st'"
| dups: "sys_dup t fd st = Inr (r6, st') \<Longrightarrow> fd_step st st'"
| dup2s: "sys_dup2 t fd fd2 st = Inr (r7, st') \<Longrightarrow> fd_step st st'"
| fcntls: "sys_fcntl64 t fd cmd arg st = Inr (r8, st') \<Longrightarrow> fd_step st st'"
| opens: "sys_open env t name flags mode st = Inr (r9, st') \<Longrightarrow> fd_step st st'"
| pipes: "sys_pipe t ck st = Inr (r10, st') \<Longrightarrow> fd_step st st'"
| closes: "sys_close t fd st = Inr (r11, st') \<Longrightarrow> fd_step st st'"
| forks: "parent \<noteq> child \<Longrightarrow> \<forall>i<max_fd. fd_slots st (child, i) = None \<Longrightarrow> fork_files parent child st = Inr st' \<Longrightarrow> fd_step st st'"
| execs: "file_prepareForExec t st = Inr st' \<Longrightarrow> fd_step st st'"
| exits: "exit_files t st = Inr st' \<Longrightarrow> fd_step st st'"

definition no_fds :: "vfs \<Rightarrow> fds" where
  "no_fds fs = \<lparr>fd_slots = \<lambda>_. None, fd_objs = \<lambda>_. None, fd_files = \<lambda>_. None, fd_pipes = \<lambda>_. None, fd_next = 0,
    fd_effects = [], fd_fs = fs\<rparr>"

inductive fd_reach :: "fds \<Rightarrow> bool" where
  start: "fd_reach (no_fds fs)"
| more: "fd_reach st \<Longrightarrow> fd_step st st' \<Longrightarrow> fd_reach st'"

lemma no_fds_rc: "rc0 (no_fds fs)"
  by (simp add: rc0_def rc_def no_fds_def objs.counts_def files.counts_def pipes.counts_def objs.exact_def files.exact_def
      pipes.exact_def refs_def obj_files_def file_pipes_def unused_def modes_ok_def)

lemma fork_files_total:
  assumes "rc0 st" "parent \<noteq> child" "\<forall>i<max_fd. fd_slots st (child, i) = None"
  shows "\<exists>st'. fork_files parent child st = Inr st' \<and> rc0 st' \<and>
    (\<forall>k. fd_slots st' k = (if fst k = child \<and> snd k < max_fd then fd_slots st (parent, snd k) else fd_slots st k))"
  using copy_slots [OF assms(1,2), of "[0..<max_fd]"] assms(3) by (simp add: fork_files_def)

lemma exit_files_total:
  "rc0 st \<Longrightarrow> \<exists>st'. exit_files t st = Inr st' \<and> rc0 st' \<and>
    (\<forall>k. fd_slots st' k = (if fst k = t \<and> snd k < max_fd then None else fd_slots st k))"
  using clear_slots [of st t "[0..<max_fd]"] by (simp add: exit_files_def)

lemma fd_step_rc: "fd_step st st' \<Longrightarrow> rc0 st \<Longrightarrow> rc0 st'"
proof (induction rule: fd_step.induct)
  case (forks parent child st st')
  show ?case using fork_files_total [OF forks.prems forks.hyps(1,2)] forks.hyps(3) by auto
next
  case (execs t st st')
  show ?case using file_prepareForExec_total [OF execs.prems, of t] execs.hyps by auto
next
  case (exits t st st')
  show ?case using exit_files_total [OF exits.prems, of t] exits.hyps by auto
qed (blast intro: sys_keepsD calls_keep)+

lemma fd_reach_rc: "fd_reach st \<Longrightarrow> rc0 st"
  by (induction rule: fd_reach.induct) (auto intro: no_fds_rc fd_step_rc)

text \<open>C10: reference counts are exact. Whatever the tasks do with their descriptors, every descriptor in a table refers to
  a live descriptor object, every descriptor object to a live file object, every pipe end to a live pipe; each count is
  the number of references that exist, so nothing is freed while it is referred to and nothing without references
  stays.\<close>

theorem fd_counts_exact:
  assumes "fd_reach st"
  shows "(\<forall>k x. fd_slots st k = Some x \<longrightarrow> fd_objs st x \<noteq> None) \<and>
    (\<forall>x b. fd_objs st x = Some b \<longrightarrow> o_ref b = int (card {k. fd_slots st k = Some x}) \<and> 0 < o_ref b \<and> fd_files st (o_file b) \<noteq> None) \<and>
    (\<forall>f b. fd_files st f = Some b \<longrightarrow> f_ref b = int (card {x. map_option o_file (fd_objs st x) = Some f}) \<and> 0 < f_ref b) \<and>
    (\<forall>f b q. fd_files st f = Some b \<and> f_body b = PipeFile q \<longrightarrow> fd_pipes st q \<noteq> None) \<and>
    (\<forall>q p. fd_pipes st q = Some p \<longrightarrow> q_ref p = int (card {f. file_pipes (fd_files st) f = Some q}) \<and> 0 < q_ref p)"
proof -
  have r: "rc none none none st" using fd_reach_rc [OF assms] by (simp add: rc0_def)
  note d = rcD [OF r]
  have 1: "fd_objs st x \<noteq> None" if "fd_slots st k = Some x" for k x using slot_live [OF r that] by blast
  have 2: "o_ref b = int (card {k. fd_slots st k = Some x}) \<and> 0 < o_ref b \<and> fd_files st (o_file b) \<noteq> None"
    if "fd_objs st x = Some b" for x b
    using objs.countsD [OF d(4), of x] that obj_file_live [OF r that] by (auto simp: objs.exact_def refs_def)
  have 3: "f_ref b = int (card {x. map_option o_file (fd_objs st x) = Some f}) \<and> 0 < f_ref b" if "fd_files st f = Some b" for f b
    using files.countsD [OF d(5), of f] that by (auto simp: files.exact_def refs_def obj_files_def)
  have 4: "fd_pipes st q \<noteq> None" if "fd_files st f = Some b" "f_body b = PipeFile q" for f b q
    using pipes.counts_live [OF d(6,10), of f q] that by (auto simp: file_pipes_def)
  have 5: "q_ref p = int (card {f. file_pipes (fd_files st) f = Some q}) \<and> 0 < q_ref p" if "fd_pipes st q = Some p" for q p
    using pipes.countsD [OF d(6), of q] that by (auto simp: pipes.exact_def refs_def)
  have a: "\<forall>k x. fd_slots st k = Some x \<longrightarrow> fd_objs st x \<noteq> None" by (intro allI impI) (rule 1)
  have b: "\<forall>x b. fd_objs st x = Some b \<longrightarrow> o_ref b = int (card {k. fd_slots st k = Some x}) \<and> 0 < o_ref b \<and> fd_files st (o_file b) \<noteq> None"
    by (intro allI impI) (rule 2)
  have c: "\<forall>f b. fd_files st f = Some b \<longrightarrow> f_ref b = int (card {x. map_option o_file (fd_objs st x) = Some f}) \<and> 0 < f_ref b"
    by (intro allI impI) (rule 3)
  have e: "\<forall>f b q. fd_files st f = Some b \<and> f_body b = PipeFile q \<longrightarrow> fd_pipes st q \<noteq> None"
    by (intro allI impI, elim conjE) (rule 4)
  have g: "\<forall>q p. fd_pipes st q = Some p \<longrightarrow> q_ref p = int (card {f. file_pipes (fd_files st) f = Some q}) \<and> 0 < q_ref p"
    by (intro allI impI) (rule 5)
  show ?thesis by (intro conjI a b c e g)
qed

text \<open>A concrete state: one task has made a pipe and duplicated its reading end.\<close>

definition empty_vfs :: vfs where
  "empty_vfs = \<lparr>rf_nodes = \<lambda>_. None, rf_next = 0, rf_supers = [], vf_dentries = \<lambda>_. None, vf_dnext = 0, vf_counter = 0,
    vf_cache = \<lambda>_. None, vf_mounts = []\<rparr>"

lemmas fd_eval = call_eval findFileSlot_def getFile_def getFileSlot_def with_obj_def makeFd_def new_file_def new_pipe_def set_slot_def
  ref_file_def ref_pipe_def unref_file_def unref_pipe_def unref_obj_def set_cloexec_def no_fds_def max_fd_def upt_rec

lemma piped: "\<exists>st. sys_pipe 1 (Inr ()) (no_fds empty_vfs) = Inr (Inr (0, 1), st) \<and> fd_reach st \<and>
    fd_slots st (1, 0) = Some 3 \<and> fd_slots st (1, 2) = None \<and>
    (\<exists>st'. sys_dup 1 0 st = Inr (Inr 2, st') \<and> fd_reach st' \<and> fd_slots st' (1, 0) = Some 3 \<and> fd_slots st' (1, 2) = Some 5 \<and>
      fd_objs st' 3 = Some \<lparr>o_ref = 1, o_file = 1, o_cloexec = False\<rparr> \<and> fd_objs st' 5 = Some \<lparr>o_ref = 1, o_file = 1, o_cloexec = False\<rparr> \<and>
      fd_files st' 1 = Some \<lparr>f_ref = 2, f_mode = O_RDONLY, f_offset = 0, f_body = PipeFile 0\<rparr> \<and> fd_slots st' (1, 5) = None)"
  (is "\<exists>st. ?P st \<and> fd_reach st \<and> ?Q st \<and> ?N st \<and> (\<exists>st'. ?D st st' \<and> fd_reach st' \<and> ?R st')")
proof -
  have "\<exists>st. ?P st \<and> ?Q st \<and> ?N st \<and> (\<exists>st'. ?D st st' \<and> ?R st')"
    by (simp add: sys_pipe_def sys_dup_def installFd_def fd_eval)
  then obtain st st' where s: "?P st" "?Q st" "?N st" "?D st st'" "?R st'" by blast
  have r: "fd_reach st" using fd_reach.more [OF fd_reach.start fd_step.pipes [OF s(1)]] .
  have "fd_reach st'" using fd_reach.more [OF r fd_step.dups [OF s(4)]] .
  with s r show ?thesis by blast
qed

theorem fd_counts_exact_witness:
  "\<exists>st b. sys_pipe 1 (Inr ()) (no_fds empty_vfs) = Inr (Inr (0, 1), st) \<and> fd_reach st \<and> fd_slots st (1, 0) = Some 3 \<and>
    fd_objs st 3 = Some b \<and> o_ref b = int (card {k. fd_slots st k = Some 3}) \<and> fd_files st (o_file b) \<noteq> None"
proof -
  obtain st where st: "sys_pipe 1 (Inr ()) (no_fds empty_vfs) = Inr (Inr (0, 1), st)" "fd_reach st" "fd_slots st (1, 0) = Some 3"
    using piped by blast
  note e = fd_counts_exact [OF st(2)]
  obtain b where b: "fd_objs st 3 = Some b" using conjunct1 [OF e, rule_format, OF st(3)] by blast
  from conjunct1 [OF conjunct2 [OF e], rule_format, OF b] st b show ?thesis by blast
qed

text \<open>The end of a task never fails, whatever it had open: all its descriptors are gone, every other task keeps
  its own, and the counts stay exact.\<close>

theorem exit_closes_all:
  assumes "fd_reach st"
  shows "\<exists>st'. exit_files t st = Inr st' \<and> fd_reach st' \<and>
    (\<forall>u i. fd_slots st' (u, i) = (if u = t \<and> i < max_fd then None else fd_slots st (u, i)))"
proof -
  obtain st' where s: "exit_files t st = Inr st'" "\<forall>k. fd_slots st' k = (if fst k = t \<and> snd k < max_fd then None else fd_slots st k)"
    using exit_files_total [OF fd_reach_rc [OF assms], of t] by blast
  have "fd_reach st'" using fd_reach.more [OF assms fd_step.exits [OF s(1)]] .
  with s show ?thesis by auto
qed

theorem exit_closes_all_witness:
  "\<exists>st st'. sys_pipe 1 (Inr ()) (no_fds empty_vfs) = Inr (Inr (0, 1), st) \<and> fd_slots st (1, 0) = Some 3 \<and>
    exit_files 1 st = Inr st' \<and> fd_slots st' (1, 0) = None"
proof -
  obtain st where st: "sys_pipe 1 (Inr ()) (no_fds empty_vfs) = Inr (Inr (0, 1), st)" "fd_reach st" "fd_slots st (1, 0) = Some 3"
    using piped by blast
  from exit_closes_all [OF st(2), of 1] st show ?thesis by (auto simp: max_fd_def)
qed

text \<open>A descriptor that is not open is not an error but a fault: \<^verbatim>\<open>getFile\<close> tests the address of the slot instead of
  the reference in it, so reading, writing, seeking, duplicating or inspecting a closed descriptor within the table
  follows a null pointer in the kernel.\<close>

theorem closed_fd_faults:
  assumes "0 \<le> fd" "fd < int max_fd" "fd_slots st (t, nat fd) = None" "n \<le> INT_MAX" "length buf \<le> INT_MAX" "hi < 0x80000000"
  shows "sys_read dv t fd (Inr ()) n st = Inl NullDeref \<and> sys_write dv t fd (Inr ()) buf st = Inl NullDeref \<and>
    sys_llseek t fd (Inr ()) hi lo wh st = Inl NullDeref \<and> sys_fstat64 nref t fd (Inr ()) st = Inl NullDeref \<and>
    sys_ioctl dv t fd rq pm st = Inl NullDeref \<and> sys_getdents64 t fd (Inr ()) n st = Inl NullDeref \<and> sys_dup t fd st = Inl NullDeref"
proof -
  have g: "getFile t fd st = Inr (Inr None, st)" using assms(1-3) by (auto simp: getFile_def getFileSlot_def sys_bind_eq)
  obtain i where i: "findFileSlot t 0 st = Inr (Inr i, st)"
  proof (cases rule: findFileSlot_cases [of t 0 st])
    case 2
    then have "fd_slots st (t, nat fd) \<noteq> None" using assms(1,2) by simp
    with assms(3) show ?thesis by simp
  qed (rule that)
  show ?thesis using g i assms(4-6)
    by (simp add: sys_read_def sys_write_def sys_llseek_def sys_fstat64_def sys_ioctl_def sys_getdents64_def sys_dup_def
        installFd_def sys_bind_eq with_obj_def linorder_not_le)
qed

theorem closed_fd_faults_witness:
  "sys_dup 1 7 (no_fds empty_vfs) = Inl NullDeref \<and> sys_fstat64 0 1 7 (Inr ()) (no_fds empty_vfs) = Inl NullDeref"
  using closed_fd_faults [of 7 "no_fds empty_vfs" 1 0 "[]" 0] by (simp add: max_fd_def no_fds_def)

text \<open>\<^verbatim>\<open>dup\<close> returns the lowest free descriptor, which then refers to the same open file; no other descriptor of any
  task changes. When the table is full it returns \<^verbatim>\<open>EMFILE\<close> and changes nothing.\<close>

theorem dup_lowest:
  assumes r: "fd_reach st" and fd: "0 \<le> fd" "fd < int max_fd" and x: "fd_slots st (t, nat fd) = Some x" "fd_objs st x = Some b"
  shows "(\<forall>j<max_fd. fd_slots st (t, j) \<noteq> None) \<and> sys_dup t fd st = Inr (Inl SYS_EMFILE, st) \<or>
    (\<exists>i y c st'. i < max_fd \<and> fd_slots st (t, i) = None \<and> (\<forall>j<i. fd_slots st (t, j) \<noteq> None) \<and>
      sys_dup t fd st = Inr (Inr i, st') \<and> fd_slots st' = (fd_slots st)((t, i) \<mapsto> y) \<and>
      fd_objs st' y = Some c \<and> o_file c = o_file b \<and> (\<forall>z. z \<noteq> y \<longrightarrow> fd_objs st' z = fd_objs st z))"
proof -
  have g: "getFile t fd st = Inr (Inr (Some x), st)" using fd x by (auto simp: getFile_def getFileSlot_def sys_bind_eq)
  have rc: "rc none none none st" using fd_reach_rc [OF r] by (simp add: rc0_def)
  obtain fb where fb: "fd_files st (o_file b) = Some fb" using obj_file_live [OF rc x(2)] by blast
  show ?thesis
  proof (cases rule: findFileSlot_cases [of t 0 st])
    case 2
    then show ?thesis using g by (simp add: sys_dup_def installFd_def call_eval)
  next
    case (1 i)
    let ?y = "fd_next st" and ?c = "\<lparr>o_ref = 1, o_file = o_file b, o_cloexec = False\<rparr>"
    have "\<exists>st'. sys_dup t fd st = Inr (Inr i, st') \<and> fd_slots st' = (fd_slots st)((t, i) \<mapsto> ?y) \<and> fd_objs st' = (fd_objs st)(?y \<mapsto> ?c)"
      using g 1(1,2) x(2) fb
      by (simp add: sys_dup_def installFd_def call_eval with_obj_def makeFd_def ref_file_def set_cloexec_def set_slot_def)
    with 1 show ?thesis by (intro disjI2 exI [of _ i] exI [of _ ?y] exI [of _ ?c]) auto
  qed
qed

theorem dup_lowest_witness:
  "\<exists>st i y c st'. sys_pipe 1 (Inr ()) (no_fds empty_vfs) = Inr (Inr (0, 1), st) \<and> sys_dup 1 0 st = Inr (Inr i, st') \<and>
    fd_slots st' = (fd_slots st)((1, i) \<mapsto> y) \<and> fd_objs st' y = Some c"
proof -
  obtain st where st: "sys_pipe 1 (Inr ()) (no_fds empty_vfs) = Inr (Inr (0, 1), st)" "fd_reach st"
    "fd_slots st (1, 0) = Some 3" "fd_slots st (1, 2) = None" using piped by blast
  obtain b where b: "fd_objs st 3 = Some b" using slot_live [OF fd_reach_rc [OF st(2), unfolded rc0_def] st(3)] by blast
  have "\<not> (\<forall>j<max_fd. fd_slots st (1, j) \<noteq> None)" using st(4) by (auto simp: max_fd_def intro!: exI [of _ 2])
  then show ?thesis using dup_lowest [OF st(2), of 0 1 3 b] st b by (auto simp: max_fd_def)
qed

text \<open>C37: closing one of two descriptors that share the reading end of a pipe ends the reading end. \<^verbatim>\<open>dup\<close> makes a second
  descriptor object for the same file object, and the destructor of a descriptor object tells the file that it was
  closed; so the other descriptor stays open while the pipe counts as having no reader.\<close>

theorem dup_close_breaks_pipe:
  assumes r: "fd_reach st" and fd: "0 \<le> fd" "fd < int max_fd"
    and x: "fd_slots st (t, nat fd) = Some x" "fd_objs st x = Some b" "o_ref b = 1"
    and f: "fd_files st (o_file b) = Some g" "f_body g = PipeFile q" "f_mode g = O_RDONLY"
    and y: "fd_slots st k = Some y" "y \<noteq> x" "fd_objs st y = Some c" "o_file c = o_file b"
  shows "\<exists>st' p. sys_close t fd st = Inr (Inr 0, st') \<and> fd_slots st' k = Some y \<and> fd_objs st' y = Some c \<and>
    fd_files st' (o_file c) \<noteq> None \<and> fd_pipes st' q = Some p \<and> \<not> p_read_alive (q_state p)"
proof -
  have rc: "rc none none none st" using fd_reach_rc [OF r] by (simp add: rc0_def)
  note d = rcD [OF rc]
  have "file_pipes (fd_files st) (o_file b) = Some q" using f by (simp add: file_pipes_def)
  then obtain p where p: "fd_pipes st q = Some p" using pipes.counts_live [OF d(6,10)] by blast
  have two: "f_ref g \<noteq> 1"
  proof -
    have "{x, y} \<subseteq> {z. obj_files (fd_objs st) z = Some (o_file b)}" using x y by (auto simp: obj_files_def)
    then have "card {x, y} \<le> refs (obj_files (fd_objs st)) (o_file b)"
      unfolding refs_def by (rule card_mono [OF refs_finite [OF d(9)]])
    then show ?thesis using files.countsD [OF d(5), of "o_file b"] f(1) y(2) by (auto simp: files.exact_def)
  qed
  have k: "k \<noteq> (t, nat fd)" using x(1) y(1,2) by auto
  show ?thesis
    using fd x f y p two k
    by (simp add: sys_close_def closeFd_def call_eval getFileSlot_def set_slot_def unref_obj_def onFdClose_def unref_file_def
        PipeObj_onFdClose_def O_RDONLY_def O_ACCMODE_def onReadClosed_def)
qed

theorem dup_close_breaks_pipe_witness:
  "\<exists>st st' st'' p. sys_pipe 1 (Inr ()) (no_fds empty_vfs) = Inr (Inr (0, 1), st) \<and> sys_dup 1 0 st = Inr (Inr 2, st') \<and>
    sys_close 1 0 st' = Inr (Inr 0, st'') \<and> fd_slots st'' (1, 2) = Some 5 \<and> fd_pipes st'' 0 = Some p \<and> \<not> p_read_alive (q_state p)"
proof -
  obtain st st' where s: "sys_pipe 1 (Inr ()) (no_fds empty_vfs) = Inr (Inr (0, 1), st)" "sys_dup 1 0 st = Inr (Inr 2, st')" "fd_reach st'"
    "fd_slots st' (1, 0) = Some 3" "fd_slots st' (1, 2) = Some 5"
    "fd_objs st' 3 = Some \<lparr>o_ref = 1, o_file = 1, o_cloexec = False\<rparr>" "fd_objs st' 5 = Some \<lparr>o_ref = 1, o_file = 1, o_cloexec = False\<rparr>"
    "fd_files st' 1 = Some \<lparr>f_ref = 2, f_mode = O_RDONLY, f_offset = 0, f_body = PipeFile 0\<rparr>"
    using piped by blast
  from dup_close_breaks_pipe [OF s(3), of 0 1 3 _ _ 0 "(1, 2)" 5] s show ?thesis by (auto simp: max_fd_def)
qed

end
