(* ===== verification/Nyan_Console.thy ===== *)
theory Nyan_Console
  imports Nyan_Prelude
begin

unbundle bit_operations_syntax

text \<open>
  The text screen of a terminal (kernel/console/buffer.hpp, kernel/console/buffer.cpp, kernel/vga/entry.hpp): 25 rows
  of 80 cells, the cursor, the interpreter of escape sequences and the output flags of \<^verbatim>\<open>termios\<close>. The second component
  of a display is the memory of the graphics adapter, which all terminals share and only the active one writes. A store
  outside the 2000 cells is an \<open>OutOfBounds\<close> fault. The ports that place the hardware cursor are not modelled.
\<close>

section \<open>State\<close>

type_synonym cell = "u8 \<times> u8"

definition vga_width :: nat where "vga_width = 80"
definition vga_height :: nat where "vga_height = 25"

definition C_Black :: u8 where "C_Black = 0"
definition C_LightGray :: u8 where "C_LightGray = 7"

definition makeAttr :: "u8 \<Rightarrow> u8 \<Rightarrow> u8" where
  "makeAttr fg bg = push_bit 4 bg OR fg"

record termios =
  c_iflag :: u32
  c_oflag :: u32
  c_cflag :: u32
  c_lflag :: u32
  c_line :: u8
  c_cc :: "u8 list"
  c_ispeed :: u32
  c_ospeed :: u32

abbreviation ICRNL :: u32 where "ICRNL \<equiv> 0x100"
abbreviation OPOST :: u32 where "OPOST \<equiv> 1"
abbreviation ONLCR :: u32 where "ONLCR \<equiv> 4"
abbreviation OCRNL :: u32 where "OCRNL \<equiv> 8"
abbreviation ISIG :: u32 where "ISIG \<equiv> 1"
abbreviation ICANON :: u32 where "ICANON \<equiv> 2"
abbreviation ECHO :: u32 where "ECHO \<equiv> 8"
abbreviation ECHOE :: u32 where "ECHOE \<equiv> 0x10"
abbreviation ECHONL :: u32 where "ECHONL \<equiv> 0x40"
abbreviation ECHOCTL :: u32 where "ECHOCTL \<equiv> 0x200"

abbreviation VINTR :: nat where "VINTR \<equiv> 0"
abbreviation VQUIT :: nat where "VQUIT \<equiv> 1"
abbreviation VERASE :: nat where "VERASE \<equiv> 2"
abbreviation VEOF :: nat where "VEOF \<equiv> 4"
abbreviation VSUSP :: nat where "VSUSP \<equiv> 10"

definition default_config :: termios where
  "default_config = \<lparr>c_iflag = ICRNL, c_oflag = OPOST OR ONLCR, c_cflag = 0, c_lflag = ICANON OR ECHO OR ECHOE OR ISIG, c_line = 0,
    c_cc = (replicate 32 0)[0 := 0x03, 1 := 0x1C, 2 := 0x7F, 3 := 0x15, 4 := 0x04, 10 := 0x1A, 6 := 1, 5 := 0], c_ispeed = 0, c_ospeed = 0\<rparr>"

datatype vtstate = VTS_Idle | VTS_Esc | VTS_EscBrc

record screen =
  sb_buffer :: "cell list"
  sb_row :: int
  sb_col :: int
  sb_attr :: u8
  sb_active :: bool
  sb_show_cursor :: bool
  sb_config :: termios
  sb_vtstate :: vtstate
  sb_vtarg :: int
  sb_vtargs :: "int list"

type_synonym display = "screen \<times> cell list"

definition ScreenBuffer :: screen where
  "ScreenBuffer = \<lparr>sb_buffer = replicate (vga_width * vga_height) (0, 0), sb_row = 0, sb_col = 0,
    sb_attr = makeAttr C_LightGray C_Black, sb_active = False, sb_show_cursor = True, sb_config = default_config,
    sb_vtstate = VTS_Idle, sb_vtarg = 0, sb_vtargs = []\<rparr>"

section \<open>Cells\<close>

definition flushBuffer :: "display \<Rightarrow> display" where
  "flushBuffer d = (case d of (s, v) \<Rightarrow> if \<not> sb_active s then (s, v) else (s, sb_buffer s))"

definition screen_clear :: "screen \<Rightarrow> screen" where
  "screen_clear s = s\<lparr>sb_buffer := replicate (vga_width * vga_height) (0, sb_attr s)\<rparr>"

definition scroll :: "nat \<Rightarrow> screen \<Rightarrow> screen" where
  "scroll row s = (let offset = row * vga_width in
    s\<lparr>sb_buffer := drop offset (sb_buffer s) @ replicate offset (0, sb_attr s)\<rparr>)"

definition cell_store :: "int \<Rightarrow> cell \<Rightarrow> cell list \<Rightarrow> cell list exec" where
  "cell_store i c cs = (if 0 \<le> i \<and> i < int (length cs) then Inr (cs[nat i := c]) else Inl OutOfBounds)"

definition cell_fill :: "nat \<Rightarrow> nat \<Rightarrow> cell \<Rightarrow> cell list \<Rightarrow> cell list exec" where
  "cell_fill start n c cs = (if start + n \<le> length cs then Inr (take start cs @ replicate n c @ drop (start + n) cs) else Inl OutOfBounds)"

text \<open>The label \<^verbatim>\<open>putLF\<close>.\<close>

definition put_lf :: "display \<Rightarrow> display" where
  "put_lf d = (case d of (s, v) \<Rightarrow> let s = s\<lparr>sb_row := sb_row s + 1\<rparr> in
    if sb_row s = int vga_height then flushBuffer ((scroll 1 s)\<lparr>sb_row := int vga_height - 1\<rparr>, v) else (s, v))"

definition renderChar :: "u8 \<Rightarrow> display \<Rightarrow> display exec" where
  "renderChar ch d = (case d of (s, v) \<Rightarrow>
    if ch = 10 then Inr (put_lf (s, v))
    else if ch = 13 then Inr (s\<lparr>sb_col := 0\<rparr>, v)
    else if ch = 8 then Inr (if sb_col s > 0 then s\<lparr>sb_col := sb_col s - 1\<rparr> else s, v)
    else if ch = 9 then
      let s = s\<lparr>sb_col := sb_col s + (4 - sb_col s mod 4)\<rparr>
      in Inr (if sb_col s = int vga_width then put_lf (s, v) else (s, v))
    else let i = sb_row s * int vga_width + sb_col s; c = (ch, sb_attr s) in
      sbind (cell_store i c (sb_buffer s)) (\<lambda>b.
      sbind (if sb_active s then cell_store i c v else Inr v) (\<lambda>v.
      let s = s\<lparr>sb_buffer := b, sb_col := sb_col s + 1\<rparr>
      in Inr (if sb_col s = int vga_width then put_lf (s\<lparr>sb_col := 0\<rparr>, v) else (s, v)))))"

section \<open>Escape sequences\<close>

definition ansiToVga :: "u8 list" where
  "ansiToVga = [0, 4, 2, 6, 1, 5, 3, 7]"

definition set_graphics :: "int \<Rightarrow> u8 \<Rightarrow> u8" where
  "set_graphics param attr =
    (if param = 0 then makeAttr C_LightGray C_Black
     else if param = 1 then attr OR 0x08
     else if param = 22 then attr AND NOT 0x08
     else if 30 \<le> param \<and> param \<le> 37 then (attr AND 0xF0) OR (attr AND 0x08) OR ansiToVga ! nat (param - 30)
     else if param = 39 then (attr AND 0xF0) OR C_LightGray
     else if 40 \<le> param \<and> param \<le> 47 then push_bit 4 (ansiToVga ! nat (param - 40)) OR (attr AND 0x0F)
     else if param = 49 then attr AND 0x0F
     else if 90 \<le> param \<and> param \<le> 97 then (attr AND 0xF0) OR 0x08 OR ansiToVga ! nat (param - 90)
     else if 100 \<le> param \<and> param \<le> 107 then push_bit 4 (ansiToVga ! nat (param - 100) OR 0x08) OR (attr AND 0x0F)
     else attr)"

definition clamp :: "int \<Rightarrow> int \<Rightarrow> int \<Rightarrow> int" where
  "clamp x lo hi = (if x < lo then lo else if hi < x then hi else x)"

text \<open>The range \<^verbatim>\<open>J\<close> clears, in the unsigned 32-bit arithmetic of the code.\<close>

definition clear_range :: "int \<Rightarrow> nat \<Rightarrow> nat \<times> nat" where
  "clear_range arg pos =
    (if arg = 0 then (pos, (2 ^ 32 + vga_width * vga_height - pos) mod 2 ^ 32)
     else if arg = 1 then (0, pos)
     else if arg = 2 then (0, vga_width * vga_height)
     else (0, 0))"

definition flushCSI :: "u8 \<Rightarrow> display \<Rightarrow> display exec" where
  "flushCSI cmd d = (case d of (s, v) \<Rightarrow>
    case sb_vtargs s of [] \<Rightarrow> Inl OutOfBounds
    | arg0 # rest \<Rightarrow>
      let arg1 = (case rest of a # _ \<Rightarrow> a | [] \<Rightarrow> 0) in
      if cmd = 0x6D then Inr (s\<lparr>sb_attr := fold set_graphics (sb_vtargs s) (sb_attr s)\<rparr>, v)
      else if cmd = 0x48 then
        Inr (s\<lparr>sb_row := clamp arg0 1 (int vga_height) - 1, sb_col := clamp arg1 1 (int vga_width) - 1\<rparr>, v)
      else if cmd = 0x4A then
        let (start, n) = clear_range arg0 (nat (sb_row s * int vga_width + sb_col s)); c = (0x20, sb_attr s) in
        sbind (cell_fill start n c (sb_buffer s)) (\<lambda>b.
        sbind (if sb_active s then cell_fill start n c v else Inr v) (\<lambda>v.
        Inr (s\<lparr>sb_buffer := b\<rparr>, v)))
      else Inr (s, v))"

definition vt_digit :: "int \<Rightarrow> u8 \<Rightarrow> int" where
  "vt_digit arg ch = sint (of_int (arg * 10 + (uint ch - 0x30)) :: u32)"

definition putcImpl :: "u8 \<Rightarrow> display \<Rightarrow> display exec" where
  "putcImpl ch d = (case d of (s, v) \<Rightarrow> (case sb_vtstate s of
      VTS_Idle \<Rightarrow>
        if ch = 0x1B then Inr (s\<lparr>sb_vtstate := VTS_Esc\<rparr>, v)
        else let oflag = c_oflag (sb_config s); post = (oflag AND OPOST \<noteq> 0) in
          sbind (if post \<and> oflag AND ONLCR \<noteq> 0 \<and> ch = 10 then renderChar 13 (s, v) else Inr (s, v))
            (renderChar (if post \<and> oflag AND OCRNL \<noteq> 0 \<and> ch = 13 then 10 else ch))
    | VTS_Esc \<Rightarrow>
        if ch = 0x5B then Inr (s\<lparr>sb_vtstate := VTS_EscBrc, sb_vtarg := 0, sb_vtargs := []\<rparr>, v)
        else renderChar ch (s\<lparr>sb_vtstate := VTS_Idle\<rparr>, v)
    | VTS_EscBrc \<Rightarrow>
        if 0x30 \<le> ch \<and> ch \<le> 0x39 then Inr (s\<lparr>sb_vtarg := vt_digit (sb_vtarg s) ch\<rparr>, v)
        else if ch = 0x3B then Inr (s\<lparr>sb_vtargs := sb_vtargs s @ [sb_vtarg s], sb_vtarg := 0\<rparr>, v)
        else sbind (flushCSI ch (s\<lparr>sb_vtargs := sb_vtargs s @ [sb_vtarg s]\<rparr>, v)) (\<lambda>(s, v).
          Inr (s\<lparr>sb_vtstate := VTS_Idle\<rparr>, v))))"

fun puts :: "u8 list \<Rightarrow> display \<Rightarrow> display exec" where
  "puts [] d = Inr d"
| "puts (ch # str) d = sbind (putcImpl ch d) (puts str)"

section \<open>The cursor stays on the screen\<close>

definition screen_ok :: "screen \<Rightarrow> bool" where
  "screen_ok s \<longleftrightarrow> length (sb_buffer s) = vga_width * vga_height \<and> 0 \<le> sb_row s \<and> sb_row s < int vga_height \<and>
    0 \<le> sb_col s \<and> sb_col s < int vga_width"

text \<open>The adapter shows the active screen; an inactive one leaves it alone.\<close>

definition disp_ok :: "display \<Rightarrow> bool" where
  "disp_ok d \<longleftrightarrow> screen_ok (fst d) \<and> length (snd d) = vga_width * vga_height \<and> (sb_active (fst d) \<longrightarrow> snd d = sb_buffer (fst d))"

definition disp_next :: "display \<Rightarrow> display \<Rightarrow> bool" where
  "disp_next d d' \<longleftrightarrow> disp_ok d' \<and> sb_active (fst d') = sb_active (fst d) \<and> (\<not> sb_active (fst d) \<longrightarrow> snd d' = snd d)"

lemmas screen_size = vga_width_def vga_height_def

lemma cell_index:
  assumes "screen_ok s"
  shows "0 \<le> sb_row s * int vga_width + sb_col s" "sb_row s * int vga_width + sb_col s < int (vga_width * vga_height)"
  using assms by (auto simp: screen_ok_def screen_size)

lemma put_lf_next: "disp_ok d \<Longrightarrow> disp_next d (put_lf d)"
  by (cases d) (auto simp: disp_next_def disp_ok_def screen_ok_def put_lf_def Let_def flushBuffer_def scroll_def screen_size)

lemma renderChar_next:
  assumes ok: "disp_ok d" and ch: "ch \<noteq> 9"
  shows "\<exists>d'. renderChar ch d = Inr d' \<and> disp_next d d'"
proof -
  obtain s v where d: "d = (s, v)" by (cases d)
  have so: "screen_ok s" "length v = vga_width * vga_height" "length (sb_buffer s) = vga_width * vga_height" "sb_active s \<Longrightarrow> v = sb_buffer s"
    using ok by (auto simp: d disp_ok_def screen_ok_def)
  consider "ch = 10" | "ch = 13" | "ch = 8" | "ch \<notin> {10, 13, 8}" by blast
  then show ?thesis
  proof cases
    case 1
    then show ?thesis using put_lf_next [OF ok] by (simp add: renderChar_def d)
  next
    case 4
    define i where "i = sb_row s * int vga_width + sb_col s"
    define b where "b = (sb_buffer s)[nat i := (ch, sb_attr s)]"
    define w where "w = (if sb_active s then v[nat i := (ch, sb_attr s)] else v)"
    define t where "t = s\<lparr>sb_buffer := b, sb_col := sb_col s + 1\<rparr>"
    have i: "0 \<le> i" "i < int (vga_width * vga_height)" using cell_index [OF so(1)] by (simp_all add: i_def)
    have r: "renderChar ch d = Inr (if sb_col t = int vga_width then put_lf (t\<lparr>sb_col := 0\<rparr>, w) else (t, w))"
      using 4 ch i so(2,3) by (simp add: renderChar_def d Let_def cell_store_def i_def [symmetric] t_def b_def w_def)
    have a: "sb_active t = sb_active s" "\<not> sb_active s \<Longrightarrow> w = v" by (simp_all add: t_def w_def)
    have ok0: "disp_ok (t\<lparr>sb_col := 0\<rparr>, w)" and ok1: "sb_col t \<noteq> int vga_width \<Longrightarrow> disp_ok (t, w)"
      using so by (auto simp: disp_ok_def screen_ok_def t_def b_def w_def vga_width_def)
    show ?thesis
      using r a ok1 put_lf_next [OF ok0] by (auto simp: disp_next_def d)
  qed (use ok so(1) in \<open>auto simp: renderChar_def d disp_next_def disp_ok_def screen_ok_def vga_width_def\<close>)
qed

lemma disp_next_trans: "disp_next d d' \<Longrightarrow> disp_next d' d'' \<Longrightarrow> disp_next d d''"
  by (auto simp: disp_next_def)

lemma disp_next_ok: "disp_next d d' \<Longrightarrow> disp_ok d'"
  by (simp add: disp_next_def)

text \<open>A change of the screen that moves neither cells nor cursor.\<close>

lemma disp_next_same:
  "disp_ok (s, v) \<Longrightarrow> sb_buffer t = sb_buffer s \<Longrightarrow> sb_row t = sb_row s \<Longrightarrow> sb_col t = sb_col s \<Longrightarrow> sb_active t = sb_active s \<Longrightarrow>
    disp_next (s, v) (t, v)"
  by (simp add: disp_next_def disp_ok_def screen_ok_def)

lemma cell_fill_ok: "start + n \<le> length cs \<Longrightarrow> \<exists>cs'. cell_fill start n c cs = Inr cs' \<and> length cs' = length cs"
  by (simp add: cell_fill_def)

lemma clear_range_ok:
  assumes "pos < vga_width * vga_height"
  shows "fst (clear_range arg pos) + snd (clear_range arg pos) \<le> vga_width * vga_height"
proof -
  have "(2 ^ 32 + vga_width * vga_height - pos) mod 2 ^ 32 = vga_width * vga_height - pos"
    using assms by (simp add: screen_size mod_if)
  then show ?thesis using assms by (auto simp: clear_range_def)
qed

lemma flushCSI_next:
  assumes ok: "disp_ok d" and args: "sb_vtargs (fst d) \<noteq> []"
  shows "\<exists>d'. flushCSI cmd d = Inr d' \<and> disp_next d d'"
proof -
  obtain s v where d: "d = (s, v)" by (cases d)
  obtain arg0 rest where a: "sb_vtargs s = arg0 # rest" using args d by (cases "sb_vtargs s") auto
  have so: "screen_ok s" "length v = vga_width * vga_height" "length (sb_buffer s) = vga_width * vga_height" "sb_active s \<Longrightarrow> v = sb_buffer s"
    using ok by (auto simp: d disp_ok_def screen_ok_def)
  consider "cmd = 0x6D" | "cmd = 0x48" | "cmd = 0x4A" | "cmd \<notin> {0x6D, 0x48, 0x4A}" by blast
  then show ?thesis
  proof cases
    case 2
    have c: "0 < clamp x 1 25" "clamp x 1 25 < 26" "0 < clamp x 1 80" "clamp x 1 80 < 81" for x by (auto simp: clamp_def)
    show ?thesis using 2 a so by (auto simp: flushCSI_def d Let_def disp_next_def disp_ok_def screen_ok_def screen_size c)
  next
    case 3
    obtain start n where r: "clear_range arg0 (nat (sb_row s * int vga_width + sb_col s)) = (start, n)" by fastforce
    have "nat (sb_row s * int vga_width + sb_col s) < vga_width * vga_height" using cell_index [OF so(1)] by linarith
    from clear_range_ok [OF this, of arg0] have le: "start + n \<le> vga_width * vga_height" by (simp add: r)
    obtain b where b: "cell_fill start n (0x20, sb_attr s) (sb_buffer s) = Inr b" "length b = vga_width * vga_height"
      using cell_fill_ok [of start n "sb_buffer s"] le so(3) by auto
    have "(if sb_active s then cell_fill start n (0x20, sb_attr s) v else Inr v) = Inr (if sb_active s then b else v)"
      using b(1) so(4) by simp
    with 3 a r b so show ?thesis
      by (auto simp: flushCSI_def d Let_def disp_next_def disp_ok_def screen_ok_def)
  qed (use a ok in \<open>auto simp: flushCSI_def d Let_def intro!: disp_next_same\<close>)
qed

lemma putcImpl_next:
  assumes ok: "disp_ok d" and ch: "ch \<noteq> 9"
  shows "\<exists>d'. putcImpl ch d = Inr d' \<and> disp_next d d'"
proof -
  obtain s v where d: "d = (s, v)" by (cases d)
  have same: "disp_next (s, v) (t, v)" "disp_ok (t, v)"
    if "sb_buffer t = sb_buffer s" "sb_row t = sb_row s" "sb_col t = sb_col s" "sb_active t = sb_active s" for t
    using disp_next_same [of s v t] ok that d disp_next_ok by blast+
  show ?thesis
  proof (cases "sb_vtstate s")
    case VTS_Idle
    show ?thesis
    proof (cases "ch = 0x1B")
      case True
      then show ?thesis using VTS_Idle same(1) [of "s\<lparr>sb_vtstate := VTS_Esc\<rparr>"] by (simp add: putcImpl_def d)
    next
      case False
      let ?fl = "c_oflag (sb_config s)"
      let ?b = "?fl AND OPOST \<noteq> 0 \<and> ?fl AND ONLCR \<noteq> 0 \<and> ch = 10" and ?c = "if ?fl AND OPOST \<noteq> 0 \<and> ?fl AND OCRNL \<noteq> 0 \<and> ch = 13 then 10 else ch"
      obtain d1 where d1: "(if ?b then renderChar 13 (s, v) else Inr (s, v)) = Inr d1" "disp_next d d1"
        using renderChar_next [OF ok, of 13] same(1) [of s] d by (cases ?b) auto
      have "?c \<noteq> 9" using ch by simp
      from renderChar_next [OF disp_next_ok [OF d1(2)] this] obtain d2 where d2: "renderChar ?c d1 = Inr d2" "disp_next d1 d2" by blast
      have "putcImpl ch d = sbind (if ?b then renderChar 13 (s, v) else Inr (s, v)) (renderChar ?c)"
        using VTS_Idle False by (simp add: putcImpl_def d Let_def)
      then have "putcImpl ch d = Inr d2" unfolding d1(1) using d2(1) by simp
      with disp_next_trans [OF d1(2) d2(2)] show ?thesis by blast
    qed
  next
    case VTS_Esc
    show ?thesis
    proof (cases "ch = 0x5B")
      case True
      then show ?thesis using VTS_Esc same(1) [of "s\<lparr>sb_vtstate := VTS_EscBrc, sb_vtarg := 0, sb_vtargs := []\<rparr>"] by (simp add: putcImpl_def d)
    next
      case False
      let ?d = "(s\<lparr>sb_vtstate := VTS_Idle\<rparr>, v)"
      have n: "disp_next d ?d" "disp_ok ?d" using same [of "s\<lparr>sb_vtstate := VTS_Idle\<rparr>"] d by auto
      from renderChar_next [OF n(2) ch] obtain d2 where "renderChar ch ?d = Inr d2" "disp_next ?d d2" by blast
      with VTS_Esc False disp_next_trans [OF n(1)] show ?thesis by (auto simp: putcImpl_def d)
    qed
  next
    case VTS_EscBrc
    let ?t = "s\<lparr>sb_vtargs := sb_vtargs s @ [sb_vtarg s]\<rparr>"
    have n: "disp_next d (?t, v)" "disp_ok (?t, v)" using same [of ?t] d by auto
    obtain s2 v2 where f: "flushCSI ch (?t, v) = Inr (s2, v2)" "disp_next (?t, v) (s2, v2)"
      using flushCSI_next [OF n(2), of ch] by auto
    have "disp_next (s2, v2) (s2\<lparr>sb_vtstate := VTS_Idle\<rparr>, v2)"
      by (rule disp_next_same) (use f(2) in \<open>auto simp: disp_next_def\<close>)
    with f n disp_next_trans have e: "disp_next d (s2\<lparr>sb_vtstate := VTS_Idle\<rparr>, v2)" by blast
    consider "0x30 \<le> ch" "ch \<le> 0x39" | "\<not> (0x30 \<le> ch \<and> ch \<le> 0x39)" "ch = 0x3B" | "\<not> (0x30 \<le> ch \<and> ch \<le> 0x39)" "ch \<noteq> 0x3B" by blast
    then show ?thesis
    proof cases
      case 1
      then show ?thesis using VTS_EscBrc same(1) [of "s\<lparr>sb_vtarg := vt_digit (sb_vtarg s) ch\<rparr>"] by (simp add: putcImpl_def d)
    next
      case 2
      then show ?thesis using VTS_EscBrc same(1) [of "s\<lparr>sb_vtargs := sb_vtargs s @ [sb_vtarg s], sb_vtarg := 0\<rparr>"]
        by (simp add: putcImpl_def d)
    next
      case 3
      then have "putcImpl ch d = Inr (s2\<lparr>sb_vtstate := VTS_Idle\<rparr>, v2)"
        using VTS_EscBrc f(1) by (auto simp: putcImpl_def d)
      with e show ?thesis by blast
    qed
  qed
qed

lemma puts_next: "disp_ok d \<Longrightarrow> 9 \<notin> set str \<Longrightarrow> \<exists>d'. puts str d = Inr d' \<and> disp_next d d'"
proof (induction str arbitrary: d)
  case Nil
  then show ?case by (cases d) (simp add: disp_next_def)
next
  case (Cons ch str)
  have "ch \<noteq> 9" using Cons.prems(2) by auto
  from putcImpl_next [OF Cons.prems(1) this] obtain d1 where d1: "putcImpl ch d = Inr d1" "disp_next d d1" by blast
  obtain d2 where "puts str d1 = Inr d2" "disp_next d1 d2"
    using Cons.IH [OF disp_next_ok [OF d1(2)]] Cons.prems(2) by auto
  with d1 disp_next_trans show ?case by auto
qed

text \<open>Printing never changes the settings of the terminal.\<close>

lemma put_lf_config [simp]: "sb_config (fst (put_lf d)) = sb_config (fst d)"
  by (cases d) (simp add: put_lf_def Let_def flushBuffer_def scroll_def)

lemma renderChar_config: "renderChar ch d = Inr d' \<Longrightarrow> sb_config (fst d') = sb_config (fst d)"
  by (cases d) (auto simp: renderChar_def Let_def sbind_def split: if_splits sum.splits)

lemma flushCSI_config: "flushCSI cmd d = Inr d' \<Longrightarrow> sb_config (fst d') = sb_config (fst d)"
  by (cases d) (auto simp: flushCSI_def Let_def sbind_def split: if_splits sum.splits list.splits prod.splits)

lemma putcImpl_config: "putcImpl ch d = Inr d' \<Longrightarrow> sb_config (fst d') = sb_config (fst d)"
  by (cases d) (auto simp: putcImpl_def Let_def sbind_def split: if_splits sum.splits vtstate.splits
    dest!: renderChar_config flushCSI_config)

lemma puts_config: "puts str d = Inr d' \<Longrightarrow> sb_config (fst d') = sb_config (fst d)"
  by (induction str arbitrary: d) (auto simp: sbind_def split: sum.splits dest!: putcImpl_config)

lemma puts_append: "puts (a @ b) d = sbind (puts a d) (puts b)"
  by (induction a arbitrary: d) (auto simp: sbind_def split: sum.splits)

section \<open>Properties\<close>

text \<open>C30: whatever a program prints, escape sequences, line feeds and all other control characters included but no
  tabulator, the kernel stays inside its buffers: the cursor ends on the 25 by 80 cells, the adapter shows exactly the
  buffer of the terminal when it is the active one, and is left alone when it is not.\<close>

theorem screen_bounds:
  assumes "length (sb_buffer s) = 80 * 25" "length v = 80 * 25" "0 \<le> sb_row s" "sb_row s < 25" "0 \<le> sb_col s" "sb_col s < 80"
    "sb_active s \<longrightarrow> v = sb_buffer s" "9 \<notin> set str"
  shows "\<exists>s' v'. puts str (s, v) = Inr (s', v') \<and> length (sb_buffer s') = 80 * 25 \<and> 0 \<le> sb_row s' \<and> sb_row s' < 25 \<and>
    0 \<le> sb_col s' \<and> sb_col s' < 80 \<and> sb_active s' = sb_active s \<and> v' = (if sb_active s then sb_buffer s' else v)"
proof -
  have "disp_ok (s, v)" using assms by (simp add: disp_ok_def screen_ok_def screen_size)
  from puts_next [OF this assms(8)] obtain s' v' where "puts str (s, v) = Inr (s', v')" "disp_next (s, v) (s', v')" by auto
  then show ?thesis by (auto simp: disp_next_def disp_ok_def screen_ok_def screen_size)
qed

theorem screen_bounds_witness:
  "\<exists>s' v'. puts [0x1B, 0x5B, 0x32, 0x35, 0x48, 0x41, 10, 0x42] (screen_clear ScreenBuffer, replicate (80 * 25) (0, 0)) = Inr (s', v') \<and>
    sb_row s' < 25 \<and> sb_col s' < 80 \<and> v' = replicate (80 * 25) (0, 0)"
  using screen_bounds [of "screen_clear ScreenBuffer" "replicate (80 * 25) (0, 0)" "[0x1B, 0x5B, 0x32, 0x35, 0x48, 0x41, 10, 0x42]"]
  by (auto simp: ScreenBuffer_def screen_clear_def screen_size)

text \<open>A tabulator at the end of the last row lets the next character be stored behind the buffer. The tabulator moves the
  column to 80 and feeds a line without returning the carriage, so on the bottom row the following printable character
  goes to cell 2000 of 2000.\<close>

theorem tab_overflows:
  assumes "length (sb_buffer s) = 80 * 25" "sb_row s = 24" "76 \<le> sb_col s" "sb_col s < 80" "sb_vtstate s = VTS_Idle"
    "ch \<notin> {8, 9, 10, 13, 0x1B}"
  shows "puts [9, ch] (s, v) = Inl OutOfBounds"
proof -
  have c: "sb_col s + (4 - sb_col s mod 4) = 80" using assms(3,4) by presburger
  have u: "s\<lparr>sb_col := sb_col s + (4 - sb_col s mod 4)\<rparr> = s\<lparr>sb_col := 80\<rparr>" unfolding c ..
  have "renderChar 9 (s, v) = Inr (put_lf (s\<lparr>sb_col := 80\<rparr>, v))"
    by (simp only: renderChar_def prod.case Let_def u) (simp add: vga_width_def)
  then have t: "putcImpl 9 (s, v) = Inr (put_lf (s\<lparr>sb_col := 80\<rparr>, v))"
    using assms(5) by (simp add: putcImpl_def Let_def)
  obtain v' where p: "put_lf (s\<lparr>sb_col := 80\<rparr>, v) = ((scroll 1 (s\<lparr>sb_col := 80, sb_row := 25\<rparr>))\<lparr>sb_row := 24\<rparr>, v')"
    using assms(2) by (cases "sb_active s") (auto simp: put_lf_def Let_def vga_height_def flushBuffer_def scroll_def)
  have "length (sb_buffer ((scroll 1 (s\<lparr>sb_col := 80, sb_row := 25\<rparr>))\<lparr>sb_row := 24\<rparr>)) = 80 * 25"
    using assms(1) by (simp add: scroll_def vga_width_def)
  then show ?thesis
    using t p assms(5,6) by (simp add: putcImpl_def renderChar_def Let_def vga_width_def cell_store_def scroll_def)
qed

theorem tab_overflows_witness:
  "puts [9, 0x78] (ScreenBuffer\<lparr>sb_row := 24, sb_col := 79\<rparr>, replicate 2000 (0, 0)) = Inl OutOfBounds"
  using tab_overflows [of "ScreenBuffer\<lparr>sb_row := 24, sb_col := 79\<rparr>" "0x78"]
  by (simp add: ScreenBuffer_def screen_size)

end
