(* ===== verification/Nyan_Signal.thy ===== *)
theory Nyan_Signal
  imports Nyan_Result
begin

unbundle bit_operations_syntax

text \<open>
  Signals of a task (kernel/task/tcb/signal.hpp, kernel/task/tcb/signal.cpp): what is pending, masked and handled,
  the system calls \<^verbatim>\<open>rt_sigaction\<close> and \<^verbatim>\<open>rt_sigprocmask\<close>, delivery on the way back to user mode
  (\<^verbatim>\<open>Scheduler::checkSignal\<close>) and the return from a handler (\<^verbatim>\<open>sigreturn\<close>). User memory is read and written in
  words of four bytes. The outcome of the user pointer checks is an argument.
\<close>

section \<open>State\<close>

record sigaction =
  sa_handler :: u32
  sa_flags :: u32
  sa_restorer :: u32
  sa_mask :: u64

record signal_info =
  si_pending :: u64
  si_mask :: u64
  si_actions :: "sigaction list option"

definition SIG_DFL :: u32 where "SIG_DFL = 0"
definition SIG_IGN :: u32 where "SIG_IGN = 1"
definition SA_SIGINFO :: u32 where "SA_SIGINFO = 4"
definition SA_NODEFER :: u32 where "SA_NODEFER = 0x40000000"
definition SA_RESTORER :: u32 where "SA_RESTORER = 0x04000000"
definition NSIG :: nat where "NSIG = 65"

abbreviation SIGINT :: nat where "SIGINT \<equiv> 2"
abbreviation SIGQUIT :: nat where "SIGQUIT \<equiv> 3"
abbreviation SIGTRAP :: nat where "SIGTRAP \<equiv> 5"
abbreviation SIGKILL :: nat where "SIGKILL \<equiv> 9"
abbreviation SIGSEGV :: nat where "SIGSEGV \<equiv> 11"
abbreviation SIGCHLD :: nat where "SIGCHLD \<equiv> 17"
abbreviation SIGSTOP :: nat where "SIGSTOP \<equiv> 19"
abbreviation SIGTSTP :: nat where "SIGTSTP \<equiv> 20"

definition sig_bit :: "nat \<Rightarrow> u64" where
  "sig_bit sig = push_bit (sig - 1) 1"

definition isMasked :: "signal_info \<Rightarrow> nat \<Rightarrow> bool" where
  "isMasked s sig \<longleftrightarrow> si_mask s AND sig_bit sig \<noteq> 0"

definition restSignals :: "signal_info \<Rightarrow> u64" where
  "restSignals s = si_pending s AND NOT (si_mask s)"

definition isSignalDefaultIgnore :: "nat \<Rightarrow> bool" where
  "isSignalDefaultIgnore sig \<longleftrightarrow> sig = SIGCHLD \<or> sig = 23 \<or> sig = 28"

definition no_action :: sigaction where
  "no_action = \<lparr>sa_handler = 0, sa_flags = 0, sa_restorer = 0, sa_mask = 0\<rparr>"

definition TaskSignalInfo :: signal_info where
  "TaskSignalInfo = \<lparr>si_pending = 0, si_mask = 0, si_actions = None\<rparr>"

definition ensureActions :: "signal_info \<Rightarrow> signal_info" where
  "ensureActions s = (case si_actions s of
      None \<Rightarrow> s\<lparr>si_actions := Some (replicate NSIG no_action)\<rparr>
    | Some _ \<Rightarrow> s)"

definition exec_action :: "sigaction \<Rightarrow> sigaction" where
  "exec_action act = (if sa_handler act \<noteq> SIG_IGN \<and> sa_handler act \<noteq> SIG_DFL
    then act\<lparr>sa_handler := SIG_DFL, sa_mask := 0, sa_flags := 0\<rparr> else act)"

definition signal_prepareForExec :: "signal_info \<Rightarrow> signal_info" where
  "signal_prepareForExec s = s\<lparr>si_actions := map_option (map exec_action) (si_actions s)\<rparr>"

definition signal_prepareForFork :: "signal_info \<Rightarrow> signal_info" where
  "signal_prepareForFork current = \<lparr>si_pending = 0, si_mask = si_mask current, si_actions = si_actions current\<rparr>"

text \<open>The action of a signal, where there are any.\<close>

definition action_of :: "signal_info \<Rightarrow> nat \<Rightarrow> sigaction option exec" where
  "action_of s sig = (case si_actions s of None \<Rightarrow> Inr None
    | Some as \<Rightarrow> if sig < length as then Inr (Some (as ! sig)) else Inl OutOfBounds)"

definition signal_isInterrupted :: "signal_info \<Rightarrow> nat \<Rightarrow> bool exec" where
  "signal_isInterrupted s sig = sbind (action_of s sig) (\<lambda>a. Inr (case a of
      None \<Rightarrow> \<not> isSignalDefaultIgnore sig
    | Some entry \<Rightarrow>
        if sa_handler entry = SIG_IGN then False
        else if sa_handler entry = SIG_DFL then \<not> isSignalDefaultIgnore sig
        else True))"

section \<open>Choosing a signal\<close>

text \<open>\<^verbatim>\<open>std::countr_zero\<close>.\<close>

definition countr_zero :: "u64 \<Rightarrow> nat" where
  "countr_zero w = (case find (\<lambda>i. bit w i) [0..<64] of Some i \<Rightarrow> i | None \<Rightarrow> 64)"

lemma find_SomeD: "find P xs = Some x \<Longrightarrow> x \<in> set xs \<and> P x"
  by (metis find_Some_iff nth_mem)

lemma countr_zero_nonzero:
  assumes "w \<noteq> 0"
  shows "countr_zero w < 64" "bit w (countr_zero w)" "\<forall>j<countr_zero w. \<not> bit w j"
proof -
  have "find (\<lambda>i. bit w i) [0..<64] \<noteq> None"
  proof
    assume "find (\<lambda>i. bit w i) [0..<64] = None"
    then have "\<not> bit w i" for i using bit_imp_le_length [of w i] by (auto simp: find_None_iff)
    then show False using assms by (auto simp: bit_eq_iff)
  qed
  then obtain i where f: "find (\<lambda>i. bit w i) [0..<64] = Some i" by auto
  then show "countr_zero w < 64" "bit w (countr_zero w)" using find_SomeD [OF f] by (auto simp: countr_zero_def)
  have "countr_zero w = i" using f by (simp add: countr_zero_def)
  then show "\<forall>j<countr_zero w. \<not> bit w j" using f by (auto simp: find_Some_iff)
qed

lemma unat_flip_less:
  assumes "bit w i"
  shows "unat (w XOR push_bit i 1 :: u64) < unat w"
proof -
  have "w XOR push_bit i 1 = w AND NOT (push_bit i 1)" "w AND push_bit i 1 = push_bit i 1"
    using assms by (auto intro!: bit_word_eqI simp: bit_simps)
  then have "w XOR push_bit i 1 = w - push_bit i 1" using word_and_not_eq_minus [of w "push_bit i 1"] by simp
  moreover have "push_bit i 1 \<le> w" using \<open>w AND push_bit i 1 = push_bit i 1\<close> word_and_le2 [of w "push_bit i 1"] by (simp add: and.commute)
  moreover have "push_bit i 1 \<noteq> (0 :: u64)"
    using bit_imp_le_length [OF assms] by (auto simp: bit_eq_iff bit_simps)
  then have "0 < unat (push_bit i 1 :: u64)" using unat_gt_0 by blast
  ultimately show ?thesis
    using unat_sub [of "push_bit i 1" w] by (simp only: word_le_nat_alt)
qed

text \<open>The loop of \<^verbatim>\<open>Scheduler::isInterrupted\<close>.\<close>

function interrupted_loop :: "signal_info \<Rightarrow> u64 \<Rightarrow> bool exec" where
  "interrupted_loop s sigs =
    (if sigs = 0 then Inr False
     else let sig = countr_zero sigs + 1 in
       sbind (signal_isInterrupted s sig) (\<lambda>b.
         if b then Inr True else interrupted_loop s (sigs XOR push_bit (sig - 1) 1)))"
  by auto
termination
proof (relation "measure (\<lambda>(s, sigs). unat sigs)", goal_cases)
  case (2 s sigs sig b)
  then show ?case using unat_flip_less [OF countr_zero_nonzero(2), of sigs] by simp
qed simp

declare interrupted_loop.simps [simp del]

definition sched_isInterrupted :: "signal_info \<Rightarrow> bool exec" where
  "sched_isInterrupted s = interrupted_loop s (restSignals s)"

section \<open>System calls\<close>

text \<open>The arguments \<open>actOk\<close>, \<open>oactOk\<close> and \<open>handlerOk\<close> are what the pointer checks say; \<open>act\<close> is \<open>None\<close> for the null pointer
  and \<open>oact\<close> says whether the old action is asked for.\<close>

definition rt_sigaction :: "int \<Rightarrow> sigaction option \<Rightarrow> bool \<Rightarrow> nat \<Rightarrow> unit result \<Rightarrow> unit result \<Rightarrow> (u32 \<Rightarrow> unit result) \<Rightarrow>
    signal_info \<Rightarrow> (sigaction option result \<times> signal_info) exec" where
  "rt_sigaction sig act oact sigsetsize actOk oactOk handlerOk s =
    (if sigsetsize \<noteq> 8 then Inr (Inl SYS_EINVAL, s)
     else case sbind actOk (\<lambda>_. oactOk) of Inl e \<Rightarrow> Inr (Inl e, s) | Inr _ \<Rightarrow>
     if sig < 1 \<or> sig \<ge> int NSIG \<or> sig = int SIGKILL \<or> sig = int SIGSTOP then Inr (Inl SYS_EINVAL, s)
     else case (case act of None \<Rightarrow> Inr ()
        | Some a \<Rightarrow> if sa_flags a AND SA_SIGINFO \<noteq> 0 then Inl SYS_EINVAL
            else if sa_handler a \<noteq> SIG_DFL \<and> sa_handler a \<noteq> SIG_IGN then handlerOk (sa_handler a) else Inr ()) of
       Inl e \<Rightarrow> Inr (Inl e, s)
     | Inr _ \<Rightarrow>
       if si_actions s = None \<and> act = None \<and> \<not> oact then Inr (Inr None, s)
       else let s = ensureActions s; n = nat sig in
         sbind (action_of s n) (\<lambda>entry.
           Inr (Inr (if oact then entry else None),
             case act of None \<Rightarrow> s
             | Some a \<Rightarrow> s\<lparr>si_actions := Some ((the (si_actions s))[n := a\<lparr>sa_mask :=
                 (if sa_flags a AND SA_NODEFER = 0 then sa_mask a OR sig_bit n else sa_mask a)\<rparr>])\<rparr>)))"

text \<open>\<^verbatim>\<open>rt_sigprocmask\<close> returns the old mask; it is written before \<open>how\<close> is looked at.\<close>

definition rt_sigprocmask :: "int \<Rightarrow> u64 option \<Rightarrow> nat \<Rightarrow> unit result \<Rightarrow> unit result \<Rightarrow> signal_info \<Rightarrow> u64 result \<times> signal_info" where
  "rt_sigprocmask how nset sigsetsize nsetOk osetOk s =
    (if sigsetsize \<noteq> 8 then (Inl SYS_EINVAL, s)
     else case sbind nsetOk (\<lambda>_. osetOk) of Inl e \<Rightarrow> (Inl e, s) | Inr _ \<Rightarrow>
     case nset of None \<Rightarrow> (Inr (si_mask s), s)
     | Some m \<Rightarrow>
       if how = 0 then (Inr (si_mask s), s\<lparr>si_mask := si_mask s OR m\<rparr>)
       else if how = 1 then (Inr (si_mask s), s\<lparr>si_mask := si_mask s AND NOT m\<rparr>)
       else if how = 2 then (Inr (si_mask s), s\<lparr>si_mask := m\<rparr>)
       else (Inl SYS_EINVAL, s))"

section \<open>Delivery\<close>

record sysframe =
  f_effective_esp :: u32
  f_gs :: u16
  f_fs :: u16
  f_es :: u16
  f_ds :: u16
  f_edi :: u32
  f_esi :: u32
  f_ebp :: u32
  f_esp :: u32
  f_ebx :: u32
  f_edx :: u32
  f_ecx :: u32
  f_eax :: u32
  f_isr_num :: u32
  f_error_code :: u32
  f_eip :: u32
  f_cs :: u32
  f_flags :: u32
  f_user_esp :: u32
  f_user_ss :: u32

definition pack16 :: "u16 \<Rightarrow> u16 \<Rightarrow> u32" where
  "pack16 lo hi = ucast lo OR push_bit 16 (ucast hi)"

definition frame_words :: "sysframe \<Rightarrow> u32 list" where
  "frame_words f = [f_effective_esp f, pack16 (f_gs f) (f_fs f), pack16 (f_es f) (f_ds f), f_edi f, f_esi f, f_ebp f,
    f_esp f, f_ebx f, f_edx f, f_ecx f, f_eax f, f_isr_num f, f_error_code f, f_eip f, f_cs f, f_flags f, f_user_esp f,
    f_user_ss f]"

definition words_frame :: "u32 list \<Rightarrow> sysframe" where
  "words_frame w = \<lparr>f_effective_esp = w ! 0, f_gs = ucast (w ! 1), f_fs = ucast (drop_bit 16 (w ! 1)),
    f_es = ucast (w ! 2), f_ds = ucast (drop_bit 16 (w ! 2)), f_edi = w ! 3, f_esi = w ! 4, f_ebp = w ! 5, f_esp = w ! 6,
    f_ebx = w ! 7, f_edx = w ! 8, f_ecx = w ! 9, f_eax = w ! 10, f_isr_num = w ! 11, f_error_code = w ! 12,
    f_eip = w ! 13, f_cs = w ! 14, f_flags = w ! 15, f_user_esp = w ! 16, f_user_ss = w ! 17\<rparr>"

type_synonym user_memory = "u32 \<Rightarrow> u32"

fun put_words :: "u32 \<Rightarrow> u32 list \<Rightarrow> user_memory \<Rightarrow> user_memory" where
  "put_words a [] m = m"
| "put_words a (w # ws) m = put_words (a + 4) ws (m(a := w))"

fun get_words :: "u32 \<Rightarrow> nat \<Rightarrow> user_memory \<Rightarrow> u32 list" where
  "get_words a 0 m = []"
| "get_words a (Suc n) m = m a # get_words (a + 4) n m"

definition mask_words :: "u64 \<Rightarrow> u32 list" where
  "mask_words m = [ucast m, ucast (drop_bit 32 m)]"

definition words_mask :: "u32 list \<Rightarrow> u64" where
  "words_mask w = ucast (w ! 0) OR push_bit 32 (ucast (w ! 1))"

text \<open>\<^verbatim>\<open>SignalFrame\<close> on the user stack: return address, signal, old mask and the interrupted frame, 22 words.\<close>

definition signal_frame :: "u32 \<Rightarrow> nat \<Rightarrow> u64 \<Rightarrow> sysframe \<Rightarrow> u32 list" where
  "signal_frame retAddr sig oldMask f = [retAddr, of_nat sig] @ mask_words oldMask @ frame_words f"

datatype outcome = NoSignal | Ignored nat | Handled nat | Exits nat

definition defaultSignalLogic :: "nat \<Rightarrow> outcome" where
  "defaultSignalLogic sig = (if isSignalDefaultIgnore sig then Ignored sig else Exits sig)"

definition checkSignal :: "u32 \<Rightarrow> signal_info \<Rightarrow> sysframe \<Rightarrow> user_memory \<Rightarrow>
    (outcome \<times> signal_info \<times> sysframe \<times> user_memory) exec" where
  "checkSignal tramp s frame m =
    (let sigs = restSignals s in
     if sigs = 0 then Inr (NoSignal, s, frame, m)
     else let sig = countr_zero sigs + 1;
              s = s\<lparr>si_pending := si_pending s XOR sig_bit sig\<rparr> in
     sbind (action_of s sig) (\<lambda>a. Inr (case a of
         None \<Rightarrow> (defaultSignalLogic sig, s, frame, m)
       | Some entry \<Rightarrow>
           if sa_handler entry = SIG_IGN then (Ignored sig, s, frame, m)
           else if sa_handler entry = SIG_DFL then (defaultSignalLogic sig, s, frame, m)
           else let mask = si_mask s; esp = f_user_esp frame - 88;
                    ret = (if sa_flags entry AND SA_RESTORER \<noteq> 0 then sa_restorer entry else 0xFFFFF000 + tramp)
                in (Handled sig, s\<lparr>si_mask := mask OR sa_mask entry\<rparr>,
                    frame\<lparr>f_eip := sa_handler entry, f_user_esp := esp\<rparr>,
                    put_words esp (signal_frame ret sig mask frame) m))))"

definition userCs :: u32 where "userCs = 0x1B"
definition userDs :: u32 where "userDs = 0x23"
definition userTls :: u32 where "userTls = 0x33"

text \<open>\<^verbatim>\<open>sigreturn\<close> gives \<open>None\<close> when the task is ended with \<^verbatim>\<open>SIGSEGV\<close>.\<close>

definition sigreturn :: "(u32 \<Rightarrow> bool) \<Rightarrow> signal_info \<Rightarrow> sysframe \<Rightarrow> user_memory \<Rightarrow> signal_info \<times> sysframe option" where
  "sigreturn execOk s sysFrame m =
    (let esp = f_user_esp sysFrame;
         s = s\<lparr>si_mask := words_mask (get_words esp 2 m)\<rparr>;
         f = words_frame (get_words (esp + 8) 18 m)
     in if f_eip f \<ge> 0xC0000000 \<or> \<not> execOk (f_eip f) then (s, None)
        else (s, Some (f\<lparr>f_cs := userCs, f_user_ss := userDs, f_ds := ucast userDs, f_es := ucast userDs,
          f_fs := ucast userDs, f_gs := (if ucast (f_gs f) \<noteq> userDs \<and> ucast (f_gs f) \<noteq> userTls then ucast userDs else f_gs f),
          f_flags := (f_flags f AND NOT 0x3000) OR 0x200\<rparr>)))"

section \<open>Which signal is acted on\<close>

lemma sig_bit_iff: "bit (sig_bit sig) i \<longleftrightarrow> i = sig - 1 \<and> i < 64"
  by (auto simp: sig_bit_def bit_simps)

lemma restSignals_bit: "bit (restSignals s) i \<longleftrightarrow> bit (si_pending s) i \<and> \<not> bit (si_mask s) i"
  using bit_imp_le_length [of "si_pending s" i] by (auto simp: restSignals_def bit_simps)

lemma rest_nonzero_iff: "restSignals s \<noteq> 0 \<longleftrightarrow> (\<exists>i<64. bit (si_pending s) i \<and> \<not> bit (si_mask s) i)"
proof
  assume "restSignals s \<noteq> 0"
  from countr_zero_nonzero(1,2) [OF this]
  show "\<exists>i<64. bit (si_pending s) i \<and> \<not> bit (si_mask s) i" by (auto simp: restSignals_bit)
next
  assume "\<exists>i<64. bit (si_pending s) i \<and> \<not> bit (si_mask s) i"
  then obtain i where "bit (restSignals s) i" by (auto simp: restSignals_bit)
  then show "restSignals s \<noteq> 0" by auto
qed

text \<open>There is one action for every signal number, as \<^verbatim>\<open>SigData\<close> has.\<close>

definition actions_ok :: "signal_info \<Rightarrow> bool" where
  "actions_ok s \<longleftrightarrow> (\<forall>as. si_actions s = Some as \<longrightarrow> length as = NSIG)"

text \<open>A signal that would interrupt a blocking call: it has a handler, or its default is to end the task.\<close>

definition interrupts :: "signal_info \<Rightarrow> nat \<Rightarrow> bool" where
  "interrupts s sig \<longleftrightarrow> (case si_actions s of
      None \<Rightarrow> \<not> isSignalDefaultIgnore sig
    | Some as \<Rightarrow> sa_handler (as ! sig) \<noteq> SIG_IGN \<and> (sa_handler (as ! sig) = SIG_DFL \<longrightarrow> \<not> isSignalDefaultIgnore sig))"

lemma signal_isInterrupted_eq: "actions_ok s \<Longrightarrow> sig < NSIG \<Longrightarrow> signal_isInterrupted s sig = Inr (interrupts s sig)"
  by (auto simp: signal_isInterrupted_def action_of_def interrupts_def actions_ok_def split: option.split)

lemma interrupted_loop_eq:
  "actions_ok s \<Longrightarrow> interrupted_loop s w = Inr (\<exists>i<64. bit w i \<and> interrupts s (i + 1))"
proof (induction s w rule: interrupted_loop.induct [case_names step])
  case (step s w)
  show ?case
  proof (cases "w = 0")
    case False
    note z = countr_zero_nonzero [OF False]
    let ?i = "countr_zero w"
    have r: "signal_isInterrupted s (?i + 1) = Inr (interrupts s (?i + 1))"
      using signal_isInterrupted_eq [OF step.prems] z(1) by (simp add: NSIG_def)
    have e: "bit (w XOR push_bit ?i 1) j \<longleftrightarrow> bit w j \<and> j \<noteq> ?i" if "j < 64" for j
      using that z(2) by (auto simp: bit_simps)
    have one: "interrupted_loop s w = (if interrupts s (?i + 1) then Inr True else interrupted_loop s (w XOR push_bit ?i 1))"
      by (subst interrupted_loop.simps) (use False r in \<open>simp add: Let_def\<close>)
    show ?thesis
    proof (cases "interrupts s (?i + 1)")
      case True
      with one z show ?thesis by auto
    next
      case no: False
      have "interrupted_loop s (w XOR push_bit ?i 1) = Inr (\<exists>i<64. bit (w XOR push_bit ?i 1) i \<and> interrupts s (i + 1))"
        using step.IH [OF False refl no] step.prems by simp
      moreover have "(\<exists>i<64. bit (w XOR push_bit ?i 1) i \<and> interrupts s (i + 1)) \<longleftrightarrow> (\<exists>i<64. bit w i \<and> interrupts s (i + 1))"
        using e no by metis
      ultimately show ?thesis using one no by simp
    qed
  qed (simp add: interrupted_loop.simps)
qed

text \<open>C34: the kernel's loop over the pending signals decides exactly whether some unmasked pending signal would
  interrupt a blocking call: one with a handler, or one whose default ends the task. It visits each set bit once
  and never leaves the table of actions.\<close>

theorem isInterrupted_exact:
  assumes "actions_ok s"
  shows "sched_isInterrupted s = Inr (\<exists>sig\<in>{1..64}. bit (si_pending s) (sig - 1) \<and> \<not> bit (si_mask s) (sig - 1) \<and> interrupts s sig)"
proof -
  have "(\<exists>i<64. bit (restSignals s) i \<and> interrupts s (i + 1)) \<longleftrightarrow>
      (\<exists>sig\<in>{1..64}. bit (si_pending s) (sig - 1) \<and> \<not> bit (si_mask s) (sig - 1) \<and> interrupts s sig)"
  proof
    assume "\<exists>i<64. bit (restSignals s) i \<and> interrupts s (i + 1)"
    then obtain i where "i < 64" "bit (restSignals s) i" "interrupts s (i + 1)" by blast
    then show "\<exists>sig\<in>{1..64}. bit (si_pending s) (sig - 1) \<and> \<not> bit (si_mask s) (sig - 1) \<and> interrupts s sig"
      by (intro bexI [of _ "i + 1"]) (auto simp: restSignals_bit)
  next
    assume "\<exists>sig\<in>{1..64}. bit (si_pending s) (sig - 1) \<and> \<not> bit (si_mask s) (sig - 1) \<and> interrupts s sig"
    then obtain sig where "1 \<le> sig" "sig \<le> 64" "bit (restSignals s) (sig - 1)" "interrupts s sig" by (auto simp: restSignals_bit)
    then show "\<exists>i<64. bit (restSignals s) i \<and> interrupts s (i + 1)"
      by (intro exI [of _ "sig - 1"]) auto
  qed
  then show ?thesis using interrupted_loop_eq [OF assms] by (simp add: sched_isInterrupted_def)
qed

theorem isInterrupted_exact_witness:
  "sched_isInterrupted \<lparr>si_pending = sig_bit 17 OR sig_bit 2, si_mask = sig_bit 2, si_actions = None\<rparr> = Inr False"
proof -
  let ?s = "\<lparr>si_pending = sig_bit 17 OR sig_bit 2, si_mask = sig_bit 2, si_actions = None\<rparr>"
  have ok: "actions_ok ?s" by (simp add: actions_ok_def)
  have "\<not> interrupts ?s sig" if "bit (si_pending ?s) (sig - 1)" "\<not> bit (si_mask ?s) (sig - 1)" "sig \<in> {1..64}" for sig
  proof -
    have "sig = 17" using that by (auto simp: bit_or_iff sig_bit_iff)
    then show ?thesis by (simp add: interrupts_def isSignalDefaultIgnore_def)
  qed
  then show ?thesis using isInterrupted_exact [OF ok] by auto
qed

lemma put_words_other: "\<forall>i<length ws. b \<noteq> a + 4 * of_nat i \<Longrightarrow> put_words a ws m b = m b"
proof (induction ws arbitrary: a m)
  case (Cons w ws)
  have "\<forall>i<length ws. b \<noteq> (a + 4) + 4 * of_nat i"
  proof (intro allI impI)
    fix i assume "i < length ws"
    with Cons.prems have "b \<noteq> a + 4 * of_nat (Suc i)" by (metis Suc_less_eq length_Cons)
    then show "b \<noteq> (a + 4) + 4 * of_nat i" by (simp add: algebra_simps)
  qed
  moreover have "b \<noteq> a" using Cons.prems [rule_format, of 0] by simp
  ultimately show ?case using Cons.IH by simp
qed simp

lemma get_put_words:
  "length ws \<le> 1000 \<Longrightarrow> get_words a (length ws) (put_words a ws m) = ws"
proof (induction ws arbitrary: a m)
  case (Cons w ws)
  have "a \<noteq> (a + 4) + 4 * of_nat i" if "i < length ws" for i
  proof
    assume "a = (a + 4) + 4 * of_nat i"
    then have "(4 + 4 * of_nat i :: u32) = 0" by simp
    then have "(of_nat (4 + 4 * i) :: u32) = 0" by simp
    then have "2 ^ 32 dvd 4 + 4 * i" by (simp only: word_of_nat_eq_0_iff) simp
    then have "2 ^ 32 \<le> 4 + 4 * i" by (rule dvd_imp_le) simp
    with that Cons.prems show False by simp
  qed
  then have "put_words (a + 4) ws (m(a := w)) a = w" by (simp add: put_words_other)
  with Cons show ?case by simp
qed simp

text \<open>The default of a signal applies when its task has no actions at all or asks for the default.\<close>

definition by_default :: "signal_info \<Rightarrow> nat \<Rightarrow> bool" where
  "by_default s sig \<longleftrightarrow> (case si_actions s of None \<Rightarrow> True | Some as \<Rightarrow> sa_handler (as ! sig) = SIG_DFL)"

definition handler_for :: "signal_info \<Rightarrow> nat \<Rightarrow> sigaction \<Rightarrow> bool" where
  "handler_for s sig e \<longleftrightarrow> (\<exists>as. si_actions s = Some as \<and> e = as ! sig \<and> sa_handler e \<noteq> SIG_IGN \<and> sa_handler e \<noteq> SIG_DFL)"

text \<open>Just the words at an address were written.\<close>

definition wrote :: "u32 \<Rightarrow> u32 list \<Rightarrow> user_memory \<Rightarrow> user_memory \<Rightarrow> bool" where
  "wrote a ws m m' \<longleftrightarrow> get_words a (length ws) m' = ws \<and> (\<forall>b. (\<forall>i<length ws. b \<noteq> a + 4 * of_nat i) \<longrightarrow> m' b = m b)"

lemma put_words_wrote: "length ws \<le> 1000 \<Longrightarrow> wrote a ws m (put_words a ws m)"
  using put_words_other get_put_words by (simp add: wrote_def)

definition lowest_signal :: "signal_info \<Rightarrow> nat \<Rightarrow> bool" where
  "lowest_signal s sig \<longleftrightarrow> sig \<in> {1..64} \<and> bit (si_pending s) (sig - 1) \<and> \<not> bit (si_mask s) (sig - 1) \<and>
    (\<forall>j < sig - 1. bit (si_pending s) j \<longrightarrow> bit (si_mask s) j)"

text \<open>The signal is gone from the pending set and its action was taken: the task ends exactly when the default applies and is not to ignore
  the signal, a handler is entered exactly when there is one, and the frame for it is the only memory written.\<close>

definition acted_on :: "u32 \<Rightarrow> nat \<Rightarrow> signal_info \<Rightarrow> sysframe \<Rightarrow> user_memory \<Rightarrow> outcome \<Rightarrow> signal_info \<Rightarrow> sysframe \<Rightarrow> user_memory \<Rightarrow> bool" where
  "acted_on tramp sig s f m out s' f' m' \<longleftrightarrow>
    (\<forall>j<64. bit (si_pending s') j \<longleftrightarrow> bit (si_pending s) j \<and> j \<noteq> sig - 1) \<and> si_actions s' = si_actions s \<and>
    (out = Exits sig \<longleftrightarrow> by_default s sig \<and> \<not> isSignalDefaultIgnore sig) \<and>
    (out = Handled sig \<longleftrightarrow> (\<exists>e. handler_for s sig e)) \<and> out \<in> {Exits sig, Handled sig, Ignored sig} \<and>
    (if \<exists>e. handler_for s sig e
     then \<exists>e. handler_for s sig e \<and> si_mask s' = si_mask s OR sa_mask e \<and>
       f' = f\<lparr>f_eip := sa_handler e, f_user_esp := f_user_esp f - 88\<rparr> \<and>
       wrote (f_user_esp f - 88)
         (signal_frame (if sa_flags e AND SA_RESTORER \<noteq> 0 then sa_restorer e else 0xFFFFF000 + tramp) sig (si_mask s) f) m m'
     else si_mask s' = si_mask s \<and> f' = f \<and> m' = m)"

text \<open>C19: on the way to user mode the kernel acts on the lowest-numbered signal that is pending and not masked, if
  there is one, and takes exactly that one off the pending set; a masked signal is never acted on. The action decides what
  happens. A signal to be ignored, by request or by default, changes nothing else. One left to its default that is not ignored by
  default ends the task. One with a handler does not end the task: the handler is entered below the stack pointer, on a frame that
  holds the return address, the signal number, the old mask and the interrupted registers, no other word of memory is written,
  and the mask of the action is added.\<close>

theorem signal_delivery_exact:
  assumes ok: "actions_ok s"
  shows "\<exists>out s' f' m'. checkSignal tramp s f m = Inr (out, s', f', m') \<and>
    (if restSignals s = 0 then out = NoSignal \<and> s' = s \<and> f' = f \<and> m' = m
     else \<exists>sig. lowest_signal s sig \<and> acted_on tramp sig s f m out s' f' m')"
proof (cases "restSignals s = 0")
  case True
  then show ?thesis by (simp add: checkSignal_def)
next
  case False
  note z = countr_zero_nonzero [OF False]
  define n where "n = countr_zero (restSignals s) + 1"
  define s1 where "s1 = s\<lparr>si_pending := si_pending s XOR sig_bit n\<rparr>"
  have n: "n \<in> {1..64}" "n < NSIG" using z(1) by (auto simp: n_def NSIG_def)
  have low: "lowest_signal s n" using z n(1) by (auto simp: lowest_signal_def n_def restSignals_bit)
  have pend: "\<forall>j<64. bit (si_pending s1) j \<longleftrightarrow> bit (si_pending s) j \<and> j \<noteq> n - 1"
    using low by (auto simp: s1_def bit_xor_iff sig_bit_iff lowest_signal_def)
  have keep: "si_actions s1 = si_actions s" "si_mask s1 = si_mask s" by (simp_all add: s1_def)
  have act: "action_of s1 n = Inr (case si_actions s of None \<Rightarrow> None | Some as \<Rightarrow> Some (as ! n))"
    using ok n(2) by (auto simp: action_of_def keep actions_ok_def split: option.split)
  have c: "checkSignal tramp s f m = sbind (action_of s1 n) (\<lambda>a. Inr (case a of
         None \<Rightarrow> (defaultSignalLogic n, s1, f, m)
       | Some entry \<Rightarrow>
           if sa_handler entry = SIG_IGN then (Ignored n, s1, f, m)
           else if sa_handler entry = SIG_DFL then (defaultSignalLogic n, s1, f, m)
           else let mask = si_mask s1; esp = f_user_esp f - 88;
                    ret = (if sa_flags entry AND SA_RESTORER \<noteq> 0 then sa_restorer entry else 0xFFFFF000 + tramp)
                in (Handled n, s1\<lparr>si_mask := mask OR sa_mask entry\<rparr>,
                    f\<lparr>f_eip := sa_handler entry, f_user_esp := esp\<rparr>,
                    put_words esp (signal_frame ret n mask f) m)))"
    unfolding checkSignal_def Let_def n_def [symmetric] s1_def [symmetric] using False by simp
  show ?thesis
  proof (cases "\<exists>e. handler_for s n e")
    case True
    then obtain as where as: "si_actions s = Some as" "sa_handler (as ! n) \<noteq> SIG_IGN" "sa_handler (as ! n) \<noteq> SIG_DFL" by (auto simp: handler_for_def)
    have h: "handler_for s n e \<longleftrightarrow> e = as ! n" for e using as by (auto simp: handler_for_def)
    let ?a = "f_user_esp f - 88"
    define ws where "ws = signal_frame (if sa_flags (as ! n) AND SA_RESTORER \<noteq> 0 then sa_restorer (as ! n) else 0xFFFFF000 + tramp) n (si_mask s) f"
    have len: "length ws = 22" by (simp add: ws_def signal_frame_def mask_words_def frame_words_def)
    define s2 f2 m2 where "s2 = s1\<lparr>si_mask := si_mask s OR sa_mask (as ! n)\<rparr>" "f2 = f\<lparr>f_eip := sa_handler (as ! n), f_user_esp := ?a\<rparr>"
      "m2 = put_words ?a ws m"
    have run: "checkSignal tramp s f m = Inr (Handled n, s2, f2, m2)" using c act as keep by (simp add: Let_def ws_def s2_f2_m2_def)
    have w: "wrote ?a ws m m2" using put_words_wrote len by (simp add: s2_f2_m2_def)
    have d: "\<not> by_default s n" using as by (simp add: by_default_def)
    have p2: "\<forall>j<64. bit (si_pending s2) j \<longleftrightarrow> bit (si_pending s) j \<and> j \<noteq> n - 1" "si_actions s2 = si_actions s" "si_mask s2 = si_mask s OR sa_mask (as ! n)"
      using pend keep by (simp_all add: s2_f2_m2_def)
    have "acted_on tramp n s f m (Handled n) s2 f2 m2"
      unfolding acted_on_def h using d w p2 by (simp add: ws_def s2_f2_m2_def(2))
    then show ?thesis using run low False by auto
  next
    case no: False
    then have "checkSignal tramp s f m = Inr (if by_default s n \<and> \<not> isSignalDefaultIgnore n then Exits n else Ignored n, s1, f, m)"
      using c act by (auto simp: handler_for_def by_default_def defaultSignalLogic_def SIG_IGN_def SIG_DFL_def split: option.splits)
    then have run: "checkSignal tramp s f m = Inr (if by_default s n \<and> \<not> isSignalDefaultIgnore n then Exits n else Ignored n, s1, f, m)" .
    have "acted_on tramp n s f m (if by_default s n \<and> \<not> isSignalDefaultIgnore n then Exits n else Ignored n) s1 f m"
      using no pend keep by (simp add: acted_on_def)
    then show ?thesis using run low False by auto
  qed
qed

section \<open>The return from a handler\<close>

lemma get_words_append: "get_words a (n + k) m = get_words a n m @ get_words (a + 4 * of_nat n) k m"
  by (induction n arbitrary: a) (simp_all add: algebra_simps)

lemma ucast_pack16:
  "ucast (pack16 lo hi) = lo" "ucast (drop_bit 16 (pack16 lo hi)) = hi"
proof -
  have "\<not> bit lo (16 + n)" for n using bit_imp_le_length [of lo "16 + n"] by auto
  then show "ucast (pack16 lo hi) = lo" "ucast (drop_bit 16 (pack16 lo hi)) = hi"
    by (auto intro!: bit_word_eqI simp: pack16_def bit_simps)
qed

lemma words_frame_words: "words_frame (frame_words f) = f"
  by (simp add: words_frame_def frame_words_def ucast_pack16)

lemma words_mask_words: "words_mask (mask_words m) = m"
  by (auto intro!: bit_word_eqI simp: words_mask_def mask_words_def bit_simps)

text \<open>The frame of a task in user mode: user segments, interrupts on, no I/O privilege, running at an executable user
  address.\<close>

definition user_frame :: "(u32 \<Rightarrow> bool) \<Rightarrow> sysframe \<Rightarrow> bool" where
  "user_frame execOk f \<longleftrightarrow> f_cs f = userCs \<and> f_user_ss f = userDs \<and> f_ds f = ucast userDs \<and> f_es f = ucast userDs \<and>
    f_fs f = ucast userDs \<and> (f_gs f = ucast userDs \<or> f_gs f = ucast userTls) \<and>
    f_flags f AND 0x3000 = 0 \<and> f_flags f AND 0x200 = 0x200 \<and> f_eip f < 0xC0000000 \<and> execOk (f_eip f)"

text \<open>The same but for the flags: a program is started with interrupts off.\<close>

definition user_mode :: "(u32 \<Rightarrow> bool) \<Rightarrow> sysframe \<Rightarrow> bool" where
  "user_mode execOk f \<longleftrightarrow> f_cs f = userCs \<and> f_user_ss f = userDs \<and> f_ds f = ucast userDs \<and> f_es f = ucast userDs \<and>
    f_fs f = ucast userDs \<and> (f_gs f = ucast userDs \<or> f_gs f = ucast userTls) \<and> f_eip f < 0xC0000000 \<and> execOk (f_eip f)"

lemma force_bits:
  fixes w k j :: u32
  assumes "j AND k = 0"
  shows "((w AND NOT k) OR j) AND k = 0" "((w AND NOT k) OR j) AND j = j"
    "w AND k = 0 \<Longrightarrow> w AND j = j \<Longrightarrow> (w AND NOT k) OR j = w"
  using assms by (auto simp: bit_eq_iff bit_simps)

lemmas flags_sanitised = force_bits(1,2) [of "0x200" "0x3000", simplified]
lemmas flags_clean = force_bits(3) [of "0x200" "0x3000"]

lemma ucast_16_32: "ucast (ucast g :: u32) = (g :: u16)"
  by (rule bit_word_eqI) (auto simp: bit_simps)

text \<open>C18: whatever a task puts on its stack, \<^verbatim>\<open>sigreturn\<close> either ends it or resumes it in user mode: with the user
  segments, with interrupts enabled and without I/O privilege, at an executable address below the kernel.\<close>

theorem sigreturn_confined:
  "case sigreturn execOk s f m of (s', r) \<Rightarrow> (case r of None \<Rightarrow> True | Some f' \<Rightarrow> user_frame execOk f')"
proof -
  have "ucast w = userDs \<Longrightarrow> w = ucast userDs" "ucast w = userTls \<Longrightarrow> w = ucast userTls" for w :: u16
    using ucast_16_32 [of w] by simp_all
  then show ?thesis
    by (auto simp: sigreturn_def Let_def user_frame_def flags_sanitised not_le split: option.splits)
qed

text \<open>C17: a handler is transparent: when it returns through its return address and the trampoline, without touching
  its frame, \<^verbatim>\<open>sigreturn\<close> resumes the interrupted task, at an executable user address with the user segments, where the signal came
  in, with all general registers, the segments, the instruction and stack pointers and the signal mask as they were, whatever the handler did with the
  registers. The flags come back with interrupts enabled and no I/O privilege, so a task that already ran like that, unlike one
  started with interrupts off, finds them as they were too.\<close>

theorem handler_returns:
  assumes run: "checkSignal tramp s f m = Inr (Handled sig, s', f', m')"
    and user: "user_mode execOk f" and esp: "f_user_esp g = f_user_esp f' + 8"
  shows "sigreturn execOk t g m' = (t\<lparr>si_mask := si_mask s\<rparr>, Some (f\<lparr>f_flags := (f_flags f AND NOT 0x3000) OR 0x200\<rparr>)) \<and>
    (f_flags f AND 0x3000 = 0 \<longrightarrow> f_flags f AND 0x200 = 0x200 \<longrightarrow> f\<lparr>f_flags := (f_flags f AND NOT 0x3000) OR 0x200\<rparr> = f)"
proof -
  obtain entry ret where m': "m' = put_words (f_user_esp f - 88) (signal_frame ret sig (si_mask s) f) m"
    and e: "f_user_esp f' = f_user_esp f - 88"
    using run by (auto simp: checkSignal_def Let_def sbind_eq_Inr_iff defaultSignalLogic_def split: if_splits option.splits)
  let ?a = "f_user_esp f - 88"
  have len: "length (signal_frame ret sig (si_mask s) f) = 2 + (2 + 18)"
    by (simp add: signal_frame_def mask_words_def frame_words_def)
  have all: "get_words ?a (2 + (2 + 18)) m' = [ret, of_nat sig] @ mask_words (si_mask s) @ frame_words f"
    using get_put_words [of "signal_frame ret sig (si_mask s) f" ?a m] unfolding m' len by (simp add: signal_frame_def)
  have "get_words ?a 2 m' = [ret, of_nat sig] \<and> get_words (?a + 8) 2 m' = mask_words (si_mask s) \<and>
      get_words (?a + 8 + 8) 18 m' = frame_words f"
    using all unfolding get_words_append by (simp add: append_eq_append_conv mask_words_def frame_words_def numeral_2_eq_2 numeral_eq_Suc)
  then have w: "get_words (f_user_esp g) 2 m' = mask_words (si_mask s)" "get_words (f_user_esp g + 8) 18 m' = frame_words f"
    unfolding esp e by simp_all
  have seg: "f_gs f = ucast userDs \<or> f_gs f = ucast userTls" using user by (simp add: user_mode_def)
  have same: "f\<lparr>f_cs := userCs, f_user_ss := userDs, f_ds := ucast userDs, f_es := ucast userDs, f_fs := ucast userDs,
      f_gs := f_gs f, f_flags := w\<rparr> = f\<lparr>f_flags := w\<rparr>" for w
    using user by (auto simp: user_mode_def intro!: sysframe.equality)
  have g: "(if ucast (f_gs f) \<noteq> userDs \<and> ucast (f_gs f) \<noteq> userTls then ucast userDs else f_gs f) = f_gs f"
    using seg by (auto simp: userDs_def userTls_def)
  have c: "\<not> (f_eip f \<ge> 0xC0000000 \<or> \<not> execOk (f_eip f))" using user by (simp add: user_mode_def not_le)
  have "sigreturn execOk t g m' = (t\<lparr>si_mask := si_mask s\<rparr>, Some (f\<lparr>f_flags := (f_flags f AND NOT 0x3000) OR 0x200\<rparr>))"
    unfolding sigreturn_def Let_def w words_mask_words words_frame_words g same using c by simp
  then show ?thesis using flags_clean [of "f_flags f"] by simp
qed

definition example_signals :: signal_info where
  "example_signals = \<lparr>si_pending = 0x12, si_mask = 2,
    si_actions = Some ((replicate 65 no_action)[5 := \<lparr>sa_handler = 0x401000, sa_flags = 0, sa_restorer = 0, sa_mask = 0x10\<rparr>])\<rparr>"

definition example_frame :: sysframe where
  "example_frame = \<lparr>f_effective_esp = 0, f_gs = 0x33, f_fs = 0x23, f_es = 0x23, f_ds = 0x23, f_edi = 1, f_esi = 2, f_ebp = 3,
    f_esp = 4, f_ebx = 5, f_edx = 6, f_ecx = 7, f_eax = 8, f_isr_num = 128, f_error_code = 0, f_eip = 0x400123,
    f_cs = 0x1B, f_flags = 0x202, f_user_esp = 0xBFFFF000, f_user_ss = 0x23\<rparr>"

lemma example_rest: "restSignals example_signals = 0x10" "countr_zero 0x10 = 4"
  by code_simp+

lemma example_delivery:
  obtains s' f' m' where "checkSignal 0 example_signals example_frame (\<lambda>_. 0) = Inr (Handled 5, s', f', m')"
proof -
  have a: "action_of (example_signals\<lparr>si_pending := p\<rparr>) 5 =
      Inr (Some \<lparr>sa_handler = 0x401000, sa_flags = 0, sa_restorer = 0, sa_mask = 0x10\<rparr>)" for p
    by (simp add: action_of_def example_signals_def)
  show thesis
    by (rule that) (simp_all add: checkSignal_def Let_def example_rest a SIG_IGN_def SIG_DFL_def example_frame_def)
qed

theorem signal_delivery_exact_witness:
  "\<exists>s' f' m'. checkSignal 0 example_signals example_frame (\<lambda>_. 0) = Inr (Handled 5, s', f', m') \<and>
    bit (si_pending example_signals) 4 \<and> \<not> bit (si_pending s') 4"
proof -
  obtain s' f' m' where r: "checkSignal 0 example_signals example_frame (\<lambda>_. 0) = Inr (Handled 5, s', f', m')"
    by (rule example_delivery)
  have "actions_ok example_signals" by (simp add: actions_ok_def example_signals_def NSIG_def)
  from signal_delivery_exact [OF this, of 0 example_frame "\<lambda>_. 0"] r obtain sig where
    "lowest_signal example_signals sig" "acted_on 0 sig example_signals example_frame (\<lambda>_. 0) (Handled 5) s' f' m'" by (auto simp: example_rest)
  then have "sig = 5" "bit (si_pending example_signals) (sig - 1)" "\<not> bit (si_pending s') (sig - 1)" by (auto simp: acted_on_def lowest_signal_def)
  with r show ?thesis by auto
qed

theorem handler_returns_witness:
  "\<exists>s' f' m'. checkSignal 0 example_signals example_frame (\<lambda>_. 0) = Inr (Handled 5, s', f', m') \<and>
    sigreturn (\<lambda>_. True) s' (f'\<lparr>f_user_esp := f_user_esp f' + 8, f_eax := 119, f_ebx := 77\<rparr>) m' =
      (s'\<lparr>si_mask := 2\<rparr>, Some example_frame)"
proof -
  obtain s' f' m' where r: "checkSignal 0 example_signals example_frame (\<lambda>_. 0) = Inr (Handled 5, s', f', m')"
    by (rule example_delivery)
  have "user_mode (\<lambda>_. True) example_frame"
    by (simp add: user_mode_def example_frame_def userCs_def userDs_def userTls_def)
  from handler_returns [OF r this, of "f'\<lparr>f_user_esp := f_user_esp f' + 8, f_eax := 119, f_ebx := 77\<rparr>" s'] r
  show ?thesis by (auto simp: example_signals_def example_frame_def)
qed

end
