(* ===== verification/Nyan_Sched.thy ===== *)
theory Nyan_Sched
  imports Nyan_Signal Nyan_Pipe Nyan_List "HOL-Library.Sublist"
begin

unbundle bit_operations_syntax

text \<open>
  Tasks and the scheduler (kernel/task/scheduler.*.cpp, kernel/task/wait.cpp, kernel/task/pid.cpp,
  kernel/task/tcb.hpp, the task part of kernel/task/task.cpp and kernel/task/mod.cpp, kernel/timer/load.cpp and the
  system calls on tasks). A task is known by the address of its control block. The run queue, the sleep queue, the
  wait lists are sequences of tasks; they share one link field of the control block, so a task must never be on two of them. The lists of children share another link field and are kept as
  pointers, because a task can be erased from a list it is not on. \<^verbatim>\<open>switchToTask\<close> makes the other task current, and what that task
  does first is mark itself running. A call that blocks ends for its caller with the switch; \<open>block_return\<close> is what
  it finds when it runs again. Memory and files of a task are in the theories of those components.
\<close>

section \<open>State\<close>

type_synonym tid = nat

datatype task_state = S_Ready | S_Running | S_Exited | S_Blocked

datatype block_reason = BR_Unknown | BR_Sleep | BR_WaitInput | BR_WaitTask

datatype wait_list = WL_Childs tid | WL_Device nat

text \<open>What \<^verbatim>\<open>__request_detach\<close> does: take the task off the queue it waits on.\<close>

datatype detach = NoDetach | FromSleeping | FromWait wait_list

record tcb =
  t_state :: task_state
  t_blockReason :: block_reason
  t_wakeReason :: wake_reason
  t_pid :: int
  t_parentPid :: int
  t_groupPid :: int
  t_childTasks :: "tid list_ends"
  t_signal :: signal_info
  t_exit_stat :: u32
  t_sleep_time :: u64
  t_detach :: detach

record sched =
  sc_current :: tid
  sc_disable :: u32
  sc_need_yield :: bool
  sc_pending :: "tid list"
  sc_sleeping :: "tid list"
  sc_waits :: "wait_list \<Rightarrow> tid list"
  sc_tcb :: "tid \<Rightarrow> tcb"
  sc_childs :: "tid list_heap"
  sc_all :: "tid option list"
  sc_now :: u64

definition KP_Invalid :: int where "KP_Invalid = - 1"
definition KP_Init :: nat where "KP_Init = 1"
definition KP_Idle :: nat where "KP_Idle = 2"
definition KP_FirstUser :: nat where "KP_FirstUser = 16"
definition max_task :: nat where "max_task = 256"

definition upd_tcb :: "tid \<Rightarrow> (tcb \<Rightarrow> tcb) \<Rightarrow> sched \<Rightarrow> sched" where
  "upd_tcb t f st = st\<lparr>sc_tcb := (sc_tcb st)(t := f (sc_tcb st t))\<rparr>"

definition task_at :: "nat \<Rightarrow> sched \<Rightarrow> tid exec" where
  "task_at p st = (case sc_all st ! p of Some t \<Rightarrow> Inr t | None \<Rightarrow> Inl NullDeref)"

section \<open>Process numbers\<close>

definition allocPid :: "tid \<Rightarrow> sched \<Rightarrow> int \<times> sched" where
  "allocPid task st = (case find (\<lambda>p. sc_all st ! p = None) [KP_FirstUser..<max_task] of
      Some p \<Rightarrow> (int p, upd_tcb task (\<lambda>c. c\<lparr>t_pid := int p\<rparr>) (st\<lparr>sc_all := (sc_all st)[p := Some task]\<rparr>))
    | None \<Rightarrow> (KP_Invalid, st))"

definition findTask :: "int \<Rightarrow> sched \<Rightarrow> tid option" where
  "findTask pid st = (if pid < 0 \<or> pid \<ge> int max_task then None else sc_all st ! nat pid)"

definition findTaskNew :: "int \<Rightarrow> sched \<Rightarrow> tid result" where
  "findTaskNew pid st = (if pid < 0 \<or> pid \<ge> int max_task then Inl SYS_EINVAL
    else case sc_all st ! nat pid of None \<Rightarrow> Inl SYS_ESRCH | Some t \<Rightarrow> Inr t)"

definition findTaskGroup :: "int \<Rightarrow> sched \<Rightarrow> tid list result" where
  "findTaskGroup pgid st =
    (let result = filter (\<lambda>t. t_groupPid (sc_tcb st t) = pgid) (List.map_filter id (map (\<lambda>p. sc_all st ! p) [KP_FirstUser..<max_task]))
     in if result = [] then Inl SYS_ESRCH else Inr result)"

section \<open>Switching\<close>

definition switchToTask :: "tid \<Rightarrow> sched \<Rightarrow> sched" where
  "switchToTask next st = upd_tcb next (\<lambda>c. c\<lparr>t_state := S_Running\<rparr>) (st\<lparr>sc_current := next\<rparr>)"

definition yieldEnabled :: "sched \<Rightarrow> bool" where
  "yieldEnabled st \<longleftrightarrow> sc_disable st = 0"

definition yield :: "sched \<Rightarrow> sched exec" where
  "yield st =
    (if \<not> yieldEnabled st then Inr (st\<lparr>sc_need_yield := True\<rparr>)
     else let cur = sc_current st in
     case sc_pending st of
       next # rest \<Rightarrow>
         let st = st\<lparr>sc_pending := rest\<rparr>;
             st = (if t_state (sc_tcb st cur) = S_Running
                   then let st = upd_tcb cur (\<lambda>c. c\<lparr>t_state := S_Ready\<rparr>) st
                        in if t_pid (sc_tcb st cur) \<noteq> int KP_Idle then st\<lparr>sc_pending := sc_pending st @ [cur]\<rparr> else st
                   else st)
         in Inr (switchToTask next st)
     | [] \<Rightarrow>
         if t_state (sc_tcb st cur) \<noteq> S_Running then sbind (task_at KP_Idle st) (\<lambda>idle. Inr (switchToTask idle st))
         else Inr st)"

definition disableYield :: "sched \<Rightarrow> sched" where
  "disableYield st = st\<lparr>sc_disable := sc_disable st + 1\<rparr>"

definition enableYield :: "sched \<Rightarrow> sched exec" where
  "enableYield st = (let st = st\<lparr>sc_disable := sc_disable st - 1\<rparr> in
    if sc_disable st = 0 \<and> sc_need_yield st then yield (st\<lparr>sc_need_yield := False\<rparr>) else Inr st)"

definition sched_block :: "block_reason \<Rightarrow> sched \<Rightarrow> sched exec" where
  "sched_block reason st =
    (if \<not> yieldEnabled st then Inl (Kfatal ''block during yield disabled'')
     else yield (upd_tcb (sc_current st)
       (\<lambda>c. c\<lparr>t_state := S_Blocked, t_blockReason := reason, t_wakeReason := WR_Normal\<rparr>) st))"

definition block_return :: "sched \<Rightarrow> wake_reason \<times> sched" where
  "block_return st = (t_wakeReason (sc_tcb st (sc_current st)),
    upd_tcb (sc_current st) (\<lambda>c. c\<lparr>t_wakeReason := WR_Normal\<rparr>) st)"

definition detach_task :: "detach \<Rightarrow> tid \<Rightarrow> sched \<Rightarrow> sched" where
  "detach_task d task st = (case d of
      NoDetach \<Rightarrow> st
    | FromSleeping \<Rightarrow> st\<lparr>sc_sleeping := remove1 task (sc_sleeping st)\<rparr>
    | FromWait wl \<Rightarrow> st\<lparr>sc_waits := (sc_waits st)(wl := remove1 task (sc_waits st wl))\<rparr>)"

definition wake :: "tid \<Rightarrow> wake_reason \<Rightarrow> sched \<Rightarrow> sched" where
  "wake task reason st =
    (if t_state (sc_tcb st task) \<noteq> S_Blocked then st
     else let d = t_detach (sc_tcb st task);
              st = upd_tcb task (\<lambda>c. c\<lparr>t_state := S_Ready, t_blockReason := BR_Unknown, t_wakeReason := reason,
                t_detach := NoDetach\<rparr>) st;
              st = detach_task d task st
          in st\<lparr>sc_pending := sc_pending st @ [task]\<rparr>)"

section \<open>Wait lists and sleeping\<close>

definition wl_wait :: "wait_list \<Rightarrow> block_reason \<Rightarrow> sched \<Rightarrow> sched exec" where
  "wl_wait wl reason st = (let cur = sc_current st in
    sched_block reason (upd_tcb cur (\<lambda>c. c\<lparr>t_detach := FromWait wl\<rparr>)
      (st\<lparr>sc_waits := (sc_waits st)(wl := sc_waits st wl @ [cur])\<rparr>)))"

definition wl_wakeOne :: "wait_list \<Rightarrow> wake_reason \<Rightarrow> sched \<Rightarrow> bool \<times> sched" where
  "wl_wakeOne wl reason st = (case sc_waits st wl of
      task # rest \<Rightarrow> (True, wake task reason (upd_tcb task (\<lambda>c. c\<lparr>t_detach := NoDetach\<rparr>)
        (st\<lparr>sc_waits := (sc_waits st)(wl := rest)\<rparr>)))
    | [] \<Rightarrow> (False, st))"

text \<open>The loop of \<^verbatim>\<open>wakeAll\<close>; waking a task without a detach request leaves every wait list alone.\<close>

fun wake_each :: "wait_list \<Rightarrow> wake_reason \<Rightarrow> tid list \<Rightarrow> sched \<Rightarrow> sched" where
  "wake_each wl reason [] st = st"
| "wake_each wl reason (task # rest) st = wake_each wl reason rest
    (wake task reason (upd_tcb task (\<lambda>c. c\<lparr>t_detach := NoDetach\<rparr>) (st\<lparr>sc_waits := (sc_waits st)(wl := rest)\<rparr>)))"

definition wl_wakeAll :: "wait_list \<Rightarrow> wake_reason \<Rightarrow> sched \<Rightarrow> sched" where
  "wl_wakeAll wl reason st = wake_each wl reason (sc_waits st wl) st"

definition sched_sleep :: "u64 \<Rightarrow> sched \<Rightarrow> sched exec" where
  "sched_sleep ms st =
    (if \<not> yieldEnabled st then Inl (Kfatal ''sleep during yield disabled'')
     else let cur = sc_current st; currTs = sc_now st + ms;
              st = upd_tcb cur (\<lambda>c. c\<lparr>t_sleep_time := currTs\<rparr>) st;
              before = (\<lambda>t. \<not> currTs \<le> t_sleep_time (sc_tcb st t));
              st = st\<lparr>sc_sleeping := takeWhile before (sc_sleeping st) @ cur # dropWhile before (sc_sleeping st)\<rparr>
          in sched_block BR_Sleep (upd_tcb cur (\<lambda>c. c\<lparr>t_detach := FromSleeping\<rparr>) st))"

definition sleep_rest :: "u64 \<Rightarrow> sched \<Rightarrow> u64" where
  "sleep_rest currTs st = (if currTs \<le> sc_now st then 0 else currTs - sc_now st)"

fun wake_sleepers :: "tid list \<Rightarrow> sched \<Rightarrow> sched" where
  "wake_sleepers [] st = st"
| "wake_sleepers (task # rest) st =
    (if t_sleep_time (sc_tcb st task) < sc_now st
     then wake_sleepers rest (wake task WR_Normal
       (upd_tcb task (\<lambda>c. c\<lparr>t_detach := NoDetach\<rparr>) (st\<lparr>sc_sleeping := rest\<rparr>)))
     else st)"

definition checkSleep :: "sched \<Rightarrow> sched exec" where
  "checkSleep st = (let st = wake_sleepers (sc_sleeping st) st in
    if sc_now st mod 10 = 0 then yield st else Inr st)"

definition timer_hit :: "sched \<Rightarrow> sched exec" where
  "timer_hit st = checkSleep (st\<lparr>sc_now := sc_now st + 1\<rparr>)"

section \<open>Signals to tasks\<close>

definition sendSignal :: "tid \<Rightarrow> nat \<Rightarrow> sched \<Rightarrow> sched" where
  "sendSignal task sig st =
    (if t_state (sc_tcb st task) = S_Exited then st
     else let st = upd_tcb task (\<lambda>c. c\<lparr>t_signal := (t_signal c)\<lparr>si_pending := si_pending (t_signal c) OR sig_bit sig\<rparr>\<rparr>) st in
       if isMasked (t_signal (sc_tcb st task)) sig then st
       else if t_state (sc_tcb st task) = S_Blocked then wake task WR_Signal st
       else st)"

definition send_group :: "tid list \<Rightarrow> nat \<Rightarrow> sched \<Rightarrow> sched" where
  "send_group tcbs sig st = fold (\<lambda>t. sendSignal t sig) tcbs st"

definition kill :: "int \<Rightarrow> int \<Rightarrow> sched \<Rightarrow> unit result \<times> sched" where
  "kill pid sig st =
    (if sig < 0 \<or> sig \<ge> int NSIG then (Inl SYS_EINVAL, st)
     else if pid > 0
     then (case findTaskNew pid st of Inl e \<Rightarrow> (Inl e, st)
       | Inr tcb \<Rightarrow> (Inr (), if sig = 0 then st else sendSignal tcb (nat sig) st))
     else if pid = - 1 then (Inl SYS_ENOSYS, st)
     else (case findTaskGroup (if pid = 0 then t_groupPid (sc_tcb st (sc_current st)) else - pid) st of
         Inl e \<Rightarrow> (Inl e, st)
       | Inr tcbs \<Rightarrow> (Inr (), if sig = 0 then st else send_group tcbs (nat sig) st)))"

section \<open>Birth and death\<close>

definition addTask :: "tid \<Rightarrow> sched \<Rightarrow> int \<times> sched" where
  "addTask task st = (let st = st\<lparr>sc_pending := sc_pending st @ [task]\<rparr> in
    if t_pid (sc_tcb st task) = KP_Invalid then allocPid task st else (t_pid (sc_tcb st task), st))"

text \<open>The control block \<^verbatim>\<open>createTask\<close> and \<^verbatim>\<open>forkTask\<close> make; a task made by \<^verbatim>\<open>fork\<close> inherits the signal state.\<close>

definition no_childs :: "tid list_ends" where
  "no_childs = \<lparr>le_head = None, le_tail = None\<rparr>"

definition new_tcb :: "tcb \<Rightarrow> signal_info \<Rightarrow> tcb" where
  "new_tcb parent sigs = \<lparr>t_state = S_Ready, t_blockReason = BR_Unknown, t_wakeReason = WR_Normal, t_pid = KP_Invalid,
    t_parentPid = t_pid parent, t_groupPid = t_groupPid parent, t_childTasks = no_childs, t_signal = sigs, t_exit_stat = 0,
    t_sleep_time = 0, t_detach = NoDetach\<rparr>"

text \<open>An operation on the list of children of a task, and on the link fields all those lists share.\<close>

definition set_childs :: "tid \<Rightarrow> tid list_state \<Rightarrow> sched \<Rightarrow> sched" where
  "set_childs t hl st = upd_tcb t (\<lambda>c. c\<lparr>t_childTasks := snd hl\<rparr>) (st\<lparr>sc_childs := fst hl\<rparr>)"

definition childs_of :: "tid \<Rightarrow> sched \<Rightarrow> tid list_state" where
  "childs_of t st = (sc_childs st, t_childTasks (sc_tcb st t))"

definition create_tcb :: "tid \<Rightarrow> signal_info \<Rightarrow> sched \<Rightarrow> sched exec" where
  "create_tcb task sigs st = (let cur = sc_current st;
      st = upd_tcb task (\<lambda>_. new_tcb (sc_tcb st cur) sigs) (st\<lparr>sc_childs := node_clear task (sc_childs st)\<rparr>)
    in sbind (list_push_back task (childs_of cur st)) (\<lambda>hl. Inr (set_childs cur hl st)))"

definition forkTask :: "tid \<Rightarrow> sched \<Rightarrow> (int \<times> sched) exec" where
  "forkTask task st =
    sbind (create_tcb task (signal_prepareForFork (t_signal (sc_tcb st (sc_current st)))) st) (\<lambda>st.
    let (pid, st) = addTask task st
    in if pid = KP_Invalid then Inl (Kfatal ''fork failed'') else Inr (pid, st))"

definition erase_child :: "tid \<Rightarrow> tid \<Rightarrow> sched \<Rightarrow> sched exec" where
  "erase_child parent task st = sbind (list_erase True task (childs_of parent st)) (\<lambda>(_, hl). Inr (set_childs parent hl st))"

definition setupKnownTasks :: "tid \<Rightarrow> tid \<Rightarrow> sched exec" where
  "setupKnownTasks initTask task =
    (let root = \<lparr>t_state = S_Running, t_blockReason = BR_Unknown, t_wakeReason = WR_Normal, t_pid = int KP_Init,
           t_parentPid = KP_Invalid, t_groupPid = int KP_Init, t_childTasks = no_childs, t_signal = TaskSignalInfo,
           t_exit_stat = 0, t_sleep_time = 0, t_detach = NoDetach\<rparr>;
         st = \<lparr>sc_current = initTask, sc_disable = 0, sc_need_yield = False, sc_pending = [], sc_sleeping = [],
           sc_waits = \<lambda>_. [], sc_tcb = \<lambda>_. root, sc_childs = \<lparr>lh_next = \<lambda>_. None, lh_prev = \<lambda>_. None\<rparr>,
           sc_all = (replicate max_task None)[KP_Init := Some initTask], sc_now = 0\<rparr>
     in sbind (create_tcb task TaskSignalInfo st) (\<lambda>st.
        let st = upd_tcb task (\<lambda>c. c\<lparr>t_parentPid := KP_Invalid, t_groupPid := int KP_Idle, t_pid := int KP_Idle\<rparr>) st;
            st = st\<lparr>sc_all := (sc_all st)[KP_Idle := Some task]\<rparr>
        in erase_child initTask task st))"

definition exit_stat :: "u32 \<Rightarrow> nat \<Rightarrow> u32" where
  "exit_stat code sig = push_bit 8 code OR of_nat sig"

definition reparent :: "tid \<Rightarrow> tid \<Rightarrow> sched \<Rightarrow> sched exec" where
  "reparent cur init st = sbind (list_splice_all True None (t_childTasks (sc_tcb st cur)) (childs_of init st)) (\<lambda>(l2, hl).
    Inr (upd_tcb cur (\<lambda>c. c\<lparr>t_childTasks := l2\<rparr>) (set_childs init hl st)))"

definition exit_notify :: "tid \<Rightarrow> sched \<Rightarrow> sched exec" where
  "exit_notify cur st =
    sbind (if list_empty (t_childTasks (sc_tcb st cur)) then Inr st
           else sbind (task_at KP_Init st) (\<lambda>init. sbind (reparent cur init st) (\<lambda>st. Inr (sendSignal init SIGCHLD st)))) (\<lambda>st.
    Inr (case findTask (t_parentPid (sc_tcb st cur)) st of
        None \<Rightarrow> st
      | Some parent \<Rightarrow> sendSignal parent SIGCHLD (wl_wakeAll (WL_Childs parent) WR_Normal st)))"

definition switch_away :: "sched \<Rightarrow> sched exec" where
  "switch_away st = (case sc_pending st of
      task # rest \<Rightarrow> Inr (switchToTask task (st\<lparr>sc_pending := rest\<rparr>))
    | [] \<Rightarrow> sbind (task_at KP_Idle st) (\<lambda>idle. Inr (switchToTask idle st)))"

definition sched_exit :: "u32 \<Rightarrow> nat \<Rightarrow> sched \<Rightarrow> sched exec" where
  "sched_exit code sig st = (let cur = sc_current st in
    if t_pid (sc_tcb st cur) = int KP_Init then Inl (Kfatal ''init task cannot exit!'')
    else sbind (exit_notify cur (upd_tcb cur (\<lambda>c. c\<lparr>t_state := S_Exited, t_exit_stat := exit_stat code sig\<rparr>) st)) switch_away)"

text \<open>What \<^verbatim>\<open>freeTask\<close> does to tasks; \<^verbatim>\<open>delete\<close> also takes the control block off the table.\<close>

definition freeTask :: "int \<Rightarrow> sched \<Rightarrow> (u32 option \<times> sched) exec" where
  "freeTask pid st =
    (if pid < 0 \<or> pid \<ge> int max_task then Inl OutOfBounds
     else case sc_all st ! nat pid of
      None \<Rightarrow> Inr (None, st)
    | Some task \<Rightarrow>
        if t_state (sc_tcb st task) \<noteq> S_Exited then Inr (None, st)
        else case findTask (t_parentPid (sc_tcb st task)) st of
          None \<Rightarrow> Inl NullDeref
        | Some parent \<Rightarrow> sbind (erase_child parent task st) (\<lambda>st.
            Inr (Some (t_exit_stat (sc_tcb st task)), st\<lparr>sc_all := (sc_all st)[nat pid := None]\<rparr>)))"

text \<open>One pass of the loops of \<^verbatim>\<open>waitpid\<close>: it returns, or the caller has to wait on its list of children. A list of more
  nodes than there are tasks is a cycle, which the loop over the children never leaves.\<close>

definition reap :: "int \<Rightarrow> sched \<Rightarrow> ((int \<times> u32) pass \<times> sched) exec" where
  "reap pid st = sbind (freeTask pid st) (\<lambda>(stat, st). Inr (Return (Inr (pid, case stat of Some s \<Rightarrow> s | None \<Rightarrow> 0)), st))"

fun first_ended :: "nat \<Rightarrow> tid option \<Rightarrow> sched \<Rightarrow> tid option exec" where
  "first_ended n None st = Inr None"
| "first_ended 0 (Some t) st = Inl Diverges"
| "first_ended (Suc n) (Some t) st =
    (if t_state (sc_tcb st t) = S_Exited then Inr (Some t) else first_ended n (lh_next (sc_childs st) t) st)"

definition waitpid_pass :: "int \<Rightarrow> u32 \<Rightarrow> sched \<Rightarrow> ((int \<times> u32) pass \<times> sched) exec" where
  "waitpid_pass pid options st = (let cur = sc_current st; hang = (options AND 1 = 0) in
    if options AND 3 \<noteq> options then Inr (Return (Inl SYS_EINVAL), st)
    else if pid < - 1 \<or> pid = 0 then Inr (Return (Inl SYS_ENOSYS), st)
    else if pid = - 1
    then (if list_empty (t_childTasks (sc_tcb st cur)) then Inr (Return (Inl SYS_ECHILD), st)
          else sbind (first_ended max_task (le_head (t_childTasks (sc_tcb st cur))) st) (\<lambda>found. case found of
            Some t \<Rightarrow> reap (t_pid (sc_tcb st t)) st
          | None \<Rightarrow> Inr (if hang then Block else Return (Inr (0, 0)), st)))
    else case findTask pid st of
        None \<Rightarrow> Inr (Return (Inl SYS_ECHILD), st)
      | Some t \<Rightarrow>
          if t_parentPid (sc_tcb st t) \<noteq> t_pid (sc_tcb st cur) then Inr (Return (Inl SYS_ECHILD), st)
          else if t_state (sc_tcb st t) \<noteq> S_Exited then Inr (if hang then Block else Return (Inr (0, 0)), st)
          else reap pid st)"

definition waitpid_wait :: "sched \<Rightarrow> sched exec" where
  "waitpid_wait st = wl_wait (WL_Childs (sc_current st)) BR_WaitTask st"

section \<open>Identity calls and sleeping calls\<close>

definition sys_getpid :: "sched \<Rightarrow> int" where
  "sys_getpid st = t_pid (sc_tcb st (sc_current st))"

definition sys_getppid :: "sched \<Rightarrow> int" where
  "sys_getppid st = t_parentPid (sc_tcb st (sc_current st))"

definition sys_getpgrp :: "sched \<Rightarrow> int" where
  "sys_getpgrp st = t_groupPid (sc_tcb st (sc_current st))"

definition sys_getpgid :: "int \<Rightarrow> sched \<Rightarrow> int result" where
  "sys_getpgid pid st = (if pid \<noteq> 0
    then (case findTask pid st of None \<Rightarrow> Inl SYS_ESRCH | Some t \<Rightarrow> Inr (t_groupPid (sc_tcb st t)))
    else Inr (t_groupPid (sc_tcb st (sc_current st))))"

definition sys_setpgid :: "int \<Rightarrow> int \<Rightarrow> sched \<Rightarrow> unit result \<times> sched" where
  "sys_setpgid pid pgid st = (if pid \<noteq> 0
    then (case findTaskNew pid st of Inl e \<Rightarrow> (Inl e, st)
      | Inr t \<Rightarrow> (Inr (), upd_tcb t (\<lambda>c. c\<lparr>t_groupPid := pgid\<rparr>) st))
    else (Inr (), upd_tcb (sc_current st) (\<lambda>c. c\<lparr>t_groupPid := pgid\<rparr>) st))"

text \<open>The product is computed in the 32 bits of \<^verbatim>\<open>long\<close>, then widened with its sign.\<close>

definition nanosleep_ms :: "u32 \<Rightarrow> u32 \<Rightarrow> u64 result" where
  "nanosleep_ms tv_sec tv_nsec =
    (if sint tv_sec < 0 \<or> sint tv_nsec < 0 \<or> sint tv_nsec \<ge> 1000000000 then Inl SYS_EINVAL
     else Inr (of_int (sint (tv_sec * 1000 + of_int (sint tv_nsec div 1000000)))))"

definition nanosleep_rest :: "u64 \<Rightarrow> u64 \<times> u64" where
  "nanosleep_rest rest = (rest div 1000, (rest mod 1000) * 1000000)"

section \<open>The invariant of the queues\<close>

abbreviation state_of :: "sched \<Rightarrow> tid \<Rightarrow> task_state" where
  "state_of st t \<equiv> t_state (sc_tcb st t)"

abbreviation detach_of :: "sched \<Rightarrow> tid \<Rightarrow> detach" where
  "detach_of st t \<equiv> t_detach (sc_tcb st t)"

definition live :: "sched \<Rightarrow> tid set" where
  "live st = {t. Some t \<in> set (sc_all st)}"

definition table_ok :: "sched \<Rightarrow> bool" where
  "table_ok st \<longleftrightarrow> length (sc_all st) = max_task \<and>
    (\<forall>p<max_task. \<forall>t. sc_all st ! p = Some t \<longrightarrow> t_pid (sc_tcb st t) = int p)"

text \<open>Every task is where its state says: ready tasks but the idle one on the run queue, once; blocked tasks on the queue
  their detach request names, once; no other task on any queue. Only the current task runs, and the idle task never
  blocks.\<close>

definition queues_ok :: "sched \<Rightarrow> bool" where
  "queues_ok st \<longleftrightarrow>
    distinct (sc_pending st) \<and> set (sc_pending st) = {t \<in> live st. state_of st t = S_Ready \<and> t_pid (sc_tcb st t) \<noteq> int KP_Idle} \<and>
    distinct (sc_sleeping st) \<and> set (sc_sleeping st) = {t \<in> live st. state_of st t = S_Blocked \<and> detach_of st t = FromSleeping} \<and>
    (\<forall>wl. distinct (sc_waits st wl) \<and> set (sc_waits st wl) = {t \<in> live st. state_of st t = S_Blocked \<and> detach_of st t = FromWait wl}) \<and>
    (\<forall>t\<in>live st. state_of st t \<noteq> S_Blocked \<longrightarrow> detach_of st t = NoDetach)"

definition sched_inv0 :: "sched \<Rightarrow> bool" where
  "sched_inv0 st \<longleftrightarrow> table_ok st \<and> queues_ok st \<and> sc_current st \<in> live st \<and> state_of st (sc_current st) \<noteq> S_Ready \<and>
    (\<forall>t\<in>live st. state_of st t = S_Running \<longrightarrow> t = sc_current st) \<and>
    (\<exists>t. sc_all st ! KP_Idle = Some t \<and> state_of st t \<in> {S_Ready, S_Running})"

definition sched_inv :: "sched \<Rightarrow> bool" where
  "sched_inv st \<longleftrightarrow> sched_inv0 st \<and> state_of st (sc_current st) = S_Running"

lemma upd_tcb_simps [simp]:
  "sc_current (upd_tcb t f st) = sc_current st" "sc_disable (upd_tcb t f st) = sc_disable st"
  "sc_need_yield (upd_tcb t f st) = sc_need_yield st" "sc_pending (upd_tcb t f st) = sc_pending st"
  "sc_sleeping (upd_tcb t f st) = sc_sleeping st" "sc_waits (upd_tcb t f st) = sc_waits st"
  "sc_childs (upd_tcb t f st) = sc_childs st" "sc_all (upd_tcb t f st) = sc_all st" "sc_now (upd_tcb t f st) = sc_now st"
  "sc_tcb (upd_tcb t f st) = (sc_tcb st)(t := f (sc_tcb st t))"
  by (simp_all add: upd_tcb_def)

lemma live_upd_tcb [simp]: "live (upd_tcb t f st) = live st"
  by (simp add: live_def)

lemma live_cong: "sc_all st' = sc_all st \<Longrightarrow> live st' = live st"
  by (simp add: live_def)

lemma table_okD: "table_ok st \<Longrightarrow> t \<in> live st \<Longrightarrow> \<exists>p<max_task. sc_all st ! p = Some t \<and> t_pid (sc_tcb st t) = int p"
  by (auto simp: table_ok_def live_def in_set_conv_nth)

lemma task_at_live: "table_ok st \<Longrightarrow> p < max_task \<Longrightarrow> sc_all st ! p = Some t \<Longrightarrow> t \<in> live st"
  by (auto simp: table_ok_def live_def in_set_conv_nth)

lemma findTask_live: "table_ok st \<Longrightarrow> findTask pid st = Some t \<Longrightarrow> t \<in> live st"
  using task_at_live [of st "nat pid" t] by (auto simp: findTask_def split: if_splits)

text \<open>The invariant does not look at the lists of children.\<close>

lemma set_childs_simps [simp]:
  "sc_current (set_childs t hl st) = sc_current st" "sc_disable (set_childs t hl st) = sc_disable st"
  "sc_need_yield (set_childs t hl st) = sc_need_yield st" "sc_pending (set_childs t hl st) = sc_pending st"
  "sc_sleeping (set_childs t hl st) = sc_sleeping st" "sc_waits (set_childs t hl st) = sc_waits st"
  "sc_all (set_childs t hl st) = sc_all st" "live (set_childs t hl st) = live st"
  "sc_tcb (set_childs t hl st) = (sc_tcb st)(t := (sc_tcb st t)\<lparr>t_childTasks := snd hl\<rparr>)"
  by (simp_all add: set_childs_def live_def)

lemma childs_heap [simp]:
  "sched_inv0 (st\<lparr>sc_childs := h\<rparr>) = sched_inv0 st"
  by (simp add: sched_inv0_def table_ok_def queues_ok_def live_def)

text \<open>A change of a control block that leaves what the invariant looks at.\<close>

definition same_queueing :: "tcb \<Rightarrow> tcb \<Rightarrow> bool" where
  "same_queueing c d \<longleftrightarrow> t_state d = t_state c \<and> t_detach d = t_detach c \<and> t_pid d = t_pid c"

lemma sched_inv0_upd:
  assumes "sched_inv0 st" "same_queueing (sc_tcb st t) (f (sc_tcb st t))"
  shows "sched_inv0 (upd_tcb t f st)"
proof -
  have e: "t_state (((sc_tcb st)(t := f (sc_tcb st t))) u) = t_state (sc_tcb st u)"
      "t_detach (((sc_tcb st)(t := f (sc_tcb st t))) u) = t_detach (sc_tcb st u)"
      "t_pid (((sc_tcb st)(t := f (sc_tcb st t))) u) = t_pid (sc_tcb st u)" for u
    using assms(2) by (simp_all add: same_queueing_def)
  show ?thesis
    using assms(1) unfolding sched_inv0_def table_ok_def queues_ok_def upd_tcb_simps live_upd_tcb e .
qed

lemma sched_inv_upd: "sched_inv st \<Longrightarrow> same_queueing (sc_tcb st t) (f (sc_tcb st t)) \<Longrightarrow> sched_inv (upd_tcb t f st)"
  using sched_inv0_upd [of st t f] by (auto simp: sched_inv_def same_queueing_def)

section \<open>Waking\<close>

lemma wake_inv0:
  assumes inv: "sched_inv0 st" and t: "t \<in> live st" "t \<noteq> sc_current st"
  shows "sched_inv0 (wake t r st)"
proof (cases "state_of st t = S_Blocked")
  case False
  then show ?thesis using inv by (simp add: wake_def)
next
  case True
  define f :: "tcb \<Rightarrow> tcb" where "f = (\<lambda>c. c\<lparr>t_state := S_Ready, t_blockReason := BR_Unknown, t_wakeReason := r, t_detach := NoDetach\<rparr>)"
  define st' where "st' = wake t r st"
  have all: "sc_all st' = sc_all st" "sc_current st' = sc_current st" "sc_tcb st' = (sc_tcb st)(t := f (sc_tcb st t))"
    "sc_pending st' = sc_pending st @ [t]"
    "sc_sleeping st' = (if detach_of st t = FromSleeping then remove1 t (sc_sleeping st) else sc_sleeping st)"
    "\<And>wl. sc_waits st' wl = (if detach_of st t = FromWait wl then remove1 t (sc_waits st wl) else sc_waits st wl)"
    using True by (auto simp: st'_def wake_def Let_def f_def detach_task_def split: detach.split)
  have q: "queues_ok st" "table_ok st" using inv by (auto simp: sched_inv0_def)
  have pid: "t_pid (f (sc_tcb st t)) = t_pid (sc_tcb st t)" by (simp add: f_def)
  have idle: "t_pid (sc_tcb st t) \<noteq> int KP_Idle"
  proof
    assume a: "t_pid (sc_tcb st t) = int KP_Idle"
    obtain p where p: "p < max_task" "sc_all st ! p = Some t" "t_pid (sc_tcb st t) = int p"
      using table_okD [OF q(2) t(1)] by blast
    with a have "p = KP_Idle" by simp
    with p(2) inv True show False by (auto simp: sched_inv0_def)
  qed
  have "queues_ok st'"
    unfolding queues_ok_def all live_cong [OF all(1)]
  proof (intro conjI allI ballI impI)
    show "distinct (sc_pending st @ [t])" using q(1) True by (auto simp: queues_ok_def)
    show "set (sc_pending st @ [t]) = {u \<in> live st. t_state (((sc_tcb st)(t := f (sc_tcb st t))) u) = S_Ready \<and>
        t_pid (((sc_tcb st)(t := f (sc_tcb st t))) u) \<noteq> int KP_Idle}"
      using q(1) t(1) idle True by (auto simp: queues_ok_def f_def)
  next
    show "distinct (if detach_of st t = FromSleeping then remove1 t (sc_sleeping st) else sc_sleeping st)"
      using q(1) by (auto simp: queues_ok_def)
    show "set (if detach_of st t = FromSleeping then remove1 t (sc_sleeping st) else sc_sleeping st) =
        {u \<in> live st. t_state (((sc_tcb st)(t := f (sc_tcb st t))) u) = S_Blocked \<and>
          t_detach (((sc_tcb st)(t := f (sc_tcb st t))) u) = FromSleeping}"
      using q(1) by (auto simp: queues_ok_def f_def)
  next
    fix wl
    show "distinct (if detach_of st t = FromWait wl then remove1 t (sc_waits st wl) else sc_waits st wl)"
      using q(1) by (auto simp: queues_ok_def)
    show "set (if detach_of st t = FromWait wl then remove1 t (sc_waits st wl) else sc_waits st wl) =
        {u \<in> live st. t_state (((sc_tcb st)(t := f (sc_tcb st t))) u) = S_Blocked \<and>
          t_detach (((sc_tcb st)(t := f (sc_tcb st t))) u) = FromWait wl}"
      using q(1) by (auto simp: queues_ok_def f_def)
  next
    fix u assume "u \<in> live st" "t_state (((sc_tcb st)(t := f (sc_tcb st t))) u) \<noteq> S_Blocked"
    then show "t_detach (((sc_tcb st)(t := f (sc_tcb st t))) u) = NoDetach"
      using q(1) by (auto simp: queues_ok_def f_def split: if_splits)
  qed
  moreover have "table_ok st'" using q(2) pid by (auto simp: table_ok_def all)
  ultimately show ?thesis
    using inv t True unfolding st'_def [symmetric] sched_inv0_def all live_cong [OF all(1)]
    by (auto simp: f_def)
qed

lemma wake_simps [simp]:
  "sc_all (wake t r st) = sc_all st" "sc_current (wake t r st) = sc_current st" "sc_disable (wake t r st) = sc_disable st"
  "sc_now (wake t r st) = sc_now st" "live (wake t r st) = live st"
  by (auto simp: wake_def Let_def detach_task_def live_def split: detach.split)

lemma wake_current: "t \<noteq> sc_current st \<Longrightarrow> sc_tcb (wake t r st) (sc_current st) = sc_tcb st (sc_current st)"
  by (auto simp: wake_def Let_def detach_task_def split: detach.split)

lemma wake_running_inv:
  assumes "sched_inv st" "t \<in> live st"
  shows "sched_inv (wake t r st)"
proof (cases "t = sc_current st")
  case True
  then show ?thesis using assms by (simp add: sched_inv_def wake_def)
next
  case False
  then show ?thesis using assms wake_inv0 [of st t r] by (simp add: sched_inv_def wake_current)
qed

section \<open>Switching\<close>

text \<open>Between marking the current task and the switch no task runs.\<close>

definition none_running :: "sched \<Rightarrow> bool" where
  "none_running st \<longleftrightarrow> table_ok st \<and> queues_ok st \<and> (\<forall>t\<in>live st. state_of st t \<noteq> S_Running) \<and>
    (\<exists>t. sc_all st ! KP_Idle = Some t \<and> state_of st t = S_Ready)"

lemma switch_inv:
  assumes no: "none_running st" and nx: "nx \<in> live st" "state_of st nx = S_Ready"
    and st1: "st1 = switchToTask nx (st\<lparr>sc_pending := remove1 nx (sc_pending st)\<rparr>)"
  shows "sched_inv st1"
proof -
  have q: "queues_ok st" "table_ok st" "\<forall>t\<in>live st. state_of st t \<noteq> S_Running" using no by (auto simp: none_running_def)
  obtain i where i: "sc_all st ! KP_Idle = Some i" "state_of st i = S_Ready" using no by (auto simp: none_running_def)
  have all: "sc_all st1 = sc_all st" "sc_current st1 = nx" "sc_tcb st1 = (sc_tcb st)(nx := (sc_tcb st nx)\<lparr>t_state := S_Running\<rparr>)"
    "sc_pending st1 = remove1 nx (sc_pending st)" "sc_sleeping st1 = sc_sleeping st" "sc_waits st1 = sc_waits st"
    by (simp_all add: st1 switchToTask_def)
  have "table_ok st1" using q(2) by (auto simp: table_ok_def all)
  moreover have "queues_ok st1"
    unfolding queues_ok_def all live_cong [OF all(1)]
  proof (intro conjI allI)
    show "set (remove1 nx (sc_pending st)) = {t \<in> live st. t_state (((sc_tcb st)(nx := (sc_tcb st nx)\<lparr>t_state := S_Running\<rparr>)) t) = S_Ready \<and>
        t_pid (((sc_tcb st)(nx := (sc_tcb st nx)\<lparr>t_state := S_Running\<rparr>)) t) \<noteq> int KP_Idle}"
      using q(1) by (auto simp: queues_ok_def)
  qed (use q(1) nx in \<open>auto simp: queues_ok_def\<close>)
  ultimately show ?thesis
    using nx q(3) i unfolding sched_inv_def sched_inv0_def all live_cong [OF all(1)] by auto
qed

lemma idle_live:
  assumes "table_ok st" "sc_all st ! KP_Idle = Some t"
  shows "t \<in> live st" "t_pid (sc_tcb st t) = int KP_Idle"
proof -
  have p: "KP_Idle < max_task" by (simp add: KP_Idle_def max_task_def)
  show "t \<in> live st" using task_at_live [OF assms(1) p assms(2)] .
  show "t_pid (sc_tcb st t) = int KP_Idle" using assms p unfolding table_ok_def by blast
qed

lemma not_running_none:
  assumes inv: "sched_inv0 st" and s: "state_of st (sc_current st) \<noteq> S_Running"
  shows "none_running st"
proof -
  obtain t where t: "sc_all st ! KP_Idle = Some t" "state_of st t \<in> {S_Ready, S_Running}"
    using inv by (auto simp: sched_inv0_def)
  have "t \<in> live st" using idle_live [OF _ t(1)] inv by (simp add: sched_inv0_def)
  then have "state_of st t = S_Ready" using t inv s by (auto simp: sched_inv0_def)
  then show ?thesis using inv s t by (auto simp: none_running_def sched_inv0_def)
qed

lemma pending_ready: "queues_ok st \<Longrightarrow> sc_pending st = nx # rest \<Longrightarrow> nx \<in> live st \<and> state_of st nx = S_Ready"
  unfolding queues_ok_def by (metis (mono_tags, lifting) list.set_intros(1) mem_Collect_eq)

lemma switch_away_inv:
  assumes no: "none_running st"
  shows "\<exists>st'. switch_away st = Inr st' \<and> sched_inv st' \<and> sc_all st' = sc_all st"
proof (cases "sc_pending st")
  case Nil
  obtain i where i: "sc_all st ! KP_Idle = Some i" "state_of st i = S_Ready" using no by (auto simp: none_running_def)
  have l: "i \<in> live st" using idle_live [OF _ i(1)] no by (simp add: none_running_def)
  have e: "st\<lparr>sc_pending := remove1 i (sc_pending st)\<rparr> = st" using Nil by simp
  from switch_inv [OF no l i(2) refl] have "sched_inv (switchToTask i st)" unfolding e .
  with Nil i show ?thesis by (simp add: switch_away_def task_at_def) (simp add: switchToTask_def)
next
  case (Cons nx rest)
  have "nx \<in> live st \<and> state_of st nx = S_Ready" using pending_ready Cons no by (simp add: none_running_def)
  with switch_inv [OF no _ _ refl, of nx] Cons show ?thesis by (auto simp: switch_away_def switchToTask_def)
qed

text \<open>Putting the running task back on the run queue, as \<^verbatim>\<open>yield\<close> does before it switches.\<close>

definition requeue :: "sched \<Rightarrow> sched" where
  "requeue st = (let cur = sc_current st; st = upd_tcb cur (\<lambda>c. c\<lparr>t_state := S_Ready\<rparr>) st in
    if t_pid (sc_tcb st cur) \<noteq> int KP_Idle then st\<lparr>sc_pending := sc_pending st @ [cur]\<rparr> else st)"

lemma requeue_none:
  assumes inv: "sched_inv st"
  shows "none_running (requeue st)"
proof -
  let ?c = "sc_current st"
  have q: "queues_ok st" "table_ok st" "?c \<in> live st" "state_of st ?c = S_Running"
    "\<forall>t\<in>live st. state_of st t = S_Running \<longrightarrow> t = ?c"
    using inv by (auto simp: sched_inv_def sched_inv0_def)
  have all: "sc_all (requeue st) = sc_all st" "sc_tcb (requeue st) = (sc_tcb st)(?c := (sc_tcb st ?c)\<lparr>t_state := S_Ready\<rparr>)"
    "sc_pending (requeue st) = sc_pending st @ (if t_pid (sc_tcb st ?c) \<noteq> int KP_Idle then [?c] else [])"
    "sc_sleeping (requeue st) = sc_sleeping st" "sc_waits (requeue st) = sc_waits st"
    by (auto simp: requeue_def Let_def)
  have "table_ok (requeue st)" using q(2) by (auto simp: table_ok_def all)
  moreover have "queues_ok (requeue st)"
    unfolding queues_ok_def all live_cong [OF all(1)]
  proof (intro conjI allI)
    show "distinct (sc_pending st @ (if t_pid (sc_tcb st ?c) \<noteq> int KP_Idle then [?c] else []))"
      using q(1,4) by (auto simp: queues_ok_def)
    show "set (sc_pending st @ (if t_pid (sc_tcb st ?c) \<noteq> int KP_Idle then [?c] else [])) =
        {t \<in> live st. t_state (((sc_tcb st)(?c := (sc_tcb st ?c)\<lparr>t_state := S_Ready\<rparr>)) t) = S_Ready \<and>
          t_pid (((sc_tcb st)(?c := (sc_tcb st ?c)\<lparr>t_state := S_Ready\<rparr>)) t) \<noteq> int KP_Idle}"
      using q(1,3) by (auto simp: queues_ok_def)
  qed (use q(1,3,4) in \<open>auto simp: queues_ok_def\<close>)
  moreover have "\<forall>t\<in>live st. t_state (((sc_tcb st)(?c := (sc_tcb st ?c)\<lparr>t_state := S_Ready\<rparr>)) t) \<noteq> S_Running"
    using q(5) by auto
  moreover obtain i where i: "sc_all st ! KP_Idle = Some i" "state_of st i \<in> {S_Ready, S_Running}"
    using inv by (auto simp: sched_inv_def sched_inv0_def)
  have "i \<in> live st" using idle_live [OF q(2) i(1)] by simp
  then have "t_state (((sc_tcb st)(?c := (sc_tcb st ?c)\<lparr>t_state := S_Ready\<rparr>)) i) = S_Ready" using i(2) q(5) by auto
  ultimately show ?thesis
    unfolding none_running_def all live_cong [OF all(1)] using i(1) by blast
qed

lemma requeue_fields:
  "sc_current (requeue st) = sc_current st" "sc_all (requeue st) = sc_all st" "sc_disable (requeue st) = sc_disable st"
  "sc_pending (requeue st) = sc_pending st @ (if t_pid (sc_tcb st (sc_current st)) \<noteq> int KP_Idle then [sc_current st] else [])"
  by (auto simp: requeue_def Let_def)

lemma yield_running:
  assumes inv: "sched_inv st" and en: "yieldEnabled st"
  shows "yield st = Inr (case sc_pending st of [] \<Rightarrow> st
    | nx # rest \<Rightarrow> switchToTask nx ((requeue st)\<lparr>sc_pending := remove1 nx (sc_pending (requeue st))\<rparr>))"
  using assms by (cases st) (auto simp: yield_def Let_def requeue_def sched_inv_def upd_tcb_def yieldEnabled_def split: list.split)

lemma yield_inv:
  assumes inv: "sched_inv0 st"
    and s: "state_of st (sc_current st) = S_Running \<or> yieldEnabled st"
  shows "\<exists>st'. yield st = Inr st' \<and> sched_inv st' \<and> sc_all st' = sc_all st"
proof (cases "yieldEnabled st")
  case False
  then have "sched_inv (st\<lparr>sc_need_yield := True\<rparr>)"
    using inv s by (simp add: sched_inv_def sched_inv0_def table_ok_def queues_ok_def live_def)
  with False show ?thesis by (simp add: yield_def)
next
  case en: True
  show ?thesis
  proof (cases "state_of st (sc_current st) = S_Running")
    case True
    then have si: "sched_inv st" using inv by (simp add: sched_inv_def)
    show ?thesis
    proof (cases "sc_pending st")
      case Nil
      then show ?thesis using yield_running [OF si en] si by simp
    next
      case (Cons nx rest)
      have n: "nx \<in> live st" "state_of st nx = S_Ready" using pending_ready [of st nx rest] Cons inv by (auto simp: sched_inv0_def)
      moreover from n True have "nx \<noteq> sc_current st" by auto
      ultimately have "nx \<in> live (requeue st)" "state_of (requeue st) nx = S_Ready"
        by (auto simp: requeue_def Let_def live_def)
      from switch_inv [OF requeue_none [OF si] this refl] yield_running [OF si en] Cons show ?thesis
        by (simp add: switchToTask_def requeue_fields)
    qed
  next
    case False
    then have "yield st = switch_away st"
      using en by (auto simp: yield_def switch_away_def Let_def split: list.split)
    then show ?thesis using switch_away_inv [OF not_running_none [OF inv False]] by simp
  qed
qed

section \<open>Blocking\<close>

text \<open>The current task goes to a queue: the queue gains it, it is marked blocked with the matching request, and the
  switch follows.\<close>

definition parked :: "detach \<Rightarrow> sched \<Rightarrow> sched \<Rightarrow> bool" where
  "parked d st st1 \<longleftrightarrow> sc_all st1 = sc_all st \<and> sc_current st1 = sc_current st \<and> sc_pending st1 = sc_pending st \<and>
    sc_disable st1 = sc_disable st \<and>
    (\<forall>t. t \<noteq> sc_current st \<longrightarrow> sc_tcb st1 t = sc_tcb st t) \<and>
    state_of st1 (sc_current st) = S_Blocked \<and> detach_of st1 (sc_current st) = d \<and>
    t_pid (sc_tcb st1 (sc_current st)) = t_pid (sc_tcb st (sc_current st)) \<and>
    distinct (sc_sleeping st1) \<and> set (sc_sleeping st1) = set (sc_sleeping st) \<union> (if d = FromSleeping then {sc_current st} else {}) \<and>
    (\<forall>wl. distinct (sc_waits st1 wl) \<and> set (sc_waits st1 wl) = set (sc_waits st wl) \<union> (if d = FromWait wl then {sc_current st} else {}))"

lemma parked_inv0:
  assumes inv: "sched_inv st" and park: "parked d st st1" and ni: "t_pid (sc_tcb st (sc_current st)) \<noteq> int KP_Idle"
  shows "sched_inv0 st1"
proof -
  let ?c = "sc_current st"
  have q: "queues_ok st" "table_ok st" "?c \<in> live st" "state_of st ?c = S_Running"
    "\<forall>t\<in>live st. state_of st t = S_Running \<longrightarrow> t = ?c"
    using inv by (auto simp: sched_inv_def sched_inv0_def)
  have p: "sc_all st1 = sc_all st" "sc_current st1 = ?c" "sc_pending st1 = sc_pending st"
    "\<And>t. t \<noteq> ?c \<Longrightarrow> sc_tcb st1 t = sc_tcb st t" "state_of st1 ?c = S_Blocked" "detach_of st1 ?c = d"
    "t_pid (sc_tcb st1 ?c) = t_pid (sc_tcb st ?c)"
    "distinct (sc_sleeping st1)" "set (sc_sleeping st1) = set (sc_sleeping st) \<union> (if d = FromSleeping then {?c} else {})"
    "\<And>wl. distinct (sc_waits st1 wl)" "\<And>wl. set (sc_waits st1 wl) = set (sc_waits st wl) \<union> (if d = FromWait wl then {?c} else {})"
    using park unfolding parked_def by blast+
  have pid: "t_pid (sc_tcb st1 t) = t_pid (sc_tcb st t)" for t using p(4,7) by (cases "t = ?c") auto
  have st: "state_of st1 t = (if t = ?c then S_Blocked else state_of st t)" for t using p(4,5) by auto
  have dt: "detach_of st1 t = (if t = ?c then d else detach_of st t)" for t using p(4,6) by auto
  have T: "table_ok st1" using q(2) unfolding table_ok_def p pid .
  have Q: "queues_ok st1"
    unfolding queues_ok_def p(1,3,9,11) live_cong [OF p(1)] pid st dt
  proof (intro conjI allI)
    fix wl
    show "set (sc_waits st wl) \<union> (if d = FromWait wl then {?c} else {}) = {t \<in> live st.
        (if t = ?c then S_Blocked else state_of st t) = S_Blocked \<and> (if t = ?c then d else detach_of st t) = FromWait wl}"
      using q(1,3,4) by (auto simp: queues_ok_def)
  qed (use q(1,3,4) p(8,10) in \<open>auto simp: queues_ok_def\<close>)
  obtain i where i: "sc_all st ! KP_Idle = Some i" "state_of st i \<in> {S_Ready, S_Running}"
    using inv by (auto simp: sched_inv_def sched_inv0_def)
  have "i \<noteq> ?c" using idle_live(2) [OF q(2) i(1)] ni by auto
  then have I: "(if i = ?c then S_Blocked else state_of st i) \<in> {S_Ready, S_Running}" using i(2) by simp
  have R: "(if t = ?c then S_Blocked else state_of st t) = S_Running \<longrightarrow> t = ?c" if "t \<in> live st" for t
    using q(5) [rule_format, OF that] by simp
  show ?thesis
    unfolding sched_inv0_def p(1,2) live_cong [OF p(1)] st
    by (intro conjI ballI T Q q(3) R exI [of _ i] i(1) I) simp_all
qed

lemma current_unqueued:
  assumes "sched_inv st"
  shows "sc_current st \<notin> set (sc_sleeping st)" "sc_current st \<notin> set (sc_waits st wl)"
proof -
  have "state_of st (sc_current st) = S_Running" "queues_ok st" using assms by (auto simp: sched_inv_def sched_inv0_def)
  then show "sc_current st \<notin> set (sc_sleeping st)" "sc_current st \<notin> set (sc_waits st wl)"
    unfolding queues_ok_def by auto
qed

lemma parked_block:
  assumes inv: "sched_inv st" and ni: "t_pid (sc_tcb st (sc_current st)) \<noteq> int KP_Idle" and en: "yieldEnabled st"
    and pre: "parked d st (upd_tcb (sc_current st) (\<lambda>c. c\<lparr>t_state := S_Blocked, t_blockReason := reason, t_wakeReason := WR_Normal\<rparr>) st1)"
    and cur: "sc_current st1 = sc_current st"
  shows "\<exists>st'. sched_block reason st1 = Inr st' \<and> sched_inv st' \<and> sc_all st' = sc_all st"
proof -
  let ?s = "upd_tcb (sc_current st) (\<lambda>c. c\<lparr>t_state := S_Blocked, t_blockReason := reason, t_wakeReason := WR_Normal\<rparr>) st1"
  have dis: "sc_disable st1 = sc_disable st" "sc_all ?s = sc_all st" using pre by (simp_all add: parked_def)
  have en1: "yieldEnabled ?s" "yieldEnabled st1" using en dis(1) by (simp_all add: yieldEnabled_def)
  obtain st' where "yield ?s = Inr st'" "sched_inv st'" "sc_all st' = sc_all ?s"
    using yield_inv [OF parked_inv0 [OF inv pre ni]] en1 by blast
  then show ?thesis using en1 cur dis by (simp add: sched_block_def)
qed

lemma wl_wait_inv:
  assumes inv: "sched_inv st" and ni: "t_pid (sc_tcb st (sc_current st)) \<noteq> int KP_Idle" and en: "yieldEnabled st"
  shows "\<exists>st'. wl_wait wl reason st = Inr st' \<and> sched_inv st' \<and> sc_all st' = sc_all st"
proof -
  have q: "queues_ok st" using inv by (simp add: sched_inv_def sched_inv0_def)
  show ?thesis
    unfolding wl_wait_def Let_def
    by (rule parked_block [OF inv ni en, of "FromWait wl"])
      (use q current_unqueued [OF inv] in \<open>auto simp: parked_def queues_ok_def\<close>)
qed

lemma sched_sleep_inv:
  assumes inv: "sched_inv st" and ni: "t_pid (sc_tcb st (sc_current st)) \<noteq> int KP_Idle" and en: "yieldEnabled st"
  shows "\<exists>st'. sched_sleep ms st = Inr st' \<and> sched_inv st' \<and> sc_all st' = sc_all st"
proof -
  let ?c = "sc_current st"
  have d: "distinct (sc_sleeping st)" "?c \<notin> set (sc_sleeping st)" "\<forall>wl. distinct (sc_waits st wl)"
    using inv current_unqueued [OF inv] by (auto simp: sched_inv_def sched_inv0_def queues_ok_def)
  have ins: "distinct (takeWhile P (sc_sleeping st) @ ?c # dropWhile P (sc_sleeping st))"
    "set (takeWhile P (sc_sleeping st) @ ?c # dropWhile P (sc_sleeping st)) = insert ?c (set (sc_sleeping st))" for P
  proof -
    have e: "takeWhile P (sc_sleeping st) @ dropWhile P (sc_sleeping st) = sc_sleeping st" by simp
    then show "distinct (takeWhile P (sc_sleeping st) @ ?c # dropWhile P (sc_sleeping st))"
      using d(1,2) by (metis distinct_append distinct.simps(2) disjoint_insert(1) list.simps(15) Un_iff set_append)
    show "set (takeWhile P (sc_sleeping st) @ ?c # dropWhile P (sc_sleeping st)) = insert ?c (set (sc_sleeping st))"
      using e by (metis Un_insert_right list.simps(15) set_append)
  qed
  show ?thesis
    unfolding sched_sleep_def Let_def using en
    by (simp only: simp_thms if_False if_True)
      (rule parked_block [OF inv ni en, of FromSleeping]; use ins d(3) in \<open>auto simp: parked_def\<close>)
qed

text \<open>Taking the head of a wait list off and waking it is waking it: its request names that list.\<close>

lemma pop_wake:
  assumes q: "queues_ok st" and hd: "sc_waits st wl = t # rest"
  shows "wake t r (upd_tcb t (\<lambda>c. c\<lparr>t_detach := NoDetach\<rparr>) (st\<lparr>sc_waits := (sc_waits st)(wl := rest)\<rparr>)) = wake t r st"
    "t \<in> live st" "state_of st t = S_Blocked"
proof -
  have "t \<in> set (sc_waits st wl)" using hd by simp
  then have t: "t \<in> live st" "state_of st t = S_Blocked" "detach_of st t = FromWait wl"
    using q unfolding queues_ok_def by auto
  then show "t \<in> live st" "state_of st t = S_Blocked" by simp_all
  show "wake t r (upd_tcb t (\<lambda>c. c\<lparr>t_detach := NoDetach\<rparr>) (st\<lparr>sc_waits := (sc_waits st)(wl := rest)\<rparr>)) = wake t r st"
    using t hd by (cases st) (auto simp: wake_def Let_def detach_task_def upd_tcb_def fun_upd_def)
qed

lemma wake_waits:
  assumes q: "queues_ok st" and hd: "sc_waits st wl = t # rest"
  shows "sc_waits (wake t r st) wl = rest"
proof -
  have "t \<in> set (sc_waits st wl)" using hd by simp
  then have "state_of st t = S_Blocked" "detach_of st t = FromWait wl" using q unfolding queues_ok_def by auto
  then show ?thesis using hd by (simp add: wake_def Let_def detach_task_def)
qed

lemma wake_each_inv0:
  "sched_inv0 st \<Longrightarrow> sc_waits st wl = ts \<Longrightarrow> sc_current st \<notin> set ts \<Longrightarrow>
    sched_inv0 (wake_each wl r ts st) \<and> sc_all (wake_each wl r ts st) = sc_all st \<and>
    sc_current (wake_each wl r ts st) = sc_current st \<and>
    sc_tcb (wake_each wl r ts st) (sc_current st) = sc_tcb st (sc_current st) \<and>
    sc_disable (wake_each wl r ts st) = sc_disable st"
proof (induction ts arbitrary: st)
  case (Cons t ts)
  have q: "queues_ok st" using Cons.prems by (simp add: sched_inv0_def)
  note p = pop_wake [OF q Cons.prems(2)]
  have ne: "t \<noteq> sc_current st" using Cons.prems(3) by auto
  have "sched_inv0 (wake t r st)" using wake_inv0 [OF Cons.prems(1) p(2) ne] .
  from Cons.IH [OF this wake_waits [OF q Cons.prems(2)]] Cons.prems(3) ne show ?case
    by (simp add: p(1) wake_current)
qed simp

lemma wl_wakeAll_inv:
  assumes inv: "sched_inv0 st" and s: "state_of st (sc_current st) \<noteq> S_Blocked"
  shows "sched_inv0 (wl_wakeAll wl r st)" "sc_all (wl_wakeAll wl r st) = sc_all st"
    "sc_current (wl_wakeAll wl r st) = sc_current st"
    "sc_tcb (wl_wakeAll wl r st) (sc_current st) = sc_tcb st (sc_current st)"
    "sc_disable (wl_wakeAll wl r st) = sc_disable st"
proof -
  have "sc_current st \<notin> set (sc_waits st wl)" using inv s by (auto simp: sched_inv0_def queues_ok_def)
  from wake_each_inv0 [OF inv refl this]
  show "sched_inv0 (wl_wakeAll wl r st)" "sc_all (wl_wakeAll wl r st) = sc_all st"
    "sc_current (wl_wakeAll wl r st) = sc_current st"
    "sc_tcb (wl_wakeAll wl r st) (sc_current st) = sc_tcb st (sc_current st)"
    "sc_disable (wl_wakeAll wl r st) = sc_disable st"
    by (simp_all add: wl_wakeAll_def)
qed

lemma wl_wakeOne_inv: "sched_inv st \<Longrightarrow> sched_inv (snd (wl_wakeOne wl r st))"
proof (cases "sc_waits st wl")
  case (Cons t ts)
  assume inv: "sched_inv st"
  then have "queues_ok st" by (simp add: sched_inv_def sched_inv0_def)
  from pop_wake [OF this Cons] show ?thesis using wake_running_inv [OF inv] Cons by (simp add: wl_wakeOne_def)
qed (simp add: wl_wakeOne_def)

lemma pop_sleeper:
  assumes q: "queues_ok st" and hd: "sc_sleeping st = t # rest"
  shows "wake t r (upd_tcb t (\<lambda>c. c\<lparr>t_detach := NoDetach\<rparr>) (st\<lparr>sc_sleeping := rest\<rparr>)) = wake t r st"
    "t \<in> live st" "state_of st t = S_Blocked" "sc_sleeping (wake t r st) = rest"
proof -
  have "t \<in> set (sc_sleeping st)" using hd by simp
  then have t: "t \<in> live st" "state_of st t = S_Blocked" "detach_of st t = FromSleeping"
    using q unfolding queues_ok_def by auto
  then show "t \<in> live st" "state_of st t = S_Blocked" by simp_all
  show "wake t r (upd_tcb t (\<lambda>c. c\<lparr>t_detach := NoDetach\<rparr>) (st\<lparr>sc_sleeping := rest\<rparr>)) = wake t r st"
    using t hd by (cases st) (auto simp: wake_def Let_def detach_task_def upd_tcb_def fun_upd_def)
  show "sc_sleeping (wake t r st) = rest" using t hd by (simp add: wake_def Let_def detach_task_def)
qed

lemma wake_sleepers_inv:
  "sched_inv st \<Longrightarrow> sc_sleeping st = ts \<Longrightarrow>
    sched_inv (wake_sleepers ts st) \<and> sc_all (wake_sleepers ts st) = sc_all st"
proof (induction ts arbitrary: st)
  case (Cons t ts)
  then have q: "queues_ok st" by (simp add: sched_inv_def sched_inv0_def)
  note p = pop_sleeper [OF q Cons.prems(2)]
  have i: "sched_inv (wake t WR_Normal st)" using wake_running_inv [OF Cons.prems(1) p(2)] .
  show ?case using Cons.IH [OF i p(4)] Cons.prems by (simp add: p(1))
qed simp

lemma timer_hit_inv:
  assumes inv: "sched_inv st"
  shows "\<exists>st'. timer_hit st = Inr st' \<and> sched_inv st' \<and> sc_all st' = sc_all st"
proof -
  have i: "sched_inv (st\<lparr>sc_now := sc_now st + 1\<rparr>)"
    using inv by (simp add: sched_inv_def sched_inv0_def table_ok_def queues_ok_def live_def)
  define s1 where "s1 = wake_sleepers (sc_sleeping st) (st\<lparr>sc_now := sc_now st + 1\<rparr>)"
  have s1: "sched_inv s1" "sc_all s1 = sc_all st"
    using wake_sleepers_inv [OF i refl] by (simp_all add: s1_def)
  have "sched_inv0 s1" "state_of s1 (sc_current s1) = S_Running" using s1 by (simp_all add: sched_inv_def)
  then have "\<exists>st'. yield s1 = Inr st' \<and> sched_inv st' \<and> sc_all st' = sc_all s1" by (intro yield_inv) simp_all
  moreover have "timer_hit st = (if sc_now s1 mod 10 = 0 then yield s1 else Inr s1)"
    by (simp add: timer_hit_def checkSleep_def Let_def s1_def)
  ultimately show ?thesis using s1 by (cases "sc_now s1 mod 10 = 0") auto
qed

section \<open>Signals, birth and death\<close>

lemma sendSignal_inv0:
  assumes inv: "sched_inv0 st" and t: "t \<in> live st" and s: "state_of st (sc_current st) \<noteq> S_Blocked"
  shows "sched_inv0 (sendSignal t sig st)" "sc_all (sendSignal t sig st) = sc_all st"
    "sc_current (sendSignal t sig st) = sc_current st"
    "same_queueing (sc_tcb st (sc_current st)) (sc_tcb (sendSignal t sig st) (sc_current st))"
    "t_parentPid (sc_tcb (sendSignal t sig st) (sc_current st)) = t_parentPid (sc_tcb st (sc_current st))"
proof -
  define s1 where "s1 = upd_tcb t (\<lambda>c. c\<lparr>t_signal := (t_signal c)\<lparr>si_pending := si_pending (t_signal c) OR sig_bit sig\<rparr>\<rparr>) st"
  have i: "sched_inv0 s1" unfolding s1_def by (rule sched_inv0_upd [OF inv]) (simp add: same_queueing_def)
  have c: "sc_all s1 = sc_all st" "sc_current s1 = sc_current st" "live s1 = live st"
    "same_queueing (sc_tcb st u) (sc_tcb s1 u)" "t_parentPid (sc_tcb s1 u) = t_parentPid (sc_tcb st u)" for u
    by (simp_all add: s1_def same_queueing_def)
  have r: "sendSignal t sig st = (if state_of st t = S_Exited \<or> isMasked (t_signal (sc_tcb s1 t)) sig \<or> state_of s1 t \<noteq> S_Blocked
      then (if state_of st t = S_Exited then st else s1) else wake t WR_Signal s1)"
    by (auto simp: sendSignal_def Let_def s1_def)
  have w: "sched_inv0 (wake t WR_Signal s1)" "sc_tcb (wake t WR_Signal s1) (sc_current st) = sc_tcb s1 (sc_current st)"
    if "state_of s1 t = S_Blocked"
  proof -
    have "t \<noteq> sc_current s1" using that s c(2,4) by (auto simp: same_queueing_def)
    then show "sched_inv0 (wake t WR_Signal s1)" "sc_tcb (wake t WR_Signal s1) (sc_current st) = sc_tcb s1 (sc_current st)"
      using wake_inv0 [OF i] wake_current [of t s1] t c by auto
  qed
  show "sched_inv0 (sendSignal t sig st)" "sc_all (sendSignal t sig st) = sc_all st"
    "sc_current (sendSignal t sig st) = sc_current st"
    "same_queueing (sc_tcb st (sc_current st)) (sc_tcb (sendSignal t sig st) (sc_current st))"
    "t_parentPid (sc_tcb (sendSignal t sig st) (sc_current st)) = t_parentPid (sc_tcb st (sc_current st))"
    unfolding r using inv i c w by (auto simp: same_queueing_def)
qed

lemma sendSignal_inv: "sched_inv st \<Longrightarrow> t \<in> live st \<Longrightarrow> sched_inv (sendSignal t sig st) \<and> sc_all (sendSignal t sig st) = sc_all st"
  using sendSignal_inv0 [of st t sig] by (auto simp: sched_inv_def same_queueing_def)

lemma exited_inv0:
  assumes inv: "sched_inv st" and ni: "t_pid (sc_tcb st (sc_current st)) \<noteq> int KP_Idle"
  shows "sched_inv0 (upd_tcb (sc_current st) (\<lambda>c. c\<lparr>t_state := S_Exited, t_exit_stat := x\<rparr>) st)"
proof -
  let ?c = "sc_current st"
  define s where "s = upd_tcb ?c (\<lambda>c. c\<lparr>t_state := S_Exited, t_exit_stat := x\<rparr>) st"
  have q: "queues_ok st" "table_ok st" "?c \<in> live st" "state_of st ?c = S_Running"
    "\<forall>t\<in>live st. state_of st t = S_Running \<longrightarrow> t = ?c"
    using inv by (auto simp: sched_inv_def sched_inv0_def)
  have e: "state_of s t = (if t = ?c then S_Exited else state_of st t)" "detach_of s t = detach_of st t"
    "t_pid (sc_tcb s t) = t_pid (sc_tcb st t)" for t
    by (simp_all add: s_def)
  have f: "sc_all s = sc_all st" "live s = live st" "sc_pending s = sc_pending st" "sc_sleeping s = sc_sleeping st"
    "sc_waits s = sc_waits st" "sc_current s = ?c"
    by (simp_all add: s_def)
  have T: "table_ok s" using q(2) unfolding table_ok_def e f .
  have Q: "queues_ok s" using q(1,4) unfolding queues_ok_def e f by auto
  obtain i where i: "sc_all st ! KP_Idle = Some i" "state_of st i \<in> {S_Ready, S_Running}"
    using inv by (auto simp: sched_inv_def sched_inv0_def)
  have "i \<noteq> ?c" using idle_live(2) [OF q(2) i(1)] ni by auto
  then have I: "(if i = ?c then S_Exited else state_of st i) \<in> {S_Ready, S_Running}" using i(2) by simp
  have R: "(if t = ?c then S_Exited else state_of st t) = S_Running \<longrightarrow> t = ?c" if "t \<in> live st" for t
    using q(5) [rule_format, OF that] by simp
  show ?thesis
    unfolding s_def [symmetric] sched_inv0_def f e by (intro conjI ballI T Q q(3) R exI [of _ i] i(1) I) simp_all
qed

lemma exit_notify_inv0:
  assumes inv: "sched_inv0 st" and x: "state_of st (sc_current st) = S_Exited" and ok: "exit_notify (sc_current st) st = Inr st'"
  shows "sched_inv0 st'" "state_of st' (sc_current st') = S_Exited" "sc_all st' = sc_all st"
proof -
  let ?c = "sc_current st"
  obtain s1 where s1: "sched_inv0 s1" "sc_all s1 = sc_all st" "sc_current s1 = ?c" "state_of s1 ?c = S_Exited"
    and step: "st' = (case findTask (t_parentPid (sc_tcb s1 ?c)) s1 of None \<Rightarrow> s1
      | Some parent \<Rightarrow> sendSignal parent SIGCHLD (wl_wakeAll (WL_Childs parent) WR_Normal s1))"
  proof (cases "list_empty (t_childTasks (sc_tcb st ?c))")
    case True
    with that [of st] inv x ok show ?thesis by (simp add: exit_notify_def)
  next
    case False
    then obtain init l2 hl where init: "sc_all st ! KP_Init = Some init"
      and sp: "list_splice_all True None (t_childTasks (sc_tcb st ?c)) (childs_of init st) = Inr (l2, hl)"
      using ok by (auto simp: exit_notify_def reparent_def task_at_def sbind_def split: option.splits sum.splits)
    have il: "init \<in> live st" using task_at_live [OF _ _ init] inv by (simp add: sched_inv0_def KP_Init_def max_task_def)
    define sr where "sr = upd_tcb ?c (\<lambda>c. c\<lparr>t_childTasks := l2\<rparr>) (set_childs init hl st)"
    have re: "reparent ?c init st = Inr sr" by (simp add: reparent_def sp sr_def)
    have rp: "sched_inv0 sr" "sc_all sr = sc_all st" "sc_current sr = ?c" "state_of sr ?c = S_Exited"
      using x inv unfolding sr_def set_childs_def
      by (auto intro!: sched_inv0_upd simp: same_queueing_def)
    have rl: "init \<in> live sr" using il live_cong [OF rp(2)] by simp
    have rb: "state_of sr (sc_current sr) \<noteq> S_Blocked" using rp by simp
    note sg = sendSignal_inv0 [OF rp(1) rl rb, of SIGCHLD]
    show ?thesis
      by (rule that [of "sendSignal init SIGCHLD sr"])
        (use False init ok sg rp re in \<open>simp_all add: exit_notify_def task_at_def same_queueing_def\<close>)
  qed
  have "sched_inv0 st' \<and> state_of st' (sc_current st') = S_Exited \<and> sc_all st' = sc_all st"
  proof (cases "findTask (t_parentPid (sc_tcb s1 ?c)) s1")
    case None
    with step s1 show ?thesis by simp
  next
    case (Some p)
    have b: "state_of s1 (sc_current s1) \<noteq> S_Blocked" using s1 by simp
    define s2 where "s2 = wl_wakeAll (WL_Childs p) WR_Normal s1"
    note w = wl_wakeAll_inv [OF s1(1) b, of "WL_Childs p" WR_Normal, folded s2_def]
    have pl: "p \<in> live s2"
      using findTask_live [OF _ Some] s1(1) live_cong [OF w(2)] by (simp add: sched_inv0_def)
    have b2: "state_of s2 (sc_current s2) \<noteq> S_Blocked" using w b by simp
    have x2: "state_of s2 ?c = S_Exited" "sc_current s2 = ?c" using w(3,4) s1 by simp_all
    show ?thesis
      using step Some sendSignal_inv0 [OF w(1) pl b2, of SIGCHLD] w(2) x2 s1(2)
      by (simp add: s2_def [symmetric] same_queueing_def)
  qed
  then show "sched_inv0 st'" "state_of st' (sc_current st') = S_Exited" "sc_all st' = sc_all st" by simp_all
qed

lemma sched_exit_inv:
  assumes inv: "sched_inv st" and ni: "t_pid (sc_tcb st (sc_current st)) \<noteq> int KP_Idle"
    and ok: "sched_exit code sig st = Inr st'"
  shows "sched_inv st' \<and> sc_all st' = sc_all st"
proof -
  define s where "s = upd_tcb (sc_current st) (\<lambda>c. c\<lparr>t_state := S_Exited, t_exit_stat := exit_stat code sig\<rparr>) st"
  have i: "sched_inv0 s" using exited_inv0 [OF inv ni] by (simp add: s_def)
  have s: "sc_current s = sc_current st" "state_of s (sc_current s) = S_Exited" "sc_all s = sc_all st" by (simp_all add: s_def)
  obtain s1 where s1: "exit_notify (sc_current s) s = Inr s1" "switch_away s1 = Inr st'"
    using ok s(1) by (auto simp: sched_exit_def Let_def s_def [symmetric] sbind_def split: if_splits sum.splits)
  note e = exit_notify_inv0 [OF i s(2) s1(1)]
  have "none_running s1" using not_running_none [OF e(1)] e(2) by simp
  from switch_away_inv [OF this] s1 e(3) s(3) show ?thesis by auto
qed

text \<open>What the end of a task is to the others. \<open>told T\<close> relates two states in which no control block differs but in the queueing of
  its task, the list of its children and, for the tasks \<open>T\<close> that have not ended, a pending \<^verbatim>\<open>SIGCHLD\<close>.\<close>

definition told :: "tid set \<Rightarrow> sched \<Rightarrow> sched \<Rightarrow> bool" where
  "told T st st' \<longleftrightarrow> sc_all st' = sc_all st \<and> (\<forall>u. let c = sc_tcb st u; d = sc_tcb st' u in
    t_pid d = t_pid c \<and> t_parentPid d = t_parentPid c \<and> t_groupPid d = t_groupPid c \<and> t_exit_stat d = t_exit_stat c \<and>
    t_sleep_time d = t_sleep_time c \<and> (t_state d = S_Exited \<longleftrightarrow> t_state c = S_Exited) \<and>
    t_signal d = (t_signal c)\<lparr>si_pending := si_pending (t_signal c) OR (if u \<in> T \<and> t_state c \<noteq> S_Exited then sig_bit SIGCHLD else 0)\<rparr>)"

lemma told_refl: "told {} st st"
  by (simp add: told_def Let_def)

lemma told_trans: "told A a b \<Longrightarrow> told B b c \<Longrightarrow> told (A \<union> B) a c"
  by (auto simp: told_def Let_def or.assoc or.left_commute)

lemma told_upd: "told {} st (upd_tcb t (\<lambda>c. c\<lparr>t_childTasks := l\<rparr>) st)"
  by (simp add: told_def Let_def)

lemma told_childs: "told {} st (set_childs t hl st)"
  by (simp add: told_def Let_def)

lemma wake_told: "told {} st (wake t r st)"
  by (simp add: told_def Let_def wake_def detach_task_def split: detach.split)

lemma wake_each_told: "told {} st (wake_each wl r ts st)"
proof (induction wl r ts st rule: wake_each.induct)
  case (2 wl r t ts st)
  let ?s = "upd_tcb t (\<lambda>c. c\<lparr>t_detach := NoDetach\<rparr>) (st\<lparr>sc_waits := (sc_waits st)(wl := ts)\<rparr>)"
  have "told {} st ?s" by (simp add: told_def Let_def)
  from told_trans [OF told_trans [OF this wake_told] 2] show ?case by simp
qed (simp add: told_refl)

lemma wl_wakeAll_told: "told {} st (wl_wakeAll wl r st)"
  by (simp add: wl_wakeAll_def wake_each_told)

lemma sendSignal_told: "told {t} st (sendSignal t SIGCHLD st)"
proof -
  let ?s = "upd_tcb t (\<lambda>c. c\<lparr>t_signal := (t_signal c)\<lparr>si_pending := si_pending (t_signal c) OR sig_bit SIGCHLD\<rparr>\<rparr>) st"
  have "told {t} st ?s" if "t_state (sc_tcb st t) \<noteq> S_Exited" using that by (simp add: told_def Let_def)
  moreover from told_trans [OF this wake_told] have "told {t} st (wake t r ?s)" if "t_state (sc_tcb st t) \<noteq> S_Exited" for r using that by simp
  moreover have "told {t} st st" if "t_state (sc_tcb st t) = S_Exited" using that by (simp add: told_def Let_def)
  ultimately show ?thesis by (auto simp: sendSignal_def Let_def)
qed

lemma switch_away_told:
  assumes "none_running st" "switch_away st = Inr st'"
  shows "told {} st st' \<and> sc_waits st' = sc_waits st"
proof -
  obtain nx where nx: "state_of st nx = S_Ready" "sc_tcb st' = (sc_tcb st)(nx := (sc_tcb st nx)\<lparr>t_state := S_Running\<rparr>)"
    "sc_all st' = sc_all st" "sc_waits st' = sc_waits st"
  proof (cases "sc_pending st")
    case Nil
    then show thesis using that assms by (auto simp: none_running_def switch_away_def task_at_def switchToTask_def)
  next
    case (Cons nx rest)
    have "state_of st nx = S_Ready" using pending_ready [OF _ Cons] assms(1) by (simp add: none_running_def)
    then show thesis using that [of nx] assms(2) Cons by (auto simp: switch_away_def switchToTask_def)
  qed
  then show ?thesis by (simp add: told_def Let_def)
qed

lemma sendSignal_waits: "sc_waits st wl = [] \<Longrightarrow> sc_waits (sendSignal t sig st) wl = []"
  by (auto simp: sendSignal_def Let_def wake_def detach_task_def split: detach.split)

lemma wake_each_waits: "sched_inv0 st \<Longrightarrow> sc_current st \<notin> set ts \<Longrightarrow> sc_waits st wl = ts \<Longrightarrow> sc_waits (wake_each wl r ts st) wl = []"
proof (induction ts arbitrary: st)
  case (Cons t ts)
  have q: "queues_ok st" using Cons.prems by (simp add: sched_inv0_def)
  note p = pop_wake [OF q Cons.prems(3)]
  have "sched_inv0 (wake t r st)" using wake_inv0 [OF Cons.prems(1) p(2)] Cons.prems(2) by simp
  from Cons.IH [OF this _ wake_waits [OF q Cons.prems(3)]] Cons.prems(2) show ?case by (simp add: p(1))
qed simp

definition both_ends :: "tid list_ends \<Rightarrow> bool" where
  "both_ends l \<longleftrightarrow> (le_head l = None \<longleftrightarrow> le_tail l = None)"

lemma reparent_total:
  assumes "both_ends (t_childTasks (sc_tcb st cur))" "both_ends (t_childTasks (sc_tcb st init))"
  shows "\<exists>st'. reparent cur init st = Inr st' \<and> told {} st st' \<and> sc_current st' = sc_current st"
proof -
  obtain l2 hl where "list_splice_all True None (t_childTasks (sc_tcb st cur)) (childs_of init st) = Inr (l2, hl)"
    using assms by (auto simp: list_splice_all_def childs_of_def insert_inclusive_def both_ends_def split: option.splits)
  then show ?thesis using told_trans [OF told_childs told_upd] by (simp add: reparent_def)
qed

text \<open>The end of a task: it has its exit status, another task runs, every task that waited for the children of the parent is
  awake, and parent and, when there were children, the init task have a pending \<^verbatim>\<open>SIGCHLD\<close>.\<close>

definition notified :: "sched \<Rightarrow> tid set" where
  "notified st = (let c = sc_tcb st (sc_current st) in
    set_option (findTask (t_parentPid c) st) \<union> (if list_empty (t_childTasks c) then {} else set_option (sc_all st ! KP_Init)))"

lemma exit_notify_law:
  assumes inv: "sched_inv0 st" and x: "state_of st (sc_current st) = S_Exited" and init: "sc_all st ! KP_Init = Some init"
    and ends: "both_ends (t_childTasks (sc_tcb st (sc_current st)))" "both_ends (t_childTasks (sc_tcb st init))"
  shows "\<exists>st'. exit_notify (sc_current st) st = Inr st' \<and> told (notified st) st st' \<and>
    (\<forall>p. findTask (t_parentPid (sc_tcb st (sc_current st))) st = Some p \<longrightarrow> sc_waits st' (WL_Childs p) = [])"
proof -
  let ?c = "sc_current st" and ?T = "if list_empty (t_childTasks (sc_tcb st (sc_current st))) then {} else {init}"
  let ?tell = "\<lambda>s. case findTask (t_parentPid (sc_tcb s ?c)) s of None \<Rightarrow> s
      | Some p \<Rightarrow> sendSignal p SIGCHLD (wl_wakeAll (WL_Childs p) WR_Normal s)"
  obtain s where s: "exit_notify ?c st = Inr (?tell s)" "told ?T st s" "sched_inv0 s" "sc_current s = ?c" "state_of s ?c = S_Exited"
  proof (cases "list_empty (t_childTasks (sc_tcb st ?c))")
    case True
    then show thesis using that [of st] inv x by (simp add: exit_notify_def told_refl)
  next
    case False
    obtain a where a: "reparent ?c init st = Inr a" "told {} st a" "sc_current a = ?c" using reparent_total [OF ends] by blast
    have ai: "sched_inv0 a" using a(1) inv by (auto simp: reparent_def sbind_def set_childs_def same_queueing_def split: sum.splits intro!: sched_inv0_upd)
    have il: "init \<in> live a" using task_at_live [OF _ _ init] inv a(2) by (simp add: sched_inv0_def KP_Init_def max_task_def told_def live_def)
    have ax: "state_of a (sc_current a) = S_Exited" using a(2,3) x by (simp add: told_def Let_def)
    note S = sendSignal_inv0 [OF ai il, of SIGCHLD]
    show thesis
      by (rule that [of "sendSignal init SIGCHLD a"])
        (use a False init ax S told_trans [OF a(2) sendSignal_told [of init a]] in \<open>simp_all add: exit_notify_def task_at_def same_queueing_def\<close>)
  qed
  have par: "t_parentPid (sc_tcb s ?c) = t_parentPid (sc_tcb st ?c)" "findTask p s = findTask p st" for p
    using s(2) by (simp_all add: told_def Let_def findTask_def)
  have "told (notified st) st (?tell s) \<and> (\<forall>p. findTask (t_parentPid (sc_tcb st ?c)) st = Some p \<longrightarrow> sc_waits (?tell s) (WL_Childs p) = [])"
  proof (cases "findTask (t_parentPid (sc_tcb st ?c)) st")
    case None
    then have "notified st = ?T" using init by (simp add: notified_def Let_def)
    then show ?thesis using None s(2) by (simp only: par option.case) simp
  next
    case (Some p)
    have "sc_current s \<notin> set (sc_waits s (WL_Childs p))" using s(3-5) by (auto simp: sched_inv0_def queues_ok_def)
    then have "sc_waits (wl_wakeAll (WL_Childs p) WR_Normal s) (WL_Childs p) = []" using wake_each_waits [OF s(3)] by (simp add: wl_wakeAll_def)
    moreover have "notified st = ?T \<union> {} \<union> {p}" using Some init by (simp add: notified_def Let_def insert_commute)
    ultimately show ?thesis
      using told_trans [OF told_trans [OF s(2) wl_wakeAll_told [of s "WL_Childs p" WR_Normal]] sendSignal_told [of p]] Some
      by (simp only: par option.case) (simp add: sendSignal_waits)
  qed
  with s(1) show ?thesis by blast
qed

lemma sched_exit_law:
  assumes inv: "sched_inv st" and pid: "t_pid (sc_tcb st (sc_current st)) \<notin> {int KP_Init, int KP_Idle}" and init: "sc_all st ! KP_Init = Some init"
    and ends: "both_ends (t_childTasks (sc_tcb st (sc_current st)))" "both_ends (t_childTasks (sc_tcb st init))"
  shows "\<exists>st'. sched_exit code sig st = Inr st' \<and> sched_inv st' \<and> sc_current st' \<noteq> sc_current st \<and>
    told (notified st) (upd_tcb (sc_current st) (\<lambda>c. c\<lparr>t_state := S_Exited, t_exit_stat := exit_stat code sig\<rparr>) st) st' \<and>
    (\<forall>p. findTask (t_parentPid (sc_tcb st (sc_current st))) st = Some p \<longrightarrow> sc_waits st' (WL_Childs p) = [])"
proof -
  let ?c = "sc_current st"
  define s where "s = upd_tcb ?c (\<lambda>c. c\<lparr>t_state := S_Exited, t_exit_stat := exit_stat code sig\<rparr>) st"
  have i: "sched_inv0 s" using exited_inv0 [OF inv] pid by (simp add: s_def)
  have s: "sc_current s = ?c" "state_of s (sc_current s) = S_Exited" "sc_all s ! KP_Init = Some init" "notified s = notified st"
    "findTask p s = findTask p st" for p using init by (simp_all add: s_def notified_def findTask_def Let_def)
  have e: "both_ends (t_childTasks (sc_tcb s (sc_current s)))" "both_ends (t_childTasks (sc_tcb s init))" using ends by (simp_all add: s_def)
  obtain s1 where s1: "exit_notify ?c s = Inr s1" "told (notified st) s s1"
    "\<forall>p. findTask (t_parentPid (sc_tcb st ?c)) st = Some p \<longrightarrow> sc_waits s1 (WL_Childs p) = []"
    using exit_notify_law [OF i s(2,3) e] s(1,4,5) by (auto simp: s_def)
  have n: "sched_inv0 s1" "state_of s1 (sc_current s1) = S_Exited" using exit_notify_inv0 [OF i s(2)] s1(1) s(1) by simp_all
  then have "none_running s1" using not_running_none by simp
  from switch_away_inv [OF this] switch_away_told [OF this] obtain st' where
    st': "switch_away s1 = Inr st'" "sched_inv st'" "told {} s1 st'" "sc_waits st' = sc_waits s1" by auto
  have t: "told (notified st) s st'" using told_trans [OF s1(2) st'(3)] by simp
  have "state_of st' ?c = S_Exited" using t s(1,2) by (simp add: told_def Let_def)
  then have "sc_current st' \<noteq> ?c" using st'(2) by (auto simp: sched_inv_def)
  moreover have "sched_exit code sig st = Inr st'" using s1(1) st'(1) pid by (simp add: sched_exit_def Let_def s_def)
  ultimately show ?thesis using st'(2,4) t s1(3) by (auto simp: s_def)
qed

text \<open>A reaped task leaves the table; it was on no queue.\<close>

lemma freeTask_inv:
  assumes inv: "sched_inv st" and ok: "freeTask (int pid) st = Inr (r, st')"
  shows "sched_inv st'"
proof (cases "\<exists>task. sc_all st ! pid = Some task \<and> state_of st task = S_Exited")
  case False
  then show ?thesis using inv ok by (auto simp: freeTask_def split: option.splits if_splits)
next
  case True
  then obtain t where t: "sc_all st ! pid = Some t" "state_of st t = S_Exited" by blast
  then obtain u hl where st': "st' = (set_childs u hl st)\<lparr>sc_all := (sc_all st)[pid := None]\<rparr>" and p: "pid < max_task"
    using ok by (auto simp: freeTask_def erase_child_def sbind_def split: option.splits sum.splits if_splits)
  have q: "table_ok st" "queues_ok st" "sc_current st \<in> live st" "state_of st (sc_current st) = S_Running"
    "\<forall>t\<in>live st. state_of st t = S_Running \<longrightarrow> t = sc_current st"
    using inv by (auto simp: sched_inv_def sched_inv0_def)
  have e: "state_of st' v = state_of st v" "detach_of st' v = detach_of st v" "t_pid (sc_tcb st' v) = t_pid (sc_tcb st v)" for v
    by (simp_all add: st')
  have f: "sc_all st' = (sc_all st)[pid := None]" "sc_pending st' = sc_pending st" "sc_sleeping st' = sc_sleeping st"
    "sc_waits st' = sc_waits st" "sc_current st' = sc_current st"
    by (simp_all add: st')
  have len: "length (sc_all st) = max_task" using q(1) by (simp add: table_ok_def)
  have once: "p' = pid" if "p' < max_task" "sc_all st ! p' = Some t" for p'
    using q(1) t(1) p that unfolding table_ok_def by (metis of_nat_eq_iff)
  have l: "live st' = live st - {t}"
  proof (intro set_eqI iffI)
    fix v assume "v \<in> live st'"
    then obtain k where k: "k < max_task" "(sc_all st)[pid := None] ! k = Some v" by (auto simp: live_def f in_set_conv_nth len)
    then have "k \<noteq> pid" "sc_all st ! k = Some v" using p by (auto simp: len nth_list_update split: if_splits)
    then show "v \<in> live st - {t}" using once [OF k(1)] task_at_live [OF q(1) k(1)] by auto
  next
    fix v assume v: "v \<in> live st - {t}"
    then obtain k where k: "k < max_task" "sc_all st ! k = Some v" using table_okD [OF q(1)] by auto
    then have "(sc_all st)[pid := None] ! k = Some v" using v t(1) p by (auto simp: nth_list_update len)
    then show "v \<in> live st'" using k(1) len by (auto simp: live_def f in_set_conv_nth)
  qed
  have T: "table_ok st'" using q(1) unfolding table_ok_def e f using p by (auto simp: nth_list_update split: if_splits)
  have Q: "queues_ok st'" using q(2) t(2) unfolding queues_ok_def e f l by auto
  obtain i where i: "sc_all st ! KP_Idle = Some i" "state_of st i \<in> {S_Ready, S_Running}"
    using inv by (auto simp: sched_inv_def sched_inv0_def)
  have "pid \<noteq> KP_Idle" using i t by auto
  then have I: "(sc_all st)[pid := None] ! KP_Idle = Some i" using i(1) by simp
  have R: "state_of st v = S_Running \<longrightarrow> v = sc_current st" if "v \<in> live st - {t}" for v
    using q(5) [rule_format] that by simp
  show ?thesis unfolding sched_inv_def sched_inv0_def e f l
    by (intro conjI ballI T Q R exI [of _ i] I i(2)) (use q(3,4) t(2) in auto)
qed

text \<open>A new task enters the table at a free number and the run queue at its end.\<close>

lemma forkTask_inv:
  assumes inv: "sched_inv st" and fresh: "task \<notin> live st" and ok: "forkTask task st = Inr (pid, st')"
  shows "sched_inv st'" "findTask pid st' = Some task" "findTask pid st = None"
proof -
  let ?c = "sc_current st"
  have q: "table_ok st" "queues_ok st" "?c \<in> live st" "state_of st ?c = S_Running"
    "\<forall>t\<in>live st. state_of st t = S_Running \<longrightarrow> t = ?c"
    using inv by (auto simp: sched_inv_def sched_inv0_def)
  have ne: "task \<noteq> ?c" using fresh q(3) by auto
  obtain hl where s0: "create_tcb task (signal_prepareForFork (t_signal (sc_tcb st ?c))) st =
      Inr (set_childs ?c hl (upd_tcb task (\<lambda>_. new_tcb (sc_tcb st ?c) (signal_prepareForFork (t_signal (sc_tcb st ?c))))
        (st\<lparr>sc_childs := node_clear task (sc_childs st)\<rparr>)))" (is "_ = Inr ?s")
    using ok by (auto simp: forkTask_def create_tcb_def Let_def sbind_def split: sum.splits)
  define s where "s = ?s"
  have s: "t_pid (sc_tcb s task) = KP_Invalid" "sc_all s = sc_all st"
    using ne by (simp_all add: s_def new_tcb_def)
  obtain p where p: "find (\<lambda>p. sc_all st ! p = None) [KP_FirstUser..<max_task] = Some p"
    "pid = int p" "st' = upd_tcb task (\<lambda>c. c\<lparr>t_pid := int p\<rparr>) (s\<lparr>sc_pending := sc_pending s @ [task], sc_all := (sc_all st)[p := Some task]\<rparr>)"
    using ok s unfolding forkTask_def s0 s_def [symmetric]
    by (auto simp: Let_def addTask_def allocPid_def split: option.splits if_splits)
  have pb: "p < max_task" "sc_all st ! p = None" "p \<ge> KP_FirstUser"
    using p(1) by (auto simp: find_Some_iff)
  have e: "state_of st' t = (if t = task then S_Ready else state_of st t)"
    "detach_of st' t = (if t = task then NoDetach else detach_of st t)"
    "t_pid (sc_tcb st' t) = (if t = task then int p else t_pid (sc_tcb st t))" for t
    using ne by (simp_all add: p(3) s_def new_tcb_def)
  have f: "sc_all st' = (sc_all st)[p := Some task]" "sc_pending st' = sc_pending st @ [task]" "sc_sleeping st' = sc_sleeping st"
    "sc_waits st' = sc_waits st" "sc_current st' = ?c"
    by (simp_all add: p(3) s_def)
  have len: "length (sc_all st) = max_task" using q(1) by (simp add: table_ok_def)
  have l: "live st' = insert task (live st)"
    using pb len by (auto simp: live_def f set_conv_nth nth_list_update) (metis option.distinct(1))+
  have notin: "sc_all st ! k \<noteq> Some task" if "k < max_task" for k using fresh task_at_live [OF q(1) that] by blast
  have T: "table_ok st'" using q(1) notin pb unfolding table_ok_def e f by (auto simp: nth_list_update split: if_splits)
  have ni: "int p \<noteq> int KP_Idle" using pb(3) by (simp add: KP_FirstUser_def KP_Idle_def)
  have P: "distinct (sc_pending st @ [task])" "set (sc_pending st @ [task]) = {t \<in> insert task (live st).
      (if t = task then S_Ready else state_of st t) = S_Ready \<and> (if t = task then int p else t_pid (sc_tcb st t)) \<noteq> int KP_Idle}"
    using q(2) fresh ni by (auto simp: queues_ok_def)
  have Q: "queues_ok st'"
    unfolding queues_ok_def e f l by (intro conjI allI P) (use q(2) fresh in \<open>auto simp: queues_ok_def\<close>)
  obtain i where i: "sc_all st ! KP_Idle = Some i" "state_of st i \<in> {S_Ready, S_Running}"
    using inv by (auto simp: sched_inv_def sched_inv0_def)
  have I: "(sc_all st)[p := Some task] ! KP_Idle = Some i" using ni i(1) by simp
  have I2: "(if i = task then S_Ready else state_of st i) \<in> {S_Ready, S_Running}" using i(2) by simp
  have R: "(if t = task then S_Ready else state_of st t) = S_Running \<longrightarrow> t = ?c" if "t \<in> insert task (live st)" for t
    using q(5) [rule_format] that by auto
  show "sched_inv st'" unfolding sched_inv_def sched_inv0_def e f l
    by (intro conjI ballI T Q R exI [of _ i] I I2) (use q(3,4) ne in auto)
  show "findTask pid st' = Some task" "findTask pid st = None"
    using pb len by (simp_all add: findTask_def f p(2))
qed

section \<open>Every run of the scheduler\<close>

lemma enableYield_inv:
  assumes inv: "sched_inv st" and ok: "enableYield st = Inr st'"
  shows "sched_inv st'"
proof -
  have flags: "sched_inv (s\<lparr>sc_disable := d, sc_need_yield := b\<rparr>) = sched_inv s"
    "sched_inv (s\<lparr>sc_disable := d\<rparr>) = sched_inv s" for s d b
    by (simp_all add: sched_inv_def sched_inv0_def table_ok_def queues_ok_def live_def)
  show ?thesis
  proof (cases "sc_disable st - 1 = 0 \<and> sc_need_yield st")
    case True
    let ?s = "st\<lparr>sc_disable := sc_disable st - 1, sc_need_yield := False\<rparr>"
    have "sched_inv ?s" using inv flags by simp
    then have "sched_inv0 ?s" "state_of ?s (sc_current ?s) = S_Running" by (simp_all add: sched_inv_def)
    from yield_inv [OF this(1)] this(2) ok True show ?thesis by (auto simp: enableYield_def Let_def)
  next
    case False
    then show ?thesis using inv ok flags by (auto simp: enableYield_def Let_def)
  qed
qed

text \<open>What the kernel does to the scheduler state: a timer interrupt, a yield, the sections without preemption, the
  calls that block, the calls that wake, signals, and the birth, death and reaping of tasks. The body of the idle task
  is a loop that only yields, so it never blocks and never exits.\<close>

inductive sched_step :: "sched \<Rightarrow> sched \<Rightarrow> bool" where
  tick: "timer_hit st = Inr st' \<Longrightarrow> sched_step st st'"
| yields: "yield st = Inr st' \<Longrightarrow> sched_step st st'"
| disable: "sched_step st (disableYield st)"
| enable: "enableYield st = Inr st' \<Longrightarrow> sched_step st st'"
| waits: "t_pid (sc_tcb st (sc_current st)) \<noteq> int KP_Idle \<Longrightarrow> wl_wait wl reason st = Inr st' \<Longrightarrow> sched_step st st'"
| sleeps: "t_pid (sc_tcb st (sc_current st)) \<noteq> int KP_Idle \<Longrightarrow> sched_sleep ms st = Inr st' \<Longrightarrow> sched_step st st'"
| resumes: "sched_step st (snd (block_return st))"
| wakes_one: "sched_step st (snd (wl_wakeOne wl r st))"
| wakes_all: "sched_step st (wl_wakeAll wl r st)"
| kills: "sched_step st (snd (kill pid sig st))"
| forks: "task \<notin> live st \<Longrightarrow> forkTask task st = Inr (pid, st') \<Longrightarrow> sched_step st st'"
| exits: "t_pid (sc_tcb st (sc_current st)) \<noteq> int KP_Idle \<Longrightarrow> sched_exit code sig st = Inr st' \<Longrightarrow> sched_step st st'"
| waitpids: "waitpid_pass pid options st = Inr (r, st') \<Longrightarrow> sched_step st st'"
| groups: "sched_step st (snd (sys_setpgid pid pgid st))"

inductive sched_reach :: "sched \<Rightarrow> bool" where
  boot: "initTask \<noteq> task \<Longrightarrow> setupKnownTasks initTask task = Inr st \<Longrightarrow> sched_reach st"
| step: "sched_reach st \<Longrightarrow> sched_step st st' \<Longrightarrow> sched_reach st'"

lemma setupKnownTasks_inv:
  assumes ne: "initTask \<noteq> task" and ok: "setupKnownTasks initTask task = Inr st"
  shows "sched_inv st"
proof -
  have all: "sc_all st = (replicate max_task None)[KP_Init := Some initTask, KP_Idle := Some task]"
    and c: "t_state (sc_tcb st initTask) = S_Running" "t_detach (sc_tcb st initTask) = NoDetach" "t_pid (sc_tcb st initTask) = int KP_Init"
    "t_state (sc_tcb st task) = S_Ready" "t_detach (sc_tcb st task) = NoDetach" "t_pid (sc_tcb st task) = int KP_Idle"
    "sc_current st = initTask" "sc_pending st = []" "sc_sleeping st = []" "sc_waits st = (\<lambda>_. [])"
    using ne ok by (auto simp: setupKnownTasks_def Let_def create_tcb_def erase_child_def new_tcb_def sbind_def split: sum.splits)
  have nth: "sc_all st ! p = (if p = KP_Init then Some initTask else if p = KP_Idle then Some task else None)" if "p < max_task" for p
    using that by (simp add: all nth_list_update KP_Init_def KP_Idle_def)
  have len: "length (sc_all st) = max_task" by (simp add: all)
  have T: "table_ok st" using nth c len by (auto simp: table_ok_def split: if_splits)
  have "initTask \<in> live st" "task \<in> live st"
    using task_at_live [OF T, of KP_Init] task_at_live [OF T, of KP_Idle] nth [of KP_Init] nth [of KP_Idle]
    by (simp_all add: max_task_def KP_Init_def KP_Idle_def)
  then have l: "live st = {initTask, task}"
    using nth by (auto simp: live_def in_set_conv_nth len split: if_splits)
  have Q: "queues_ok st" unfolding queues_ok_def c l by (auto simp: c)
  show ?thesis unfolding sched_inv_def sched_inv0_def c l
    by (intro conjI T Q exI [of _ task]) (use nth [of KP_Idle] c in \<open>auto simp: KP_Idle_def KP_Init_def max_task_def\<close>)
qed

lemma send_group_inv: "set ts \<subseteq> live st \<Longrightarrow> sched_inv st \<Longrightarrow> sched_inv (send_group ts sig st)"
proof (induction ts arbitrary: st)
  case (Cons t ts)
  from sendSignal_inv [OF Cons.prems(2), of t sig] Cons.prems(1)
  have s: "sched_inv (sendSignal t sig st)" "sc_all (sendSignal t sig st) = sc_all st" by auto
  then show ?case using Cons.IH [of "sendSignal t sig st"] Cons.prems(1) live_cong [OF s(2)] by (simp add: send_group_def)
qed (simp add: send_group_def)

lemma findTaskGroup_live: "table_ok st \<Longrightarrow> findTaskGroup g st = Inr ts \<Longrightarrow> set ts \<subseteq> live st"
  using task_at_live [of st] by (fastforce simp: findTaskGroup_def Let_def List.map_filter_def split: if_splits)

lemma findTaskNew_live: "table_ok st \<Longrightarrow> findTaskNew p st = Inr t \<Longrightarrow> t \<in> live st"
  using task_at_live [of st "nat p" t] by (auto simp: findTaskNew_def split: if_splits option.splits)

lemma kill_inv: 
  assumes inv: "sched_inv st"
  shows "sched_inv (snd (kill pid sig st))"
proof -
  have t: "table_ok st" using inv by (simp add: sched_inv_def sched_inv0_def)
  show ?thesis
    using inv findTaskNew_live [OF t, of pid] findTaskGroup_live [OF t] sendSignal_inv [OF inv] send_group_inv [OF _ inv]
    unfolding kill_def by (auto split: sum.split)
qed

lemma reap_inv: "sched_inv st \<Longrightarrow> reap pid st = Inr (r, st') \<Longrightarrow> sched_inv st'"
  using freeTask_inv [of st "nat pid"] by (auto simp: reap_def sbind_def freeTask_def split: sum.splits if_splits)

lemma waitpid_pass_inv:
  assumes inv: "sched_inv st" and ok: "waitpid_pass pid options st = Inr (r, st')"
  shows "sched_inv st'"
  using inv ok reap_inv [OF inv]
  by (auto simp: waitpid_pass_def Let_def sbind_def split: if_splits option.splits sum.splits)

lemma block_return_inv: "sched_inv st \<Longrightarrow> sched_inv (snd (block_return st))"
  by (simp add: block_return_def sched_inv_upd same_queueing_def)

lemma setpgid_inv: "sched_inv st \<Longrightarrow> sched_inv (snd (sys_setpgid pid pgid st))"
  by (simp add: sys_setpgid_def sched_inv_upd same_queueing_def split: sum.split)

lemma wl_wakeAll_running_inv: "sched_inv st \<Longrightarrow> sched_inv (wl_wakeAll wl r st)"
  using wl_wakeAll_inv [of st wl r] by (simp add: sched_inv_def)

lemma disableYield_inv: "sched_inv st \<Longrightarrow> sched_inv (disableYield st)"
  by (simp add: disableYield_def sched_inv_def sched_inv0_def table_ok_def queues_ok_def live_def)

lemma blocked_enabled:
  "wl_wait wl reason st = Inr st' \<Longrightarrow> yieldEnabled st" "sched_sleep ms st = Inr st' \<Longrightarrow> yieldEnabled st"
  by (auto simp: wl_wait_def sched_sleep_def sched_block_def yieldEnabled_def Let_def split: if_splits)

lemma sched_step_inv: "sched_step st st' \<Longrightarrow> sched_inv st \<Longrightarrow> sched_inv st'"
proof (induction rule: sched_step.induct)
  case (tick st st')
  then show ?case using timer_hit_inv by fastforce
next
  case (yields st st')
  then show ?case using yield_inv [of st] by (auto simp: sched_inv_def)
next
  case (waits st wl reason st')
  then show ?case using wl_wait_inv [OF _ waits(1) blocked_enabled(1) [OF waits(2)], of wl reason] by auto
next
  case (sleeps st ms st')
  then show ?case using sched_sleep_inv [OF _ sleeps(1) blocked_enabled(2) [OF sleeps(2)], of ms] by auto
next
  case (forks task st pid st')
  then show ?case using forkTask_inv(1) by blast
next
  case (exits st code sig st')
  then show ?case using sched_exit_inv by blast
qed (blast intro: disableYield_inv enableYield_inv block_return_inv wl_wakeOne_inv wl_wakeAll_running_inv kill_inv
    waitpid_pass_inv setpgid_inv)+

lemma sched_reach_inv: "sched_reach st \<Longrightarrow> sched_inv st"
  by (induction rule: sched_reach.induct) (auto intro: setupKnownTasks_inv sched_step_inv)

section \<open>Turns\<close>

lemma yield_rotates:
  assumes inv: "sched_inv st" and en: "yieldEnabled st" and p: "sc_pending st = nx # rest"
  shows "\<exists>st'. yield st = Inr st' \<and> sched_inv st' \<and> yieldEnabled st' \<and> sc_current st' = nx \<and>
    sc_pending st' = rest @ (if t_pid (sc_tcb st (sc_current st)) = int KP_Idle then [] else [sc_current st])"
proof -
  obtain st' where st': "yield st = Inr st'" "sched_inv st'" using yield_inv [of st] inv by (auto simp: sched_inv_def)
  have e: "st' = switchToTask nx ((requeue st)\<lparr>sc_pending := remove1 nx (sc_pending (requeue st))\<rparr>)"
    using yield_running [OF inv en] p st'(1) by simp
  show ?thesis using st' en p by (simp add: e switchToTask_def requeue_fields yieldEnabled_def)
qed

primrec run_yields :: "nat \<Rightarrow> sched \<Rightarrow> sched exec" where
  "run_yields 0 st = Inr st"
| "run_yields (Suc n) st = sbind (yield st) (run_yields n)"

lemma run_yields_turn:
  "sched_inv st \<Longrightarrow> yieldEnabled st \<Longrightarrow> n < length (sc_pending st) \<Longrightarrow>
    \<exists>st'. run_yields (Suc n) st = Inr st' \<and> sc_current st' = sc_pending st ! n \<and> sched_inv st'"
proof (induction n arbitrary: st)
  case 0
  then obtain nx rest where p: "sc_pending st = nx # rest" by (cases "sc_pending st") auto
  from yield_rotates [OF 0(1,2) p] p show ?case by auto
next
  case (Suc n)
  then obtain nx rest where p: "sc_pending st = nx # rest" by (cases "sc_pending st") auto
  obtain s1 where s1: "yield st = Inr s1" "sched_inv s1" "yieldEnabled s1" and q: "take (length rest) (sc_pending s1) = rest"
    using yield_rotates [OF Suc.prems(1,2) p] by auto
  have n: "n < length rest" using Suc.prems(3) p by simp
  have "rest ! n = sc_pending s1 ! n" "n < length (sc_pending s1)"
    using n arg_cong [OF q, of "\<lambda>l. l ! n"] arg_cong [OF q, of length] by auto
  with Suc.IH [OF s1(2,3)] s1(1) p show ?case by auto
qed

section \<open>Properties\<close>

text \<open>C9: whatever the kernel does after it has set up its first tasks, every task is where its state says. Exactly
  the current task is running. A task is on the run queue exactly when it is ready and not the idle task; a blocked task
  is on the one sleep or wait list its detach request names; no task is twice on a queue, and none that is not in the
  task table is on any.\<close>

theorem queues_exact:
  assumes "sched_reach st"
  shows "(\<forall>t. t \<in> live st \<and> t_state (sc_tcb st t) = S_Running \<longleftrightarrow> t = sc_current st) \<and>
    (\<forall>t. t \<in> set (sc_pending st) \<longleftrightarrow> t \<in> live st \<and> t_state (sc_tcb st t) = S_Ready \<and> t_pid (sc_tcb st t) \<noteq> int KP_Idle) \<and>
    (\<forall>t. t \<in> set (sc_sleeping st) \<longleftrightarrow> t \<in> live st \<and> t_state (sc_tcb st t) = S_Blocked \<and> t_detach (sc_tcb st t) = FromSleeping) \<and>
    (\<forall>t wl. t \<in> set (sc_waits st wl) \<longleftrightarrow> t \<in> live st \<and> t_state (sc_tcb st t) = S_Blocked \<and> t_detach (sc_tcb st t) = FromWait wl) \<and>
    distinct (sc_pending st) \<and> distinct (sc_sleeping st) \<and> (\<forall>wl. distinct (sc_waits st wl))"
proof -
  have q: "queues_ok st" "sc_current st \<in> live st" "state_of st (sc_current st) = S_Running"
    "\<forall>t\<in>live st. state_of st t = S_Running \<longrightarrow> t = sc_current st"
    using sched_reach_inv [OF assms] by (auto simp: sched_inv_def sched_inv0_def)
  have "t \<in> live st \<and> state_of st t = S_Running \<longleftrightarrow> t = sc_current st" for t using q(2,3) q(4) [rule_format, of t] by auto
  with q(1) show ?thesis by (simp add: queues_ok_def set_eq_iff)
qed

text \<open>A script of a kernel run: each command is one step, and its guards are tested.\<close>

datatype script = Fork tid | Yield | Exit | Reap int | Sleep u64

fun run_cmd :: "script \<Rightarrow> sched \<Rightarrow> sched exec" where
  "run_cmd (Fork t) st = (if Some t \<in> set (sc_all st) then Inl OutOfBounds else sbind (forkTask t st) (\<lambda>(_, st'). Inr st'))"
| "run_cmd Yield st = yield st"
| "run_cmd Exit st = (if t_pid (sc_tcb st (sc_current st)) = int KP_Idle then Inl OutOfBounds else sched_exit 0 0 st)"
| "run_cmd (Reap p) st = sbind (waitpid_pass p 0 st) (\<lambda>(_, st'). Inr st')"
| "run_cmd (Sleep ms) st = (if t_pid (sc_tcb st (sc_current st)) = int KP_Idle then Inl OutOfBounds else sched_sleep ms st)"

fun run_script :: "script list \<Rightarrow> sched \<Rightarrow> sched exec" where
  "run_script [] st = Inr st"
| "run_script (c # cs) st = sbind (run_cmd c st) (run_script cs)"

definition boot_run :: "script list \<Rightarrow> sched exec" where
  "boot_run cs = sbind (setupKnownTasks 1 2) (run_script cs)"

lemma run_cmd_step: "run_cmd c st = Inr st' \<Longrightarrow> sched_step st st'"
  by (cases c) (auto simp: sbind_def live_def split: sum.splits if_splits intro: sched_step.intros)

lemma run_script_reach: "sched_reach st \<Longrightarrow> run_script cs st = Inr st' \<Longrightarrow> sched_reach st'"
proof (induction cs arbitrary: st)
  case (Cons c cs)
  then obtain s where "run_cmd c st = Inr s" "run_script cs s = Inr st'" by (auto simp: sbind_def split: sum.splits)
  with Cons.IH [of s] Cons.prems(1) run_cmd_step [of c st s] sched_reach.step show ?case by blast
qed simp

lemma boot_run_reach: "boot_run cs = Inr st \<Longrightarrow> sched_reach st"
  using sched_reach.boot [of 1 2] run_script_reach by (auto simp: boot_run_def sbind_def split: sum.splits)

lemma boot_run_holds:
  "(case boot_run cs of Inr st \<Rightarrow> P st | Inl _ \<Rightarrow> False) \<Longrightarrow> \<exists>st. boot_run cs = Inr st \<and> sched_reach st \<and> P st"
  using boot_run_reach [of cs] by (auto split: sum.splits)

theorem queues_exact_witness:
  "\<exists>st. boot_run [Fork 3, Fork 4, Sleep 5] = Inr st \<and> sched_reach st \<and> sc_sleeping st = [1] \<and>
    (1 \<in> live st \<and> t_state (sc_tcb st 1) = S_Blocked \<and> t_detach (sc_tcb st 1) = FromSleeping)"
proof -
  have "case boot_run [Fork 3, Fork 4, Sleep 5] of Inr st \<Rightarrow> sc_sleeping st = [1] | Inl _ \<Rightarrow> False" by code_simp
  from boot_run_holds [OF this] obtain st where
    st: "boot_run [Fork 3, Fork 4, Sleep 5] = Inr st" "sched_reach st" "sc_sleeping st = [1]" by blast
  have "1 \<in> live st \<and> t_state (sc_tcb st 1) = S_Blocked \<and> t_detach (sc_tcb st 1) = FromSleeping"
    using queues_exact [OF st(2)] st(3) by (metis list.set_intros(1))
  with st show ?thesis by blast
qed

text \<open>C23: round robin. Where yielding is enabled, a task at position n of the run queue runs after exactly n + 1 yields,
  each of the tasks before it having had its turn, and the queues are still in order.\<close>

theorem round_robin:
  assumes "sched_reach st" "yieldEnabled st" "n < length (sc_pending st)"
  shows "\<exists>st'. run_yields (Suc n) st = Inr st' \<and> sc_current st' = sc_pending st ! n \<and>
    t_state (sc_tcb st' (sc_pending st ! n)) = S_Running \<and> sched_inv st'"
  using run_yields_turn [OF sched_reach_inv [OF assms(1)] assms(2,3)] by (auto simp: sched_inv_def)

theorem round_robin_witness:
  "\<exists>st st'. boot_run [Fork 3, Fork 4] = Inr st \<and> sc_pending st = [3, 4] \<and> run_yields (Suc 1) st = Inr st' \<and> sc_current st' = 4"
proof -
  have "case boot_run [Fork 3, Fork 4] of Inr st \<Rightarrow> sc_pending st = [3, 4] \<and> yieldEnabled st | Inl _ \<Rightarrow> False" by code_simp
  from boot_run_holds [OF this] obtain st where
    st: "boot_run [Fork 3, Fork 4] = Inr st" "sched_reach st" "sc_pending st = [3, 4]" "yieldEnabled st" by blast
  from round_robin [OF st(2,4), of 1] st show ?thesis by auto
qed

lemma wake_sleepers_current:
  "sched_inv st \<Longrightarrow> sc_sleeping st = ts \<Longrightarrow> sc_current (wake_sleepers ts st) = sc_current st \<and> sc_disable (wake_sleepers ts st) = sc_disable st \<and>
    sc_tcb (wake_sleepers ts st) (sc_current st) = sc_tcb st (sc_current st)"
proof (induction ts arbitrary: st)
  case (Cons t ts)
  have q: "queues_ok st" using Cons.prems by (simp add: sched_inv_def sched_inv0_def)
  note p = pop_sleeper [OF q Cons.prems(2)]
  have i: "sched_inv (wake t WR_Normal st)" using wake_running_inv [OF Cons.prems(1) p(2)] .
  have "t \<noteq> sc_current st" using p(3) Cons.prems(1) by (auto simp: sched_inv_def)
  with Cons.IH [OF i p(4)] show ?case by (simp add: p(1) wake_current)
qed simp

lemma wake_sleepers_split:
  "sched_inv st \<Longrightarrow> sc_sleeping st = ts \<Longrightarrow> sorted (map (\<lambda>t. t_sleep_time (sc_tcb st t)) ts) \<Longrightarrow>
    sc_sleeping (wake_sleepers ts st) = filter (\<lambda>t. \<not> t_sleep_time (sc_tcb st t) < sc_now st) ts \<and>
    sc_pending (wake_sleepers ts st) = sc_pending st @ filter (\<lambda>t. t_sleep_time (sc_tcb st t) < sc_now st) ts \<and>
    sc_now (wake_sleepers ts st) = sc_now st"
proof (induction ts arbitrary: st)
  case (Cons t ts)
  have q: "queues_ok st" using Cons.prems by (simp add: sched_inv_def sched_inv0_def)
  note p = pop_sleeper [OF q Cons.prems(2)]
  have k: "t_sleep_time (sc_tcb (wake t WR_Normal st) u) = t_sleep_time (sc_tcb st u)" for u
    by (auto simp: wake_def Let_def detach_task_def split: detach.split)
  have w: "sc_pending (wake t WR_Normal st) = sc_pending st @ [t]"
    using p(3) by (auto simp: wake_def Let_def detach_task_def split: detach.split)
  show ?case
  proof (cases "t_sleep_time (sc_tcb st t) < sc_now st")
    case True
    have i: "sched_inv (wake t WR_Normal st)" using wake_running_inv [OF Cons.prems(1) p(2)] .
    have "sorted (map (\<lambda>t'. t_sleep_time (sc_tcb (wake t WR_Normal st) t')) ts)" using Cons.prems(3) by (simp add: k)
    from Cons.IH [OF i p(4) this] True show ?thesis by (simp add: p(1) k w)
  next
    case False
    then have "\<forall>u\<in>set ts. \<not> t_sleep_time (sc_tcb st u) < sc_now st" using Cons.prems(3) by force
    with False Cons.prems(2) show ?thesis by simp
  qed
qed simp

lemma sleep_keeps_order:
  fixes k :: "tid \<Rightarrow> u64"
  assumes "sorted (map k ts)"
  shows "sorted (map k (takeWhile (\<lambda>t. \<not> k c \<le> k t) ts @ c # dropWhile (\<lambda>t. \<not> k c \<le> k t) ts))"
  using assms
proof (induction ts)
  case (Cons t ts)
  let ?r = "takeWhile (\<lambda>t. \<not> k c \<le> k t) ts @ c # dropWhile (\<lambda>t. \<not> k c \<le> k t) ts"
  show ?case
  proof (cases "k c \<le> k t")
    case False
    have "\<forall>x\<in>set ?r. k t \<le> k x" using Cons.prems False by (auto dest: set_takeWhileD set_dropWhileD)
    moreover have "sorted (map k ?r)" using Cons by simp
    ultimately have "sorted (map k (t # ?r))" by auto
    then show ?thesis using False by simp
  qed (use Cons in auto)
qed simp

lemma yield_sleeping:
  "yield st = Inr st' \<Longrightarrow> sc_sleeping st' = sc_sleeping st \<and> (\<forall>t. t_sleep_time (sc_tcb st' t) = t_sleep_time (sc_tcb st t))"
  by (auto simp: yield_def switchToTask_def Let_def task_at_def split: if_splits list.splits option.splits)

lemma sched_sleep_order:
  assumes s: "sorted (map (\<lambda>t. t_sleep_time (sc_tcb st t)) (sc_sleeping st))" and c: "sc_current st \<notin> set (sc_sleeping st)"
    and ok: "sched_sleep ms st = Inr st'"
  shows "sorted (map (\<lambda>t. t_sleep_time (sc_tcb st' t)) (sc_sleeping st'))"
proof -
  let ?c = "sc_current st"
  define k where "k t = (if t = ?c then sc_now st + ms else t_sleep_time (sc_tcb st t))" for t
  have m: "map k (sc_sleeping st) = map (\<lambda>t. t_sleep_time (sc_tcb st t)) (sc_sleeping st)" using c by (auto simp: k_def)
  have e: "sc_sleeping st' = takeWhile (\<lambda>t. \<not> k ?c \<le> k t) (sc_sleeping st) @ ?c # dropWhile (\<lambda>t. \<not> k ?c \<le> k t) (sc_sleeping st)"
    "\<forall>t. t_sleep_time (sc_tcb st' t) = k t"
    using ok yield_sleeping by (auto simp: sched_sleep_def sched_block_def Let_def k_def split: if_splits) 
  show ?thesis unfolding e(1) using sleep_keeps_order [of k "sc_sleeping st" ?c] s e(2) m by simp
qed

text \<open>The sleep queue stays in the order of the wake times: \<^verbatim>\<open>sleep\<close> inserts in order, and every other operation at most
  takes tasks off the queue and leaves the wake times of the tasks on it.\<close>

abbreviation sleep_time :: "sched \<Rightarrow> tid \<Rightarrow> u64" where
  "sleep_time st t \<equiv> t_sleep_time (sc_tcb st t)"

definition sleep_order :: "sched \<Rightarrow> bool" where
  "sleep_order st \<longleftrightarrow> sorted (map (sleep_time st) (sc_sleeping st))"

definition thins :: "sched \<Rightarrow> sched \<Rightarrow> bool" where
  "thins st st' \<longleftrightarrow> subseq (sc_sleeping st') (sc_sleeping st) \<and> (\<forall>t\<in>set (sc_sleeping st'). sleep_time st' t = sleep_time st t)"

lemma subseq_set: "subseq xs ys \<Longrightarrow> set xs \<subseteq> set ys"
  by (induction rule: list_emb.induct) auto

lemma thins_refl [simp]: "thins st st"
  by (simp add: thins_def)

lemma thins_trans: "thins a b \<Longrightarrow> thins b c \<Longrightarrow> thins a c"
  unfolding thins_def by (metis subseq_order.order_trans subseq_set subsetD)

lemma thins_same: "sc_sleeping st' = sc_sleeping st \<Longrightarrow> (\<And>t. t \<in> set (sc_sleeping st) \<Longrightarrow> sleep_time st' t = sleep_time st t) \<Longrightarrow> thins st st'"
  by (simp add: thins_def)

lemma thins_upd: "(\<And>c. t_sleep_time (f c) = t_sleep_time c) \<Longrightarrow> thins st (upd_tcb t f st)"
  by (auto simp: thins_def)

lemma sorted_subseq: "subseq xs ys \<Longrightarrow> sorted (map k ys) \<Longrightarrow> sorted (map k xs)"
  for k :: "'a \<Rightarrow> 'b :: linorder"
  by (induction rule: list_emb.induct) (auto dest: list_emb_set)

lemma thins_order:
  assumes "thins st st'" "sleep_order st"
  shows "sleep_order st'"
proof -
  have "map (sleep_time st') (sc_sleeping st') = map (sleep_time st) (sc_sleeping st')" using assms(1) by (auto simp: thins_def)
  moreover have "sorted (map (sleep_time st) (sc_sleeping st'))" using assms sorted_subseq by (auto simp: sleep_order_def thins_def)
  ultimately show ?thesis unfolding sleep_order_def by (rule ssubst)
qed

lemma subseq_remove1: "subseq (remove1 x xs) xs"
  by (induction xs) auto

lemma wake_thins: "thins st (wake t r st)"
  by (auto simp: thins_def wake_def Let_def detach_task_def subseq_remove1 split: detach.split)

lemma detached_wake_thins: "thins st (wake t r (upd_tcb t (\<lambda>c. c\<lparr>t_detach := NoDetach\<rparr>) (st\<lparr>sc_waits := w\<rparr>)))"
proof -
  have "thins st (upd_tcb t (\<lambda>c. c\<lparr>t_detach := NoDetach\<rparr>) (st\<lparr>sc_waits := w\<rparr>))" by (auto intro: thins_same)
  from thins_trans [OF this wake_thins] show ?thesis .
qed

lemma wake_each_thins: "thins st (wake_each wl r ts st)"
  by (induction wl r ts st rule: wake_each.induct) (simp, simp, blast intro: thins_trans detached_wake_thins)

lemma wakes_thin: "thins st (wl_wakeAll wl r st)" "thins st (snd (wl_wakeOne wl r st))"
  by (simp_all add: wl_wakeAll_def wake_each_thins wl_wakeOne_def detached_wake_thins split: list.split)

lemma wake_sleepers_thins: "sc_sleeping st = ts \<Longrightarrow> thins st (wake_sleepers ts st)"
proof (induction ts arbitrary: st)
  case (Cons t ts)
  let ?s = "upd_tcb t (\<lambda>c. c\<lparr>t_detach := NoDetach\<rparr>) (st\<lparr>sc_sleeping := ts\<rparr>)"
  have "thins st ?s" using Cons.prems by (auto simp: thins_def)
  moreover have "sc_sleeping (wake t WR_Normal ?s) = ts" by (simp add: wake_def Let_def detach_task_def)
  ultimately have "thins st (wake_sleepers ts (wake t WR_Normal ?s))" using Cons.IH [of "wake t WR_Normal ?s"] wake_thins thins_trans by metis
  then show ?case by simp
qed simp

lemma yield_thins: "yield st = Inr st' \<Longrightarrow> thins st st'"
  using yield_sleeping by (simp add: thins_def)

lemma timer_thins:
  assumes "timer_hit st = Inr st'"
  shows "thins st st'"
proof -
  let ?s = "wake_sleepers (sc_sleeping st) (st\<lparr>sc_now := sc_now st + 1\<rparr>)"
  have "thins st (st\<lparr>sc_now := sc_now st + 1\<rparr>)" by (simp add: thins_def)
  then have "thins st ?s" using wake_sleepers_thins [of "st\<lparr>sc_now := sc_now st + 1\<rparr>"] by (auto intro: thins_trans)
  moreover have "thins ?s st'" using assms yield_thins [of ?s st'] by (auto simp: timer_hit_def checkSleep_def Let_def split: if_splits)
  ultimately show ?thesis by (rule thins_trans)
qed

lemma sendSignal_thins: "thins st (sendSignal t sig st)"
  unfolding sendSignal_def Let_def by (auto intro!: thins_upd thins_trans [OF thins_upd wake_thins])

lemma send_group_thins: "thins st (send_group ts sig st)"
  by (induction ts arbitrary: st) (auto simp: send_group_def intro: thins_trans [OF sendSignal_thins])

lemma kill_thins: "thins st (snd (kill pid sig st))"
  by (simp add: kill_def sendSignal_thins send_group_thins split: sum.split)

lemma wl_wait_thins: "wl_wait wl reason st = Inr st' \<Longrightarrow> thins st st'"
  using yield_sleeping [of _ st'] by (fastforce simp: wl_wait_def sched_block_def Let_def thins_def split: if_splits)

lemma set_childs_thins: "thins st (set_childs t hl st)"
  by (simp add: thins_def)

lemma fork_thins:
  assumes inv: "sched_inv st" and fresh: "task \<notin> live st" and ok: "forkTask task st = Inr (pid, st')"
  shows "thins st st'"
proof -
  have "task \<notin> set (sc_sleeping st)" using inv fresh by (auto simp: sched_inv_def sched_inv0_def queues_ok_def)
  moreover have "sc_sleeping st' = sc_sleeping st" "\<And>t. t \<noteq> task \<Longrightarrow> sleep_time st' t = sleep_time st t"
    using ok by (auto simp: forkTask_def create_tcb_def addTask_def allocPid_def Let_def sbind_def split: sum.splits option.splits if_splits)
  ultimately show ?thesis unfolding thins_def by (metis subseq_order.order_refl)
qed

lemma exit_thins:
  assumes "sched_exit code sig st = Inr st'"
  shows "thins st st'"
proof -
  let ?c = "sc_current st" and ?s = "upd_tcb (sc_current st) (\<lambda>c. c\<lparr>t_state := S_Exited, t_exit_stat := exit_stat code sig\<rparr>) st"
  obtain s1 where s1: "exit_notify ?c ?s = Inr s1" "switch_away s1 = Inr st'"
    using assms by (auto simp: sched_exit_def Let_def sbind_def split: if_splits sum.splits)
  have tell: "thins a (case findTask p a of None \<Rightarrow> a | Some q \<Rightarrow> sendSignal q SIGCHLD (wl_wakeAll (WL_Childs q) WR_Normal a))" for a p
    using thins_trans [OF wakes_thin(1) sendSignal_thins] by (simp split: option.split)
  have re: "thins a b" if "reparent c i a = Inr b" for a b c i
    using that by (auto simp: reparent_def sbind_def split: sum.splits intro!: thins_trans [OF set_childs_thins thins_upd])
  obtain s0 where s0: "thins ?s s0" "s1 = (case findTask (t_parentPid (sc_tcb s0 ?c)) s0 of None \<Rightarrow> s0
      | Some q \<Rightarrow> sendSignal q SIGCHLD (wl_wakeAll (WL_Childs q) WR_Normal s0))"
  proof (cases "list_empty (t_childTasks (sc_tcb ?s ?c))")
    case True
    then show thesis using s1(1) that [OF thins_refl] by (simp add: exit_notify_def)
  next
    case False
    then obtain i a where "reparent ?c i ?s = Inr a" "s1 = (case findTask (t_parentPid (sc_tcb (sendSignal i SIGCHLD a) ?c)) (sendSignal i SIGCHLD a) of
        None \<Rightarrow> sendSignal i SIGCHLD a | Some q \<Rightarrow> sendSignal q SIGCHLD (wl_wakeAll (WL_Childs q) WR_Normal (sendSignal i SIGCHLD a)))"
      using s1(1) unfolding exit_notify_def by (auto simp: sbind_def split: sum.splits)
    then show thesis using that thins_trans [OF re sendSignal_thins] by blast
  qed
  then have "thins ?s s1" using thins_trans [OF s0(1) tell] by simp
  moreover have "thins s1 st'" using s1(2) by (auto simp: switch_away_def switchToTask_def thins_def task_at_def split: list.splits option.splits)
  ultimately show ?thesis using thins_upd [of "\<lambda>c. c\<lparr>t_state := S_Exited, t_exit_stat := exit_stat code sig\<rparr>" st ?c] by (auto intro: thins_trans)
qed

lemma waitpid_thins: "waitpid_pass pid options st = Inr (r, st') \<Longrightarrow> thins st st'"
  by (auto simp: waitpid_pass_def reap_def freeTask_def erase_child_def Let_def sbind_def intro!: thins_same
    split: if_splits option.splits sum.splits)

lemma enableYield_thins: "enableYield st = Inr st' \<Longrightarrow> thins st st'"
  using yield_sleeping [of _ st'] by (fastforce simp: enableYield_def Let_def thins_def split: if_splits)

lemma sched_step_order:
  assumes "sched_step st st'" "sched_inv st" "sleep_order st"
  shows "sleep_order st'"
  using assms
proof (induction rule: sched_step.induct)
  case (sleeps st ms st')
  then show ?case using sched_sleep_order current_unqueued(1) by (simp add: sleep_order_def)
next
  case (disable st)
  show ?case using disable(2) by (simp add: disableYield_def sleep_order_def)
next
  case (resumes st)
  show ?case by (rule thins_order [OF _ resumes(2)]) (simp add: block_return_def thins_upd)
next
  case (groups st pid pgid)
  show ?case by (rule thins_order [OF _ groups(2)]) (simp add: sys_setpgid_def thins_upd split: sum.split)
qed (blast intro: thins_order timer_thins yield_thins enableYield_thins wl_wait_thins wakes_thin kill_thins fork_thins exit_thins waitpid_thins)+

lemma setupKnownTasks_awake: "setupKnownTasks initTask task = Inr st \<Longrightarrow> sc_sleeping st = []"
  by (auto simp: setupKnownTasks_def Let_def create_tcb_def erase_child_def sbind_def split: sum.splits)

lemma sched_reach_order: "sched_reach st \<Longrightarrow> sleep_order st"
proof (induction rule: sched_reach.induct)
  case (boot initTask task st)
  then show ?case using setupKnownTasks_awake by (simp add: sleep_order_def)
next
  case (step st st')
  then show ?case using sched_step_order sched_reach_inv by blast
qed

text \<open>C24: in every reachable state the timer wakes exactly the tasks whose time has come: those whose wake time is before the
  new clock move, in the order of their times, behind the run queue, and all others stay asleep. On every tenth tick the
  current task then gives way to the first of that run queue, where yielding is enabled, and goes to its end unless it is the
  idle task; on the other ticks it stays current.\<close>

theorem sleepers_woken_exactly:
  assumes "sched_reach st"
  shows "\<exists>st'. timer_hit st = Inr st' \<and> sc_now st' = sc_now st + 1 \<and>
    sc_sleeping st' = filter (\<lambda>t. \<not> t_sleep_time (sc_tcb st t) < sc_now st + 1) (sc_sleeping st) \<and>
    (let queue = sc_pending st @ filter (\<lambda>t. t_sleep_time (sc_tcb st t) < sc_now st + 1) (sc_sleeping st) in
     if (sc_now st + 1) mod 10 = 0 \<and> yieldEnabled st \<and> queue \<noteq> []
     then sc_current st' = hd queue \<and>
       sc_pending st' = tl queue @ (if t_pid (sc_tcb st (sc_current st)) = int KP_Idle then [] else [sc_current st])
     else sc_current st' = sc_current st \<and> sc_pending st' = queue)"
proof -
  let ?s0 = "st\<lparr>sc_now := sc_now st + 1\<rparr>"
  define s where "s = wake_sleepers (sc_sleeping st) ?s0"
  have inv: "sched_inv st" using sched_reach_inv [OF assms] .
  then have inv0: "sched_inv ?s0" by (simp add: sched_inv_def sched_inv0_def table_ok_def queues_ok_def live_def)
  have "sorted (map (\<lambda>t. t_sleep_time (sc_tcb ?s0 t)) (sc_sleeping st))" using sched_reach_order [OF assms] by (simp add: sleep_order_def)
  from wake_sleepers_split [OF inv0 _ this] have s: "sc_sleeping s = filter (\<lambda>t. \<not> t_sleep_time (sc_tcb st t) < sc_now st + 1) (sc_sleeping st)"
    "sc_pending s = sc_pending st @ filter (\<lambda>t. t_sleep_time (sc_tcb st t) < sc_now st + 1) (sc_sleeping st)" "sc_now s = sc_now st + 1"
    by (simp_all add: s_def)
  have si: "sched_inv s" using wake_sleepers_inv [OF inv0, of "sc_sleeping st"] by (simp add: s_def)
  have c: "sc_current s = sc_current st" "sc_disable s = sc_disable st" "t_pid (sc_tcb s (sc_current st)) = t_pid (sc_tcb st (sc_current st))"
    using wake_sleepers_current [OF inv0, of "sc_sleeping st"] by (simp_all add: s_def)
  have run: "timer_hit st = (if (sc_now st + 1) mod 10 = 0 then yield s else Inr s)"
    using s(3) by (simp add: timer_hit_def checkSleep_def Let_def s_def)
  show ?thesis
  proof (cases "(sc_now st + 1) mod 10 = 0 \<and> yieldEnabled st \<and> sc_pending s \<noteq> []")
    case True
    then obtain nx rest where p: "sc_pending s = nx # rest" by (cases "sc_pending s") auto
    have "yieldEnabled s" using True c(2) by (simp add: yieldEnabled_def)
    from yield_rotates [OF si this p] obtain st' where st': "yield s = Inr st'" "sc_current st' = nx"
      "sc_pending st' = rest @ (if t_pid (sc_tcb st (sc_current st)) = int KP_Idle then [] else [sc_current st])" using c by auto
    have "sc_now st' = sc_now s" using st'(1) by (auto simp: yield_def switchToTask_def Let_def task_at_def split: if_splits list.splits option.splits)
    then show ?thesis using True p st' run s(1,3) yield_sleeping [OF st'(1)] unfolding Let_def s(2) [symmetric] by (intro exI [of _ st']) simp
  next
    case False
    have "\<exists>st'. timer_hit st = Inr st' \<and> sc_now st' = sc_now s \<and> sc_sleeping st' = sc_sleeping s \<and> sc_current st' = sc_current s \<and> sc_pending st' = sc_pending s"
    proof (cases "(sc_now st + 1) mod 10 = 0")
      case True
      have r: "state_of s (sc_current s) = S_Running" using si by (simp add: sched_inv_def)
      show ?thesis using False True r c(2) unfolding run by (auto simp: yield_def yieldEnabled_def Let_def)
    qed (simp add: run)
    then show ?thesis using False s c(1) unfolding Let_def s(2) [symmetric] by auto
  qed
qed

theorem sleepers_woken_exactly_witness:
  "\<exists>st st'. boot_run [Fork 3, Fork 4, Sleep 0, Sleep 7] = Inr st \<and> sc_sleeping st = [1, 3] \<and>
    timer_hit st = Inr st' \<and> sc_pending st' = [1] \<and> sc_sleeping st' = [3]"
proof -
  have "case boot_run [Fork 3, Fork 4, Sleep 0, Sleep 7] of Inr st \<Rightarrow> sc_sleeping st = [1, 3] \<and> sc_pending st = [] \<and>
      sc_now st = 0 \<and> t_sleep_time (sc_tcb st 1) = 0 \<and> t_sleep_time (sc_tcb st 3) = 7 | Inl _ \<Rightarrow> False" by code_simp
  from boot_run_holds [OF this] obtain st where st: "boot_run [Fork 3, Fork 4, Sleep 0, Sleep 7] = Inr st" "sched_reach st"
    "sc_sleeping st = [1, 3]" "sc_pending st = []" "sc_now st = 0" "t_sleep_time (sc_tcb st 1) = 0" "t_sleep_time (sc_tcb st 3) = 7"
    by blast
  from sleepers_woken_exactly [OF st(2)] st show ?thesis by (auto simp: Let_def)
qed

text \<open>A task whose parent has exited and been reaped before it brings the kernel down when it is reaped: the
  exit of the parent moves its children to the list of the init task but leaves their \<^verbatim>\<open>parentPid\<close>, and \<^verbatim>\<open>freeTask\<close>
  erases the task from the list of the task with that number, which is a null pointer by then. There is a run from
  the first tasks on that ends so in an ordinary \<^verbatim>\<open>waitpid(-1)\<close> of the init task.\<close>

theorem orphan_reap_faults:
  "\<exists>st. sched_reach st \<and> t_pid (sc_tcb st (sc_current st)) = int KP_Init \<and> waitpid_pass (- 1) 0 st = Inl NullDeref"
proof -
  have "case boot_run [Fork 10, Yield, Fork 11, Exit, Reap 16, Yield, Exit] of
      Inr st \<Rightarrow> t_pid (sc_tcb st (sc_current st)) = int KP_Init \<and> (case waitpid_pass (- 1) 0 st of Inl NullDeref \<Rightarrow> True | _ \<Rightarrow> False)
    | Inl _ \<Rightarrow> False" by code_simp
  from boot_run_holds [OF this] obtain st where st: "sched_reach st" "t_pid (sc_tcb st (sc_current st)) = int KP_Init"
    "case waitpid_pass (- 1) 0 st of Inl NullDeref \<Rightarrow> True | _ \<Rightarrow> False" by blast
  then have "waitpid_pass (- 1) 0 st = Inl NullDeref" by (auto split: sum.splits fault.splits)
  with st show ?thesis by blast
qed

end
