(* ===== verification/Nyan_Tty.thy ===== *)
theory Nyan_Tty
  imports Nyan_Console Nyan_Sched
begin

unbundle bit_operations_syntax

text \<open>
  Keyboard and terminals (kernel/keyboard, kernel/console/tty.cpp, kernel/console/device.cpp and the switching part of
  kernel/console/load.cpp). The keyboard turns scan codes into messages; the active terminal turns messages into
  characters, edits lines, echoes them on its screen, sends the signals of the control keys to its foreground group and
  wakes a reader; programs read from and write to a terminal through its device. Terminal \<open>i\<close> waits on the list
  \<open>WL_Device i\<close> of the scheduler. What a user pointer check yields is an argument.
\<close>

section \<open>Keyboard\<close>

record message =
  m_code :: u16
  m_key :: u16
  m_flag :: u8
  m_ch :: u8

abbreviation F_Ctrl :: u8 where "F_Ctrl \<equiv> 1"
abbreviation F_Shift :: u8 where "F_Shift \<equiv> 2"
abbreviation F_Alt :: u8 where "F_Alt \<equiv> 4"
abbreviation F_Release :: "'a::len word" where "F_Release \<equiv> 0x80"

definition SC_LCTRL :: u16 where "SC_LCTRL = 0x1D"
definition SC_LSHIFT :: u16 where "SC_LSHIFT = 0x2A"
definition SC_RSHIFT :: u16 where "SC_RSHIFT = 0x36"
definition SC_LALT :: u16 where "SC_LALT = 0x38"
definition SC_CAPLOCKS :: u16 where "SC_CAPLOCKS = 0x3A"
definition SC_F1 :: u16 where "SC_F1 = 0x3B"
definition SC_F2 :: u16 where "SC_F2 = 0x3C"
definition SC_F3 :: u16 where "SC_F3 = 0x3D"
definition SC_F4 :: u16 where "SC_F4 = 0x3E"
definition SC_NUMLOCK :: u16 where "SC_NUMLOCK = 0x45"
definition SC_SCROLLLOCK :: u16 where "SC_SCROLLLOCK = 0x46"
definition SC_RCTRL :: u16 where "SC_RCTRL = 0xE01D"
definition SC_KP_SLASH :: u16 where "SC_KP_SLASH = 0xE035"
definition SC_RALT :: u16 where "SC_RALT = 0xE038"
definition SC_HOME :: u16 where "SC_HOME = 0xE047"
definition SC_UP :: u16 where "SC_UP = 0xE048"
definition SC_PAGEUP :: u16 where "SC_PAGEUP = 0xE049"
definition SC_LEFT :: u16 where "SC_LEFT = 0xE04B"
definition SC_RIGHT :: u16 where "SC_RIGHT = 0xE04D"
definition SC_END :: u16 where "SC_END = 0xE04F"
definition SC_DOWN :: u16 where "SC_DOWN = 0xE050"
definition SC_PAGEDOWN :: u16 where "SC_PAGEDOWN = 0xE051"
definition SC_INSERT :: u16 where "SC_INSERT = 0xE052"
definition SC_DELETE :: u16 where "SC_DELETE = 0xE053"

lemmas scan_codes = SC_LCTRL_def SC_LSHIFT_def SC_RSHIFT_def SC_LALT_def SC_CAPLOCKS_def SC_F1_def SC_F2_def SC_F3_def SC_F4_def
  SC_NUMLOCK_def SC_SCROLLLOCK_def SC_RCTRL_def SC_KP_SLASH_def SC_RALT_def SC_HOME_def SC_UP_def SC_PAGEUP_def SC_LEFT_def
  SC_RIGHT_def SC_END_def SC_DOWN_def SC_PAGEDOWN_def SC_INSERT_def SC_DELETE_def

text \<open>The character table, two characters for each scan code, with the terminating zero of the literal.\<close>

definition SC_to_char :: "u8 list" where
  "SC_to_char = [
    0, 0, 0, 0, 49, 33, 50, 64, 51, 35, 52, 36, 53, 37, 54, 94, 55, 38, 56, 42, 57, 40, 48, 41, 45, 95, 61, 43, 127, 127,
    9, 9, 113, 81, 119, 87, 101, 69, 114, 82, 116, 84, 121, 89, 117, 85, 105, 73, 111, 79, 112, 80, 91, 123, 93, 125, 13, 13,
    0, 0, 97, 65, 115, 83, 100, 68, 102, 70, 103, 71, 104, 72, 106, 74, 107, 75, 108, 76, 59, 58, 39, 34, 96, 126, 0, 0, 92, 124,
    122, 90, 120, 88, 99, 67, 118, 86, 98, 66, 110, 78, 109, 77, 44, 60, 46, 62, 47, 63, 0, 0, 42, 42,
    0, 0, 32, 32, 0, 0, 0, 0, 0, 0, 0, 0, 0, 0, 0, 0, 0, 0, 0, 0, 0, 0, 0, 0, 0, 0, 0, 0, 0, 0,
    55, 55, 56, 56, 57, 57, 45, 45, 52, 52, 53, 53, 54, 54, 43, 43, 49, 49, 50, 50, 51, 51, 48, 48, 46, 46, 0, 0]"

definition scan_char :: "u16 \<Rightarrow> u8 \<Rightarrow> u8 exec" where
  "scan_char scan flags =
    (if drop_bit 8 scan = 0xE0 then Inr (if scan = SC_KP_SLASH then 0x2F else 0)
     else if unat scan < length SC_to_char div 2
     then let i = 2 * unat scan + (if flags AND F_Shift \<noteq> 0 then 1 else 0)
          in if i < length SC_to_char then Inr (SC_to_char ! i) else Inl OutOfBounds
     else Inr 0)"

definition ctrl_char :: "u8 \<Rightarrow> u8" where
  "ctrl_char ch = (if 0x61 \<le> ch \<and> ch \<le> 0x7A \<or> 0x40 \<le> ch \<and> ch \<le> 0x5F then ch AND 0x1F else if ch = 0x3F then 0x7F else ch)"

definition modifier :: "u16 \<Rightarrow> u8" where
  "modifier scan = (if scan = SC_LCTRL \<or> scan = SC_RCTRL then F_Ctrl else if scan = SC_LSHIFT \<or> scan = SC_RSHIFT then F_Shift
    else if scan = SC_LALT \<or> scan = SC_RALT then F_Alt else 0)"

text \<open>\<^verbatim>\<open>merge\<close> reads and updates the modifiers that are down.\<close>

definition kb_merge :: "u16 \<Rightarrow> u8 \<Rightarrow> (message \<times> u8) exec" where
  "kb_merge scan0 flags =
    (let release = (scan0 AND F_Release \<noteq> 0); scan = (if release then scan0 - F_Release else scan0); md = modifier scan;
         flags' = (if md = 0 then flags else if release then flags AND NOT md else flags OR md)
     in sbind (scan_char scan flags) (\<lambda>ch.
        Inr (\<lparr>m_code = scan0, m_key = scan0 AND NOT F_Release, m_flag = (if release then F_Release else 0) OR flags',
          m_ch = (if flags AND F_Ctrl \<noteq> 0 then ctrl_char ch else ch)\<rparr>, flags')))"

section \<open>Terminals\<close>

record tty =
  ty_screen :: screen
  ty_fg :: int
  ty_line :: "u8 list"
  ty_input :: "u8 list"
  ty_eof :: bool

record consoles =
  cs_ttys :: "tty list"
  cs_active :: nat
  cs_vga :: "cell list"
  cs_flags :: u8
  cs_prefix :: bool
  cs_sched :: sched

text \<open>One terminal at work: the terminal, the memory of the adapter and the scheduler.\<close>

record tstate =
  x_tty :: tty
  x_vga :: "cell list"
  x_sched :: sched

definition new_tty :: tty where
  "new_tty = \<lparr>ty_screen = ScreenBuffer, ty_fg = KP_Invalid, ty_line = [], ty_input = [], ty_eof = False\<rparr>"

definition tty_puts :: "u8 list \<Rightarrow> tstate \<Rightarrow> tstate exec" where
  "tty_puts str st = sbind (puts str (ty_screen (x_tty st), x_vga st)) (\<lambda>(s, v).
    Inr (st\<lparr>x_tty := (x_tty st)\<lparr>ty_screen := s\<rparr>, x_vga := v\<rparr>))"

abbreviation lflag :: "tstate \<Rightarrow> u32" where
  "lflag st \<equiv> c_lflag (sb_config (ty_screen (x_tty st)))"

definition echoCtrl :: "u8 \<Rightarrow> tstate \<Rightarrow> tstate exec" where
  "echoCtrl ch st = (if lflag st AND ECHO \<noteq> 0 then tty_puts [0x5E, ch + 0x40, 10] st else Inr st)"

definition echoChar :: "u8 \<Rightarrow> tstate \<Rightarrow> tstate exec" where
  "echoChar ch st =
    (if lflag st AND ECHO \<noteq> 0
     then if lflag st AND ECHOCTL \<noteq> 0 \<and> ch < 0x20 \<and> ch \<noteq> 10 \<and> ch \<noteq> 9 then tty_puts [0x5E, ch + 0x40] st else tty_puts [ch] st
     else Inr st)"

text \<open>A character is signed, a control character unsigned; both are compared as integers.\<close>

definition is_cc :: "u8 \<Rightarrow> nat \<Rightarrow> tstate \<Rightarrow> bool" where
  "is_cc ch k st \<longleftrightarrow> sint ch = uint (c_cc (sb_config (ty_screen (x_tty st))) ! k)"

definition signal_key :: "u8 \<Rightarrow> nat \<Rightarrow> tstate \<Rightarrow> tstate exec" where
  "signal_key ch sig st = sbind (echoCtrl ch st) (\<lambda>st.
    Inr (st\<lparr>x_tty := (x_tty st)\<lparr>ty_line := []\<rparr>, x_sched := snd (kill (- ty_fg (x_tty st)) (int sig) (x_sched st))\<rparr>))"

definition canonical_key :: "u8 \<Rightarrow> tstate \<Rightarrow> tstate exec" where
  "canonical_key ch st = (let t = x_tty st in
    if is_cc ch VERASE st then
      (if ty_line t \<noteq> []
       then sbind (if lflag st AND ECHOE \<noteq> 0 then tty_puts [8, 0x20, 8] st else Inr st) (\<lambda>st.
         Inr (st\<lparr>x_tty := (x_tty st)\<lparr>ty_line := butlast (ty_line (x_tty st))\<rparr>\<rparr>))
       else Inr st)
    else if is_cc ch VEOF st then Inr (st\<lparr>x_tty := t\<lparr>ty_input := ty_input t @ ty_line t, ty_line := [], ty_eof := True\<rparr>\<rparr>)
    else if ch = 10 then
      sbind (if lflag st AND (ECHO OR ECHONL) \<noteq> 0 then tty_puts [10] st else Inr st) (\<lambda>st.
      let t = x_tty st in Inr (st\<lparr>x_tty := t\<lparr>ty_input := ty_input t @ ty_line t @ [10], ty_line := []\<rparr>\<rparr>))
    else sbind (echoChar ch st) (\<lambda>st. Inr (st\<lparr>x_tty := (x_tty st)\<lparr>ty_line := ty_line (x_tty st) @ [ch]\<rparr>\<rparr>)))"

definition processKey :: "u8 \<Rightarrow> tstate \<Rightarrow> tstate exec" where
  "processKey ch0 st =
    (let ch = (if c_iflag (sb_config (ty_screen (x_tty st))) AND ICRNL \<noteq> 0 \<and> ch0 = 13 then 10 else ch0) in
     if lflag st AND ISIG \<noteq> 0 \<and> is_cc ch VINTR st then signal_key ch SIGINT st
     else if lflag st AND ISIG \<noteq> 0 \<and> is_cc ch VSUSP st then signal_key ch SIGTSTP st
     else if lflag st AND ISIG \<noteq> 0 \<and> is_cc ch VQUIT st then signal_key ch SIGQUIT st
     else if lflag st AND ICANON \<noteq> 0 then canonical_key ch st
     else sbind (echoChar ch st) (\<lambda>st. Inr (st\<lparr>x_tty := (x_tty st)\<lparr>ty_input := ty_input (x_tty st) @ [ch]\<rparr>\<rparr>)))"

fun process_keys :: "u8 list \<Rightarrow> tstate \<Rightarrow> tstate exec" where
  "process_keys [] st = Inr st"
| "process_keys (ch # keys) st = sbind (processKey ch st) (process_keys keys)"

definition translateMsg :: "message \<Rightarrow> u8 list" where
  "translateMsg msg = (let c = m_code msg in
    if c = SC_UP then [0x1B, 0x5B, 0x41]
    else if c = SC_DOWN then [0x1B, 0x5B, 0x42]
    else if c = SC_LEFT then [0x1B, 0x5B, 0x44]
    else if c = SC_RIGHT then [0x1B, 0x5B, 0x43]
    else if c = SC_HOME then [0x1B, 0x5B, 0x48]
    else if c = SC_END then [0x1B, 0x5B, 0x46]
    else if c = SC_DELETE then [0x1B, 0x5B, 0x33, 0x7E]
    else if c = SC_INSERT then [0x1B, 0x5B, 0x32, 0x7E]
    else if c = SC_PAGEUP then [0x1B, 0x5B, 0x35, 0x7E]
    else if c = SC_PAGEDOWN then [0x1B, 0x5B, 0x36, 0x7E]
    else if c = SC_F1 then [0x1B, 0x4F, 0x50]
    else if c = SC_F2 then [0x1B, 0x4F, 0x51]
    else if c = SC_F3 then [0x1B, 0x4F, 0x52]
    else if c = SC_F4 then [0x1B, 0x4F, 0x53]
    else if m_ch msg = 0 then []
    else if m_flag msg AND F_Alt \<noteq> 0 then [0x1B, m_ch msg]
    else [m_ch msg])"

definition tty_input :: "nat \<Rightarrow> message \<Rightarrow> tstate \<Rightarrow> tstate exec" where
  "tty_input i msg st =
    (if m_flag msg AND F_Release \<noteq> 0 then Inr st
     else if m_code msg \<in> {SC_LCTRL, SC_RCTRL, SC_LSHIFT, SC_RSHIFT, SC_LALT, SC_RALT, SC_CAPLOCKS, SC_NUMLOCK, SC_SCROLLLOCK}
     then Inr st
     else let keys = translateMsg msg in
     if keys = [] then Inr st
     else sbind (process_keys keys st) (\<lambda>st. Inr (st\<lparr>x_sched := snd (wl_wakeOne (WL_Device i) WR_Normal (x_sched st))\<rparr>)))"

section \<open>The device of a terminal\<close>

text \<open>One pass of \<^verbatim>\<open>syncWaitInput\<close> and \<^verbatim>\<open>read\<close>. \<open>woken\<close> is why the caller was woken when it waited in the pass
  before; a caller that has to wait blocks on the list of the terminal.\<close>

definition tty_read :: "wake_reason \<Rightarrow> nat \<Rightarrow> tty \<Rightarrow> u8 list pass \<times> tty" where
  "tty_read woken n t =
    (if woken = WR_Signal then (Return (Inl SYS_EINTR), t)
     else if ty_input t \<noteq> [] then (Return (Inr (take n (ty_input t))), t\<lparr>ty_input := drop n (ty_input t)\<rparr>)
     else if ty_eof t then (Return (Inr []), t\<lparr>ty_eof := False\<rparr>)
     else (Block, t))"

definition tty_wait :: "nat \<Rightarrow> sched \<Rightarrow> sched exec" where
  "tty_wait i st = wl_wait (WL_Device i) BR_WaitInput st"

definition tty_write :: "u8 list \<Rightarrow> tstate \<Rightarrow> (nat \<times> tstate) exec" where
  "tty_write buf st = sbind (tty_puts buf st) (\<lambda>st. Inr (length buf, st))"

datatype ioctl_out = GotTermios termios | GotPid int | GotWinsize nat nat | GotNothing

definition TCGETS :: u32 where "TCGETS = 0x5401"
definition TCSETS :: u32 where "TCSETS = 0x5402"
definition TIOCGPGRP :: u32 where "TIOCGPGRP = 0x540F"
definition TIOCSPGRP :: u32 where "TIOCSPGRP = 0x5410"
definition TIOCGWINSZ :: u32 where "TIOCGWINSZ = 0x5413"

text \<open>\<open>check\<close> is the outcome of the pointer check of the command, \<open>termios\<close> and \<open>pgid\<close> what the pointer leads to.\<close>

definition tty_ioctl :: "u32 \<Rightarrow> unit result \<Rightarrow> termios \<Rightarrow> int \<Rightarrow> sched \<Rightarrow> tty \<Rightarrow> ioctl_out result \<times> tty" where
  "tty_ioctl cmd check cfg pgid sc t =
    (if cmd \<notin> {TCGETS, TCSETS, TIOCGPGRP, TIOCSPGRP, TIOCGWINSZ} then (Inl SYS_ENOTTY, t)
     else case check of Inl e \<Rightarrow> (Inl e, t)
     | Inr _ \<Rightarrow>
       if cmd = TCGETS then (Inr (GotTermios (sb_config (ty_screen t))), t)
       else if cmd = TCSETS then (Inr GotNothing, t\<lparr>ty_screen := (ty_screen t)\<lparr>sb_config := cfg\<rparr>\<rparr>)
       else if cmd = TIOCGPGRP then (Inr (GotPid (ty_fg t)), t)
       else if cmd = TIOCSPGRP then
         (case findTaskGroup pgid sc of Inl e \<Rightarrow> (Inl e, t) | Inr _ \<Rightarrow> (Inr GotNothing, t\<lparr>ty_fg := pgid\<rparr>))
       else (Inr (GotWinsize vga_height vga_width), t))"

section \<open>The active terminal\<close>

definition run_tty :: "nat \<Rightarrow> (tstate \<Rightarrow> tstate exec) \<Rightarrow> consoles \<Rightarrow> consoles exec" where
  "run_tty i f c =
    (if i < length (cs_ttys c)
     then sbind (f \<lparr>x_tty = cs_ttys c ! i, x_vga = cs_vga c, x_sched = cs_sched c\<rparr>) (\<lambda>st.
       Inr (c\<lparr>cs_ttys := (cs_ttys c)[i := x_tty st], cs_vga := x_vga st, cs_sched := x_sched st\<rparr>))
     else Inl OutOfBounds)"

definition tty_activate :: "tstate \<Rightarrow> tstate exec" where
  "tty_activate st = (let s = (ty_screen (x_tty st))\<lparr>sb_active := True\<rparr>; (s, v) = flushBuffer (s, x_vga st)
    in Inr (st\<lparr>x_tty := (x_tty st)\<lparr>ty_screen := s\<rparr>, x_vga := v\<rparr>))"

definition tty_deactivate :: "tstate \<Rightarrow> tstate exec" where
  "tty_deactivate st = Inr (st\<lparr>x_tty := (x_tty st)\<lparr>ty_screen := (ty_screen (x_tty st))\<lparr>sb_active := False\<rparr>\<rparr>\<rparr>)"

definition switchTo :: "nat \<Rightarrow> consoles \<Rightarrow> consoles exec" where
  "switchTo i c =
    (if i \<ge> length (cs_ttys c) then Inl OutOfBounds
     else if sb_active (ty_screen (cs_ttys c ! i)) then Inr c
     else sbind (run_tty (cs_active c) tty_deactivate c) (\<lambda>c. run_tty i tty_activate (c\<lparr>cs_active := i\<rparr>)))"

definition handleInput :: "message \<Rightarrow> consoles \<Rightarrow> consoles exec" where
  "handleInput msg c = run_tty (cs_active c) (tty_input (cs_active c) msg) c"

definition kb_handle :: "message \<Rightarrow> consoles \<Rightarrow> consoles exec" where
  "kb_handle msg c =
    (if m_flag msg AND F_Release = 0 \<and> m_flag msg AND F_Ctrl \<noteq> 0 \<and> m_flag msg AND F_Alt \<noteq> 0 \<and> SC_F1 \<le> m_key msg \<and> m_key msg \<le> SC_F2
     then switchTo (unat (m_key msg - SC_F1)) c
     else handleInput msg c)"

text \<open>\<^verbatim>\<open>push\<close>: a byte of the keyboard controller; \<open>cs_prefix\<close> is the state after the prefix byte E0.\<close>

definition kb_push :: "u8 \<Rightarrow> consoles \<Rightarrow> (bool \<times> consoles) exec" where
  "kb_push dat c =
    (if \<not> cs_prefix c \<and> dat = 0xE0 then Inr (False, c\<lparr>cs_prefix := True\<rparr>)
     else sbind (kb_merge (if cs_prefix c then 0xE000 OR ucast dat else ucast dat) (cs_flags c)) (\<lambda>(msg, fl).
       sbind (kb_handle msg (c\<lparr>cs_flags := fl, cs_prefix := False\<rparr>)) (\<lambda>c. Inr (True, c))))"

definition console_load :: "sched \<Rightarrow> cell list \<Rightarrow> consoles exec" where
  "console_load sc vga = (let t = new_tty\<lparr>ty_screen := screen_clear (ty_screen new_tty)\<rparr> in
    run_tty 0 tty_activate \<lparr>cs_ttys = [t, t], cs_active = 0, cs_vga = vga, cs_flags = 0, cs_prefix = False, cs_sched = sc\<rparr>)"

section \<open>Keys and screens\<close>

text \<open>A terminal at work whose screen and adapter are in order; what one step may change of it.\<close>

abbreviation disp_of :: "tstate \<Rightarrow> display" where
  "disp_of st \<equiv> (ty_screen (x_tty st), x_vga st)"

abbreviation cfg_of :: "tstate \<Rightarrow> termios" where
  "cfg_of st \<equiv> sb_config (ty_screen (x_tty st))"

definition tty_next :: "tstate \<Rightarrow> tstate \<Rightarrow> bool" where
  "tty_next st st' \<longleftrightarrow> disp_next (disp_of st) (disp_of st') \<and> cfg_of st' = cfg_of st"

definition prints_only :: "tstate \<Rightarrow> tstate \<Rightarrow> bool" where
  "prints_only st st' \<longleftrightarrow> tty_next st st' \<and> ty_line (x_tty st') = ty_line (x_tty st) \<and> ty_input (x_tty st') = ty_input (x_tty st) \<and>
    ty_fg (x_tty st') = ty_fg (x_tty st) \<and> ty_eof (x_tty st') = ty_eof (x_tty st) \<and> x_sched st' = x_sched st"

lemma tty_next_refl: "disp_ok (disp_of st) \<Longrightarrow> tty_next st st"
  by (simp add: tty_next_def disp_next_def disp_ok_def)

lemma prints_only_refl: "disp_ok (disp_of st) \<Longrightarrow> prints_only st st"
  by (simp add: prints_only_def tty_next_refl)

lemma tty_next_trans: "tty_next a b \<Longrightarrow> tty_next b c \<Longrightarrow> tty_next a c"
  using disp_next_trans by (auto simp: tty_next_def)

lemma tty_next_ok: "tty_next a b \<Longrightarrow> disp_ok (disp_of b)"
  by (simp add: tty_next_def disp_next_def)

lemma tty_puts_prints:
  assumes "disp_ok (disp_of st)" "9 \<notin> set str"
  shows "\<exists>st'. tty_puts str st = Inr st' \<and> prints_only st st'"
proof -
  obtain s v where p: "puts str (disp_of st) = Inr (s, v)" "disp_next (disp_of st) (s, v)"
    using puts_next [OF assms] by auto
  show ?thesis using puts_config [OF p(1)] p by (auto simp: tty_puts_def prints_only_def tty_next_def)
qed

lemma cond_puts:
  assumes "disp_ok (disp_of st)" "9 \<notin> set str"
  shows "\<exists>st'. (if b then tty_puts str st else Inr st) = Inr st' \<and> prints_only st st'"
  using tty_puts_prints [OF assms] prints_only_refl [OF assms(1)] by auto

lemma signed_byte: "0 \<le> x \<Longrightarrow> x < 256 \<Longrightarrow> 0 \<le> y \<Longrightarrow> (x + 128) mod 256 - 128 = y \<longleftrightarrow> x = y \<and> x < 128" for x y :: int
proof (cases "x < 128")
  case False
  assume "0 \<le> x" "x < 256" "0 \<le> y"
  with False have "(x - 128 + 256) mod 256 = x - 128" unfolding mod_add_self2 by (simp add: mod_pos_pos_trivial)
  then show ?thesis using False \<open>x < 256\<close> \<open>0 \<le> y\<close> by (simp add: add.commute)
qed (simp add: mod_pos_pos_trivial)

lemma signed_cc: "sint (ch :: u8) = uint (c :: u8) \<longleftrightarrow> ch = c \<and> ch < 0x80"
proof -
  have "0 \<le> uint ch" "uint ch < 256" "0 \<le> uint c" using uint_bounded [of ch] uint_bounded [of c] by auto
  moreover have "sint ch = (uint ch + 128) mod 256 - 128"
    by (simp add: sint_uint signed_take_bit_eq_take_bit_shift take_bit_eq_mod)
  ultimately show ?thesis by (simp add: signed_byte word_less_def word_uint_eq_iff)
qed

lemma echoChar_prints:
  assumes "disp_ok (disp_of st)" "ch \<noteq> 9"
  shows "\<exists>st'. echoChar ch st = Inr st' \<and> prints_only st st'"
proof -
  have "ch + 0x40 \<noteq> 9" if "ch < 0x20" using that by (auto simp: word_less_nat_alt unat_word_ariths word_unat_eq_iff)
  then show ?thesis using tty_puts_prints [OF assms(1)] assms(2) prints_only_refl [OF assms(1)]
    by (auto simp: echoChar_def)
qed

lemma echoCtrl_prints:
  assumes "disp_ok (disp_of st)" "ch < 0x80"
  shows "\<exists>st'. echoCtrl ch st = Inr st' \<and> prints_only st st'"
proof -
  have "ch + 0x40 \<noteq> 9" using assms(2) by (auto simp: word_less_nat_alt unat_word_ariths word_unat_eq_iff)
  then show ?thesis using tty_puts_prints [OF assms(1)] prints_only_refl [OF assms(1)] by (auto simp: echoCtrl_def)
qed

text \<open>A key that is not a tabulator never takes the kernel out of its buffers, and leaves the settings alone.\<close>

lemma prints_onlyD: "prints_only st st' \<Longrightarrow> tty_next st st'"
  by (simp add: prints_only_def)

lemma tty_next_upd: "tty_next st st' \<Longrightarrow> ty_screen t = ty_screen (x_tty st') \<Longrightarrow> tty_next st (st'\<lparr>x_tty := t, x_sched := sc\<rparr>)"
  by (simp add: tty_next_def)

lemma tty_next_tty: "tty_next st st' \<Longrightarrow> ty_screen t = ty_screen (x_tty st') \<Longrightarrow> tty_next st (st'\<lparr>x_tty := t\<rparr>)"
  by (simp add: tty_next_def)

lemma signal_key_next:
  assumes "disp_ok (disp_of st)" "is_cc ch k st"
  shows "\<exists>st'. signal_key ch sig st = Inr st' \<and> tty_next st st'"
proof -
  have "ch < 0x80" using assms(2) by (auto simp: is_cc_def signed_cc)
  from echoCtrl_prints [OF assms(1) this] show ?thesis
    by (auto simp: signal_key_def dest!: prints_onlyD intro!: tty_next_upd)
qed

lemma canonical_key_next:
  assumes ok: "disp_ok (disp_of st)" and ch: "ch \<noteq> 9"
  shows "\<exists>st'. canonical_key ch st = Inr st' \<and> tty_next st st'"
proof -
  obtain s1 where s1: "(if lflag st AND ECHOE \<noteq> 0 then tty_puts [8, 0x20, 8] st else Inr st) = Inr s1" "prints_only st s1"
    using cond_puts [OF ok, of "[8, 0x20, 8]" "lflag st AND ECHOE \<noteq> 0"] by fastforce
  obtain s2 where s2: "(if lflag st AND (ECHO OR ECHONL) \<noteq> 0 then tty_puts [10] st else Inr st) = Inr s2" "prints_only st s2"
    using cond_puts [OF ok, of "[10]" "lflag st AND (ECHO OR ECHONL) \<noteq> 0"] by fastforce
  obtain s3 where s3: "echoChar ch st = Inr s3" "prints_only st s3" using echoChar_prints [OF ok ch] by blast
  show ?thesis unfolding canonical_key_def Let_def s1(1) s2(1) s3(1)
    using prints_onlyD [OF s1(2)] prints_onlyD [OF s2(2)] prints_onlyD [OF s3(2)] tty_next_refl [OF ok] by (auto intro!: tty_next_tty)
qed

lemma processKey_next:
  assumes ok: "disp_ok (disp_of st)" and ch: "ch \<noteq> 9"
  shows "\<exists>st'. processKey ch st = Inr st' \<and> tty_next st st'"
proof -
  define k :: u8 where "k = (if c_iflag (cfg_of st) AND ICRNL \<noteq> 0 \<and> ch = 13 then 10 else ch)"
  have k: "k \<noteq> 9" using ch by (simp add: k_def)
  obtain s3 where "echoChar k st = Inr s3" "tty_next st s3" using echoChar_prints [OF ok k] prints_onlyD by blast
  then show ?thesis unfolding processKey_def Let_def k_def [symmetric]
    using signal_key_next [OF ok] canonical_key_next [OF ok k] by (auto intro!: tty_next_tty)
qed

lemma process_keys_next:
  "disp_ok (disp_of st) \<Longrightarrow> 9 \<notin> set keys \<Longrightarrow> \<exists>st'. process_keys keys st = Inr st' \<and> tty_next st st'"
proof (induction keys arbitrary: st)
  case Nil
  then show ?case by (simp add: tty_next_refl)
next
  case (Cons ch keys)
  obtain s1 where s1: "processKey ch st = Inr s1" "tty_next st s1" using processKey_next Cons.prems by fastforce
  from Cons.IH [OF tty_next_ok [OF s1(2)]] Cons.prems(2) obtain s2 where "process_keys keys s1 = Inr s2" "tty_next s1 s2" by auto
  with s1 tty_next_trans show ?case by auto
qed

lemma translateMsg_plain: "m_ch msg \<noteq> 9 \<Longrightarrow> 9 \<notin> set (translateMsg msg)"
  by (auto simp: translateMsg_def Let_def)

lemma tty_input_next:
  assumes ok: "disp_ok (disp_of st)" and ch: "m_ch msg \<noteq> 9"
  shows "\<exists>st'. tty_input i msg st = Inr st' \<and> tty_next st st'"
proof -
  obtain s1 where "process_keys (translateMsg msg) st = Inr s1" "tty_next st s1"
    using process_keys_next [OF ok translateMsg_plain [OF ch]] by blast
  then show ?thesis using tty_next_refl [OF ok] by (auto simp: tty_input_def Let_def tty_next_def)
qed

section \<open>One active terminal\<close>

text \<open>Exactly the active terminal is marked active, every screen is in order, and the adapter shows the active one.\<close>

definition consoles_ok :: "consoles \<Rightarrow> bool" where
  "consoles_ok c \<longleftrightarrow> cs_active c < length (cs_ttys c) \<and> length (cs_ttys c) = 2 \<and> cs_flags c < 8 \<and>
    (\<forall>i<length (cs_ttys c). screen_ok (ty_screen (cs_ttys c ! i)) \<and> (sb_active (ty_screen (cs_ttys c ! i)) \<longleftrightarrow> i = cs_active c)) \<and>
    cs_vga c = sb_buffer (ty_screen (cs_ttys c ! cs_active c))"

lemma consoles_disp:
  assumes "consoles_ok c" "i < 2"
  shows "disp_ok (ty_screen (cs_ttys c ! i), cs_vga c)"
proof -
  have "screen_ok (ty_screen (cs_ttys c ! cs_active c))" using assms(1) by (simp add: consoles_ok_def)
  then show ?thesis using assms by (auto simp: consoles_ok_def disp_ok_def screen_ok_def)
qed

lemma run_tty_ok:
  assumes ok: "consoles_ok c" and i: "i < 2" and f: "\<exists>st'. f \<lparr>x_tty = cs_ttys c ! i, x_vga = cs_vga c, x_sched = cs_sched c\<rparr> = Inr st' \<and>
    tty_next \<lparr>x_tty = cs_ttys c ! i, x_vga = cs_vga c, x_sched = cs_sched c\<rparr> st'"
  shows "\<exists>c'. run_tty i f c = Inr c' \<and> consoles_ok c' \<and> cs_active c' = cs_active c \<and> cs_flags c' = cs_flags c \<and> cs_prefix c' = cs_prefix c"
proof -
  let ?st = "\<lparr>x_tty = cs_ttys c ! i, x_vga = cs_vga c, x_sched = cs_sched c\<rparr>"
  obtain st' where st': "f ?st = Inr st'" "tty_next ?st st'" using f by blast
  have l: "i < length (cs_ttys c)" using ok i by (simp add: consoles_ok_def)
  have n: "disp_ok (disp_of st')" "sb_active (ty_screen (x_tty st')) = sb_active (ty_screen (cs_ttys c ! i))"
    "\<not> sb_active (ty_screen (cs_ttys c ! i)) \<Longrightarrow> x_vga st' = cs_vga c"
    using st'(2) by (simp_all add: tty_next_def disp_next_def)
  have a: "sb_active (ty_screen (cs_ttys c ! i)) \<longleftrightarrow> i = cs_active c" using ok l by (simp add: consoles_ok_def)
  show ?thesis using st'(1) l ok n a by (cases "i = cs_active c") (auto simp: run_tty_def consoles_ok_def disp_ok_def nth_list_update)
qed

lemma switchTo_ok:
  assumes ok: "consoles_ok c" and i: "i < 2"
  shows "\<exists>c'. switchTo i c = Inr c' \<and> consoles_ok c' \<and> cs_active c' = i \<and> cs_sched c' = cs_sched c"
proof (cases "sb_active (ty_screen (cs_ttys c ! i))")
  case True
  then show ?thesis using ok i by (auto simp: switchTo_def consoles_ok_def)
next
  case False
  have l: "length (cs_ttys c) = 2" "cs_active c < 2" "i \<noteq> cs_active c" using ok i False by (auto simp: consoles_ok_def)
  then show ?thesis using ok i False
    by (auto simp: switchTo_def run_tty_def tty_deactivate_def tty_activate_def Let_def flushBuffer_def consoles_ok_def
      nth_list_update screen_ok_def)
qed

lemma scan_char_total: "\<exists>ch. scan_char scan flags = Inr ch"
proof -
  have "length SC_to_char = 170" by (simp add: SC_to_char_def)
  then show ?thesis by (auto simp: scan_char_def Let_def)
qed

text \<open>The keys that give a tabulator: Tab, and I with Ctrl held.\<close>

lemma tab_keys:
  assumes "scan_char scan flags = Inr ch"
  shows "ch = 9 \<Longrightarrow> scan = 0x0F" "ch \<in> {0x49, 0x69} \<Longrightarrow> scan = 0x17"
proof -
  have t: "list_all (\<lambda>i. (SC_to_char ! i = 9 \<longrightarrow> i div 2 = 15) \<and> (SC_to_char ! i \<in> {0x49, 0x69} \<longrightarrow> i div 2 = 23)) [0..<170]"
    unfolding SC_to_char_def by code_simp
  have l: "length SC_to_char = 170" by (simp add: SC_to_char_def)
  have s: "scan = of_nat n" if "unat scan = n" for n using that by auto
  have "\<exists>i<170. ch = SC_to_char ! i \<and> i div 2 = unat scan" if "ch \<notin> {0, 0x2F}"
    using assms that l exI [of _ "2 * unat scan + (if flags AND F_Shift \<noteq> 0 then 1 else 0)"]
    by (auto simp: scan_char_def Let_def split: if_splits)
  with t s show "ch = 9 \<Longrightarrow> scan = 0x0F" "ch \<in> {0x49, 0x69} \<Longrightarrow> scan = 0x17" by (fastforce simp: list_all_iff)+
qed

lemma below_all: "list_all P (map of_nat [0..<n]) \<Longrightarrow> unat b < n \<Longrightarrow> P (b :: u8)"
proof -
  assume a: "list_all P (map of_nat [0..<n])" "unat b < n"
  then have "map of_nat [0..<n] ! unat b = b" by simp
  with a show ?thesis unfolding list_all_length by (metis length_map length_upt diff_zero)
qed

lemma byte_all: "list_all P (map of_nat [0..<256]) \<Longrightarrow> P (b :: u8)"
  using below_all [of P 256 b] unsigned_less [of b] by simp

lemma flag_facts:
  assumes "fl < 8" "md \<in> {F_Ctrl, F_Shift, F_Alt}"
  shows "fl AND NOT md < 8" "fl OR md < 8" "fl AND F_Release = 0" "(F_Release OR fl) AND F_Ctrl = fl AND F_Ctrl"
    "(F_Release OR fl) AND F_Alt = fl AND F_Alt" "(F_Release OR fl) AND F_Release \<noteq> 0"
proof -
  have "list_all (\<lambda>fl :: u8. list_all (\<lambda>md. fl AND NOT md < 8 \<and> fl OR md < 8 \<and> fl AND F_Release = 0 \<and> (F_Release OR fl) AND F_Ctrl = fl AND F_Ctrl \<and>
    (F_Release OR fl) AND F_Alt = fl AND F_Alt \<and> (F_Release OR fl) AND F_Release \<noteq> 0) [F_Ctrl, F_Shift, F_Alt]) (map of_nat [0..<8])"
    by code_simp
  moreover have "unat fl < 8" using assms(1) by (simp add: word_less_nat_alt)
  ultimately have "list_all (\<lambda>md. fl AND NOT md < 8 \<and> fl OR md < 8 \<and> fl AND F_Release = 0 \<and> (F_Release OR fl) AND F_Ctrl = fl AND F_Ctrl \<and>
    (F_Release OR fl) AND F_Alt = fl AND F_Alt \<and> (F_Release OR fl) AND F_Release \<noteq> 0) [F_Ctrl, F_Shift, F_Alt]" by (rule below_all)
  with assms(2) show "fl AND NOT md < 8" "fl OR md < 8" "fl AND F_Release = 0" "(F_Release OR fl) AND F_Ctrl = fl AND F_Ctrl"
    "(F_Release OR fl) AND F_Alt = fl AND F_Alt" "(F_Release OR fl) AND F_Release \<noteq> 0" by (auto simp: list_all_iff)
qed

definition plain_scan :: "u16 \<Rightarrow> u16" where
  "plain_scan scan = (if scan AND F_Release \<noteq> 0 then scan - F_Release else scan)"

lemma ctrl_char_tab: "ctrl_char ch = 9 \<Longrightarrow> ch \<in> {9, 0x49, 0x69}"
  by (rule mp [OF byte_all [where P = "\<lambda>ch. ctrl_char ch = 9 \<longrightarrow> ch \<in> {9, 0x49, 0x69}"]]) code_simp

lemma kb_merge_total:
  assumes fl: "flags < 8"
  obtains msg fl' where "kb_merge scan flags = Inr (msg, fl')" "fl' < 8" "m_key msg = scan AND NOT F_Release"
    "m_flag msg AND F_Release \<noteq> 0 \<longleftrightarrow> scan AND F_Release \<noteq> 0" "m_flag msg AND F_Ctrl = fl' AND F_Ctrl" "m_flag msg AND F_Alt = fl' AND F_Alt"
    "modifier (plain_scan scan) = 0 \<Longrightarrow> fl' = flags"
    "m_ch msg = 9 \<Longrightarrow> plain_scan scan = 0x0F \<or> plain_scan scan = 0x17 \<and> flags AND F_Ctrl \<noteq> 0"
proof -
  obtain ch where ch: "scan_char (plain_scan scan) flags = Inr ch" using scan_char_total by blast
  let ?md = "modifier (plain_scan scan)"
  define fl' where "fl' = (if ?md = 0 then flags else if scan AND F_Release \<noteq> 0 then flags AND NOT ?md else flags OR ?md)"
  define msg where "msg = \<lparr>m_code = scan, m_key = scan AND NOT F_Release, m_flag = (if scan AND F_Release \<noteq> 0 then F_Release else 0) OR fl',
    m_ch = (if flags AND F_Ctrl \<noteq> 0 then ctrl_char ch else ch)\<rparr>"
  have k: "kb_merge scan flags = Inr (msg, fl')"
    using ch by (simp add: kb_merge_def Let_def msg_def fl'_def plain_scan_def cong: if_cong)
  have md: "?md = 0 \<or> ?md \<in> {F_Ctrl, F_Shift, F_Alt}" by (simp add: modifier_def)
  have 8: "fl' < 8" unfolding fl'_def using md fl flag_facts(1,2) [OF fl] by presburger
  note ff = flag_facts [OF 8, of F_Ctrl]
  have key: "m_key msg = scan AND NOT F_Release" and md0: "?md = 0 \<Longrightarrow> fl' = flags" by (simp_all add: msg_def fl'_def)
  have rel: "m_flag msg AND F_Release \<noteq> 0 \<longleftrightarrow> scan AND F_Release \<noteq> 0" and ctrl: "m_flag msg AND F_Ctrl = fl' AND F_Ctrl"
    and alt: "m_flag msg AND F_Alt = fl' AND F_Alt"
    using ff(3-6) by (simp_all add: msg_def)
  have tab: "m_ch msg = 9 \<Longrightarrow> plain_scan scan = 0x0F \<or> plain_scan scan = 0x17 \<and> flags AND F_Ctrl \<noteq> 0"
    using tab_keys [OF ch] ctrl_char_tab [of ch] by (auto simp: msg_def split: if_splits)
  show thesis by (rule that [OF k 8 key rel ctrl alt md0 tab])
qed

text \<open>Every byte of the keyboard controller, but for the tabulator keys.\<close>

definition tab_byte :: "u8 \<Rightarrow> consoles \<Rightarrow> bool" where
  "tab_byte dat c \<longleftrightarrow> \<not> cs_prefix c \<and> (dat = 0x0F \<or> dat = 0x17 \<and> cs_flags c AND F_Ctrl \<noteq> 0)"

definition switch_byte :: "u8 \<Rightarrow> consoles \<Rightarrow> bool" where
  "switch_byte dat c \<longleftrightarrow> \<not> cs_prefix c \<and> cs_flags c AND F_Ctrl \<noteq> 0 \<and> cs_flags c AND F_Alt \<noteq> 0 \<and> dat \<in> {0x3B, 0x3C}"

lemma scan_F: "(ucast dat :: u16) AND F_Release = 0 \<and> SC_F1 \<le> ucast dat AND NOT F_Release \<and> ucast dat AND NOT F_Release \<le> SC_F2 \<longleftrightarrow>
    dat = 0x3B \<or> dat = 0x3C" for dat :: u8
  by (rule byte_all) code_simp

lemma scan_prefix: "\<not> (0xE000 OR ucast dat :: u16) AND NOT F_Release \<le> SC_F2 \<and> plain_scan (0xE000 OR ucast dat) \<noteq> 0x0F \<and>
    plain_scan (0xE000 OR ucast dat) \<noteq> 0x17" for dat :: u8
  by (rule byte_all) code_simp

lemma scan_tab: "(ucast dat = (0x0F :: u16) \<longrightarrow> dat = 0x0F) \<and> (ucast dat = (0x17 :: u16) \<longrightarrow> dat = 0x17)" for dat :: u8
  by (rule byte_all) code_simp

lemma scan_F_key: "dat = 0x3B \<or> dat = 0x3C \<Longrightarrow>
    modifier (plain_scan (ucast dat)) = 0 \<and> unat ((ucast dat AND NOT F_Release) - SC_F1) = unat (dat - 0x3B)" for dat :: u8
  by (auto simp: plain_scan_def modifier_def scan_codes)

lemma plain_scan_id: "scan AND F_Release = 0 \<Longrightarrow> plain_scan scan = scan"
  by (simp add: plain_scan_def)

lemma tty_input_release: "m_flag msg AND F_Release \<noteq> 0 \<Longrightarrow> tty_input i msg st = Inr st"
  by (simp add: tty_input_def)

lemma handleInput_ok:
  assumes ok: "consoles_ok c" and m: "m_ch msg \<noteq> 9 \<or> m_flag msg AND F_Release \<noteq> 0"
  shows "\<exists>c'. handleInput msg c = Inr c' \<and> consoles_ok c' \<and> cs_active c' = cs_active c"
proof -
  let ?st = "\<lparr>x_tty = cs_ttys c ! cs_active c, x_vga = cs_vga c, x_sched = cs_sched c\<rparr>"
  have a: "cs_active c < 2" using ok by (simp add: consoles_ok_def)
  then have d: "disp_ok (disp_of ?st)" using consoles_disp [OF ok] by simp
  have "\<exists>st'. tty_input (cs_active c) msg ?st = Inr st' \<and> tty_next ?st st'"
    using tty_input_next [OF d] tty_input_release [of msg _ ?st] tty_next_refl [OF d] m by (cases "m_ch msg = 9") auto
  from run_tty_ok [where f = "tty_input (cs_active c) msg", OF ok a this] show ?thesis by (auto simp: handleInput_def)
qed

lemma kb_push_ok:
  assumes ok: "consoles_ok c" and tab: "\<not> tab_byte dat c"
  shows "\<exists>b c'. kb_push dat c = Inr (b, c') \<and> consoles_ok c' \<and>
    cs_active c' = (if switch_byte dat c then unat (dat - 0x3B) else cs_active c)"
proof (cases "\<not> cs_prefix c \<and> dat = 0xE0")
  case True
  then show ?thesis using ok by (auto simp: kb_push_def consoles_ok_def switch_byte_def)
next
  case False
  define scan :: u16 where "scan = (if cs_prefix c then 0xE000 OR ucast dat else ucast dat)"
  have "cs_flags c < 8" using ok by (simp add: consoles_ok_def)
  from kb_merge_total [OF this, of scan] obtain msg fl where m: "kb_merge scan (cs_flags c) = Inr (msg, fl)" "fl < 8"
    "m_key msg = scan AND NOT F_Release" "m_flag msg AND F_Release \<noteq> 0 \<longleftrightarrow> scan AND F_Release \<noteq> 0"
    "m_flag msg AND F_Ctrl = fl AND F_Ctrl" "m_flag msg AND F_Alt = fl AND F_Alt"
    "modifier (plain_scan scan) = 0 \<Longrightarrow> fl = cs_flags c"
    "m_ch msg = 9 \<Longrightarrow> plain_scan scan = 0x0F \<or> plain_scan scan = 0x17 \<and> cs_flags c AND F_Ctrl \<noteq> 0" by metis
  let ?c = "c\<lparr>cs_flags := fl, cs_prefix := False\<rparr>"
  have ok': "consoles_ok ?c" using ok m(2) by (simp add: consoles_ok_def)
  have push: "kb_push dat c = sbind (kb_handle msg ?c) (\<lambda>c. Inr (True, c))"
    using False m(1) by (auto simp: kb_push_def scan_def)
  let ?sw = "m_flag msg AND F_Release = 0 \<and> m_flag msg AND F_Ctrl \<noteq> 0 \<and> m_flag msg AND F_Alt \<noteq> 0 \<and> SC_F1 \<le> m_key msg \<and> m_key msg \<le> SC_F2"
  have sw: "?sw \<longleftrightarrow> switch_byte dat c" and key: "?sw \<Longrightarrow> unat (m_key msg - SC_F1) = unat (dat - 0x3B)"
    using m(3-7) scan_F [of dat] scan_prefix [of dat] scan_F_key [of dat] by (auto simp: scan_def switch_byte_def split: if_splits)
  show ?thesis
  proof (cases ?sw)
    case True
    have "unat (dat - 0x3B) < 2" using True sw by (auto simp: switch_byte_def)
    from switchTo_ok [OF ok' this] show ?thesis using True sw key push by (auto simp: kb_handle_def)
  next
    case False
    have "m_ch msg \<noteq> 9 \<or> m_flag msg AND F_Release \<noteq> 0"
      using m(4,8) tab scan_prefix [of dat] scan_tab [of dat] by (auto simp: plain_scan_id scan_def tab_byte_def split: if_splits)
    from handleInput_ok [OF ok' this] show ?thesis using False sw push by (auto simp: kb_handle_def)
  qed
qed

text \<open>Everything that happens to the terminals: they are loaded, the keyboard sends bytes, programs write, read and
  change settings, and the scheduler goes its own way.\<close>

inductive console_reach :: "consoles \<Rightarrow> bool" where
  load: "length vga = vga_width * vga_height \<Longrightarrow> console_load sc vga = Inr c \<Longrightarrow> console_reach c"
| push: "console_reach c \<Longrightarrow> \<not> tab_byte dat c \<Longrightarrow> kb_push dat c = Inr (b, c') \<Longrightarrow> console_reach c'"
| writes: "console_reach c \<Longrightarrow> i < 2 \<Longrightarrow> 9 \<notin> set buf \<Longrightarrow>
    run_tty i (\<lambda>st. sbind (tty_write buf st) (\<lambda>r. Inr (snd r))) c = Inr c' \<Longrightarrow> console_reach c'"
| reads: "console_reach c \<Longrightarrow> i < 2 \<Longrightarrow> console_reach (c\<lparr>cs_ttys := (cs_ttys c)[i := snd (tty_read woken n (cs_ttys c ! i))]\<rparr>)"
| ioctls: "console_reach c \<Longrightarrow> i < 2 \<Longrightarrow>
    console_reach (c\<lparr>cs_ttys := (cs_ttys c)[i := snd (tty_ioctl cmd check cfg pgid (cs_sched c) (cs_ttys c ! i))]\<rparr>)"
| schedules: "console_reach c \<Longrightarrow> console_reach (c\<lparr>cs_sched := sc\<rparr>)"

lemma console_load_eq:
  obtains a t where "screen_ok (ty_screen t)" "\<not> sb_active (ty_screen t)" "a = t\<lparr>ty_screen := (ty_screen t)\<lparr>sb_active := True\<rparr>\<rparr>"
    "sb_config (ty_screen t) = default_config" "ty_line t = []" "ty_input t = []"
    "\<And>sc vga. console_load sc vga = Inr \<lparr>cs_ttys = [a, t], cs_active = 0, cs_vga = sb_buffer (ty_screen t), cs_flags = 0, cs_prefix = False, cs_sched = sc\<rparr>"
proof -
  have z: "0 < vga_width" "0 < vga_height" by (simp_all add: screen_size)
  define t where "t = new_tty\<lparr>ty_screen := screen_clear (ty_screen new_tty)\<rparr>"
  define a where "a = t\<lparr>ty_screen := (ty_screen t)\<lparr>sb_active := True\<rparr>\<rparr>"
  have t: "screen_ok (ty_screen t)" "\<not> sb_active (ty_screen t)" "sb_config (ty_screen t) = default_config" "ty_line t = []" "ty_input t = []"
    using z by (auto simp: screen_ok_def new_tty_def ScreenBuffer_def screen_clear_def t_def)
  have "console_load sc vga = Inr \<lparr>cs_ttys = [a, t], cs_active = 0, cs_vga = sb_buffer (ty_screen t), cs_flags = 0, cs_prefix = False, cs_sched = sc\<rparr>" for sc vga
    unfolding console_load_def t_def [symmetric] Let_def by (simp add: run_tty_def tty_activate_def flushBuffer_def a_def)
  from that [OF t(1,2) a_def t(3-5) this] show thesis .
qed

lemma console_load_ok: "\<exists>c. console_load sc vga = Inr c \<and> consoles_ok c \<and> cs_active c = 0"
  by (rule console_load_eq) (auto simp: consoles_ok_def screen_ok_def less_Suc_eq)

lemma settings_ok:
  assumes "consoles_ok c" "i < 2" "sb_buffer (ty_screen t) = sb_buffer (ty_screen (cs_ttys c ! i))" "sb_row (ty_screen t) = sb_row (ty_screen (cs_ttys c ! i))"
    "sb_col (ty_screen t) = sb_col (ty_screen (cs_ttys c ! i))" "sb_active (ty_screen t) = sb_active (ty_screen (cs_ttys c ! i))"
  shows "consoles_ok (c\<lparr>cs_ttys := (cs_ttys c)[i := t]\<rparr>)"
  using assms by (auto simp: consoles_ok_def screen_ok_def nth_list_update)

lemma tty_read_screen [simp]: "ty_screen (snd (tty_read woken n t)) = ty_screen t"
  by (simp add: tty_read_def)

lemma tty_ioctl_screen:
  obtains cf where "ty_screen (snd (tty_ioctl cmd check cfg pgid sc t)) = (ty_screen t)\<lparr>sb_config := cf\<rparr>"
  by (rule that [of "sb_config (ty_screen (snd (tty_ioctl cmd check cfg pgid sc t)))"])
    (auto simp: tty_ioctl_def split: sum.splits)

lemma tty_write_ok:
  assumes ok: "consoles_ok c" and "i < 2" "9 \<notin> set buf"
  shows "\<exists>c'. run_tty i (\<lambda>st. sbind (tty_write buf st) (\<lambda>r. Inr (snd r))) c = Inr c' \<and> consoles_ok c' \<and> cs_active c' = cs_active c"
proof -
  let ?st = "\<lparr>x_tty = cs_ttys c ! i, x_vga = cs_vga c, x_sched = cs_sched c\<rparr>"
  have d: "disp_ok (disp_of ?st)" using consoles_disp [OF ok assms(2)] by simp
  obtain st' where "tty_puts buf ?st = Inr st'" "prints_only ?st st'" using tty_puts_prints [OF d assms(3)] by blast
  then have "\<exists>st'. sbind (tty_write buf ?st) (\<lambda>r. Inr (snd r)) = Inr st' \<and> tty_next ?st st'"
    using prints_onlyD by (auto simp: tty_write_def)
  from run_tty_ok [where f = "\<lambda>st. sbind (tty_write buf st) (\<lambda>r. Inr (snd r))", OF ok assms(2) this] show ?thesis by blast
qed

lemma console_reach_ok: "console_reach c \<Longrightarrow> consoles_ok c"
proof (induction rule: console_reach.induct)
  case (load vga sc c)
  then show ?case using console_load_ok [of sc vga] by auto
next
  case (push c dat b c')
  then show ?case using kb_push_ok [of c dat] by auto
next
  case (writes c i buf c')
  then show ?case using tty_write_ok [of c i buf] by auto
next
  case (ioctls c i cmd check cfg pgid)
  obtain cf where "ty_screen (snd (tty_ioctl cmd check cfg pgid (cs_sched c) (cs_ttys c ! i))) = (ty_screen (cs_ttys c ! i))\<lparr>sb_config := cf\<rparr>"
    by (rule tty_ioctl_screen)
  with ioctls show ?case by (intro settings_ok) simp_all
next
  case (schedules c sc)
  then show ?case by (simp add: consoles_ok_def)
qed (simp add: settings_ok)

section \<open>Editing a line\<close>

text \<open>What typing means: the erase key takes the last character of the line away, every other key adds one.\<close>

definition edit_key :: "u8 \<Rightarrow> u8 list \<Rightarrow> u8 list" where
  "edit_key k l = (if k = 0x7F then butlast l else l @ [k])"

lemma default_cc:
  "is_cc ch VINTR st \<longleftrightarrow> ch = 3" "is_cc ch VQUIT st \<longleftrightarrow> ch = 0x1C" "is_cc ch VSUSP st \<longleftrightarrow> ch = 0x1A"
  "is_cc ch VERASE st \<longleftrightarrow> ch = 0x7F" "is_cc ch VEOF st \<longleftrightarrow> ch = 4" if "cfg_of st = default_config"
  unfolding is_cc_def signed_cc that by (auto simp: default_config_def)

lemma default_flags:
  "lflag st AND ISIG \<noteq> 0" "lflag st AND ICANON \<noteq> 0" "c_iflag (cfg_of st) AND ICRNL \<noteq> 0" if "cfg_of st = default_config"
  using that by (simp_all add: default_config_def)

definition plain_key :: "u8 \<Rightarrow> bool" where
  "plain_key k \<longleftrightarrow> k \<notin> {3, 4, 9, 10, 13, 0x1A, 0x1C}"

lemma plain_key_edits:
  assumes ok: "disp_ok (disp_of st)" and cfg: "cfg_of st = default_config" and k: "plain_key k"
  shows "\<exists>st'. processKey k st = Inr st' \<and> tty_next st st' \<and> ty_line (x_tty st') = edit_key k (ty_line (x_tty st)) \<and>
    ty_input (x_tty st') = ty_input (x_tty st) \<and> x_sched st' = x_sched st"
proof -
  have "k \<noteq> 13" "k \<noteq> 9" "k \<notin> {3, 4, 10, 0x1A, 0x1C}" using k by (auto simp: plain_key_def)
  note c = default_cc [OF cfg] default_flags [OF cfg]
  have pk: "processKey k st = canonical_key k st" using \<open>k \<noteq> 13\<close> \<open>k \<notin> _\<close> by (simp add: processKey_def c del: One_nat_def)
  show ?thesis
  proof (cases "k = 0x7F")
    case True
    obtain s1 where s1: "(if lflag st AND ECHOE \<noteq> 0 then tty_puts [8, 0x20, 8] st else Inr st) = Inr s1" "prints_only st s1"
      using cond_puts [OF ok, of "[8, 0x20, 8]" "lflag st AND ECHOE \<noteq> 0"] by fastforce
    show ?thesis unfolding pk canonical_key_def Let_def s1(1) using True s1(2) prints_only_refl [OF ok]
      by (cases "ty_line (x_tty st) = []") (simp_all add: c edit_key_def prints_only_def tty_next_tty)
  next
    case False
    obtain s3 where s3: "echoChar k st = Inr s3" "prints_only st s3" using echoChar_prints [OF ok \<open>k \<noteq> 9\<close>] by blast
    show ?thesis unfolding pk canonical_key_def Let_def s3(1) using False \<open>k \<notin> _\<close> s3(2)
      by (simp add: c edit_key_def prints_only_def tty_next_tty)
  qed
qed

lemma enter_commits:
  assumes ok: "disp_ok (disp_of st)" and cfg: "cfg_of st = default_config"
  shows "\<exists>st'. processKey 13 st = Inr st' \<and> tty_next st st' \<and> ty_line (x_tty st') = [] \<and>
    ty_input (x_tty st') = ty_input (x_tty st) @ ty_line (x_tty st) @ [10] \<and> x_sched st' = x_sched st"
proof -
  note c = default_cc [OF cfg] default_flags [OF cfg]
  obtain s2 where s2: "(if lflag st AND (ECHO OR ECHONL) \<noteq> 0 then tty_puts [10] st else Inr st) = Inr s2" "prints_only st s2"
    using cond_puts [OF ok, of "[10]" "lflag st AND (ECHO OR ECHONL) \<noteq> 0"] by fastforce
  have pk: "processKey 13 st = canonical_key 10 st" by (simp add: processKey_def c del: One_nat_def)
  show ?thesis unfolding pk canonical_key_def Let_def s2(1) using s2(2) by (simp add: c prints_only_def tty_next_tty)
qed

lemma keys_edit:
  "disp_ok (disp_of st) \<Longrightarrow> cfg_of st = default_config \<Longrightarrow> \<forall>k\<in>set keys. plain_key k \<Longrightarrow>
    \<exists>st'. process_keys keys st = Inr st' \<and> tty_next st st' \<and> ty_line (x_tty st') = fold edit_key keys (ty_line (x_tty st)) \<and>
      ty_input (x_tty st') = ty_input (x_tty st) \<and> x_sched st' = x_sched st"
proof (induction keys arbitrary: st)
  case Nil
  then show ?case by (simp add: tty_next_refl)
next
  case (Cons k keys)
  obtain s1 where s1: "processKey k st = Inr s1" "tty_next st s1" "ty_line (x_tty s1) = edit_key k (ty_line (x_tty st))"
    "ty_input (x_tty s1) = ty_input (x_tty st)" "x_sched s1 = x_sched st"
    using plain_key_edits [OF Cons.prems(1,2)] Cons.prems(3) by auto
  have "cfg_of s1 = default_config" using s1(2) Cons.prems(2) by (simp add: tty_next_def)
  from Cons.IH [OF tty_next_ok [OF s1(2)] this] Cons.prems(3) obtain s2 where "process_keys keys s1 = Inr s2" "tty_next s1 s2"
    "ty_line (x_tty s2) = fold edit_key keys (ty_line (x_tty s1))" "ty_input (x_tty s2) = ty_input (x_tty s1)" "x_sched s2 = x_sched s1" by auto
  with s1 tty_next_trans [OF s1(2)] show ?case by auto
qed

section \<open>Signals from the keyboard\<close>

lemma wake_signal [simp]: "t_signal (sc_tcb (wake u r st) t) = t_signal (sc_tcb st t)"
  by (auto simp: wake_def Let_def detach_task_def upd_tcb_def split: detach.split)

lemma sendSignal_signal:
  "t_signal (sc_tcb (sendSignal u sig st) t) = (if t = u \<and> state_of st u \<noteq> S_Exited
    then (t_signal (sc_tcb st t))\<lparr>si_pending := si_pending (t_signal (sc_tcb st t)) OR sig_bit sig\<rparr> else t_signal (sc_tcb st t))"
  by (auto simp: sendSignal_def Let_def upd_tcb_def)

lemma sendSignal_exited: "state_of (sendSignal u sig st) t = S_Exited \<longleftrightarrow> state_of st t = S_Exited"
  by (auto simp: sendSignal_def Let_def upd_tcb_def wake_def detach_task_def split: detach.split)

lemma send_group_signal:
  "si_pending (t_signal (sc_tcb (send_group us sig st) t)) = (if t \<in> set us \<and> state_of st t \<noteq> S_Exited
    then si_pending (t_signal (sc_tcb st t)) OR sig_bit sig else si_pending (t_signal (sc_tcb st t)))"
proof (induction us arbitrary: st)
  case (Cons u us)
  have "send_group (u # us) sig st = send_group us sig (sendSignal u sig st)" by (simp add: send_group_def)
  then show ?case by (simp add: Cons.IH sendSignal_signal sendSignal_exited or.assoc) auto
qed (simp add: send_group_def)

lemma merge_ctrl_c:
  assumes "fl < 8" "fl AND F_Ctrl \<noteq> 0"
  shows "kb_merge 0x2E fl = Inr (\<lparr>m_code = 0x2E, m_key = 0x2E, m_flag = fl, m_ch = 3\<rparr>, fl)"
proof -
  have "length SC_to_char = 170" "SC_to_char ! 92 = 0x63" "SC_to_char ! 93 = 0x43" by (simp_all add: SC_to_char_def)
  then have "\<exists>ch. scan_char 0x2E fl = Inr ch \<and> ctrl_char ch = 3" by (auto simp: scan_char_def Let_def ctrl_char_def)
  then show ?thesis using assms by (auto simp: kb_merge_def Let_def modifier_def scan_codes)
qed

lemma interrupt_key:
  assumes ok: "disp_ok (disp_of st)" and cfg: "cfg_of st = default_config"
  shows "\<exists>st'. processKey 3 st = Inr st' \<and> tty_next st st' \<and> ty_line (x_tty st') = [] \<and> ty_input (x_tty st') = ty_input (x_tty st) \<and>
    x_sched st' = snd (kill (- ty_fg (x_tty st)) (int SIGINT) (x_sched st))"
proof -
  note c = default_cc [OF cfg] default_flags [OF cfg]
  obtain s1 where s1: "echoCtrl 3 st = Inr s1" "prints_only st s1" using echoCtrl_prints [OF ok, of 3] by auto
  have "processKey 3 st = signal_key 3 SIGINT st" by (simp add: processKey_def c)
  then show ?thesis using s1 by (simp add: signal_key_def prints_only_def tty_next_upd)
qed

lemma wakeOne_signal [simp]: "t_signal (sc_tcb (snd (wl_wakeOne wl r st)) t) = t_signal (sc_tcb st t)"
  by (auto simp: wl_wakeOne_def upd_tcb_def split: list.split)

lemma kill_group:
  assumes "1 < g" "findTaskGroup g st = Inr ts"
  shows "snd (kill (- g) (int SIGINT) st) = send_group ts SIGINT st"
  using assms by (simp add: kill_def NSIG_def)

section \<open>Properties\<close>

text \<open>C27: from the moment the terminals are loaded, whatever the keyboard sends (tabulators apart) and programs print and set,
  exactly one terminal is the active one, the adapter shows exactly its screen, no byte of the keyboard takes the kernel out of
  its tables and buffers, and the active terminal changes only when F1 or F2 goes down while Ctrl and Alt are held.\<close>

theorem one_terminal_shown:
  assumes "console_reach c" "\<not> tab_byte dat c"
  shows "\<exists>b c'. kb_push dat c = Inr (b, c') \<and> cs_active c' = (if switch_byte dat c then unat (dat - 0x3B) else cs_active c) \<and>
    (\<forall>i<2. sb_active (ty_screen (cs_ttys c' ! i)) \<longleftrightarrow> i = cs_active c') \<and>
    cs_vga c' = sb_buffer (ty_screen (cs_ttys c' ! cs_active c'))"
proof -
  obtain b c' where "kb_push dat c = Inr (b, c')" "consoles_ok c'" "cs_active c' = (if switch_byte dat c then unat (dat - 0x3B) else cs_active c)"
    using kb_push_ok [OF console_reach_ok [OF assms(1)] assms(2)] by blast
  then show ?thesis by (intro exI [of _ b] exI [of _ c']) (simp add: consoles_ok_def)
qed

theorem one_terminal_shown_witness:
  "\<forall>sc. \<exists>c b c'. console_load sc (replicate (vga_width * vga_height) (0, 0)) = Inr c \<and> kb_push 0x1E c = Inr (b, c') \<and> cs_active c' = 0"
proof
  fix sc
  obtain c where c: "console_load sc (replicate (vga_width * vga_height) (0, 0)) = Inr c" "cs_active c = 0"
    using console_load_ok by blast
  have "console_reach c" by (rule console_reach.load [OF _ c(1)]) simp
  moreover have "\<not> tab_byte 0x1E c" "\<not> switch_byte 0x1E c" by (simp_all add: tab_byte_def switch_byte_def)
  ultimately show "\<exists>c b c'. console_load sc (replicate (vga_width * vga_height) (0, 0)) = Inr c \<and> kb_push 0x1E c = Inr (b, c') \<and> cs_active c' = 0"
    using one_terminal_shown [of c "0x1E"] c by auto
qed

section \<open>From the keyboard to the reader\<close>

text \<open>What typing means, without Ctrl and Alt: the Shift keys, and for every other key the character of the table, if it has one.\<close>

definition shift_after :: "u8 \<Rightarrow> u8 \<Rightarrow> u8" where
  "shift_after fl b = (if b \<in> {0x2A, 0x36} then F_Shift else if b \<in> {0xAA, 0xB6} then 0 else fl)"

definition key_chars :: "u8 \<Rightarrow> u8 \<Rightarrow> u8 list" where
  "key_chars fl b = (if 85 \<le> b then [] else filter (\<lambda>ch. ch \<noteq> 0) [SC_to_char ! (2 * unat b + (if fl = F_Shift then 1 else 0))])"

fun typed :: "u8 \<Rightarrow> u8 list \<Rightarrow> u8 list" where
  "typed fl [] = []"
| "typed fl (b # bs) = key_chars fl b @ typed (shift_after fl b) bs"

text \<open>All bytes of the keyboard but the prefix of the second set, Enter, Tab, Ctrl, Alt and the keys F1 to F4.\<close>

definition typing_byte :: "u8 \<Rightarrow> bool" where
  "typing_byte b \<longleftrightarrow> b \<notin> {0xE0, 0x1C, 0x0F, 0x1D, 0x38, 0x3B, 0x3C, 0x3D, 0x3E}"

fun push_all :: "u8 list \<Rightarrow> consoles \<Rightarrow> consoles exec" where
  "push_all [] c = Inr c"
| "push_all (b # bs) c = sbind (kb_push b c) (\<lambda>r. push_all bs (snd r))"

text \<open>The characters a message gives a terminal.\<close>

definition input_keys :: "message \<Rightarrow> u8 list" where
  "input_keys msg = (if m_flag msg AND F_Release \<noteq> 0 \<or>
      m_code msg \<in> {SC_LCTRL, SC_RCTRL, SC_LSHIFT, SC_RSHIFT, SC_LALT, SC_RALT, SC_CAPLOCKS, SC_NUMLOCK, SC_SCROLLLOCK} then [] else translateMsg msg)"

lemma tty_input_keys: "tty_input i msg st = (if input_keys msg = [] then Inr st else
    sbind (process_keys (input_keys msg) st) (\<lambda>st. Inr (st\<lparr>x_sched := snd (wl_wakeOne (WL_Device i) WR_Normal (x_sched st))\<rparr>)))"
  by (simp add: tty_input_def input_keys_def Let_def)

definition merges_to :: "u8 \<Rightarrow> u8 \<Rightarrow> u8 list \<Rightarrow> bool" where
  "merges_to fl b keys \<longleftrightarrow> (case kb_merge (ucast b) fl of Inl _ \<Rightarrow> False
    | Inr (msg, fl') \<Rightarrow> fl' = shift_after fl b \<and> input_keys msg = keys \<and> m_flag msg AND F_Ctrl = 0)"

lemma byte_scan:
  fixes b :: u8
  defines "s \<equiv> ucast b :: u16"
  shows "s AND F_Release \<noteq> 0 \<longleftrightarrow> 0x80 \<le> b" "unat s = unat b" "unat (plain_scan s) = (if 0x80 \<le> b then unat b - 128 else unat b)"
proof -
  have "list_all (\<lambda>b :: u8. (ucast b :: u16) AND F_Release \<noteq> 0 \<longleftrightarrow> 0x80 \<le> b) (map of_nat [0..<256])" by code_simp
  from byte_all [OF this, of b] show r: "s AND F_Release \<noteq> 0 \<longleftrightarrow> 0x80 \<le> b" by (simp add: s_def)
  show u: "unat s = unat b" using unsigned_less [of b, where ?'a = nat] by (simp add: s_def unsigned_ucast_eq take_bit_nat_eq_self)
  have "0x80 \<le> b \<Longrightarrow> (0x80 :: u16) \<le> s" using u by (simp add: word_le_nat_alt)
  then show "unat (plain_scan s) = (if 0x80 \<le> b then unat b - 128 else unat b)" using r u by (simp add: plain_scan_def unat_sub)
qed

lemma typing_scan:
  fixes b :: u8
  defines "s \<equiv> ucast b :: u16"
  assumes b: "typing_byte b \<or> b = 0x1C" and fl: "fl = 0 \<or> fl = F_Shift"
  shows "drop_bit 8 s \<noteq> 0xE0"
    "(if modifier (plain_scan s) = 0 then fl else if s AND F_Release \<noteq> 0 then fl AND NOT (modifier (plain_scan s)) else fl OR modifier (plain_scan s)) = shift_after fl b"
    "s \<notin> {SC_UP, SC_DOWN, SC_LEFT, SC_RIGHT, SC_HOME, SC_END, SC_DELETE, SC_INSERT, SC_PAGEUP, SC_PAGEDOWN, SC_F1, SC_F2, SC_F3, SC_F4}"
    "s \<in> {SC_LCTRL, SC_RCTRL, SC_LSHIFT, SC_RSHIFT, SC_LALT, SC_RALT, SC_CAPLOCKS, SC_NUMLOCK, SC_SCROLLLOCK} \<Longrightarrow> unat b \<in> {0x2A, 0x36, 0x3A, 0x45, 0x46}"
proof -
  note S = byte_scan [of b, folded s_def]
  have lt: "unat b < 256" using unsigned_less [of b] by simp
  have nb: "unat b \<notin> {0xE0, 0x0F, 0x1D, 0x38, 0x3B, 0x3C, 0x3D, 0x3E}" using b by (auto simp: typing_byte_def word_unat_eq_iff)
  have eq: "x = y \<longleftrightarrow> unat x = unat y" for x y :: u16 by (rule word_unat_eq_iff)
  show "drop_bit 8 s \<noteq> 0xE0" using S(2) lt by (simp add: eq drop_bit_eq_div unat_div_distrib)
  show "s \<notin> {SC_UP, SC_DOWN, SC_LEFT, SC_RIGHT, SC_HOME, SC_END, SC_DELETE, SC_INSERT, SC_PAGEUP, SC_PAGEDOWN, SC_F1, SC_F2, SC_F3, SC_F4}"
    using nb lt S(2) unfolding insert_iff eq scan_codes by auto
  show "s \<in> {SC_LCTRL, SC_RCTRL, SC_LSHIFT, SC_RSHIFT, SC_LALT, SC_RALT, SC_CAPLOCKS, SC_NUMLOCK, SC_SCROLLLOCK} \<Longrightarrow> unat b \<in> {0x2A, 0x36, 0x3A, 0x45, 0x46}"
    using nb lt S(2) unfolding insert_iff eq scan_codes by auto
  have md: "modifier (plain_scan s) = (if unat b \<in> {0x2A, 0x36, 0xAA, 0xB6} then F_Shift else if unat b = 0x9D then F_Ctrl else if unat b = 0xB8 then F_Alt else 0)"
    using nb lt S(3) unfolding modifier_def eq scan_codes by (auto simp: word_le_nat_alt)
  have "shift_after fl b = (if unat b \<in> {0x2A, 0x36} then F_Shift else if unat b \<in> {0xAA, 0xB6} then 0 else fl)"
    by (simp add: shift_after_def word_unat_eq_iff)
  then show "(if modifier (plain_scan s) = 0 then fl else if s AND F_Release \<noteq> 0 then fl AND NOT (modifier (plain_scan s)) else fl OR modifier (plain_scan s)) = shift_after fl b"
    using fl unfolding S(1) md by (auto simp: word_le_nat_alt)
qed

lemma table_chars:
  "i div 2 \<in> {0x2A, 0x36, 0x3A, 0x45, 0x46} \<Longrightarrow> i < 170 \<Longrightarrow> SC_to_char ! i = 0"
  "i div 2 \<noteq> 0x1C \<Longrightarrow> i div 2 \<noteq> 0x0F \<Longrightarrow> i < 170 \<Longrightarrow> plain_key (SC_to_char ! i)"
  "SC_to_char ! 56 = 13" "SC_to_char ! 57 = 13" "length SC_to_char = 170"
proof -
  have t: "list_all (\<lambda>i. (i div 2 \<in> {0x2A, 0x36, 0x3A, 0x45, 0x46} \<longrightarrow> SC_to_char ! i = 0) \<and>
      (i div 2 \<noteq> 0x1C \<longrightarrow> i div 2 \<noteq> 0x0F \<longrightarrow> plain_key (SC_to_char ! i))) [0..<170]" unfolding SC_to_char_def by code_simp
  show "i div 2 \<in> {0x2A, 0x36, 0x3A, 0x45, 0x46} \<Longrightarrow> i < 170 \<Longrightarrow> SC_to_char ! i = 0" using t unfolding list_all_iff by (simp del: insert_iff)
  show "i div 2 \<noteq> 0x1C \<Longrightarrow> i div 2 \<noteq> 0x0F \<Longrightarrow> i < 170 \<Longrightarrow> plain_key (SC_to_char ! i)" using t unfolding list_all_iff by simp
  show "SC_to_char ! 56 = 13" "SC_to_char ! 57 = 13" "length SC_to_char = 170" by (simp_all add: SC_to_char_def)
qed

lemma byte_merges:
  assumes fl: "fl = 0 \<or> fl = F_Shift" and b: "typing_byte b \<or> b = 0x1C"
  shows "merges_to fl b (key_chars fl b)"
proof -
  let ?s = "ucast b :: u16"
  note S = typing_scan [OF b fl] and B = byte_scan [of b]
  obtain ch where ch: "scan_char (plain_scan ?s) fl = Inr ch" using scan_char_total by blast
  let ?msg = "\<lparr>m_code = ?s, m_key = ?s AND NOT F_Release, m_flag = (if ?s AND F_Release \<noteq> 0 then F_Release else 0) OR shift_after fl b, m_ch = ch\<rparr>"
  have cf: "fl AND F_Ctrl = 0" "shift_after fl b AND F_Ctrl = 0" "shift_after fl b AND F_Release = 0" "shift_after fl b AND F_Alt = 0"
    "(F_Release OR shift_after fl b) AND F_Ctrl = 0" "(F_Release OR shift_after fl b) AND F_Release \<noteq> 0"
    using fl by (auto simp: shift_after_def)
  have k: "kb_merge ?s fl = Inr (?msg, shift_after fl b)"
    using ch S(2) cf(1) by (simp add: kb_merge_def Let_def plain_scan_def cong: if_cong)
  have "input_keys ?msg = key_chars fl b"
  proof (cases "0x80 \<le> b")
    case True
    then have "85 \<le> b" by (auto simp: word_le_nat_alt)
    then show ?thesis using True B(1) cf(6) by (simp add: input_keys_def key_chars_def)
  next
    case False
    then have r: "?s AND F_Release = 0" using B(1) by blast
    have pos: "unat ?s = unat b" by (rule B(2))
    have ch': "ch = (if b < 85 then SC_to_char ! (2 * unat b + (if fl = F_Shift then 1 else 0)) else 0)"
      using ch S(1) fl pos table_chars(5) by (auto simp: plain_scan_id [OF r] scan_char_def Let_def word_less_nat_alt split: if_splits)
    have mods: "ch = 0" if "?s \<in> {SC_LCTRL, SC_RCTRL, SC_LSHIFT, SC_RSHIFT, SC_LALT, SC_RALT, SC_CAPLOCKS, SC_NUMLOCK, SC_SCROLLLOCK}"
      using S(4) [OF that] table_chars(1) [of "2 * unat b + (if fl = F_Shift then 1 else 0)"] by (auto simp: ch')
    have "translateMsg ?msg = (if ch = 0 then [] else [ch])" using S(3) cf(4) r by (simp add: translateMsg_def Let_def)
    then have "input_keys ?msg = (if ch = 0 then [] else [ch])" using mods r cf(3) by (auto simp: input_keys_def)
    then show ?thesis by (auto simp: key_chars_def ch' not_less)
  qed
  then show ?thesis using k cf by (auto simp: merges_to_def)
qed

lemma typing_merges:
  assumes "fl = 0 \<or> fl = F_Shift" "typing_byte b"
  shows "merges_to fl b (key_chars fl b)" "\<forall>k\<in>set (key_chars fl b). plain_key k"
proof -
  show "merges_to fl b (key_chars fl b)" using byte_merges assms by blast
  have "unat b \<noteq> 0x1C" "unat b \<noteq> 0x0F" using assms(2) by (auto simp: typing_byte_def word_unat_eq_iff)
  then show "\<forall>k\<in>set (key_chars fl b). plain_key k"
    using table_chars(2) [of "2 * unat b + (if fl = F_Shift then 1 else 0)"] by (auto simp: key_chars_def word_le_nat_alt not_le)
qed

lemma enter_merges: "fl = 0 \<or> fl = F_Shift \<Longrightarrow> merges_to fl 0x1C [13]"
  using byte_merges [of fl "0x1C"] table_chars(3,4) by (auto simp: key_chars_def)

primrec wakes :: "nat \<Rightarrow> nat \<Rightarrow> sched \<Rightarrow> sched" where
  "wakes i 0 s = s"
| "wakes i (Suc n) s = wakes i n (snd (wl_wakeOne (WL_Device i) WR_Normal s))"

lemma wakeOne_law:
  "sc_waits (snd (wl_wakeOne wl r s)) wl = tl (sc_waits s wl)"
    "t_state (sc_tcb s t) \<noteq> S_Blocked \<or> sc_waits s wl = t # ts \<Longrightarrow> t_state (sc_tcb (snd (wl_wakeOne wl r s)) t) \<noteq> S_Blocked"
  by (auto simp: wl_wakeOne_def wake_def Let_def detach_task_def upd_tcb_def split: list.split)

lemma wakes_waits: "sc_waits (wakes i n s) (WL_Device i) = drop n (sc_waits s (WL_Device i))"
  by (induction n arbitrary: s) (simp_all add: wakeOne_law(1) drop_Suc)

lemma wakes_awake:
  "t_state (sc_tcb s t) \<noteq> S_Blocked \<or> t \<in> set (take n (sc_waits s (WL_Device i))) \<Longrightarrow> t_state (sc_tcb (wakes i n s) t) \<noteq> S_Blocked"
proof (induction n arbitrary: s)
  case (Suc n)
  let ?s = "snd (wl_wakeOne (WL_Device i) WR_Normal s)"
  have "t_state (sc_tcb ?s t) \<noteq> S_Blocked \<or> t \<in> set (take n (sc_waits ?s (WL_Device i)))"
    using Suc.prems wakeOne_law(2) [of s t "WL_Device i"] by (cases "sc_waits s (WL_Device i)") (auto simp: wakeOne_law(1))
  from Suc.IH [OF this] show ?case by simp
qed simp

lemma wakes_add: "wakes i n (wakes i m s) = wakes i (m + n) s"
  by (induction m arbitrary: s) simp_all

text \<open>The terminal in front, in its default mode, with no key but Shift held.\<close>

definition typing_state :: "consoles \<Rightarrow> bool" where
  "typing_state c \<longleftrightarrow> consoles_ok c \<and> \<not> cs_prefix c \<and> (cs_flags c = 0 \<or> cs_flags c = F_Shift) \<and>
    sb_config (ty_screen (cs_ttys c ! cs_active c)) = default_config"

abbreviation front :: "consoles \<Rightarrow> tty" where
  "front c \<equiv> cs_ttys c ! cs_active c"

lemma push_keys:
  assumes ty: "typing_state c" and m: "merges_to (cs_flags c) b keys" and b: "b \<noteq> 0xE0" "\<not> tab_byte b c"
    and run: "\<And>st. disp_ok (disp_of st) \<Longrightarrow> cfg_of st = default_config \<Longrightarrow> \<exists>st'. process_keys keys st = Inr st' \<and> tty_next st st' \<and>
      ty_line (x_tty st') = L (x_tty st) \<and> ty_input (x_tty st') = I (x_tty st) \<and> x_sched st' = x_sched st"
    and none: "keys = [] \<Longrightarrow> L = ty_line \<and> I = ty_input"
  shows "\<exists>c'. kb_push b c = Inr (True, c') \<and> typing_state c' \<and> cs_active c' = cs_active c \<and> cs_flags c' = shift_after (cs_flags c) b \<and>
    ty_line (front c') = L (front c) \<and> ty_input (front c') = I (front c) \<and>
    cs_sched c' = wakes (cs_active c) (if keys = [] then 0 else 1) (cs_sched c)"
proof -
  note t = ty [unfolded typing_state_def]
  obtain msg where msg: "kb_merge (ucast b) (cs_flags c) = Inr (msg, shift_after (cs_flags c) b)" "input_keys msg = keys" "m_flag msg AND F_Ctrl = 0"
    using m by (auto simp: merges_to_def split: sum.splits)
  let ?i = "cs_active c"
  let ?c = "c\<lparr>cs_flags := shift_after (cs_flags c) b, cs_prefix := False\<rparr>"
  let ?st = "\<lparr>x_tty = front c, x_vga = cs_vga c, x_sched = cs_sched c\<rparr>"
  have i: "?i < 2" "?i < length (cs_ttys c)" using t by (auto simp: consoles_ok_def)
  have d: "disp_ok (disp_of ?st)" using consoles_disp [OF _ i(1)] t by simp
  obtain st' where st': "process_keys keys ?st = Inr st'" "tty_next ?st st'" "ty_line (x_tty st') = L (front c)" "ty_input (x_tty st') = I (front c)"
    "x_sched st' = cs_sched c" using run [OF d] t by auto
  let ?s = "if keys = [] then ?st else st'\<lparr>x_sched := snd (wl_wakeOne (WL_Device ?i) WR_Normal (x_sched st'))\<rparr>"
  have ti: "tty_input ?i msg ?st = Inr ?s" using st'(1) by (simp add: tty_input_keys msg(2))
  let ?c' = "?c\<lparr>cs_ttys := (cs_ttys c)[?i := x_tty ?s], cs_vga := x_vga ?s, cs_sched := x_sched ?s\<rparr>"
  have push: "kb_push b c = Inr (True, ?c')"
    using t b(1) msg ti i(2) by (simp add: kb_push_def kb_handle_def handleInput_def run_tty_def)
  have ok: "consoles_ok ?c'" using kb_push_ok [of c b] b(2) push t by auto
  have cfg: "sb_config (ty_screen (x_tty ?s)) = default_config" using st'(2) t by (auto simp: tty_next_def)
  have "shift_after (cs_flags c) b = 0 \<or> shift_after (cs_flags c) b = F_Shift" using t by (auto simp: shift_after_def)
  with ok cfg i(2) have "typing_state ?c'" by (simp add: typing_state_def)
  moreover have "ty_line (x_tty ?s) = L (front c)" "ty_input (x_tty ?s) = I (front c)" using st'(3,4) none by auto
  moreover have "x_sched ?s = wakes ?i (if keys = [] then 0 else 1) (cs_sched c)" using st'(5) by simp
  ultimately show ?thesis using push i(2) by (intro exI [of _ ?c']) simp
qed

lemma push_typing:
  assumes ty: "typing_state c" and b: "typing_byte b"
  shows "\<exists>c'. kb_push b c = Inr (True, c') \<and> typing_state c' \<and> cs_active c' = cs_active c \<and> cs_flags c' = shift_after (cs_flags c) b \<and>
    ty_line (front c') = fold edit_key (key_chars (cs_flags c) b) (ty_line (front c)) \<and> ty_input (front c') = ty_input (front c) \<and>
    cs_sched c' = wakes (cs_active c) (length (key_chars (cs_flags c) b)) (cs_sched c)"
proof -
  let ?k = "key_chars (cs_flags c) b"
  have fl: "cs_flags c = 0 \<or> cs_flags c = F_Shift" using ty by (simp add: typing_state_def)
  note M = typing_merges [OF fl b]
  have "\<not> tab_byte b c" using b fl by (auto simp: tab_byte_def typing_byte_def)
  moreover have "b \<noteq> 0xE0" using b by (simp add: typing_byte_def)
  ultimately have "\<exists>c'. kb_push b c = Inr (True, c') \<and> typing_state c' \<and> cs_active c' = cs_active c \<and> cs_flags c' = shift_after (cs_flags c) b \<and>
    ty_line (front c') = fold edit_key ?k (ty_line (front c)) \<and> ty_input (front c') = ty_input (front c) \<and>
    cs_sched c' = wakes (cs_active c) (if ?k = [] then 0 else 1) (cs_sched c)"
    by (intro push_keys [where L = "\<lambda>t. fold edit_key ?k (ty_line t)" and I = ty_input, OF ty M(1)]) (use keys_edit [OF _ _ M(2)] in auto)
  moreover have "length ?k \<le> 1" by (simp add: key_chars_def)
  then have "(if ?k = [] then 0 else 1) = length ?k" by (cases ?k) auto
  ultimately show ?thesis by simp
qed

lemma push_typing_all:
  "typing_state c \<Longrightarrow> \<forall>b\<in>set bs. typing_byte b \<Longrightarrow> \<exists>c'. push_all bs c = Inr c' \<and> typing_state c' \<and> cs_active c' = cs_active c \<and>
    ty_line (front c') = fold edit_key (typed (cs_flags c) bs) (ty_line (front c)) \<and> ty_input (front c') = ty_input (front c) \<and>
    cs_sched c' = wakes (cs_active c) (length (typed (cs_flags c) bs)) (cs_sched c)"
proof (induction bs arbitrary: c)
  case Nil
  then show ?case by simp
next
  case (Cons b bs)
  obtain c1 where c1: "kb_push b c = Inr (True, c1)" "typing_state c1" "cs_active c1 = cs_active c" "cs_flags c1 = shift_after (cs_flags c) b"
    "ty_line (front c1) = fold edit_key (key_chars (cs_flags c) b) (ty_line (front c))" "ty_input (front c1) = ty_input (front c)"
    "cs_sched c1 = wakes (cs_active c) (length (key_chars (cs_flags c) b)) (cs_sched c)"
    using push_typing [OF Cons.prems(1), of b] Cons.prems(2) unfolding list.set ball_simps by blast
  have "\<forall>b\<in>set bs. typing_byte b" using Cons.prems(2) by simp
  from Cons.IH [OF c1(2) this] obtain c2 where "push_all bs c1 = Inr c2" "typing_state c2" "cs_active c2 = cs_active c1"
    "ty_line (front c2) = fold edit_key (typed (cs_flags c1) bs) (ty_line (front c1))" "ty_input (front c2) = ty_input (front c1)"
    "cs_sched c2 = wakes (cs_active c1) (length (typed (cs_flags c1) bs)) (cs_sched c1)" by blast
  then show ?case using c1 by (intro exI [of _ c2]) (simp add: wakes_add)
qed

lemma push_all_append: "push_all (a @ b) c = sbind (push_all a c) (push_all b)"
  by (induction a arbitrary: c) (auto simp: sbind_def split: sum.splits)

text \<open>C28: a line typed on the keyboard reaches the program as it was edited. From any state of the terminals in which the one in front is in the default mode, no prefix is
  outstanding and no key but Shift is held, let the keyboard send any bytes but those of Tab, Ctrl, Alt, F1 to F4 and the second set, and then Enter, with nothing else happening between them. Every key adds its character
  of the table, upper or lower as Shift is held, the erase key takes one away, and with Enter the edited line and a line feed follow what was there
  to be read; a reader then gets it from the start, as much as it asks for, and the rest stays. For each character one of the tasks waiting for the terminal is woken, in
  their order.\<close>

theorem line_editing:
  assumes reach: "console_reach c" and mode: "\<not> cs_prefix c" "cs_flags c = 0 \<or> cs_flags c = F_Shift" "sb_config (ty_screen (front c)) = default_config"
    and bytes: "\<forall>b\<in>set bs. typing_byte b"
  defines "keys \<equiv> typed (cs_flags c) bs" and "waiting \<equiv> sc_waits (cs_sched c) (WL_Device (cs_active c))"
  defines "got \<equiv> ty_input (front c) @ fold edit_key keys (ty_line (front c)) @ [10]"
  shows "\<exists>c'. push_all (bs @ [0x1C]) c = Inr c' \<and> cs_active c' = cs_active c \<and> ty_line (front c') = [] \<and>
    tty_read WR_Normal n (front c') = (Return (Inr (take n got)), (front c')\<lparr>ty_input := drop n got\<rparr>) \<and>
    sc_waits (cs_sched c') (WL_Device (cs_active c)) = drop (length keys + 1) waiting \<and>
    (\<forall>t\<in>set (take (length keys + 1) waiting). t_state (sc_tcb (cs_sched c') t) \<noteq> S_Blocked)"
proof -
  have ty: "typing_state c" using console_reach_ok [OF reach] mode by (simp add: typing_state_def)
  obtain c1 where c1: "push_all bs c = Inr c1" "typing_state c1" "cs_active c1 = cs_active c" "ty_line (front c1) = fold edit_key keys (ty_line (front c))"
    "ty_input (front c1) = ty_input (front c)" "cs_sched c1 = wakes (cs_active c) (length keys) (cs_sched c)"
    using push_typing_all [OF ty bytes] unfolding keys_def by blast
  have fl: "cs_flags c1 = 0 \<or> cs_flags c1 = F_Shift" using c1(2) by (simp add: typing_state_def)
  have enter: "\<exists>st'. process_keys [13] st = Inr st' \<and> tty_next st st' \<and> ty_line (x_tty st') = [] \<and>
      ty_input (x_tty st') = ty_input (x_tty st) @ ty_line (x_tty st) @ [10] \<and> x_sched st' = x_sched st"
    if "disp_ok (disp_of st)" "cfg_of st = default_config" for st using enter_commits [OF that] by auto
  have "\<exists>c2. kb_push 0x1C c1 = Inr (True, c2) \<and> typing_state c2 \<and> cs_active c2 = cs_active c1 \<and> cs_flags c2 = shift_after (cs_flags c1) 0x1C \<and>
    ty_line (front c2) = [] \<and> ty_input (front c2) = ty_input (front c1) @ ty_line (front c1) @ [10] \<and>
    cs_sched c2 = wakes (cs_active c1) (if [13 :: u8] = [] then 0 else 1) (cs_sched c1)"
    by (intro push_keys [where L = "\<lambda>_. []" and I = "\<lambda>t. ty_input t @ ty_line t @ [10]", OF c1(2) enter_merges [OF fl]])
      (use enter in \<open>auto simp: tab_byte_def\<close>)
  then obtain c2 where c2: "kb_push 0x1C c1 = Inr (True, c2)" "cs_active c2 = cs_active c" "ty_line (front c2) = []" "ty_input (front c2) = got"
    "cs_sched c2 = wakes (cs_active c) (length keys + 1) (cs_sched c)" using c1(3-6) by (auto simp: got_def wakes_add)
  have "push_all (bs @ [0x1C]) c = Inr c2" using c1(1) c2(1) by (simp add: push_all_append)
  moreover have "got \<noteq> []" by (simp add: got_def)
  then have "tty_read WR_Normal n (front c2) = (Return (Inr (take n got)), (front c2)\<lparr>ty_input := drop n got\<rparr>)" using c2(4) by (simp add: tty_read_def)
  ultimately show ?thesis using c2(2,3) wakes_waits [of "cs_active c" "length keys + 1" "cs_sched c"] wakes_awake [of "cs_sched c" _ "length keys + 1" "cs_active c"] unfolding c2(5) [symmetric] waiting_def by blast
qed

theorem line_editing_witness:
  "\<forall>sc. \<exists>c c'. console_load sc (replicate (vga_width * vga_height) (0, 0)) = Inr c \<and>
    push_all ([0x26, 0xA6, 0x2D, 0x0E, 0x2A, 0x1F, 0xAA] @ [0x1C]) c = Inr c' \<and> fst (tty_read WR_Normal 80 (front c')) = Return (Inr [0x6C, 0x53, 10])"
proof
  fix sc
  obtain a t where l: "screen_ok (ty_screen t)" "\<not> sb_active (ty_screen t)" "a = t\<lparr>ty_screen := (ty_screen t)\<lparr>sb_active := True\<rparr>\<rparr>"
    "sb_config (ty_screen t) = default_config" "ty_line t = []" "ty_input t = []"
    "\<And>sc vga. console_load sc vga = Inr \<lparr>cs_ttys = [a, t], cs_active = 0, cs_vga = sb_buffer (ty_screen t), cs_flags = 0, cs_prefix = False, cs_sched = sc\<rparr>"
    by (rule console_load_eq) blast
  let ?c = "\<lparr>cs_ttys = [a, t], cs_active = 0, cs_vga = sb_buffer (ty_screen t), cs_flags = 0, cs_prefix = False, cs_sched = sc\<rparr>"
  have "console_reach ?c" using console_reach.load [of "replicate (vga_width * vga_height) (0, 0)"] l(7) by simp
  moreover have "typed 0 [0x26, 0xA6, 0x2D, 0x0E, 0x2A, 0x1F, 0xAA] = [0x6C, 0x78, 0x7F, 0x53]" by code_simp
  ultimately show "\<exists>c c'. console_load sc (replicate (vga_width * vga_height) (0, 0)) = Inr c \<and>
      push_all ([0x26, 0xA6, 0x2D, 0x0E, 0x2A, 0x1F, 0xAA] @ [0x1C]) c = Inr c' \<and> fst (tty_read WR_Normal 80 (front c')) = Return (Inr [0x6C, 0x53, 10])"
    using line_editing [of ?c "[0x26, 0xA6, 0x2D, 0x0E, 0x2A, 0x1F, 0xAA]" 80] l(3-6) unfolding l(7) by (auto simp: typing_byte_def edit_key_def)
qed

text \<open>C29: Ctrl-C on the keyboard interrupts exactly the foreground group. With Ctrl held, the byte of the C key marks the signal
  pending in every task of the group of the active terminal that has not ended and in no other task; the typed line is
  dropped and what a reader can already take stays.\<close>

theorem control_c_interrupts_group:
  assumes "console_reach c" "\<not> cs_prefix c" "cs_flags c AND F_Ctrl \<noteq> 0" "cs_flags c AND F_Alt = 0"
    "sb_config (ty_screen (cs_ttys c ! cs_active c)) = default_config"
    "1 < ty_fg (cs_ttys c ! cs_active c)" "findTaskGroup (ty_fg (cs_ttys c ! cs_active c)) (cs_sched c) = Inr ts"
  shows "\<exists>c'. kb_push 0x2E c = Inr (True, c') \<and> ty_line (cs_ttys c' ! cs_active c) = [] \<and>
    ty_input (cs_ttys c' ! cs_active c) = ty_input (cs_ttys c ! cs_active c) \<and>
    (\<forall>t. si_pending (t_signal (sc_tcb (cs_sched c') t)) = (if t \<in> set ts \<and> t_state (sc_tcb (cs_sched c) t) \<noteq> S_Exited
      then si_pending (t_signal (sc_tcb (cs_sched c) t)) OR sig_bit SIGINT else si_pending (t_signal (sc_tcb (cs_sched c) t))))"
proof -
  note ok = console_reach_ok [OF assms(1)]
  let ?i = "cs_active c" and ?st = "\<lparr>x_tty = cs_ttys c ! cs_active c, x_vga = cs_vga c, x_sched = cs_sched c\<rparr>"
  let ?msg = "\<lparr>m_code = 0x2E, m_key = 0x2E, m_flag = cs_flags c, m_ch = 3\<rparr>"
  have l: "?i < 2" "length (cs_ttys c) = 2" "cs_flags c < 8" using ok by (auto simp: consoles_ok_def)
  have d: "disp_ok (disp_of ?st)" using consoles_disp [OF ok l(1)] by simp
  from interrupt_key [OF d] assms(5) kill_group [OF assms(6,7)] obtain st' where st': "processKey 3 ?st = Inr st'" "ty_line (x_tty st') = []"
    "ty_input (x_tty st') = ty_input (x_tty ?st)" "x_sched st' = send_group ts SIGINT (cs_sched c)" by auto
  have m: "tty_input ?i ?msg ?st = Inr (st'\<lparr>x_sched := snd (wl_wakeOne (WL_Device ?i) WR_Normal (x_sched st'))\<rparr>)"
    using st'(1) assms(4) flag_facts(3) [OF l(3), of F_Ctrl] by (simp add: tty_input_def translateMsg_def Let_def scan_codes)
  have "kb_push 0x2E c = sbind (handleInput ?msg (c\<lparr>cs_flags := cs_flags c, cs_prefix := False\<rparr>)) (\<lambda>c. Inr (True, c))"
    using assms(2,4) merge_ctrl_c [OF l(3) assms(3)] by (simp add: kb_push_def kb_handle_def)
  then show ?thesis using m st'(2-4) l(1,2) by (simp add: handleInput_def run_tty_def send_group_signal)
qed

lemma ctrl_down:
  assumes "cs_active c < length (cs_ttys c)" "\<not> cs_prefix c" "cs_flags c = 0"
  shows "kb_push 0x1D c = Inr (True, c\<lparr>cs_flags := 1\<rparr>)"
proof -
  have "\<exists>ch. kb_merge 0x1D 0 = Inr (\<lparr>m_code = 0x1D, m_key = 0x1D, m_flag = 1, m_ch = ch\<rparr>, 1)"
    using scan_char_total [of "0x1D" 0] by (auto simp: kb_merge_def Let_def modifier_def scan_codes)
  then show ?thesis using assms
    by (auto simp: kb_push_def kb_handle_def handleInput_def run_tty_def tty_input_def scan_codes)
qed

text \<open>The scheduler after the start with one more task, which leads a group of its own.\<close>

definition demo_sched :: sched where
  "demo_sched = (case setupKnownTasks 0 1 of Inr st \<Rightarrow> (case forkTask 2 st of Inr r \<Rightarrow> snd (sys_setpgid 16 16 (snd r)) | Inl _ \<Rightarrow> st))"

lemma demo_group: "findTaskGroup 16 demo_sched = Inr [2]" "t_state (sc_tcb demo_sched 2) = S_Ready"
  by code_simp+

theorem control_c_interrupts_group_witness:
  "\<exists>c c'. console_reach c \<and> kb_push 0x2E c = Inr (True, c') \<and> cs_sched c = demo_sched \<and>
    si_pending (t_signal (sc_tcb (cs_sched c') 2)) = si_pending (t_signal (sc_tcb demo_sched 2)) OR sig_bit SIGINT \<and>
    si_pending (t_signal (sc_tcb (cs_sched c') 0)) = si_pending (t_signal (sc_tcb demo_sched 0))"
proof -
  obtain a t where l: "screen_ok (ty_screen t)" "\<not> sb_active (ty_screen t)" "a = t\<lparr>ty_screen := (ty_screen t)\<lparr>sb_active := True\<rparr>\<rparr>"
    "sb_config (ty_screen t) = default_config"
    "\<And>sc vga. console_load sc vga = Inr \<lparr>cs_ttys = [a, t], cs_active = 0, cs_vga = sb_buffer (ty_screen t), cs_flags = 0, cs_prefix = False, cs_sched = sc\<rparr>"
    by (rule console_load_eq) blast
  let ?c = "\<lparr>cs_ttys = [a, t], cs_active = 0, cs_vga = sb_buffer (ty_screen t), cs_flags = 0, cs_prefix = False, cs_sched = demo_sched\<rparr>"
  let ?t = "snd (tty_ioctl TIOCSPGRP (Inr ()) default_config 16 demo_sched a)"
  let ?d = "?c\<lparr>cs_ttys := [?t, t]\<rparr>"
  have "console_reach ?c" using console_reach.load [of "replicate (vga_width * vga_height) (0, 0)"] l(5) by simp
  from console_reach.ioctls [OF this, of 0] have d: "console_reach ?d" by simp
  have t: "?t = a\<lparr>ty_fg := 16\<rparr>" by (simp add: tty_ioctl_def demo_group TIOCSPGRP_def TCGETS_def TCSETS_def TIOCGPGRP_def TIOCGWINSZ_def)
  have "kb_push 0x1D ?d = Inr (True, ?d\<lparr>cs_flags := 1\<rparr>)" by (rule ctrl_down) simp_all
  from console_reach.push [OF d _ this] have r: "console_reach (?d\<lparr>cs_flags := 1\<rparr>)" by (simp add: tab_byte_def)
  define e where "e = ?d\<lparr>cs_flags := 1\<rparr>"
  have e: "\<not> cs_prefix e" "cs_flags e = 1" "cs_active e = 0" "cs_ttys e ! 0 = a\<lparr>ty_fg := 16\<rparr>" "cs_sched e = demo_sched"
    unfolding e_def t by simp_all
  have "sb_config (ty_screen (cs_ttys e ! cs_active e)) = default_config" "1 < ty_fg (cs_ttys e ! cs_active e)"
    "findTaskGroup (ty_fg (cs_ttys e ! cs_active e)) (cs_sched e) = Inr [2]" using l(3,4) demo_group(1) by (simp_all add: e)
  moreover have "cs_flags e AND F_Ctrl \<noteq> 0" "cs_flags e AND F_Alt = 0" by (simp_all add: e)
  ultimately obtain c' where "kb_push 0x2E e = Inr (True, c')"
    "\<forall>t. si_pending (t_signal (sc_tcb (cs_sched c') t)) = (if t \<in> set [2] \<and> t_state (sc_tcb demo_sched t) \<noteq> S_Exited
      then si_pending (t_signal (sc_tcb demo_sched t)) OR sig_bit SIGINT else si_pending (t_signal (sc_tcb demo_sched t)))"
    using control_c_interrupts_group [OF r [folded e_def] e(1)] unfolding e(5) by blast
  then show ?thesis using r e(5) demo_group(2) unfolding e_def [symmetric] by (intro exI [of _ e] exI [of _ c']) simp
qed

end
