(* ===== verification/Nyan_Libc.thy ===== *)
theory Nyan_Libc
  imports Nyan_Prelude
begin

unbundle bit_operations_syntax

text \<open>
  The C library routines the kernel brings (kernel/runtime/libc.cpp), on a byte-addressed memory of 32-bit addresses.
  Each loop is the loop of the code, pointer by pointer; the loops over strings end only when they meet a zero.
\<close>

section \<open>Routines\<close>

type_synonym memory = "u32 \<Rightarrow> u8"

fun memcmp :: "u32 \<Rightarrow> u32 \<Rightarrow> nat \<Rightarrow> memory \<Rightarrow> int" where
  "memcmp lhs rhs 0 m = 0"
| "memcmp lhs rhs (Suc n) m = (if m lhs \<noteq> m rhs then uint (m lhs) - uint (m rhs) else memcmp (lhs + 1) (rhs + 1) n m)"

fun memcpy :: "u32 \<Rightarrow> u32 \<Rightarrow> nat \<Rightarrow> memory \<Rightarrow> memory" where
  "memcpy dst src 0 m = m"
| "memcpy dst src (Suc n) m = memcpy (dst + 1) (src + 1) n (m(dst := m src))"

text \<open>The loop of \<^verbatim>\<open>memmove\<close> that goes down; both pointers start behind the last byte.\<close>

fun move_down :: "u32 \<Rightarrow> u32 \<Rightarrow> nat \<Rightarrow> memory \<Rightarrow> memory" where
  "move_down dst src 0 m = m"
| "move_down dst src (Suc n) m = move_down (dst - 1) (src - 1) n (m(dst - 1 := m (src - 1)))"

definition memmove :: "u32 \<Rightarrow> u32 \<Rightarrow> nat \<Rightarrow> memory \<Rightarrow> memory" where
  "memmove dst src n m =
    (if dst < src then memcpy dst src n m
     else if dst > src then move_down (dst + of_nat n) (src + of_nat n) n m
     else m)"

fun memset :: "u32 \<Rightarrow> u32 \<Rightarrow> nat \<Rightarrow> memory \<Rightarrow> memory" where
  "memset dst v 0 m = m"
| "memset dst v (Suc n) m = memset (dst + 1) v n (m(dst := ucast v))"

fun memchr :: "u32 \<Rightarrow> u32 \<Rightarrow> nat \<Rightarrow> memory \<Rightarrow> u32" where
  "memchr src ch 0 m = 0"
| "memchr src ch (Suc n) m = (if m src = ucast ch then src else memchr (src + 1) ch n m)"

partial_function (option) strlen_loop :: "u32 \<Rightarrow> u32 \<Rightarrow> memory \<Rightarrow> u32 option" where
  "strlen_loop str len m = (if m str \<noteq> 0 then strlen_loop (str + 1) (len + 1) m else Some len)"

definition strlen :: "u32 \<Rightarrow> memory \<Rightarrow> u32 option" where
  "strlen str m = strlen_loop str 0 m"

partial_function (option) strcpy :: "u32 \<Rightarrow> u32 \<Rightarrow> memory \<Rightarrow> memory option" where
  "strcpy dst src m = (let m' = m(dst := m src) in if m src \<noteq> 0 then strcpy (dst + 1) (src + 1) m' else Some m')"

declare strlen_loop.simps [code] strcpy.simps [code]

section \<open>Blocks\<close>

text \<open>The addresses of a block that does not run over the top of memory, and the bytes at them.\<close>

definition in_block :: "u32 \<Rightarrow> nat \<Rightarrow> u32 \<Rightarrow> bool" where
  "in_block p n a \<longleftrightarrow> unat p \<le> unat a \<and> unat a < unat p + n"

definition bytes_at :: "u32 \<Rightarrow> nat \<Rightarrow> memory \<Rightarrow> u8 list" where
  "bytes_at p n m = map (\<lambda>i. m (p + of_nat i)) [0..<n]"

text \<open>Words in memory have their low byte first.\<close>

definition bytes16 :: "u16 \<Rightarrow> u8 list" where
  "bytes16 w = [ucast w, ucast (drop_bit 8 w)]"

definition bytes32 :: "u32 \<Rightarrow> u8 list" where
  "bytes32 w = [ucast w, ucast (drop_bit 8 w), ucast (drop_bit 16 w), ucast (drop_bit 24 w)]"

definition word_of_bytes :: "u8 list \<Rightarrow> u32" where
  "word_of_bytes bs = ucast (bs ! 0) OR push_bit 8 (ucast (bs ! 1)) OR push_bit 16 (ucast (bs ! 2)) OR push_bit 24 (ucast (bs ! 3))"

definition word_at :: "u32 \<Rightarrow> memory \<Rightarrow> u32" where
  "word_at a m = word_of_bytes (bytes_at a 4 m)"

fun put_bytes :: "u32 \<Rightarrow> u8 list \<Rightarrow> memory \<Rightarrow> memory" where
  "put_bytes a [] m = m"
| "put_bytes a (b # bs) m = put_bytes (a + 1) bs (m(a := b))"

lemma word_of_bytes32: "word_of_bytes (bytes32 w) = w"
  unfolding word_of_bytes_def bytes32_def
  by (rule bit_word_eqI, rename_tac n, case_tac "n < 8"; case_tac "n < 16"; case_tac "n < 24") (auto simp: bit_simps split: if_splits)

lemma length_bytes32 [simp]: "length (bytes32 w) = 4"
  by (simp add: bytes32_def)

lemma length_bytes_at [simp]: "length (bytes_at p n m) = n"
  by (simp add: bytes_at_def)

lemma bytes_at_append: "bytes_at p (k + n) m = bytes_at p k m @ bytes_at (p + of_nat k) n m"
proof -
  have "[0..<k + n] = [0..<k] @ map (\<lambda>i. k + i) [0..<n]" by (induction n) auto
  then show ?thesis by (simp add: bytes_at_def add.assoc)
qed

lemma bytes_at_drop: "k \<le> n \<Longrightarrow> drop k (bytes_at p n m) = bytes_at (p + of_nat k) (n - k) m"
  using bytes_at_append [of p k "n - k" m] by simp

lemma bytes_at_take: "k \<le> n \<Longrightarrow> take k (bytes_at p n m) = bytes_at p k m"
  using bytes_at_append [of p k "n - k" m] by simp

lemma bytes_at_Suc: "bytes_at p (Suc n) m = m p # bytes_at (p + 1) n m"
  by (simp add: bytes_at_def upt_conv_Cons map_Suc_upt [symmetric] del: upt_Suc) (simp add: add.assoc)

lemma unat_inc: "unat p + Suc n \<le> 2 ^ 32 \<Longrightarrow> 0 < n \<Longrightarrow> unat (p + 1) = Suc (unat p)" for p :: u32
  by (simp add: unat_word_ariths)

lemma block_offset:
  assumes "in_block dst n a" "unat src + n \<le> 2 ^ 32"
  shows "unat (src + (a - dst)) = unat src + (unat a - unat dst)"
proof -
  have "unat (a - dst) = unat a - unat dst" using assms(1) by (simp add: in_block_def unat_sub word_le_nat_alt)
  moreover have "unat src + (unat a - unat dst) < 2 ^ 32" using assms by (auto simp: in_block_def)
  ultimately show ?thesis by (simp add: unat_word_ariths)
qed

lemma memcpy_exact:
  assumes "unat dst + n \<le> 2 ^ 32" "unat src + n \<le> 2 ^ 32" "unat dst \<le> unat src \<or> unat src + n \<le> unat dst"
  shows "memcpy dst src n m a = (if in_block dst n a then m (src + (a - dst)) else m a)"
  using assms
proof (induction n arbitrary: dst src m)
  case 0
  then show ?case by (auto simp: in_block_def)
next
  case (Suc n)
  show ?case
  proof (cases "n = 0")
    case True
    then have "in_block dst (Suc n) a \<longleftrightarrow> a = dst" by (auto simp: in_block_def word_unat_eq_iff)
    with True show ?thesis by auto
  next
    case False
    let ?m = "m(dst := m src)"
    have u: "unat (dst + 1) = Suc (unat dst)" "unat (src + 1) = Suc (unat src)" using unat_inc Suc.prems False by simp_all
    have "memcpy (dst + 1) (src + 1) n ?m a = (if in_block (dst + 1) n a then ?m (src + 1 + (a - (dst + 1))) else ?m a)"
      using Suc.prems u by (intro Suc.IH) auto
    moreover have "in_block dst (Suc n) a \<longleftrightarrow> a = dst \<or> in_block (dst + 1) n a" "a = dst \<Longrightarrow> \<not> in_block (dst + 1) n a"
      using u by (auto simp: in_block_def word_unat_eq_iff)
    moreover have "src + 1 + (a - (dst + 1)) = src + (a - dst)" by simp
    moreover have "src + (a - dst) \<noteq> dst" if "in_block (dst + 1) n a"
    proof -
      have b: "in_block dst (Suc n) a" "unat dst < unat a" using that u by (auto simp: in_block_def)
      from block_offset [OF b(1) Suc.prems(2)] b Suc.prems(3) have "unat (src + (a - dst)) \<noteq> unat dst" unfolding in_block_def by arith
      then show ?thesis by metis
    qed
    ultimately show ?thesis by auto
  qed
qed

lemma move_down_exact:
  assumes "unat dst + n \<le> 2 ^ 32" "unat src + n \<le> 2 ^ 32" "unat src \<le> unat dst"
  shows "move_down (dst + of_nat n) (src + of_nat n) n m a = (if in_block dst n a then m (src + (a - dst)) else m a)"
  using assms
proof (induction n arbitrary: m)
  case 0
  then show ?case by (auto simp: in_block_def)
next
  case (Suc n)
  let ?d = "dst + of_nat n" and ?s = "src + of_nat n"
  let ?m = "m(?d := m ?s)"
  have u: "unat ?d = unat dst + n" "unat ?s = unat src + n" using Suc.prems by (simp_all add: unat_word_ariths unat_of_nat)
  have "move_down (dst + of_nat (Suc n)) (src + of_nat (Suc n)) (Suc n) m a = move_down ?d ?s n ?m a" by (simp add: add.assoc [symmetric])
  also have "\<dots> = (if in_block dst n a then ?m (src + (a - dst)) else ?m a)" using Suc.prems by (intro Suc.IH) auto
  moreover have "in_block dst (Suc n) a \<longleftrightarrow> a = ?d \<or> in_block dst n a" "a = ?d \<Longrightarrow> \<not> in_block dst n a"
    using u by (auto simp: in_block_def word_unat_eq_iff)
  moreover have "src + (?d - dst) = ?s" by simp
  moreover have "src + (a - dst) \<noteq> ?d" if "in_block dst n a"
  proof -
    have "unat src + n \<le> 2 ^ 32" using Suc.prems(2) by simp
    from block_offset [OF that this] that u Suc.prems(3) have "unat (src + (a - dst)) < unat ?d" unfolding in_block_def by arith
    then show ?thesis by (metis less_irrefl)
  qed
  ultimately show ?case by auto
qed

lemma memset_exact:
  "unat dst + n \<le> 2 ^ 32 \<Longrightarrow> memset dst v n m a = (if in_block dst n a then ucast v else m a)"
proof (induction n arbitrary: dst m)
  case (Suc n)
  show ?case
  proof (cases "n = 0")
    case False
    have u: "unat (dst + 1) = Suc (unat dst)" using unat_inc Suc.prems False by simp
    then have "in_block dst (Suc n) a \<longleftrightarrow> a = dst \<or> in_block (dst + 1) n a" by (auto simp: in_block_def word_unat_eq_iff)
    moreover have "memset (dst + 1) v n (m(dst := ucast v)) a = (if in_block (dst + 1) n a then ucast v else (m(dst := ucast v)) a)"
      using Suc.prems u by (intro Suc.IH) simp
    ultimately show ?thesis by auto
  qed (auto simp: in_block_def word_unat_eq_iff)
qed (auto simp: in_block_def)

lemma memmove_exact:
  assumes "unat dst + n \<le> 2 ^ 32" "unat src + n \<le> 2 ^ 32"
  shows "memmove dst src n m a = (if in_block dst n a then m (src + (a - dst)) else m a)"
proof (cases "dst = src")
  case False
  then have "unat dst \<noteq> unat src" by (simp add: word_unat_eq_iff)
  then show ?thesis using memcpy_exact [OF assms, of m a] move_down_exact [OF assms, of m a]
    by (auto simp: memmove_def word_less_nat_alt)
qed (simp add: memmove_def)

lemma memcmp_list: "memcmp lhs rhs n m = (case find (\<lambda>(x, y). x \<noteq> y) (zip (bytes_at lhs n m) (bytes_at rhs n m)) of
    None \<Rightarrow> 0 | Some (x, y) \<Rightarrow> uint x - uint y)"
  by (induction n arbitrary: lhs rhs) (simp_all add: bytes_at_Suc, simp add: bytes_at_def)

lemma memchr_list:
  "memchr src ch n m = (case find (\<lambda>i. m (src + of_nat i) = ucast ch) [0..<n] of None \<Rightarrow> 0 | Some i \<Rightarrow> src + of_nat i)"
proof (induction n arbitrary: src)
  case (Suc n)
  have f: "find P (map Suc xs) = map_option Suc (find (P \<circ> Suc) xs)" for P xs by (induction xs) auto
  have "[0..<Suc n] = 0 # map Suc [0..<n]" by (simp add: upt_conv_Cons map_Suc_upt del: upt_Suc)
  then show ?case by (simp add: Suc.IH f o_def add.assoc split: option.split)
qed simp

lemma put_bytes_exact:
  "unat a + length bs \<le> 2 ^ 32 \<Longrightarrow> put_bytes a bs m x = (if in_block a (length bs) x then bs ! (unat x - unat a) else m x)"
proof (induction bs arbitrary: a m)
  case (Cons b bs)
  show ?case
  proof (cases "bs = []")
    case True
    then have "in_block a (length (b # bs)) x \<longleftrightarrow> x = a" by (auto simp: in_block_def word_unat_eq_iff)
    with True show ?thesis by auto
  next
    case False
    have u: "unat (a + 1) = Suc (unat a)" using unat_inc [of a "length bs"] Cons.prems False by simp
    have "put_bytes (a + 1) bs (m(a := b)) x = (if in_block (a + 1) (length bs) x then bs ! (unat x - unat (a + 1)) else (m(a := b)) x)"
      using Cons.prems u by (intro Cons.IH) simp
    moreover have "in_block a (length (b # bs)) x \<longleftrightarrow> x = a \<or> in_block (a + 1) (length bs) x" "x = a \<Longrightarrow> \<not> in_block (a + 1) (length bs) x"
      using u by (auto simp: in_block_def word_unat_eq_iff)
    moreover have "(b # bs) ! (unat x - unat a) = bs ! (unat x - unat (a + 1))" if "in_block (a + 1) (length bs) x"
      using that u by (auto simp: in_block_def nth_Cons')
    ultimately show ?thesis by auto
  qed
qed (auto simp: in_block_def)

lemma put_bytes_same:
  assumes "unat a + length bs \<le> 2 ^ 32"
  shows "bytes_at a (length bs) (put_bytes a bs m) = bs"
proof (rule nth_equalityI)
  fix i assume "i < length (bytes_at a (length bs) (put_bytes a bs m))"
  then have i: "i < length bs" by simp
  then have "unat (a + of_nat i) = unat a + i" using assms by (simp add: unat_word_ariths unat_of_nat)
  then show "bytes_at a (length bs) (put_bytes a bs m) ! i = bs ! i"
    using i assms by (simp add: bytes_at_def put_bytes_exact in_block_def)
qed simp

lemma put_bytes_above:
  assumes "unat a + length bs + n \<le> 2 ^ 32"
  shows "bytes_at (a + of_nat (length bs)) n (put_bytes a bs m) = bytes_at (a + of_nat (length bs)) n m"
proof (rule nth_equalityI)
  fix i assume "i < length (bytes_at (a + of_nat (length bs)) n (put_bytes a bs m))"
  then have i: "i < n" by simp
  have e: "a + of_nat (length bs) + of_nat i = a + of_nat (length bs + i)" by (simp add: add.assoc)
  have "unat (a + of_nat (length bs + i)) = unat a + (length bs + i)" using assms i by (simp add: unat_word_ariths unat_of_nat del: of_nat_add)
  then show "bytes_at (a + of_nat (length bs)) n (put_bytes a bs m) ! i = bytes_at (a + of_nat (length bs)) n m ! i"
    using i assms unfolding bytes_at_def by (simp add: e put_bytes_exact in_block_def del: of_nat_add)
qed simp

section \<open>Strings\<close>

text \<open>A string of \<open>k\<close> characters starts at \<open>p\<close>.\<close>

definition string_at :: "u32 \<Rightarrow> nat \<Rightarrow> memory \<Rightarrow> bool" where
  "string_at p k m \<longleftrightarrow> m (p + of_nat k) = 0 \<and> (\<forall>i<k. m (p + of_nat i) \<noteq> 0)"

lemma string_at_Suc: "string_at p (Suc k) m \<longleftrightarrow> m p \<noteq> 0 \<and> string_at (p + 1) k m"
  by (auto simp: string_at_def less_Suc_eq_0_disj add.assoc)

lemma strlen_loop_string: "string_at p k m \<Longrightarrow> strlen_loop p l m = Some (l + of_nat k)"
proof (induction k arbitrary: p l)
  case 0
  then show ?case by (subst strlen_loop.simps) (simp add: string_at_def)
next
  case (Suc k)
  then show ?case by (subst strlen_loop.simps) (simp add: string_at_Suc add.assoc)
qed

lemma strlen_string: "string_at p k m \<Longrightarrow> strlen p m = Some (of_nat k)"
  by (simp add: strlen_def strlen_loop_string)

lemma strcpy_string:
  assumes "string_at src k m" "unat dst + Suc k \<le> 2 ^ 32" "unat src + Suc k \<le> 2 ^ 32" "unat dst \<le> unat src \<or> unat src + Suc k \<le> unat dst"
  shows "strcpy dst src m = Some (memcpy dst src (Suc k) m)"
  using assms
proof (induction k arbitrary: dst src m)
  case 0
  then show ?case by (subst strcpy.simps) (simp add: string_at_def Let_def)
next
  case (Suc k)
  let ?m = "m(dst := m src)"
  have u: "unat (dst + 1) = Suc (unat dst)" "unat (src + 1) = Suc (unat src)"
    using unat_inc [of dst "Suc k"] unat_inc [of src "Suc k"] Suc.prems by simp_all
  have s: "m src \<noteq> 0" "string_at (src + 1) k m" using Suc.prems(1) by (simp_all add: string_at_Suc)
  have "src + 1 + of_nat i \<noteq> dst" if "i \<le> k" for i
  proof -
    have "unat (src + 1 + of_nat i) = Suc (unat src) + i" using u Suc.prems(3) that by (simp add: unat_word_ariths(1) [of "src + 1"] unat_of_nat)
    then show ?thesis using Suc.prems(4) that by auto
  qed
  then have "string_at (src + 1) k ?m" using s(2) by (auto simp: string_at_def)
  moreover have "unat (dst + 1) + Suc k \<le> 2 ^ 32" "unat (src + 1) + Suc k \<le> 2 ^ 32" "unat (dst + 1) \<le> unat (src + 1) \<or> unat (src + 1) + Suc k \<le> unat (dst + 1)"
    using u Suc.prems(2-4) by auto
  ultimately have "strcpy (dst + 1) (src + 1) ?m = Some (memcpy (dst + 1) (src + 1) (Suc k) ?m)" by (rule Suc.IH)
  then show ?case by (subst strcpy.simps) (simp add: Let_def s(1))
qed

section \<open>Properties\<close>

text \<open>\<^verbatim>\<open>memmove\<close> copies the bytes that were at the source, however the blocks overlap, and changes nothing outside the
  destination; \<^verbatim>\<open>memcpy\<close> does the same when the destination does not start inside the source; \<^verbatim>\<open>strcpy\<close> returns after
  copying exactly the string with its terminator.\<close>

theorem block_copies_exact:
  assumes "unat dst + n \<le> 2 ^ 32" "unat src + n \<le> 2 ^ 32"
  shows "(\<forall>a. memmove dst src n m a = (if in_block dst n a then m (src + (a - dst)) else m a)) \<and>
    (unat dst \<le> unat src \<or> unat src + n \<le> unat dst \<longrightarrow> memcpy dst src n m = memmove dst src n m \<and>
      (\<forall>k. n = Suc k \<and> string_at src k m \<longrightarrow> strcpy dst src m = Some (memmove dst src n m)))"
proof -
  have "memcpy dst src n m = memmove dst src n m" if "unat dst \<le> unat src \<or> unat src + n \<le> unat dst"
    by (rule ext) (simp add: memcpy_exact [OF assms that] memmove_exact [OF assms])
  then show ?thesis using memmove_exact [OF assms] strcpy_string [of src _ m dst] assms by auto
qed

theorem block_copies_exact_witness:
  "memmove 0x102 0x100 4 (\<lambda>a. ucast a) 0x105 = 3 \<and> memmove 0x102 0x100 4 (\<lambda>a. ucast a) 0x101 = 1"
proof -
  have "(2 :: nat) ^ 32 = 4294967296" by simp
  then show ?thesis using block_copies_exact [of "0x102" 4 "0x100" "\<lambda>a. ucast a"] by (simp add: in_block_def)
qed

text \<open>\<^verbatim>\<open>memcmp\<close> orders blocks of equal length as dictionaries do, by unsigned bytes: zero exactly for equal blocks, negative
  exactly when the first comes before the second.\<close>

theorem memcmp_dictionary_order:
  "(memcmp lhs rhs n m = 0 \<longleftrightarrow> bytes_at lhs n m = bytes_at rhs n m) \<and>
   (memcmp lhs rhs n m < 0 \<longleftrightarrow> ord_class.lexordp (bytes_at lhs n m) (bytes_at rhs n m))"
proof (induction n arbitrary: lhs rhs)
  case 0
  then show ?case by (simp add: bytes_at_def)
next
  case (Suc n)
  have "uint x - uint y < 0 \<longleftrightarrow> x < y" "uint x = uint y \<longleftrightarrow> x = y" for x y :: u8 by (simp_all add: word_less_def word_uint_eq_iff)
  with Suc.IH [of "lhs + 1" "rhs + 1"] show ?case by (auto simp: bytes_at_Suc)
qed

end
