(* ===== verification/Nyan_Stack.thy ===== *)
theory Nyan_Stack
  imports Nyan_Address Nyan_Libc
begin

unbundle bit_operations_syntax

text \<open>
  Stacks of new tasks (kernel/task/stack.hpp, kernel/task/stack.cpp, kernel/paging/translator.hpp), the first frame of a
  kernel task (\<^verbatim>\<open>fillStack\<close> in kernel/task/task.cpp) and the switch between tasks (kernel/task/switch.s). A stack
  is one page: \<open>sk_page\<close> is where the kernel sees it, and a store below it is an \<open>OutOfBounds\<close> fault, since the code never
  compares the pointer with the page. The stack of a user program is written through a mapping of the kernel
  and the translator turns addresses of that mapping into the addresses the program will see.
\<close>

section \<open>Pushing\<close>

record kstack =
  sk_page :: u32
  sk_userBase :: u32
  sk_current :: u32
  sk_entries :: "(u32 \<times> u32) list"
  sk_mem :: memory

definition kernel_stack :: "u32 \<Rightarrow> memory \<Rightarrow> kstack" where
  "kernel_stack frame m = \<lparr>sk_page = frame, sk_userBase = frame, sk_current = nextPage frame, sk_entries = [], sk_mem = m\<rparr>"

text \<open>The stack of a program: \<open>mapped\<close> is the address of the kernel at which the page below \<open>userTop\<close> was mapped.\<close>

definition user_stack :: "u32 \<Rightarrow> u32 \<Rightarrow> memory \<Rightarrow> kstack" where
  "user_stack mapped userTop m = \<lparr>sk_page = mapped, sk_userBase = prevPage userTop, sk_current = nextPage mapped,
    sk_entries = [(mapped, prevPage userTop)], sk_mem = m\<rparr>"

definition push_bytes :: "u8 list \<Rightarrow> kstack \<Rightarrow> kstack exec" where
  "push_bytes bs s = (let c = sk_current s - of_nat (length bs) in
    if unat (sk_page s) \<le> unat c \<and> unat c + length bs \<le> unat (sk_page s) + 4096
    then Inr (s\<lparr>sk_current := c, sk_mem := put_bytes c bs (sk_mem s)\<rparr>) else Inl OutOfBounds)"

definition pushVal :: "u32 \<Rightarrow> kstack \<Rightarrow> kstack exec" where
  "pushVal v s = push_bytes (bytes32 v) s"

definition pushString :: "u8 list \<Rightarrow> kstack \<Rightarrow> (u32 \<times> kstack) exec" where
  "pushString str s = (let sz = (length str + 1 + 3) div 4 in
    sbind (push_bytes (str @ replicate (sz * 4 - length str) 0) s) (\<lambda>s. Inr (sk_current s, s)))"

definition toUser :: "u32 \<Rightarrow> kstack \<Rightarrow> u32 exec" where
  "toUser addr s = (case find (\<lambda>e. fst e = thisPage addr) (sk_entries s) of
      Some e \<Rightarrow> Inr (snd e + pageOffset addr)
    | None \<Rightarrow> Inl (Kfatal ''no translator entry''))"

definition userEsp :: "kstack \<Rightarrow> u32 exec" where
  "userEsp s = toUser (sk_current s) s"

fun push_vals :: "u32 list \<Rightarrow> kstack \<Rightarrow> kstack exec" where
  "push_vals [] s = Inr s"
| "push_vals (v # vs) s = sbind (pushVal v s) (push_vals vs)"

fun push_strings :: "u8 list list \<Rightarrow> kstack \<Rightarrow> (u32 list \<times> kstack) exec" where
  "push_strings [] s = Inr ([], s)"
| "push_strings (str # strs) s = sbind (pushString str s) (\<lambda>(p, s). sbind (toUser p s) (\<lambda>u.
    sbind (push_strings strs s) (\<lambda>(us, s). Inr (u # us, s))))"

definition AT_NULL :: u32 where "AT_NULL = 0"
definition AT_PAGESZ :: u32 where "AT_PAGESZ = 6"

definition loadArgv :: "u8 list list \<Rightarrow> u8 list list \<Rightarrow> kstack \<Rightarrow> kstack exec" where
  "loadArgv argv envp s =
    sbind (push_strings argv s) (\<lambda>(args, s).
    sbind (push_strings envp s) (\<lambda>(envs, s).
    sbind (push_vals [0, AT_NULL, 4096, AT_PAGESZ] s) (\<lambda>s.
    sbind (pushVal 0 s) (\<lambda>s. sbind (push_vals (rev envs) s) (\<lambda>s.
    sbind (pushVal 0 s) (\<lambda>s. sbind (push_vals (rev args) s) (\<lambda>s.
    pushVal (of_nat (length args)) s)))))))"

text \<open>The first frame of a kernel task, in the order \<^verbatim>\<open>switchToTask\<close> pops it; \<open>wrapper\<close> is the address of \<^verbatim>\<open>taskWrapper\<close>.\<close>

definition fillStack :: "u32 \<Rightarrow> u32 \<Rightarrow> u32 \<Rightarrow> kstack \<Rightarrow> kstack exec" where
  "fillStack wrapper func param s = push_vals [param, func, 0x12345678, wrapper, 2, 0, 0, 0, 0] s"

section \<open>Switching\<close>

record cpu =
  c_ebx :: u32
  c_esi :: u32
  c_edi :: u32
  c_ebp :: u32
  c_flags :: u32
  c_esp :: u32
  c_eip :: u32

text \<open>\<open>sw_userEsp\<close> and \<open>sw_kernelEsp\<close> are the fields of the control blocks, \<open>sw_esp0\<close> the field of the task state segment.\<close>

record switch_state =
  sw_cpu :: cpu
  sw_mem :: memory
  sw_current :: nat
  sw_userEsp :: "nat \<Rightarrow> u32"
  sw_kernelEsp :: "nat \<Rightarrow> u32"
  sw_esp0 :: u32

definition push32 :: "u32 \<Rightarrow> switch_state \<Rightarrow> switch_state" where
  "push32 v st = (let e = c_esp (sw_cpu st) - 4 in st\<lparr>sw_cpu := (sw_cpu st)\<lparr>c_esp := e\<rparr>, sw_mem := put_bytes e (bytes32 v) (sw_mem st)\<rparr>)"

definition save_registers :: "switch_state \<Rightarrow> switch_state" where
  "save_registers st = (let c = sw_cpu st in
    push32 (c_ebp c) (push32 (c_edi c) (push32 (c_esi c) (push32 (c_ebx c) (push32 (c_flags c) st)))))"

text \<open>The four pops, \<^verbatim>\<open>popfl\<close> and \<^verbatim>\<open>ret\<close>.\<close>

definition restore_registers :: "switch_state \<Rightarrow> switch_state" where
  "restore_registers st = (let e = c_esp (sw_cpu st); w = (\<lambda>i. word_at (e + of_nat (4 * i)) (sw_mem st)) in
    st\<lparr>sw_cpu := \<lparr>c_ebx = w 3, c_esi = w 2, c_edi = w 1, c_ebp = w 0, c_flags = w 4, c_esp = e + 24, c_eip = w 5\<rparr>\<rparr>)"

definition switch_asm :: "nat \<Rightarrow> switch_state \<Rightarrow> switch_state" where
  "switch_asm nextTask st = (let st = save_registers st;
      st = st\<lparr>sw_userEsp := (sw_userEsp st)(sw_current st := c_esp (sw_cpu st)), sw_current := nextTask\<rparr>;
      st = st\<lparr>sw_cpu := (sw_cpu st)\<lparr>c_esp := sw_userEsp st nextTask\<rparr>, sw_esp0 := sw_kernelEsp st nextTask\<rparr>
    in restore_registers st)"

section \<open>A stack is a list of bytes\<close>

text \<open>The bytes from the stack pointer to the end of the page, and what pushing does to them.\<close>

definition stack_rep :: "u8 list \<Rightarrow> kstack \<Rightarrow> bool" where
  "stack_rep L s \<longleftrightarrow> page_aligned (sk_page s) \<and> unat (sk_page s) + 4096 \<le> 2 ^ 32 - 4096 \<and> length L \<le> 4096 \<and>
    sk_current s = sk_page s + of_nat (4096 - length L) \<and> bytes_at (sk_current s) (length L) (sk_mem s) = L"

text \<open>Pushing keeps the page, and the bytes below the new stack pointer.\<close>

definition same_stack :: "kstack \<Rightarrow> kstack \<Rightarrow> bool" where
  "same_stack s s' \<longleftrightarrow> sk_page s' = sk_page s \<and> sk_userBase s' = sk_userBase s \<and> sk_entries s' = sk_entries s \<and>
    sk_current s' \<le> sk_current s \<and> (\<forall>x. x < sk_current s' \<longrightarrow> sk_mem s' x = sk_mem s x)"

lemma same_stack_refl [simp]: "same_stack s s"
  by (simp add: same_stack_def)

lemma same_stack_trans: "same_stack a b \<Longrightarrow> same_stack b c \<Longrightarrow> same_stack a c"
  unfolding same_stack_def by (metis order_trans order_less_le_trans)

lemma page_address:
  assumes "unat P + 4096 \<le> 2 ^ 32 - 4096" "k \<le> 4096"
  shows "unat (P + of_nat k :: u32) = unat P + k"
  using assms by (simp add: unat_word_ariths unat_of_nat)

lemma push_bytes_rep:
  assumes r: "stack_rep L s" and l: "length bs + length L \<le> 4096"
  obtains s' where "push_bytes bs s = Inr s'" "stack_rep (bs @ L) s'" "same_stack s s'"
proof -
  let ?P = "sk_page s" and ?n = "4096 - length (bs @ L)"
  define c where "c = sk_current s - of_nat (length bs)"
  have P: "unat ?P + 4096 \<le> 2 ^ 32 - 4096" using r by (simp add: stack_rep_def)
  have "sk_current s = ?P + of_nat (?n + length bs)" using r l by (simp add: stack_rep_def)
  then have c: "c = ?P + of_nat ?n" "c + of_nat (length bs) = sk_current s" by (simp_all add: c_def)
  have u: "unat c = unat ?P + ?n" unfolding c(1) by (rule page_address [OF P]) simp
  have b: "unat c + length bs + length L \<le> 2 ^ 32" "unat ?P \<le> unat c \<and> unat c + length bs \<le> unat ?P + 4096" using u P l by auto
  let ?s = "s\<lparr>sk_current := c, sk_mem := put_bytes c bs (sk_mem s)\<rparr>"
  have "push_bytes bs s = Inr ?s" using b(2) unfolding push_bytes_def c_def [symmetric] Let_def by simp
  moreover have "bytes_at c (length bs + length L) (put_bytes c bs (sk_mem s)) = bs @ L"
    using put_bytes_same [of c bs "sk_mem s"] put_bytes_above [OF b(1), of "sk_mem s"] b(1) conjunct2 [OF r [unfolded stack_rep_def]]
    unfolding bytes_at_append c(2) by auto
  then have "stack_rep (bs @ L) ?s" using r l c(1) by (simp add: stack_rep_def)
  moreover have "same_stack s ?s"
  proof -
    have "unat (sk_current s) = unat ?P + (?n + length bs)"
      unfolding \<open>sk_current s = ?P + of_nat (?n + length bs)\<close> by (rule page_address [OF P]) (use l in simp)
    then have "c \<le> sk_current s" using u by (simp add: word_le_nat_alt)
    moreover have "put_bytes c bs (sk_mem s) x = sk_mem s x" if "x < c" for x
      using put_bytes_exact [of c bs "sk_mem s" x] b(1) that by (simp add: in_block_def word_less_nat_alt)
    ultimately show ?thesis by (simp add: same_stack_def)
  qed
  ultimately show thesis by (rule that)
qed

lemma toUser_rep:
  assumes r: "stack_rep L s" and l: "L \<noteq> []" and e: "sk_entries s = [(sk_page s, U)]"
  shows "toUser (sk_current s) s = Inr (U + of_nat (4096 - length L))"
proof -
  let ?P = "sk_page s" and ?n = "4096 - length L"
  have P: "unat ?P + 4096 \<le> 2 ^ 32 - 4096" "unat ?P mod 4096 = 0" using r by (simp_all add: stack_rep_def page_aligned_def)
  have n: "?n < 4096" using l r by (cases L) (auto simp: stack_rep_def)
  have c: "sk_current s = ?P + of_nat ?n" using r by (simp add: stack_rep_def)
  have u: "unat (sk_current s) = unat ?P + ?n" unfolding c by (rule page_address [OF P(1)]) simp
  then have m: "unat (sk_current s) mod 4096 = ?n" using P(2) n by (simp add: mod_add_left_eq [symmetric] flip: mod_add_left_eq)
  have "thisPage (sk_current s) = ?P" using u m by (simp add: word_unat_eq_iff unat_thisPage)
  moreover have "pageOffset (sk_current s) = of_nat ?n"
    using m n by (simp add: word_unat_eq_iff pageOffset_def unat_and_4095 unat_of_nat)
  ultimately show ?thesis by (simp add: toUser_def e)
qed

definition string_block :: "u8 list \<Rightarrow> u8 list" where
  "string_block str = str @ replicate ((length str + 4) div 4 * 4 - length str) 0"

lemma string_block_length: "length (string_block str) = (length str + 4) div 4 * 4" "length str < length (string_block str)"
  by (simp_all add: string_block_def)

lemma string_block_zero: "take (Suc (length str)) (string_block str @ L) = str @ [0]"
proof -
  obtain k where "(length str + 4) div 4 * 4 - length str = Suc k" by (cases "(length str + 4) div 4 * 4 - length str") auto
  then show ?thesis by (simp add: string_block_def)
qed

lemma pushString_rep:
  assumes r: "stack_rep L s" and l: "length (string_block str) + length L \<le> 4096"
  obtains s' where "pushString str s = Inr (sk_current s', s')" "stack_rep (string_block str @ L) s'" "same_stack s s'"
proof -
  obtain s' where "push_bytes (string_block str) s = Inr s'" "stack_rep (string_block str @ L) s'" "same_stack s s'"
    by (rule push_bytes_rep [OF r l])
  moreover have "pushString str s = sbind (push_bytes (string_block str) s) (\<lambda>s. Inr (sk_current s, s))"
    by (simp add: pushString_def string_block_def Let_def add.commute)
  ultimately show thesis using that by simp
qed

text \<open>The blocks of a sequence of strings, the last one lowest, and where each of them starts, counted from the top of the page.\<close>

definition blocks :: "u8 list list \<Rightarrow> u8 list" where
  "blocks strs = concat (map string_block (rev strs))"

lemma blocks_Cons: "blocks (str # strs) = blocks strs @ string_block str"
  by (simp add: blocks_def)

lemma blocks_Nil [simp]: "blocks [] = []"
  by (simp add: blocks_def)

fun block_tops :: "u8 list list \<Rightarrow> nat \<Rightarrow> nat list" where
  "block_tops [] k = []"
| "block_tops (str # strs) k = (let t = length (string_block str) + k in t # block_tops strs t)"

lemma push_strings_rep:
  assumes "stack_rep L s" "length (blocks strs) + length L \<le> 4096" "sk_entries s = [(sk_page s, U)]"
  shows "\<exists>s'. push_strings strs s = Inr (map (\<lambda>t. U + of_nat (4096 - t)) (block_tops strs (length L)), s') \<and>
    stack_rep (blocks strs @ L) s' \<and> same_stack s s'"
  using assms
proof (induction strs arbitrary: L s)
  case Nil
  then show ?case by simp
next
  case (Cons str strs)
  have l: "length (string_block str) + length L \<le> 4096" "length (blocks strs) + length (string_block str @ L) \<le> 4096"
    using Cons.prems(2) by (simp_all add: blocks_Cons)
  obtain s1 where s1: "pushString str s = Inr (sk_current s1, s1)" "stack_rep (string_block str @ L) s1" "same_stack s s1"
    by (rule pushString_rep [OF Cons.prems(1) l(1)])
  have e: "sk_entries s1 = [(sk_page s1, U)]" using s1(3) Cons.prems(3) by (simp add: same_stack_def)
  have "string_block str @ L \<noteq> []" using string_block_length(2) [of str] by auto
  from toUser_rep [OF s1(2) this e] have t: "toUser (sk_current s1) s1 = Inr (U + of_nat (4096 - (length (string_block str) + length L)))" by simp
  from Cons.IH [OF s1(2) l(2) e] s1 t same_stack_trans [OF s1(3)] show ?case by (auto simp: Let_def blocks_Cons)
qed

lemma push_vals_rep:
  "stack_rep L s \<Longrightarrow> 4 * length vs + length L \<le> 4096 \<Longrightarrow>
    \<exists>s'. push_vals vs s = Inr s' \<and> stack_rep (concat (map bytes32 (rev vs)) @ L) s' \<and> same_stack s s'"
proof (induction vs arbitrary: L s)
  case Nil
  then show ?case by simp
next
  case (Cons v vs)
  obtain s1 where s1: "push_bytes (bytes32 v) s = Inr s1" "stack_rep (bytes32 v @ L) s1" "same_stack s s1"
    using push_bytes_rep [OF Cons.prems(1), of "bytes32 v"] Cons.prems(2) by auto
  from Cons.IH [OF s1(2)] Cons.prems(2) s1 same_stack_trans [OF s1(3)] show ?case by (auto simp: pushVal_def)
qed

lemma push_vals_append: "push_vals (a @ b) s = sbind (push_vals a s) (push_vals b)"
  by (induction a arbitrary: s) (auto simp: sbind_def split: sum.splits)

lemma pushVal_vals: "pushVal v s = push_vals [v] s"
  by (simp add: sbind_def split: sum.split)

lemma loadArgv_vals:
  "loadArgv argv envp s = sbind (push_strings argv s) (\<lambda>(args, s). sbind (push_strings envp s) (\<lambda>(envs, s).
    push_vals ([0, AT_NULL, 4096, AT_PAGESZ] @ [0] @ rev envs @ [0] @ rev args @ [of_nat (length args)]) s))"
  unfolding loadArgv_def pushVal_vals push_vals_append by (auto simp: sbind_def split: sum.splits prod.splits)

definition words_at :: "u32 \<Rightarrow> nat \<Rightarrow> memory \<Rightarrow> u32 list" where
  "words_at p n m = map (\<lambda>i. word_at (p + of_nat (4 * i)) m) [0..<n]"

lemma words_at_nth: "i < n \<Longrightarrow> words_at p n m ! i = word_at (p + of_nat (4 * i)) m"
  by (simp add: words_at_def)

lemma words_at_bytes:
  "bytes_at p (4 * length ws + k) m = concat (map bytes32 ws) @ X \<Longrightarrow> words_at p (length ws) m = ws"
proof (induction ws arbitrary: p)
  case Nil
  then show ?case by (simp add: words_at_def)
next
  case (Cons w ws)
  have "bytes_at p (4 + (4 * length ws + k)) m = bytes32 w @ (concat (map bytes32 ws) @ X)" using Cons.prems by (simp add: add.assoc)
  then have b: "bytes_at p 4 m = bytes32 w" "bytes_at (p + of_nat 4) (4 * length ws + k) m = concat (map bytes32 ws) @ X"
    unfolding bytes_at_append by (simp_all add: append_eq_append_conv)
  have "words_at p (Suc (length ws)) m = word_at p m # words_at (p + of_nat 4) (length ws) m"
    by (simp add: words_at_def upt_conv_Cons map_Suc_upt [symmetric] add.assoc del: upt_Suc)
  then show ?case using Cons.IH [OF b(2)] b(1) by (simp add: word_at_def word_of_bytes32)
qed

lemma block_tops_strings:
  "L = X @ blocks strs @ Y \<Longrightarrow>
    list_all2 (\<lambda>t str. t \<le> length L \<and> length str < t \<and> take (Suc (length str)) (drop (length L - t) L) = str @ [0]) (block_tops strs (length Y)) strs"
proof (induction strs arbitrary: X Y)
  case (Cons str strs)
  have L: "L = X @ blocks strs @ (string_block str @ Y)" using Cons.prems by (simp add: blocks_Cons)
  have d: "drop (length L - (length (string_block str) + length Y)) L = string_block str @ Y" using L by simp
  have "take (Suc (length str)) (drop (length L - (length (string_block str) + length Y)) L) = str @ [0]"
    unfolding d by (rule string_block_zero)
  then show ?case using Cons.IH [OF L] L string_block_length(2) [of str] by (simp add: Let_def)
qed simp

lemma rep_string:
  assumes r: "stack_rep L s" and t: "t \<le> length L" "n \<le> t"
  shows "bytes_at (sk_page s + of_nat (4096 - t)) n (sk_mem s) = take n (drop (length L - t) L)"
proof -
  have L: "bytes_at (sk_current s) (length L) (sk_mem s) = L" "sk_current s = sk_page s + of_nat (4096 - length L)" "length L \<le> 4096"
    using r by (auto simp: stack_rep_def)
  have "(4096 - length L) + (length L - t) = 4096 - t" using t L(3) by simp
  then have "sk_current s + of_nat (length L - t) = sk_page s + of_nat (4096 - t)"
    unfolding L(2) by (metis add.assoc of_nat_add)
  then have "drop (length L - t) (bytes_at (sk_current s) (length L) (sk_mem s)) = bytes_at (sk_page s + of_nat (4096 - t)) t (sk_mem s)"
    using bytes_at_drop [of "length L - t" "length L" "sk_current s" "sk_mem s"] t by simp
  then show ?thesis using bytes_at_take [OF t(2)] by (simp add: L(1))
qed

lemma rep_bytes: "stack_rep L s \<Longrightarrow> bytes_at (sk_current s) (length L) (sk_mem s) = L"
  unfolding stack_rep_def by blast

lemma rep_words:
  assumes "stack_rep (concat (map bytes32 ws) @ X) s"
  shows "words_at (sk_current s) (length ws) (sk_mem s) = ws"
proof -
  have "length (concat (map bytes32 ws) @ X) = 4 * length ws + length X"
    by (simp add: length_concat comp_def sum_list_triv)
  then have "bytes_at (sk_current s) (4 * length ws + length X) (sk_mem s) = concat (map bytes32 ws) @ X"
    using assms unfolding stack_rep_def by metis
  then show ?thesis by (rule words_at_bytes)
qed

text \<open>Strings as a program finds them: user addresses of the page that starts at \<open>U\<close>, seen by the kernel at \<open>sk_page\<close>.\<close>

definition strings_loaded :: "u32 \<Rightarrow> kstack \<Rightarrow> u32 list \<Rightarrow> u8 list list \<Rightarrow> bool" where
  "strings_loaded U s us strs \<longleftrightarrow>
    list_all2 (\<lambda>u str. bytes_at (sk_page s + (u - U)) (Suc (length str)) (sk_mem s) = str @ [0]) us strs"

lemma rep_strings:
  assumes r: "stack_rep L s" and L: "L = X @ blocks strs @ Y"
  shows "strings_loaded U s (map (\<lambda>t. U + of_nat (4096 - t)) (block_tops strs (length Y))) strs"
  unfolding strings_loaded_def list_all2_map1
  by (rule list_all2_mono [OF block_tops_strings [OF L]]) (simp add: rep_string [OF r] Suc_le_eq)

text \<open>What \<^verbatim>\<open>loadArgv\<close> leaves on the page that starts at \<open>U\<close>: the words, then the blocks of the strings.\<close>

definition arg_pointers :: "u32 \<Rightarrow> u8 list list \<Rightarrow> u32 list" where
  "arg_pointers U argv = map (\<lambda>t. U + of_nat (4096 - t)) (block_tops argv 0)"

definition env_pointers :: "u32 \<Rightarrow> u8 list list \<Rightarrow> u8 list list \<Rightarrow> u32 list" where
  "env_pointers U argv envp = map (\<lambda>t. U + of_nat (4096 - t)) (block_tops envp (length (blocks argv)))"

definition stack_words :: "u32 \<Rightarrow> u8 list list \<Rightarrow> u8 list list \<Rightarrow> u32 list" where
  "stack_words U argv envp = of_nat (length argv) # arg_pointers U argv @ 0 # env_pointers U argv envp @ [0, AT_PAGESZ, 4096, AT_NULL, 0]"

definition stack_image :: "u32 \<Rightarrow> u8 list list \<Rightarrow> u8 list list \<Rightarrow> u8 list" where
  "stack_image U argv envp = concat (map bytes32 (stack_words U argv envp)) @ blocks envp @ blocks argv"

definition arguments_fit :: "u8 list list \<Rightarrow> u8 list list \<Rightarrow> bool" where
  "arguments_fit argv envp \<longleftrightarrow> (\<Sum>str\<leftarrow>argv @ envp. (length str + 4) div 4 * 4) + 4 * (length argv + length envp + 7) \<le> 4096"

lemma block_tops_length [simp]: "length (block_tops strs k) = length strs"
  by (induction strs arbitrary: k) (simp_all add: Let_def)

lemma stack_words_length: "length (stack_words U argv envp) = length argv + length envp + 7"
  by (simp add: stack_words_def arg_pointers_def env_pointers_def)

lemma stack_image_length:
  assumes "arguments_fit argv envp"
  shows "length (blocks argv) + length (blocks envp) + 4 * (length argv + length envp + 7) \<le> 4096"
    "length (stack_image U argv envp) \<le> 4096" "28 \<le> length (stack_image U argv envp)"
proof -
  have b: "length (blocks strs) = (\<Sum>str\<leftarrow>strs. (length str + 4) div 4 * 4)" for strs
    by (induction strs) (simp_all add: blocks_Cons string_block_length)
  then show l: "length (blocks argv) + length (blocks envp) + 4 * (length argv + length envp + 7) \<le> 4096"
    using assms by (simp add: arguments_fit_def)
  have "length (stack_image U argv envp) = 4 * (length argv + length envp + 7) + (length (blocks envp) + length (blocks argv))"
    using stack_words_length [of U argv envp] by (simp add: stack_image_def length_concat comp_def sum_list_triv)
  then show "length (stack_image U argv envp) \<le> 4096" "28 \<le> length (stack_image U argv envp)" using l by simp_all
qed

lemma loadArgv_image:
  assumes "page_aligned P" "unat P \<le> 0xFFFFE000" "page_aligned T" "arguments_fit argv envp"
  defines "L \<equiv> stack_image (T - 4096) argv envp"
  shows "\<exists>s. loadArgv argv envp (user_stack P T m) = Inr s \<and> stack_rep L s \<and> same_stack (user_stack P T m) s \<and>
    userEsp s = Inr (T - 4096 + of_nat (4096 - length L))"
proof -
  let ?U = "T - 4096" and ?s = "user_stack P T m"
  have T: "prevPage T = ?U" using assms(3) by (simp add: prevPage_def page_aligned_eq thisPage_def alignDown_def)
  have s0: "stack_rep [] ?s" "sk_entries ?s = [(sk_page ?s, ?U)]"
    using assms(1,2) by (simp_all add: stack_rep_def user_stack_def nextPage_aligned T bytes_at_def)
  note l = stack_image_length(1) [OF assms(4)]
  obtain s1 where s1: "push_strings argv ?s = Inr (arg_pointers ?U argv, s1)" "stack_rep (blocks argv) s1" "same_stack ?s s1"
    using push_strings_rep [OF s0(1) _ s0(2), of argv] l by (auto simp: arg_pointers_def)
  have e1: "sk_entries s1 = [(sk_page s1, ?U)]" using s1(3) s0(2) by (simp add: same_stack_def)
  obtain s2 where s2: "push_strings envp s1 = Inr (env_pointers ?U argv envp, s2)" "stack_rep (blocks envp @ blocks argv) s2" "same_stack s1 s2"
    using push_strings_rep [OF s1(2) _ e1, of envp] l by (auto simp: env_pointers_def)
  let ?vs = "[0, AT_NULL, 4096, AT_PAGESZ] @ [0] @ rev (env_pointers ?U argv envp) @ [0] @ rev (arg_pointers ?U argv) @ [of_nat (length (arg_pointers ?U argv))]"
  have rev: "rev ?vs = stack_words ?U argv envp" by (simp add: stack_words_def arg_pointers_def)
  have "4 * length ?vs + length (blocks envp @ blocks argv) \<le> 4096" using l by (simp add: arg_pointers_def env_pointers_def)
  from push_vals_rep [OF s2(2) this] obtain s3 where s3: "push_vals ?vs s2 = Inr s3" "stack_rep L s3" "same_stack s2 s3"
    unfolding rev by (auto simp: L_def stack_image_def)
  have e3: "sk_entries s3 = [(sk_page s3, ?U)]" using s3(3) s2(3) e1 by (simp add: same_stack_def)
  have "L \<noteq> []" using stack_image_length(3) [OF assms(4), of ?U] by (auto simp: L_def)
  from toUser_rep [OF s3(2) this e3] have "userEsp s3 = Inr (?U + of_nat (4096 - length L))" by (simp add: userEsp_def)
  moreover have "loadArgv argv envp ?s = Inr s3" unfolding loadArgv_vals using s1(1) s2(1) s3(1) by simp
  ultimately show ?thesis using s3(2) same_stack_trans [OF same_stack_trans [OF s1(3) s2(3)] s3(3)] by blast
qed

lemma image_contents:
  assumes r: "stack_rep (stack_image U argv envp) s"
  shows "words_at (sk_current s) (length argv + length envp + 7) (sk_mem s) =
      of_nat (length argv) # arg_pointers U argv @ 0 # env_pointers U argv envp @ [0, AT_PAGESZ, 4096, AT_NULL, 0]"
    "strings_loaded U s (arg_pointers U argv) argv" "strings_loaded U s (env_pointers U argv envp) envp"
proof -
  show "words_at (sk_current s) (length argv + length envp + 7) (sk_mem s) =
      of_nat (length argv) # arg_pointers U argv @ 0 # env_pointers U argv envp @ [0, AT_PAGESZ, 4096, AT_NULL, 0]"
    using rep_words [OF r [unfolded stack_image_def], unfolded stack_words_length] by (simp only: stack_words_def)
  show "strings_loaded U s (arg_pointers U argv) argv"
    using rep_strings [OF r, of "concat (map bytes32 (stack_words U argv envp)) @ blocks envp" argv "[]" U] by (simp add: stack_image_def arg_pointers_def)
  show "strings_loaded U s (env_pointers U argv envp) envp"
    using rep_strings [OF r, of "concat (map bytes32 (stack_words U argv envp))" envp "blocks argv" U] by (simp add: stack_image_def env_pointers_def)
qed

section \<open>Properties\<close>

text \<open>C25: a program that starts finds its arguments. When the strings and pointers fit the one page of its first stack,
  \<^verbatim>\<open>loadArgv\<close> returns, the stack pointer leads to the argument count, the argument pointers, a null, the environment
  pointers, a null and the auxiliary vector with the page size, and every pointer leads to its string with its terminator.\<close>

theorem program_finds_arguments:
  assumes "page_aligned P" "unat P \<le> 0xFFFFE000" "page_aligned T" "arguments_fit argv envp"
  shows "\<exists>s args envs. loadArgv argv envp (user_stack P T m) = Inr s \<and> userEsp s = Inr (T - P - 4096 + sk_current s) \<and>
    words_at (sk_current s) (length argv + length envp + 7) (sk_mem s) =
      of_nat (length argv) # args @ 0 # envs @ [0, AT_PAGESZ, 4096, AT_NULL, 0] \<and>
    strings_loaded (T - 4096) s args argv \<and> strings_loaded (T - 4096) s envs envp"
proof -
  obtain s where s: "loadArgv argv envp (user_stack P T m) = Inr s" "stack_rep (stack_image (T - 4096) argv envp) s" "same_stack (user_stack P T m) s"
    "userEsp s = Inr (T - 4096 + of_nat (4096 - length (stack_image (T - 4096) argv envp)))"
    using loadArgv_image [OF assms] by blast
  have "sk_current s = P + of_nat (4096 - length (stack_image (T - 4096) argv envp))"
    using s(2,3) by (simp add: stack_rep_def same_stack_def user_stack_def)
  then have "userEsp s = Inr (T - P - 4096 + sk_current s)" using s(4) by (simp add: algebra_simps)
  with s(1) image_contents [OF s(2)] show ?thesis by blast
qed

theorem program_finds_arguments_witness:
  "\<exists>s args envs. loadArgv [[0x6C, 0x73], [0x2D, 0x6C]] [[0x41]] (user_stack 0xD0000000 0xC0000000 (\<lambda>_. 0)) = Inr s \<and>
    words_at (sk_current s) 10 (sk_mem s) = 2 # args @ 0 # envs @ [0, AT_PAGESZ, 4096, AT_NULL, 0] \<and>
    strings_loaded 0xBFFFF000 s args [[0x6C, 0x73], [0x2D, 0x6C]] \<and> strings_loaded 0xBFFFF000 s envs [[0x41]]"
  using program_finds_arguments [of "0xD0000000" "0xC0000000" "[[0x6C, 0x73], [0x2D, 0x6C]]" "[[0x41]]" "\<lambda>_. 0"]
  by (auto simp: page_aligned_def arguments_fit_def)

text \<open>The page is never checked for: a program started with an argument of 4096 bytes or more takes the kernel out of it
  before any other argument is looked at, although the system call accepts such arguments.\<close>

theorem long_argument_overruns:
  assumes "page_aligned P" "0xC0000000 \<le> unat P" "unat P \<le> 0xFFFFE000" "page_aligned T" "4096 \<le> length str" "length str \<le> 0x80000000"
  shows "loadArgv (str # argv) envp (user_stack P T m) = Inl OutOfBounds"
proof -
  define n where "n = (length str + 4) div 4 * 4"
  have n: "4096 < n" "n \<le> 0x80000004" using assms(5,6) by (auto simp: n_def)
  let ?c = "P + 4096 - of_nat n :: u32"
  have "unat (P + 4096) = unat P + 4096" using assms(3) by (simp add: unat_word_ariths)
  moreover have "unat (of_nat n :: u32) = n" using n(2) by (simp add: unat_of_nat)
  ultimately have c: "unat ?c = unat P + 4096 - n" using n(2) assms(2) by (simp add: unat_sub word_le_nat_alt)
  then have "\<not> unat P \<le> unat ?c" using n(1) assms(2) by simp
  then have "push_bytes (string_block str) (user_stack P T m) = Inl OutOfBounds"
    using assms(1) by (simp add: push_bytes_def user_stack_def nextPage_aligned string_block_length n_def [symmetric] Let_def)
  then have "pushString str (user_stack P T m) = Inl OutOfBounds"
    by (simp add: pushString_def string_block_def Let_def add.commute)
  then show ?thesis by (simp add: loadArgv_def)
qed

theorem long_argument_overruns_witness:
  "loadArgv [replicate 4096 0x61] [] (user_stack 0xD0000000 0xC0000000 (\<lambda>_. 0)) = Inl OutOfBounds"
  using long_argument_overruns [of "0xD0000000" "0xC0000000" "replicate 4096 0x61" "[]" "[]" "\<lambda>_. 0"] by (simp add: page_aligned_def)

section \<open>What a switch saves\<close>

lemma push32_bytes:
  assumes "4 \<le> unat (c_esp (sw_cpu st))" "unat (c_esp (sw_cpu st)) + n \<le> 2 ^ 32"
  shows "bytes_at (c_esp (sw_cpu (push32 v st))) (4 + n) (sw_mem (push32 v st)) = bytes32 v @ bytes_at (c_esp (sw_cpu st)) n (sw_mem st)"
    "unat (c_esp (sw_cpu (push32 v st))) = unat (c_esp (sw_cpu st)) - 4"
proof -
  let ?e = "c_esp (sw_cpu st) - 4"
  have u: "unat ?e = unat (c_esp (sw_cpu st)) - 4" using assms(1) by (simp add: unat_sub word_le_nat_alt)
  have b: "unat ?e + length (bytes32 v) + n \<le> 2 ^ 32" "?e + of_nat (length (bytes32 v)) = c_esp (sw_cpu st)" using u assms by auto
  have "bytes_at ?e (length (bytes32 v) + n) (put_bytes ?e (bytes32 v) (sw_mem st)) = bytes32 v @ bytes_at (c_esp (sw_cpu st)) n (sw_mem st)"
    using put_bytes_same [of ?e "bytes32 v" "sw_mem st"] put_bytes_above [OF b(1), of "sw_mem st"] b(1)
    unfolding bytes_at_append b(2) by simp
  then show "bytes_at (c_esp (sw_cpu (push32 v st))) (4 + n) (sw_mem (push32 v st)) = bytes32 v @ bytes_at (c_esp (sw_cpu st)) n (sw_mem st)"
    "unat (c_esp (sw_cpu (push32 v st))) = unat (c_esp (sw_cpu st)) - 4"
    using u by (simp_all add: push32_def Let_def)
qed

lemma push32_fields [simp]:
  "sw_current (push32 v st) = sw_current st" "sw_userEsp (push32 v st) = sw_userEsp st" "sw_kernelEsp (push32 v st) = sw_kernelEsp st"
  "c_esp (sw_cpu (push32 v st)) = c_esp (sw_cpu st) - 4"
  by (simp_all add: push32_def Let_def)

lemma save_registers_fields:
  "sw_current (save_registers st) = sw_current st" "sw_userEsp (save_registers st) = sw_userEsp st"
  "sw_kernelEsp (save_registers st) = sw_kernelEsp st"
  "c_esp (sw_cpu (save_registers st)) = c_esp (sw_cpu st) - 20"
  by (simp_all add: save_registers_def Let_def)

lemma save_registers_bytes:
  assumes "20 \<le> unat (c_esp (sw_cpu st))" "unat (c_esp (sw_cpu st)) + 4 \<le> 2 ^ 32"
  shows "bytes_at (c_esp (sw_cpu st) - 20) 24 (sw_mem (save_registers st)) =
    concat (map bytes32 [c_ebp (sw_cpu st), c_edi (sw_cpu st), c_esi (sw_cpu st), c_ebx (sw_cpu st), c_flags (sw_cpu st)]) @
    bytes_at (c_esp (sw_cpu st)) 4 (sw_mem st)"
proof -
  define s1 where "s1 = push32 (c_flags (sw_cpu st)) st"
  define s2 where "s2 = push32 (c_ebx (sw_cpu st)) s1"
  define s3 where "s3 = push32 (c_esi (sw_cpu st)) s2"
  define s4 where "s4 = push32 (c_edi (sw_cpu st)) s3"
  have u: "unat (c_esp (sw_cpu s1)) = unat (c_esp (sw_cpu st)) - 4" unfolding s1_def by (rule push32_bytes(2) [of st 4]) (use assms in auto)
  have u2: "unat (c_esp (sw_cpu s2)) = unat (c_esp (sw_cpu st)) - 8" unfolding s2_def using push32_bytes(2) [of s1 8] u assms by simp
  have u3: "unat (c_esp (sw_cpu s3)) = unat (c_esp (sw_cpu st)) - 12" unfolding s3_def using push32_bytes(2) [of s2 12] u2 assms by simp
  have u4: "unat (c_esp (sw_cpu s4)) = unat (c_esp (sw_cpu st)) - 16" unfolding s4_def using push32_bytes(2) [of s3 16] u3 assms by simp
  note b = push32_bytes(1) [of st 4 "c_flags (sw_cpu st)", folded s1_def] push32_bytes(1) [of s1 8 "c_ebx (sw_cpu st)", folded s2_def]
    push32_bytes(1) [of s2 12 "c_esi (sw_cpu st)", folded s3_def] push32_bytes(1) [of s3 16 "c_edi (sw_cpu st)", folded s4_def]
    push32_bytes(1) [of s4 20 "c_ebp (sw_cpu st)"]
  have e: "save_registers st = push32 (c_ebp (sw_cpu st)) s4" by (simp add: save_registers_def s1_def s2_def s3_def s4_def Let_def)
  have "bytes_at (c_esp (sw_cpu (save_registers st))) 24 (sw_mem (save_registers st)) =
    concat (map bytes32 [c_ebp (sw_cpu st), c_edi (sw_cpu st), c_esi (sw_cpu st), c_ebx (sw_cpu st), c_flags (sw_cpu st)]) @
    bytes_at (c_esp (sw_cpu st)) 4 (sw_mem st)"
    using b u u2 u3 u4 assms unfolding e by simp
  then show ?thesis by (simp add: save_registers_fields)
qed

lemma push32_frame:
  assumes "4 \<le> unat (c_esp (sw_cpu st))" "\<not> in_block (c_esp (sw_cpu st) - 4) 4 x"
  shows "sw_mem (push32 v st) x = sw_mem st x"
proof -
  have "unat (c_esp (sw_cpu st) - 4) = unat (c_esp (sw_cpu st)) - 4" using assms(1) by (simp add: unat_sub word_le_nat_alt)
  moreover have "unat (c_esp (sw_cpu st)) < 4294967296" by (rule unat_lt_u32)
  ultimately have "unat (c_esp (sw_cpu st) - 4) + 4 \<le> 4294967296" using assms(1) by linarith
  then have "unat (c_esp (sw_cpu st) - 4) + length (bytes32 v) \<le> 2 ^ 32" by simp
  then show ?thesis using assms(2) by (simp add: push32_def Let_def put_bytes_exact)
qed

lemma save_registers_frame:
  assumes "20 \<le> unat (c_esp (sw_cpu st))" "\<not> in_block (c_esp (sw_cpu st) - 20) 20 x"
  shows "sw_mem (save_registers st) x = sw_mem st x"
proof -
  let ?E = "c_esp (sw_cpu st)"
  have u: "unat (?E - of_nat k) = unat ?E - k" if "k \<le> 20" for k
    using assms(1) that by (simp add: unat_sub word_le_nat_alt unat_of_nat)
  have k: "unat (?E - 4) = unat ?E - 4" "unat (?E - 8) = unat ?E - 8" "unat (?E - 12) = unat ?E - 12" "unat (?E - 16) = unat ?E - 16" "unat (?E - 20) = unat ?E - 20"
    using u [of 4] u [of 8] u [of 12] u [of 16] u [of 20] by simp_all
  have n: "\<not> in_block (?E - 4) 4 x" "\<not> in_block (?E - 8) 4 x" "\<not> in_block (?E - 12) 4 x" "\<not> in_block (?E - 16) 4 x" "\<not> in_block (?E - 20) 4 x"
    using assms unfolding in_block_def k by auto
  show ?thesis using n k assms(1) by (simp add: save_registers_def Let_def push32_frame diff_diff_eq)
qed

text \<open>C26: a task that is switched away from goes on where it was. Whatever runs in between, as long as it leaves the 24 bytes
  at the task's stack pointer and its control block alone, switching back returns to the caller with the same registers,
  flags and stack, and the kernel stack of the task is the one the next interrupt of user code will use.\<close>

theorem switch_returns:
  fixes s s2 :: switch_state
  defines "E \<equiv> c_esp (sw_cpu s)" and "F \<equiv> c_esp (sw_cpu s2)"
  assumes "20 \<le> unat E" "unat E + 4 \<le> 2 ^ 32" "20 \<le> unat F" "unat F \<le> unat E - 20 \<or> unat E + 4 \<le> unat F - 20"
    "t \<noteq> sw_current s" "sw_current s2 \<noteq> sw_current s" "sw_userEsp s2 (sw_current s) = sw_userEsp (switch_asm t s) (sw_current s)"
    "bytes_at (E - 20) 24 (sw_mem s2) = bytes_at (E - 20) 24 (sw_mem (switch_asm t s))"
  shows "sw_cpu (switch_asm (sw_current s) s2) = (sw_cpu s)\<lparr>c_esp := E + 4, c_eip := word_at E (sw_mem s)\<rparr> \<and>
    sw_current (switch_asm (sw_current s) s2) = sw_current s \<and> sw_esp0 (switch_asm (sw_current s) s2) = sw_kernelEsp s2 (sw_current s)"
proof -
  let ?ws = "[c_ebp (sw_cpu s), c_edi (sw_cpu s), c_esi (sw_cpu s), c_ebx (sw_cpu s), c_flags (sw_cpu s)]"
  have m1: "sw_mem (switch_asm t s) = sw_mem (save_registers s)" by (simp add: switch_asm_def restore_registers_def Let_def)
  have e1: "sw_userEsp (switch_asm t s) (sw_current s) = E - 20"
    using assms(7) by (simp add: switch_asm_def restore_registers_def Let_def save_registers_fields E_def)
  have uE: "unat (E - 20) = unat E - 20" and uF: "unat (F - 20) = unat F - 20" using assms(3,5) by (simp_all add: unat_sub word_le_nat_alt)
  have same: "bytes_at (E - 20) 24 (sw_mem (save_registers s2)) = bytes_at (E - 20) 24 (sw_mem s2)"
  proof (rule nth_equalityI)
    fix i assume "i < length (bytes_at (E - 20) 24 (sw_mem (save_registers s2)))"
    then have i: "i < 24" by simp
    have "unat (E - 20 + of_nat i) = unat E - 20 + i" using uE i assms(3,4) by (simp add: unat_word_ariths(1) [of "E - 20"] unat_of_nat)
    then have "\<not> in_block (F - 20) 20 (E - 20 + of_nat i)" using assms(3,5,6) i unfolding in_block_def uF by arith
    then show "bytes_at (E - 20) 24 (sw_mem (save_registers s2)) ! i = bytes_at (E - 20) 24 (sw_mem s2) ! i"
      using i save_registers_frame [of s2] assms(5) by (simp add: bytes_at_def F_def)
  qed simp
  have b: "bytes_at (E - 20) 24 (sw_mem (save_registers s2)) = concat (map bytes32 ?ws) @ bytes_at E 4 (sw_mem s)"
    unfolding same assms(10) m1 using save_registers_bytes [of s] assms(3,4) by (simp add: E_def)
  have ws: "words_at (E - 20) (length ?ws) (sw_mem (save_registers s2)) = ?ws"
    by (rule words_at_bytes [of _ _ 4]) (use b in simp)
  have w: "word_at (E - 20 + of_nat (4 * i)) (sw_mem (save_registers s2)) = ?ws ! i" if "i < length ?ws" for i
    unfolding words_at_nth [OF that, symmetric] ws ..
  have "bytes_at (E - 20 + of_nat 20) 4 (sw_mem (save_registers s2)) = bytes_at E 4 (sw_mem s)"
    using bytes_at_drop [of 20 24 "E - 20" "sw_mem (save_registers s2)"] unfolding b by simp
  then have r: "word_at (E - 20 + of_nat (4 * 5)) (sw_mem (save_registers s2)) = word_at E (sw_mem s)" by (simp add: word_at_def)
  have esp: "sw_userEsp (save_registers s2) (sw_current s) = E - 20" using assms(9) e1 by (simp add: save_registers_fields)
  show ?thesis unfolding switch_asm_def restore_registers_def Let_def using w [of 0] w [of 1] w [of 2] w [of 3] w [of 4] r esp assms(8)
    by (simp add: save_registers_fields)
qed

definition example_switch :: switch_state where
  "example_switch = \<lparr>sw_cpu = \<lparr>c_ebx = 1, c_esi = 2, c_edi = 3, c_ebp = 4, c_flags = 0x202, c_esp = 0xC0001000, c_eip = 0xC0100000\<rparr>,
    sw_mem = \<lambda>_. 0, sw_current = 0, sw_userEsp = \<lambda>_. 0xC0003000, sw_kernelEsp = \<lambda>_. 0xC0004000, sw_esp0 = 0\<rparr>"

theorem switch_returns_witness:
  "sw_cpu (switch_asm 0 (switch_asm 1 example_switch)) =
    \<lparr>c_ebx = 1, c_esi = 2, c_edi = 3, c_ebp = 4, c_flags = 0x202, c_esp = 0xC0001004, c_eip = 0\<rparr>"
proof -
  have e: "c_esp (sw_cpu (switch_asm 1 example_switch)) = 0xC0003018" "sw_current (switch_asm 1 example_switch) = 1"
    by (simp_all add: switch_asm_def restore_registers_def Let_def save_registers_fields example_switch_def)
  have x: "sw_current example_switch = 0" "c_esp (sw_cpu example_switch) = 0xC0001000" by (simp_all add: example_switch_def)
  have z: "word_at 0xC0001000 (\<lambda>_. 0) = 0" by (simp add: word_at_def word_of_bytes_def bytes_at_def)
  have "sw_cpu (switch_asm (sw_current example_switch) (switch_asm 1 example_switch)) =
    (sw_cpu example_switch)\<lparr>c_esp := c_esp (sw_cpu example_switch) + 4, c_eip := word_at (c_esp (sw_cpu example_switch)) (sw_mem example_switch)\<rparr>"
    by (rule conjunct1 [OF switch_returns [where t = 1]]) (simp_all only: e x, simp_all)
  then show ?thesis using z by (simp add: example_switch_def)
qed

text \<open>The stack a new task starts with is the one the switch expects. The first switch to the task enters
  \<^verbatim>\<open>taskWrapper\<close> with the function and its parameter as its arguments, with interrupts off.\<close>

theorem new_task_enters_wrapper:
  assumes "page_aligned P" "unat P \<le> 0xFFFFE000" "fillStack wrapper func param (kernel_stack P m) = Inr k"
    "sw_userEsp s t = sk_current k" "t \<noteq> sw_current s" "bytes_at (sk_current k) 36 (sw_mem (save_registers s)) = bytes_at (sk_current k) 36 (sk_mem k)"
  shows "c_eip (sw_cpu (switch_asm t s)) = wrapper \<and> c_flags (sw_cpu (switch_asm t s)) = 2 \<and>
    words_at (c_esp (sw_cpu (switch_asm t s))) 3 (sw_mem (switch_asm t s)) = [0x12345678, func, param]"
proof -
  let ?vs = "[param, func, 0x12345678, wrapper, 2, 0, 0, 0, 0]" and ?ws = "[0, 0, 0, 0, 2, wrapper, 0x12345678, func, param]"
  have "stack_rep [] (kernel_stack P m)"
    using assms(1,2) by (simp add: stack_rep_def kernel_stack_def nextPage_aligned bytes_at_def)
  from push_vals_rep [OF this, of ?vs] assms(3) have r: "stack_rep (concat (map bytes32 ?ws) @ []) k" by (auto simp: fillStack_def)
  let ?m = "sw_mem (save_registers s)"
  have "bytes_at (sk_current k) 36 (sk_mem k) = concat (map bytes32 ?ws) @ []" using rep_bytes [OF r] by simp
  then have b: "bytes_at (sk_current k) (4 * length ?ws + 0) ?m = concat (map bytes32 ?ws) @ []" using assms(6) by simp
  note ws = words_at_bytes [OF b]
  have w: "word_at (sk_current k + of_nat (4 * i)) ?m = ?ws ! i" if "i < length ?ws" for i
    unfolding words_at_nth [OF that, symmetric] ws ..
  have sw: "c_esp (sw_cpu (switch_asm t s)) = sk_current k + 24" "sw_mem (switch_asm t s) = ?m"
    "c_eip (sw_cpu (switch_asm t s)) = word_at (sk_current k + of_nat (4 * 5)) ?m" "c_flags (sw_cpu (switch_asm t s)) = word_at (sk_current k + of_nat (4 * 4)) ?m"
    using assms(4,5) by (simp_all add: switch_asm_def restore_registers_def Let_def save_registers_fields)
  have "words_at (sk_current k + 24) 3 ?m = [word_at (sk_current k + of_nat (4 * 6)) ?m, word_at (sk_current k + of_nat (4 * 7)) ?m, word_at (sk_current k + of_nat (4 * 8)) ?m]"
    by (simp add: words_at_def upt_rec add.assoc)
  then show ?thesis unfolding sw using w [of 4] w [of 5] w [of 6] w [of 7] w [of 8] by simp
qed

theorem new_task_enters_wrapper_witness:
  "\<exists>k s :: switch_state. fillStack 0xC0101000 0xC0102000 7 (kernel_stack 0xD0000000 (\<lambda>_. 0)) = Inr k \<and>
    c_eip (sw_cpu (switch_asm 1 s)) = 0xC0101000 \<and> words_at (c_esp (sw_cpu (switch_asm 1 s))) 3 (sw_mem (switch_asm 1 s)) = [0x12345678, 0xC0102000, 7]"
proof -
  have "stack_rep [] (kernel_stack 0xD0000000 (\<lambda>_. 0))"
    by (simp add: stack_rep_def kernel_stack_def nextPage_aligned bytes_at_def page_aligned_def)
  from push_vals_rep [OF this, of "[7, 0xC0102000, 0x12345678, 0xC0101000, 2, 0, 0, 0, 0]"]
  obtain k where k: "fillStack 0xC0101000 0xC0102000 7 (kernel_stack 0xD0000000 (\<lambda>_. 0)) = Inr k" "same_stack (kernel_stack 0xD0000000 (\<lambda>_. 0)) k"
    "stack_rep (concat (map bytes32 [0, 0, 0, 0, 2, 0xC0101000, 0x12345678, 0xC0102000, 7])) k"
    by (auto simp: fillStack_def)
  have c: "sk_current k = 0xD0000FDC" using k(2,3) by (simp add: stack_rep_def same_stack_def kernel_stack_def)
  define s where "s = example_switch\<lparr>sw_mem := sk_mem k, sw_userEsp := \<lambda>_. sk_current k\<rparr>"
  have s: "c_esp (sw_cpu s) = 0xC0001000" "sw_mem s = sk_mem k" "sw_userEsp s 1 = sk_current k" "1 \<noteq> sw_current s"
    by (simp_all add: s_def example_switch_def)
  have "bytes_at (sk_current k) 36 (sw_mem (save_registers s)) = bytes_at (sk_current k) 36 (sw_mem s)"
  proof (rule nth_equalityI)
    fix i assume "i < length (bytes_at (sk_current k) 36 (sw_mem (save_registers s)))"
    then have i: "i < 36" by simp
    have "unat (0xD0000FDC + of_nat i :: u32) = 0xD0000FDC + i" using i by (simp add: unat_word_ariths unat_of_nat)
    then have "\<not> in_block (c_esp (sw_cpu s) - 20) 20 (sk_current k + of_nat i)" by (simp add: in_block_def s c)
    then show "bytes_at (sk_current k) 36 (sw_mem (save_registers s)) ! i = bytes_at (sk_current k) 36 (sw_mem s) ! i"
      using i save_registers_frame [of s] s(1) by (simp add: bytes_at_def)
  qed simp
  then have "bytes_at (sk_current k) 36 (sw_mem (save_registers s)) = bytes_at (sk_current k) 36 (sk_mem k)" unfolding s(2) .
  from new_task_enters_wrapper [OF _ _ k(1) s(3,4) this] k(1) show ?thesis by (auto simp: page_aligned_def)
qed

end
