(* ===== verification/Nyan_UserDir.thy ===== *)
theory Nyan_UserDir
  imports Nyan_Paging
begin

unbundle bit_operations_syntax

text \<open>
  What \<^verbatim>\<open>UserDirectory::alloc\<close> means to a program. The directory, its tables and the pages they map are frames held by the
  directory, all different (\<open>user_ok\<close>); allocating a page takes fresh frames for the page and, when
  needed, its table, and changes the translation of that one page. A caller writes through the mapper it gets and closes
  it at the end of its scope: \<open>fill_page\<close>.
\<close>

section \<open>Allocating and filling a page\<close>

definition fill_page :: "paddr \<Rightarrow> vaddr \<Rightarrow> bool \<Rightarrow> (words \<Rightarrow> words) \<Rightarrow> paging_state \<Rightarrow> (unit \<times> paging_state) exec" where
  "fill_page d addr writable fill = pbind (dir_alloc d addr writable) (\<lambda>m.
    pbind (\<lambda>st. Inr ((), set_words (mg_paddr m) (fill (frame_words st (mg_paddr m))) st)) (\<lambda>_. mapper_close m))"

definition ensure_plain :: "paddr \<Rightarrow> nat \<Rightarrow> u32 \<Rightarrow> paging_state \<Rightarrow> (unit \<times> paging_state) exec" where
  "ensure_plain d loc attr st = (if \<not> entry_isPresent (dir_entry d loc st)
    then pbind phys_alloc (\<lambda>p st. Inr ((), dir_set d p loc attr (set_words p table_clear st))) st else Inr ((), st))"

definition page_plain :: "paddr \<Rightarrow> vaddr \<Rightarrow> u32 \<Rightarrow> (words \<Rightarrow> words) \<Rightarrow> paging_state \<Rightarrow> (unit \<times> paging_state) exec" where
  "page_plain t addr attr fill = pbind (table_alloc t addr attr) (\<lambda>p st. Inr ((), set_words p (fill table_clear) st))"

definition page_attr :: "bool \<Rightarrow> u32" where
  "page_attr writable = PTE_Present OR (if writable then PTE_ReadWrite else 0) OR PTE_User"

definition fill_plain :: "paddr \<Rightarrow> vaddr \<Rightarrow> bool \<Rightarrow> (words \<Rightarrow> words) \<Rightarrow> paging_state \<Rightarrow> (unit \<times> paging_state) exec" where
  "fill_plain d addr writable fill = pbind (ensure_plain d (tableLoc addr) (PDE_Present OR PDE_ReadWrite OR PDE_User))
    (\<lambda>_ st. page_plain (entry_at (dir_entry d (tableLoc addr) st)) addr (page_attr writable) fill st)"

lemma window_blind_set: "window_blind (\<lambda>st. Inr (r, set_words p (f st) st))" if "\<And>st vf kd kt. f (set_window vf kd kt st) = f st"
  using that by (simp add: window_blind_def)

lemma window_blind_dir_set: "window_blind (\<lambda>st. Inr ((), dir_set d p loc attr (set_words p table_clear st)))"
  by (simp add: window_blind_def dir_set_def)

lemma ensure_transparent: "transparent 1 (dir_ensure d loc attr) (ensure_plain d loc attr)"
proof -
  let ?b = "\<lambda>p st. Inr ((), dir_set d p loc attr (set_words p table_clear st))"
  have "transparent 1 (with_mapper p (?b p)) (?b p)" for p
    using transparent_with_mapper [OF transparent_blind [OF window_blind_dir_set], of 0] by simp
  then have "transparent 1 (pbind phys_alloc (\<lambda>p. with_mapper p (?b p))) (pbind phys_alloc ?b)"
    by (intro transparent_pbind transparent_blind window_blind_prims)
  from transparent_if [OF this transparent_blind [OF window_blind_prims(4) [of "()"]], of "\<lambda>st. \<not> entry_isPresent (dir_entry d loc st)"]
  show ?thesis unfolding dir_ensure_def [abs_def] ensure_plain_def [abs_def] by (simp add: preturn_def cong: if_cong)
qed

lemma table_alloc_blind: "window_blind (table_alloc t addr attr)"
  unfolding table_alloc_def by (intro window_blind_pbind window_blind_prims) (simp add: window_blind_def)

lemma pbind_assoc: "pbind (pbind m f) g = pbind m (\<lambda>a. pbind (f a) g)"
  by (rule ext) (auto simp: pbind_def sbind_def split: sum.splits prod.splits)

lemma mapper_paddr: "mapper_open p st = Inr (m, st') \<Longrightarrow> mg_paddr m = p"
  by (auto simp: mapper_open_def sbind_def pbind_def preturn_def split: sum.splits prod.splits)

lemma fill_with_mapper:
  "pbind (pbind (mapper_open p) (\<lambda>m st. Inr (m, set_words p table_clear st))) (\<lambda>m.
     pbind (\<lambda>st. Inr ((), set_words (mg_paddr m) (fill (frame_words st (mg_paddr m))) st)) (\<lambda>_. mapper_close m)) =
   with_mapper p (\<lambda>st. Inr ((), set_words p (fill table_clear) st))"
  by (rule ext) (auto simp: with_mapper_def pbind_def sbind_def preturn_def set_words_def frame_words_def dest!: mapper_paddr
    split: sum.splits prod.splits)

lemma fill_transparent: "transparent 1 (fill_page d addr writable fill) (fill_plain d addr writable fill)"
proof -
  let ?pde = "PDE_Present OR PDE_ReadWrite OR PDE_User" and ?loc = "tableLoc addr" and ?set = "\<lambda>p st. Inr ((), set_words p (fill table_clear) st)"
  have set: "transparent 1 (with_mapper p (?set p)) (?set p)" for p
    using transparent_with_mapper [OF transparent_blind [OF window_blind_set [of "\<lambda>_. fill table_clear" "()" p]], of 0] by simp
  have "transparent 0 (table_alloc t addr (page_attr writable)) (table_alloc t addr (page_attr writable))" for t
    by (rule transparent_blind [OF table_alloc_blind])
  from dir_with_transparent [OF this] have dw: "transparent 1 (dir_with d ?loc (\<lambda>t. table_alloc t addr (page_attr writable)))
      (\<lambda>st. table_alloc (entry_at (dir_entry d ?loc st)) addr (page_attr writable) st)" by simp
  have e: "fill_page d addr writable fill = pbind (dir_ensure d ?loc ?pde) (\<lambda>_.
      pbind (dir_with d ?loc (\<lambda>t. table_alloc t addr (page_attr writable))) (\<lambda>p. with_mapper p (?set p)))"
    unfolding fill_page_def dir_alloc_def pbind_assoc page_attr_def [symmetric] fill_with_mapper [symmetric] ..
  have f: "fill_plain d addr writable fill = pbind (ensure_plain d ?loc ?pde) (\<lambda>_.
      pbind (\<lambda>st. table_alloc (entry_at (dir_entry d ?loc st)) addr (page_attr writable) st) ?set)"
    by (rule ext) (simp add: fill_plain_def page_plain_def pbind_def)
  show ?thesis unfolding e f by (intro transparent_pbind ensure_transparent dw set)
qed

lemma transparent_pfor: "(\<And>v. transparent n (f v) (g v)) \<Longrightarrow> transparent n (pfor f vs) (pfor g vs)"
proof (induction vs)
  case Nil
  show ?case using transparent_blind [OF window_blind_prims(4) [of "()"]] by simp
next
  case (Cons v vs)
  then show ?case by (simp add: transparent_pbind)
qed

section \<open>Directories of programs\<close>

abbreviation table_of :: "paddr \<Rightarrow> nat \<Rightarrow> paging_state \<Rightarrow> paddr" where
  "table_of d i st \<equiv> entry_at (dir_entry d i st)"

definition user_tables :: "paddr \<Rightarrow> paging_state \<Rightarrow> nat set" where
  "user_tables d st = {i. i < 768 \<and> entry_isPresent (dir_entry d i st)}"

text \<open>The pages a directory maps below the kernel, as pairs of a table and an index in it.\<close>

definition user_pages :: "paddr \<Rightarrow> paging_state \<Rightarrow> (nat \<times> nat) set" where
  "user_pages d st = {(i, j). i \<in> user_tables d st \<and> j < 1024 \<and> entry_isPresent (frame_words st (table_of d i st) j)}"

definition page_frame :: "paddr \<Rightarrow> paging_state \<Rightarrow> nat \<times> nat \<Rightarrow> paddr" where
  "page_frame d st ij = entry_at (frame_words st (table_of d (fst ij) st) (snd ij))"

definition user_ok :: "paging_state \<Rightarrow> paddr \<Rightarrow> u32 multiset \<Rightarrow> bool" where
  "user_ok st d H \<longleftrightarrow> phys_rel (ps_frames st) H \<and> d \<in># H \<and>
    (\<forall>i\<in>user_tables d st. table_of d i st \<in># H \<and> table_of d i st \<noteq> d) \<and> inj_on (\<lambda>i. table_of d i st) (user_tables d st) \<and>
    (\<forall>p\<in>user_pages d st. page_frame d st p \<in># H \<and> page_frame d st p \<noteq> d \<and> (\<forall>i\<in>user_tables d st. page_frame d st p \<noteq> table_of d i st)) \<and>
    inj_on (page_frame d st) (user_pages d st)"

text \<open>The references to physical frames a directory has: one for itself, one for each table and one for each page.\<close>

definition dir_refs :: "paddr \<Rightarrow> paging_state \<Rightarrow> u32 multiset" where
  "dir_refs d st = add_mset d (image_mset (\<lambda>i. table_of d i st) (mset_set (user_tables d st)) +
    image_mset (page_frame d st) (mset_set (user_pages d st)))"

lemma finite_user_tables [simp]: "finite (user_tables d st)"
  by (rule finite_subset [of _ "{..<768}"]) (auto simp: user_tables_def)

lemma finite_user_pages [simp]: "finite (user_pages d st)"
  by (rule finite_subset [of _ "{..<768} \<times> {..<1024}"]) (auto simp: user_pages_def user_tables_def)

lemma dir_refs_set: "set_mset (dir_refs d st) = insert d ((\<lambda>i. table_of d i st) ` user_tables d st \<union> page_frame d st ` user_pages d st)"
  by (simp add: dir_refs_def)

definition same_window :: "paging_state \<Rightarrow> paging_state \<Rightarrow> bool" where
  "same_window st st' \<longleftrightarrow> ps_vframes st' = ps_vframes st \<and> ps_kdir st' = ps_kdir st \<and> ps_ktab st' = ps_ktab st"

lemma same_window_words [simp]: "same_window st (set_words p ws st') \<longleftrightarrow> same_window st st'" "same_window st (st'\<lparr>ps_frames := f\<rparr>) \<longleftrightarrow> same_window st st'"
  by (simp_all add: same_window_def set_words_def)

lemma same_window_set: "same_window st st' \<longleftrightarrow> set_window (ps_vframes st) (ps_kdir st) (ps_ktab st) st' = st'"
  unfolding same_window_def by (metis set_window_fields(3-5) set_window_id)

text \<open>From \<open>st\<close> to \<open>st'\<close> the directory takes fresh frames only, holds each of them once, and writes no other held frame.\<close>

definition dir_grows :: "paddr \<Rightarrow> u32 multiset \<Rightarrow> paging_state \<Rightarrow> u32 multiset \<Rightarrow> paging_state \<Rightarrow> bool" where
  "dir_grows d H st H' st' \<longleftrightarrow> H \<subseteq># H' \<and> H' + dir_refs d st = H + dir_refs d st' \<and>
    (\<forall>q. q \<in># H \<longrightarrow> q \<notin># dir_refs d st \<longrightarrow> q \<notin># dir_refs d st' \<and> ps_mem st' q = ps_mem st q) \<and> same_window st st'"

lemma dir_grows_refl [simp]: "dir_grows d H st H st"
  by (simp add: dir_grows_def same_window_def)

lemma dir_grows_trans:
  assumes "dir_grows d H st H1 s1" "dir_grows d H1 s1 H2 s2"
  shows "dir_grows d H st H2 s2"
proof -
  have e: "H1 + dir_refs d st = H + dir_refs d s1" "H2 + dir_refs d s1 = H1 + dir_refs d s2" using assms by (simp_all add: dir_grows_def)
  have "H2 + dir_refs d st + dir_refs d s1 = H1 + dir_refs d s2 + dir_refs d st" by (simp add: add.commute add.left_commute flip: e(2))
  also have "\<dots> = H + dir_refs d s2 + dir_refs d s1" using e(1) by (simp add: ac_simps)
  finally have "H2 + dir_refs d st = H + dir_refs d s2" by simp
  moreover have "H \<subseteq># H2" using assms subset_mset.order_trans by (auto simp: dir_grows_def)
  moreover have "\<forall>q. q \<in># H \<longrightarrow> q \<in># H1" using assms(1) mset_subset_eqD by (auto simp: dir_grows_def)
  moreover have "same_window st s2" using assms by (simp add: dir_grows_def same_window_def)
  ultimately show ?thesis using assms by (simp add: dir_grows_def)
qed

lemma dir_grows_add:
  assumes "dir_refs d st' = add_mset a (dir_refs d st)" "a \<notin># H" "\<And>q. q \<notin># dir_refs d st \<Longrightarrow> q \<noteq> a \<Longrightarrow> ps_mem st' q = ps_mem st q"
    "same_window st st'"
  shows "dir_grows d H st (add_mset a H) st'"
  using assms by (auto simp: dir_grows_def)

lemma alloc_aligned: "physicalFrameAlloc f = Inr (f', a) \<Longrightarrow> page_aligned a"
  using pageAt_aligned by (auto simp: physicalFrameAlloc_def sbind_eq_Inr_iff aligned_bits split: if_splits)

text \<open>A fresh frame that becomes an empty table changes no translation.\<close>

lemma present_entry: "page_aligned a \<Longrightarrow> bit f 0 \<Longrightarrow> f AND NOT 0xFFF = 0 \<Longrightarrow> entry_isPresent (a OR f) \<and> entry_at (a OR f) = a"
  by (simp add: isPresent_or entry_split(1) del: word_and_not_eq_minus)

lemma not_present_zero: "\<not> entry_isPresent 0"
  by (simp add: entry_isPresent_def)

lemma ensure_law:
  assumes ok: "user_ok st d H" and loc: "loc < 768" and al: "\<not> entry_isPresent (dir_entry d loc st)"
    and a: "physicalFrameAlloc (ps_frames st) = Inr (f, a)" and attr: "bit attr 0" "attr AND NOT 0xFFF = 0"
  defines "st' \<equiv> dir_set d a loc attr (set_words a table_clear (st\<lparr>ps_frames := f\<rparr>))"
  shows "ensure_plain d loc attr st = Inr ((), st')" "user_ok st' d (add_mset a H)" "user_tables d st' = insert loc (user_tables d st)"
    "user_pages d st' = user_pages d st" "\<And>p. p \<in> user_pages d st \<Longrightarrow> page_frame d st' p = page_frame d st p"
    "\<And>q. q \<noteq> d \<Longrightarrow> q \<noteq> a \<Longrightarrow> ps_mem st' q = ps_mem st q"
    "\<And>i j. i \<in> user_tables d st \<Longrightarrow> frame_words st' (table_of d i st') j = frame_words st (table_of d i st) j"
    "table_of d loc st' = a" "\<And>j. j < 1024 \<Longrightarrow> frame_words st' a j = 0"
proof -
  note A = phys_rel_alloc [OF _ a, of H]
  have rel: "phys_rel f (add_mset a H)" "a \<notin># H" using A ok by (auto simp: user_ok_def)
  have da: "d \<noteq> a" using rel(2) ok by (auto simp: user_ok_def)
  note e = present_entry [OF alloc_aligned [OF a] attr]
  have ent: "dir_entry d i st' = (if i = loc then a OR attr else dir_entry d i st)" for i
    using da by (simp add: st'_def dir_set_def set_words_def frame_words_def dir_entry_def)
  show mem: "\<And>q. q \<noteq> d \<Longrightarrow> q \<noteq> a \<Longrightarrow> ps_mem st' q = ps_mem st q"
    by (simp add: st'_def dir_set_def set_words_def)
  have fr: "ps_frames st' = f" by (simp add: st'_def dir_set_def set_words_def)
  show "ensure_plain d loc attr st = Inr ((), st')" using al a by (simp add: ensure_plain_def pbind_def phys_alloc_def st'_def)
  show tabs: "user_tables d st' = insert loc (user_tables d st)" using e loc by (auto simp: user_tables_def ent)
  have nloc: "loc \<notin> user_tables d st" using al by (simp add: user_tables_def)
  show tl: "table_of d loc st' = a" using e by (simp add: ent)
  show za: "\<And>j. j < 1024 \<Longrightarrow> frame_words st' a j = 0"
    using da by (simp add: st'_def dir_set_def set_words_def frame_words_def table_clear_def)
  have T: "table_of d i st' = table_of d i st" "table_of d i st \<noteq> a" "table_of d i st \<noteq> d" if "i \<in> user_tables d st" for i
    using that nloc ok rel(2) by (auto simp: ent user_ok_def)
  show tw: "\<And>i j. i \<in> user_tables d st \<Longrightarrow> frame_words st' (table_of d i st') j = frame_words st (table_of d i st) j"
    using T mem by (simp add: frame_words_def)
  show pages: "user_pages d st' = user_pages d st"
    using tabs tw nloc tl za not_present_zero by (auto simp: user_pages_def)
  show pf: "\<And>p. p \<in> user_pages d st \<Longrightarrow> page_frame d st' p = page_frame d st p"
    using tw by (auto simp: page_frame_def user_pages_def)
  have P: "page_frame d st p \<in># H" "page_frame d st p \<noteq> a" if "p \<in> user_pages d st" for p
    using that ok rel(2) by (auto simp: user_ok_def)
  have "inj_on (\<lambda>i. table_of d i st') (user_tables d st')"
  proof (rule inj_onI)
    fix i j assume ij: "i \<in> user_tables d st'" "j \<in> user_tables d st'" "table_of d i st' = table_of d j st'"
    have "inj_on (\<lambda>i. table_of d i st) (user_tables d st)" using ok by (simp add: user_ok_def)
    then show "i = j" using ij T tl unfolding tabs by (cases "i = loc"; cases "j = loc") (auto dest: inj_onD)
  qed
  moreover have "inj_on (page_frame d st') (user_pages d st')" unfolding pages
    using ok inj_on_cong [of "user_pages d st" "page_frame d st'" "page_frame d st"] pf by (simp add: user_ok_def)
  moreover have "\<forall>i\<in>user_tables d st'. table_of d i st' \<in># add_mset a H \<and> table_of d i st' \<noteq> d"
    unfolding tabs using T tl da ok by (auto simp: user_ok_def)
  moreover have "\<forall>p\<in>user_pages d st'. page_frame d st' p \<in># add_mset a H \<and> page_frame d st' p \<noteq> d \<and> (\<forall>i\<in>user_tables d st'. page_frame d st' p \<noteq> table_of d i st')"
    unfolding pages tabs using pf P T tl ok by (auto simp: user_ok_def)
  moreover have "d \<in># add_mset a H" using ok by (simp add: user_ok_def)
  ultimately show "user_ok st' d (add_mset a H)" unfolding user_ok_def fr using rel(1) by blast
qed

lemma page_law:
  fixes fill :: "words \<Rightarrow> words"
  assumes ok: "user_ok st d H" and i: "tableLoc addr \<in> user_tables d st" and new: "(tableLoc addr, tablePageLoc addr) \<notin> user_pages d st"
    and a: "physicalFrameAlloc (ps_frames st) = Inr (f, a)" and attr: "bit attr 0" "attr AND NOT 0xFFF = 0"
  defines "t \<equiv> table_of d (tableLoc addr) st"
  defines "st' \<equiv> set_words a (fill table_clear) (set_words t (table_map (frame_words st t) addr a attr) (st\<lparr>ps_frames := f\<rparr>))"
  shows "page_plain t addr attr fill st = Inr ((), st')" "user_ok st' d (add_mset a H)" "user_tables d st' = user_tables d st"
    "user_pages d st' = insert (tableLoc addr, tablePageLoc addr) (user_pages d st)"
    "\<And>p. p \<in> user_pages d st \<Longrightarrow> page_frame d st' p = page_frame d st p"
    "page_frame d st' (tableLoc addr, tablePageLoc addr) = a" "ps_mem st' a = fill table_clear"
    "\<And>q. q \<noteq> t \<Longrightarrow> q \<noteq> a \<Longrightarrow> ps_mem st' q = ps_mem st q"
    "frame_words st' t (tablePageLoc addr) = a OR attr"
    "\<And>i j. i \<in> user_tables d st \<Longrightarrow> (i, j) \<noteq> (tableLoc addr, tablePageLoc addr) \<Longrightarrow> frame_words st' (table_of d i st') j = frame_words st (table_of d i st) j"
proof -
  let ?ij = "(tableLoc addr, tablePageLoc addr)"
  note A = phys_rel_alloc [OF _ a, of H]
  have rel: "phys_rel f (add_mset a H)" "a \<notin># H" using A ok by (auto simp: user_ok_def)
  have t: "t \<in># H" "t \<noteq> d" "t \<noteq> a" "d \<noteq> a" using ok i rel(2) by (auto simp: user_ok_def t_def)
  note e = present_entry [OF alloc_aligned [OF a] attr]
  have al: "thisPage a = a" using alloc_aligned [OF a] by (simp add: page_aligned_eq)
  have j: "tablePageLoc addr < 1024" using address_parts [of addr] by simp
  have fr: "ps_frames st' = f" by (simp add: st'_def set_words_def)
  show mem: "\<And>q. q \<noteq> t \<Longrightarrow> q \<noteq> a \<Longrightarrow> ps_mem st' q = ps_mem st q" by (simp add: st'_def set_words_def)
  show "ps_mem st' a = fill table_clear" by (simp add: st'_def set_words_def)
  have ent: "dir_entry d k st' = dir_entry d k st" for k using t by (simp add: dir_entry_def frame_words_def mem)
  show "page_plain t addr attr fill st = Inr ((), st')"
    using a by (simp add: page_plain_def table_alloc_def pbind_def phys_alloc_def st'_def set_words_def frame_words_def)
  show tabs: "user_tables d st' = user_tables d st" by (simp add: user_tables_def ent)
  have wt: "frame_words st' t = (frame_words st t)(tablePageLoc addr := a OR attr)"
    using t(3) al by (simp add: st'_def set_words_def frame_words_def table_map_def)
  then show "frame_words st' t (tablePageLoc addr) = a OR attr" by simp
  have T: "table_of d k st \<noteq> a" "table_of d k st \<noteq> d" "k \<noteq> tableLoc addr \<Longrightarrow> table_of d k st \<noteq> t" if "k \<in> user_tables d st" for k
    using that ok rel(2) i by (auto simp: user_ok_def t_def dest: inj_onD)
  show tw: "\<And>i j. i \<in> user_tables d st \<Longrightarrow> (i, j) \<noteq> ?ij \<Longrightarrow> frame_words st' (table_of d i st') j = frame_words st (table_of d i st) j"
  proof -
    fix k l assume k: "k \<in> user_tables d st" "(k, l) \<noteq> ?ij"
    show "frame_words st' (table_of d k st') l = frame_words st (table_of d k st) l"
    proof (cases "k = tableLoc addr")
      case True
      then show ?thesis using k wt by (simp add: ent t_def [symmetric])
    next
      case False
      then show ?thesis using T [OF k(1)] mem [of "table_of d k st"] by (simp add: ent frame_words_def)
    qed
  qed
  have ft: "frame_words st' (table_of d (tableLoc addr) st') (tablePageLoc addr) = a OR attr" using wt by (simp add: ent t_def [symmetric])
  show pages: "user_pages d st' = insert ?ij (user_pages d st)"
  proof (rule set_eqI)
    fix p :: "nat \<times> nat"
    obtain k l where p: "p = (k, l)" by (cases p)
    show "p \<in> user_pages d st' \<longleftrightarrow> p \<in> insert ?ij (user_pages d st)"
      using tw [of k l] ft e i j by (cases "(k, l) = ?ij") (auto simp: p user_pages_def tabs)
  qed
  show pf: "\<And>p. p \<in> user_pages d st \<Longrightarrow> page_frame d st' p = page_frame d st p"
  proof -
    fix p assume p: "p \<in> user_pages d st"
    then have "p \<noteq> ?ij" "fst p \<in> user_tables d st" using new by (auto simp: user_pages_def)
    then show "page_frame d st' p = page_frame d st p" using tw [of "fst p" "snd p"] by (simp add: page_frame_def)
  qed
  show pa: "page_frame d st' ?ij = a" using ft e by (simp add: page_frame_def)
  have P: "page_frame d st p \<in># H" "page_frame d st p \<noteq> a" if "p \<in> user_pages d st" for p
    using that ok rel(2) by (auto simp: user_ok_def)
  have "inj_on (page_frame d st') (user_pages d st')"
  proof (rule inj_onI)
    fix p q assume pq: "p \<in> user_pages d st'" "q \<in> user_pages d st'" "page_frame d st' p = page_frame d st' q"
    have "inj_on (page_frame d st) (user_pages d st)" using ok by (simp add: user_ok_def)
    then show "p = q" using pq P(2) pa pf unfolding pages by (metis insertE inj_onD)
  qed
  moreover have "inj_on (\<lambda>i. table_of d i st') (user_tables d st')" using ok by (simp add: tabs ent user_ok_def)
  moreover have "\<forall>i\<in>user_tables d st'. table_of d i st' \<in># add_mset a H \<and> table_of d i st' \<noteq> d"
    unfolding tabs ent using ok by (auto simp: user_ok_def)
  moreover have "\<forall>p\<in>user_pages d st'. page_frame d st' p \<in># add_mset a H \<and> page_frame d st' p \<noteq> d \<and> (\<forall>i\<in>user_tables d st'. page_frame d st' p \<noteq> table_of d i st')"
    unfolding pages tabs ent
  proof (intro ballI)
    fix p assume "p \<in> insert ?ij (user_pages d st)"
    then consider "p = ?ij" | "p \<in> user_pages d st" by blast
    then show "page_frame d st' p \<in># add_mset a H \<and> page_frame d st' p \<noteq> d \<and> (\<forall>i\<in>user_tables d st. page_frame d st' p \<noteq> table_of d i st)"
    proof cases
      case 1
      have "\<forall>i\<in>user_tables d st. a \<noteq> table_of d i st" using T(1) by metis
      with 1 show ?thesis using t(4) by (simp add: pa)
    next
      case 2
      then show ?thesis using pf [OF 2] ok by (simp add: user_ok_def)
    qed
  qed
  moreover have "d \<in># add_mset a H" using ok by (simp add: user_ok_def)
  ultimately show "user_ok st' d (add_mset a H)" unfolding user_ok_def fr using rel(1) by blast
qed

section \<open>A page more\<close>

text \<open>The contents of a page and the attributes it is mapped with; enough free frames for \<open>n\<close> allocations.\<close>

definition page_words :: "paddr \<Rightarrow> paging_state \<Rightarrow> nat \<times> nat \<Rightarrow> words" where
  "page_words d st p = ps_mem st (page_frame d st p)"

definition page_entry :: "paddr \<Rightarrow> paging_state \<Rightarrow> nat \<times> nat \<Rightarrow> u32" where
  "page_entry d st p = frame_words st (table_of d (fst p) st) (snd p)"

primrec phys_room :: "nat \<Rightarrow> phys_frames \<Rightarrow> bool" where
  "phys_room 0 f \<longleftrightarrow> True"
| "phys_room (Suc n) f \<longleftrightarrow> (\<exists>f' a. physicalFrameAlloc f = Inr (f', a) \<and> phys_room n f')"

lemma phys_room_mono: "phys_room n f \<Longrightarrow> k \<le> n \<Longrightarrow> phys_room k f"
proof (induction n arbitrary: k f)
  case (Suc n)
  then show ?case by (cases k) auto
qed simp

lemma phys_room_free: "phys_rel f H \<Longrightarrow> card (set_mset H) + n \<le> phys_limit f \<Longrightarrow> phys_room n f"
proof (induction n arbitrary: f H)
  case (Suc n)
  have "\<exists>f' a. physicalFrameAlloc f = Inr (f', a)"
  proof (cases "physicalFrameAlloc f")
    case (Inl e)
    have lim: "m < 2 ^ 20" if "m < phys_limit f" for m using phys_limit_le [OF Suc.prems(1) that] .
    have "pageAt (of_nat m) \<in># H" if "m < phys_limit f" for m
    proof -
      have "unat (of_nat m :: u32) = m" using lim [OF that] by (simp add: unat_of_nat)
      then show ?thesis using phys_alloc_full [OF Suc.prems(1) Inl] that by metis
    qed
    then have "(\<lambda>m. pageAt (of_nat m)) ` {..<phys_limit f} \<subseteq> set_mset H" by auto
    then have "card ((\<lambda>m. pageAt (of_nat m)) ` {..<phys_limit f}) \<le> card (set_mset H)" by (rule card_mono [OF finite_set_mset])
    moreover have "inj_on (\<lambda>m. pageAt (of_nat m)) {..<phys_limit f}"
    proof (rule inj_onI)
      fix m k assume "m \<in> {..<phys_limit f}" "k \<in> {..<phys_limit f}" and eq: "pageAt (of_nat m) = pageAt (of_nat k)"
      then have b: "m < 2 ^ 20" "k < 2 ^ 20" using lim by auto
      then have "unat (of_nat m :: u32) = m" "unat (of_nat k :: u32) = k" by (simp_all add: unat_of_nat)
      then show "m = k" using b pageFor_pageAt [of "of_nat m"] pageFor_pageAt [of "of_nat k"] eq by metis
    qed
    ultimately show ?thesis using Suc.prems(2) by (simp add: card_image)
  qed (simp add: prod.exhaust)
  then obtain f' a where a: "physicalFrameAlloc f = Inr (f', a)" by blast
  have "phys_rel f' (add_mset a H)" "a \<notin># H" "phys_limit f' = phys_limit f" using phys_rel_alloc [OF Suc.prems(1) a] by blast+
  then have "phys_rel f' (add_mset a H)" "card (set_mset (add_mset a H)) + n \<le> phys_limit f'" using Suc.prems(2) by simp_all
  from Suc.IH [OF this] a show ?case by simp
qed simp

definition keeps_pages :: "paddr \<Rightarrow> paging_state \<Rightarrow> paging_state \<Rightarrow> bool" where
  "keeps_pages d st st' \<longleftrightarrow> user_pages d st \<subseteq> user_pages d st' \<and>
    (\<forall>p\<in>user_pages d st. page_words d st' p = page_words d st p \<and> page_entry d st' p = page_entry d st p)"

lemma keeps_pages_trans: "keeps_pages d a b \<Longrightarrow> keeps_pages d b c \<Longrightarrow> keeps_pages d a c"
  by (auto simp: keeps_pages_def)

lemma page_attr_facts: "bit (page_attr w) 0" "page_attr w AND NOT 0xFFF = 0" "bit (page_attr w) 1 \<longleftrightarrow> w"
  by (auto simp: page_attr_def pte_flags)

definition filled :: "paddr \<Rightarrow> nat \<times> nat \<Rightarrow> bool \<Rightarrow> words \<Rightarrow> paging_state \<Rightarrow> paging_state \<Rightarrow> bool" where
  "filled d p w ws st st' \<longleftrightarrow> user_pages d st' = insert p (user_pages d st) \<and> keeps_pages d st st' \<and> page_words d st' p = ws \<and>
    page_entry d st' p = page_frame d st' p OR page_attr w"

lemma page_step:
  assumes ok: "user_ok st d H" and i: "tableLoc addr \<in> user_tables d st" and new: "(tableLoc addr, tablePageLoc addr) \<notin> user_pages d st"
    and a: "physicalFrameAlloc (ps_frames st) = Inr (f, a)"
  shows "\<exists>st'. page_plain (table_of d (tableLoc addr) st) addr (page_attr w) fill st = Inr ((), st') \<and> user_ok st' d (add_mset a H) \<and>
    filled d (tableLoc addr, tablePageLoc addr) w (fill table_clear) st st' \<and> ps_frames st' = f \<and> dir_grows d H st (add_mset a H) st'"
proof -
  note L = page_law [where fill = fill, OF ok i new a page_attr_facts(1,2) [of w]]
  have anh: "a \<notin># H" using phys_rel_alloc [OF _ a, of H] ok by (simp add: user_ok_def)
  let ?t = "table_of d (tableLoc addr) st" and ?ij = "(tableLoc addr, tablePageLoc addr)"
  let ?st = "set_words a (fill table_clear) (set_words ?t (table_map (frame_words st ?t) addr a (page_attr w)) (st\<lparr>ps_frames := f\<rparr>))"
  have "page_words d ?st p = page_words d st p \<and> page_entry d ?st p = page_entry d st p" if p: "p \<in> user_pages d st" for p
  proof -
    have "page_frame d st p \<noteq> ?t" "page_frame d st p \<noteq> a" using ok i p anh by (auto simp: user_ok_def)
    moreover have "fst p \<in> user_tables d st" "(fst p, snd p) \<noteq> ?ij" using p new by (auto simp: user_pages_def)
    ultimately show ?thesis using L(5) [OF p] L(8) [of "page_frame d st p"] L(10) [of "fst p" "snd p"] by (simp add: page_words_def page_entry_def)
  qed
  moreover have "page_words d ?st ?ij = fill table_clear" using L(6,7) by (simp add: page_words_def)
  moreover have "table_of d (tableLoc addr) ?st = ?t"
  proof -
    have "?t \<noteq> d" "d \<noteq> a" using ok i anh by (auto simp: user_ok_def)
    then show ?thesis by (simp add: dir_entry_def frame_words_def set_words_def)
  qed
  then have "page_entry d ?st ?ij = page_frame d ?st ?ij OR page_attr w" using L(6,9) by (simp add: page_entry_def)
  ultimately have "filled d ?ij w (fill table_clear) st ?st" using L(4) by (auto simp: filled_def keeps_pages_def)
  moreover have "dir_grows d H st (add_mset a H) ?st"
  proof (rule dir_grows_add [OF _ anh])
    have td: "?t \<noteq> d" "d \<noteq> a" using ok i anh by (auto simp: user_ok_def)
    then have ent: "dir_entry d k ?st = dir_entry d k st" for k by (simp add: dir_entry_def frame_words_def set_words_def)
    have "mset_set (user_pages d ?st) = add_mset ?ij (mset_set (user_pages d st))" unfolding L(4) using new by simp
    moreover have "image_mset (page_frame d ?st) (mset_set (user_pages d st)) = image_mset (page_frame d st) (mset_set (user_pages d st))"
      using L(5) by (intro image_mset_cong) simp
    ultimately show "dir_refs d ?st = add_mset a (dir_refs d st)" unfolding dir_refs_def L(3) ent using L(6) by simp
    show "ps_mem ?st q = ps_mem st q" if "q \<notin># dir_refs d st" "q \<noteq> a" for q
      using L(8) [of q] that i by (auto simp: dir_refs_set)
    show "same_window st ?st" by simp (simp add: same_window_def)
  qed
  ultimately show ?thesis using L(1,2) by (intro exI [of _ ?st]) (simp add: set_words_def)
qed

lemma fill_law:
  assumes win: "window_inv st" "1 \<le> window_free st" and ok: "user_ok st d H" and loc: "tableLoc addr < 768"
    and new: "(tableLoc addr, tablePageLoc addr) \<notin> user_pages d st" and room: "phys_room (n + 2) (ps_frames st)"
  obtains st' H' where "fill_page d addr w fill st = Inr ((), st')" "user_ok st' d H'" "window_inv st'" "window_free st' = window_free st"
    "phys_room n (ps_frames st')" "filled d (tableLoc addr, tablePageLoc addr) w (fill table_clear) st st'" "dir_grows d H st H' st'"
proof -
  let ?pde = "PDE_Present OR PDE_ReadWrite OR PDE_User" and ?ij = "(tableLoc addr, tablePageLoc addr)"
  have pde: "bit ?pde 0" "?pde AND NOT 0xFFF = 0" by (simp_all add: pte_flags)
  have "\<exists>st1 H1. ensure_plain d (tableLoc addr) ?pde st = Inr ((), st1) \<and> user_ok st1 d H1 \<and> tableLoc addr \<in> user_tables d st1 \<and>
    ?ij \<notin> user_pages d st1 \<and> phys_room (n + 1) (ps_frames st1) \<and> user_pages d st1 = user_pages d st \<and> keeps_pages d st st1 \<and> dir_grows d H st H1 st1"
  proof (cases "entry_isPresent (dir_entry d (tableLoc addr) st)")
    case True
    then show ?thesis using ok loc new phys_room_mono [OF room, of "n + 1"]
      by (intro exI [of _ st] exI [of _ H]) (simp add: ensure_plain_def user_tables_def keeps_pages_def)
  next
    case False
    obtain f a where a: "physicalFrameAlloc (ps_frames st) = Inr (f, a)" "phys_room (n + 1) f" using room by auto
    note L = ensure_law [OF ok loc False a(1) pde]
    let ?st = "dir_set d a (tableLoc addr) ?pde (set_words a table_clear (st\<lparr>ps_frames := f\<rparr>))"
    have anh: "a \<notin># H" using phys_rel_alloc [OF _ a(1), of H] ok by (simp add: user_ok_def)
    have "page_words d ?st p = page_words d st p \<and> page_entry d ?st p = page_entry d st p" if p: "p \<in> user_pages d st" for p
    proof -
      have "page_frame d st p \<noteq> d" "page_frame d st p \<noteq> a" "fst p \<in> user_tables d st" using ok p anh by (auto simp: user_ok_def user_pages_def)
      then show ?thesis using L(5) [OF p] L(6) [of "page_frame d st p"] L(7) [of "fst p" "snd p"] by (simp add: page_words_def page_entry_def)
    qed
    then have "keeps_pages d st ?st" using L(4) by (simp add: keeps_pages_def)
    moreover have "ps_frames ?st = f" by (simp add: dir_set_def set_words_def)
    moreover have "dir_grows d H st (add_mset a H) ?st"
    proof (rule dir_grows_add [OF _ anh])
      have nl: "tableLoc addr \<notin> user_tables d st" using False by (simp add: user_tables_def)
      have "d \<noteq> a" using ok anh by (auto simp: user_ok_def)
      then have tb: "table_of d k ?st = table_of d k st" if "k \<in> user_tables d st" for k
        using that nl by (auto simp: dir_entry_def frame_words_def set_words_def dir_set_def)
      have "image_mset (\<lambda>k. table_of d k ?st) (mset_set (user_tables d st)) = image_mset (\<lambda>k. table_of d k st) (mset_set (user_tables d st))"
        using tb by (intro image_mset_cong) simp
      moreover have "image_mset (page_frame d ?st) (mset_set (user_pages d st)) = image_mset (page_frame d st) (mset_set (user_pages d st))"
        using L(5) by (intro image_mset_cong) simp
      ultimately show "dir_refs d ?st = add_mset a (dir_refs d st)" unfolding dir_refs_def L(3,4) using nl L(8) by simp
      show "ps_mem ?st q = ps_mem st q" if "q \<notin># dir_refs d st" "q \<noteq> a" for q using L(6) [of q] that by (auto simp: dir_refs_set)
      show "same_window st ?st" by (simp add: dir_set_def) (simp add: same_window_def)
    qed
    ultimately show ?thesis using L(1-4) a(2) new by (intro exI [of _ ?st] exI [of _ "add_mset a H"]) simp
  qed
  then obtain st1 H1 where s1: "ensure_plain d (tableLoc addr) ?pde st = Inr ((), st1)" "user_ok st1 d H1" "tableLoc addr \<in> user_tables d st1"
    "?ij \<notin> user_pages d st1" "phys_room (n + 1) (ps_frames st1)" "user_pages d st1 = user_pages d st" "keeps_pages d st st1" "dir_grows d H st H1 st1" by blast
  obtain f a where a: "physicalFrameAlloc (ps_frames st1) = Inr (f, a)" "phys_room n f" using s1(5) by auto
  obtain st' where s2: "page_plain (table_of d (tableLoc addr) st1) addr (page_attr w) fill st1 = Inr ((), st')" "user_ok st' d (add_mset a H1)"
    "filled d ?ij w (fill table_clear) st1 st'" "ps_frames st' = f" "dir_grows d H1 st1 (add_mset a H1) st'"
    using page_step [OF s1(2-4) a(1)] by blast
  have plain: "fill_plain d addr w fill st = Inr ((), st')" using s1(1) s2(1) by (simp add: fill_plain_def pbind_def)
  then have run: "fill_page d addr w fill st = Inr ((), st')" using fill_transparent [of d addr w fill] win by (simp add: transparent_def)
  have "window_blind (fill_plain d addr w fill)" using fill_transparent by (auto simp: transparent_def)
  from window_kept [OF this plain] win have "window_inv st'" "window_free st' = window_free st" by auto
  moreover have "filled d ?ij w (fill table_clear) st st'"
    using s2(3) s1(6,7) keeps_pages_trans by (auto simp: filled_def)
  ultimately show thesis using that [OF run s2(2)] a(2) s2(4) dir_grows_trans [OF s1(8) s2(5)] by simp
qed

section \<open>Many pages\<close>

definition page_ij :: "vaddr \<Rightarrow> nat \<times> nat" where
  "page_ij v = (tableLoc v, tablePageLoc v)"

lemma fill_pages_law:
  assumes "window_inv st" "1 \<le> window_free st" "user_ok st d H" "\<forall>v\<in>set ps. tableLoc v < 768 \<and> page_ij v \<notin> user_pages d st"
    "distinct (map page_ij ps)" "phys_room (n + 2 * length ps) (ps_frames st)"
  shows "\<exists>st' H'. pfor (\<lambda>v. fill_page d v w (F v)) ps st = Inr ((), st') \<and> user_ok st' d H' \<and> window_inv st' \<and> window_free st' = window_free st \<and>
    phys_room n (ps_frames st') \<and> user_pages d st' = page_ij ` set ps \<union> user_pages d st \<and> keeps_pages d st st' \<and> dir_grows d H st H' st' \<and>
    (\<forall>v\<in>set ps. page_words d st' (page_ij v) = F v table_clear \<and> page_entry d st' (page_ij v) AND 0xFFF = page_attr w)"
  using assms
proof (induction ps arbitrary: st H)
  case Nil
  then show ?case by (auto simp: preturn_def keeps_pages_def)
next
  case (Cons v ps)
  have new: "tableLoc v < 768" "(tableLoc v, tablePageLoc v) \<notin> user_pages d st" using Cons.prems(4) by (auto simp: page_ij_def)
  have room: "phys_room ((n + 2 * length ps) + 2) (ps_frames st)" using Cons.prems(6) by simp
  obtain s1 H1 where s1: "fill_page d v w (F v) st = Inr ((), s1)" "user_ok s1 d H1" "window_inv s1" "window_free s1 = window_free st"
    "phys_room (n + 2 * length ps) (ps_frames s1)" "filled d (page_ij v) w (F v table_clear) st s1" "dir_grows d H st H1 s1"
    by (rule fill_law [OF Cons.prems(1-3) new room, of w "F v", folded page_ij_def])
  have pages: "user_pages d s1 = insert (page_ij v) (user_pages d st)" using s1(6) by (simp add: filled_def)
  have "page_ij u \<noteq> page_ij v" if "u \<in> set ps" for u using Cons.prems(5) imageI [OF that, of page_ij] by (metis distinct.simps(2) list.set_map list.simps(9))
  then have "\<forall>u\<in>set ps. tableLoc u < 768 \<and> page_ij u \<notin> user_pages d s1" using Cons.prems(4) by (simp add: pages)
  from Cons.IH [OF s1(3) _ s1(2) this _ s1(5)] Cons.prems(2,5) s1(4) obtain s2 H2 where
    s2: "pfor (\<lambda>v. fill_page d v w (F v)) ps s1 = Inr ((), s2)" "user_ok s2 d H2" "window_inv s2" "window_free s2 = window_free s1"
    "phys_room n (ps_frames s2)" "user_pages d s2 = page_ij ` set ps \<union> user_pages d s1" "keeps_pages d s1 s2"
    "dir_grows d H1 s1 H2 s2" "\<forall>v\<in>set ps. page_words d s2 (page_ij v) = F v table_clear \<and> page_entry d s2 (page_ij v) AND 0xFFF = page_attr w" by auto
  have "page_aligned (page_frame d s1 (page_ij v))" by (simp add: page_frame_def)
  then have "page_entry d s1 (page_ij v) AND 0xFFF = page_attr w"
    using s1(6) entry_split(2) [of "page_frame d s1 (page_ij v)" "page_attr w"] page_attr_facts(2) [of w]
    by (simp add: filled_def entry_attr_def)
  then have "page_words d s2 (page_ij v) = F v table_clear \<and> page_entry d s2 (page_ij v) AND 0xFFF = page_attr w"
    using s2(7) s1(6) pages by (simp add: keeps_pages_def filled_def)
  moreover have "keeps_pages d st s2" using s1(6) s2(7) keeps_pages_trans by (auto simp: filled_def)
  moreover have "pfor (\<lambda>v. fill_page d v w (F v)) (v # ps) st = Inr ((), s2)" using s1(1) s2(1) by (simp add: pbind_def)
  moreover have "dir_grows d H st H2 s2" by (rule dir_grows_trans [OF s1(7) s2(8)])
  ultimately show ?case using s2 s1(4) pages by (intro exI [of _ s2] exI [of _ H2]) auto
qed

end
