(* ===== verification/Nyan_Elf.thy ===== *)
theory Nyan_Elf
  imports Nyan_UserDir Nyan_VMSpace Nyan_Libc
begin

unbundle bit_operations_syntax

text \<open>
  Loading of programs (kernel/elf/entry.hpp, kernel/elf/mod.cpp). The file is a list of bytes; a read outside it is an
  \<open>OutOfBounds\<close> fault, since the loader checks nothing. The headers are read at the offsets the packed structures have on
  the target. The pages are allocated in a new directory of the machine of \<open>Nyan_Paging\<close> and filled through the mapper. A
  directory shares the tables of the kernel from entry 768 on, which are not frames of the pool: what the loader
  does there, for a segment above 0xC0000000, is outside the model.
\<close>

section \<open>Headers\<close>

record elf_header =
  eh_entry_offset :: u32
  eh_phoff :: u32
  eh_phentsize :: u16
  eh_phnum :: u16

record program_header =
  ph_type :: u32
  ph_offset :: u32
  ph_vaddr :: u32
  ph_paddr :: u32
  ph_filesz :: u32
  ph_memsz :: u32
  ph_flags :: u32
  ph_align :: u32

definition PHT_Load :: u32 where "PHT_Load = 1"
definition PHF_Executable :: u32 where "PHF_Executable = 1"
definition PHF_Writable :: u32 where "PHF_Writable = 2"
definition PHF_Readable :: u32 where "PHF_Readable = 4"

definition file32 :: "u8 list \<Rightarrow> nat \<Rightarrow> u32" where
  "file32 file i = word_of_bytes (take 4 (drop i file))"

definition file16 :: "u8 list \<Rightarrow> nat \<Rightarrow> u16" where
  "file16 file i = ucast (file ! i) OR push_bit 8 (ucast (file ! Suc i))"

definition read_header :: "u8 list \<Rightarrow> elf_header exec" where
  "read_header file = (if 52 \<le> length file
    then Inr \<lparr>eh_entry_offset = file32 file 24, eh_phoff = file32 file 28, eh_phentsize = file16 file 42, eh_phnum = file16 file 44\<rparr>
    else Inl OutOfBounds)"

definition read_program_header :: "u8 list \<Rightarrow> u32 \<Rightarrow> program_header exec" where
  "read_program_header file off = (let i = unat off in if i + 32 \<le> length file
    then Inr \<lparr>ph_type = file32 file i, ph_offset = file32 file (i + 4), ph_vaddr = file32 file (i + 8), ph_paddr = file32 file (i + 12),
      ph_filesz = file32 file (i + 16), ph_memsz = file32 file (i + 20), ph_flags = file32 file (i + 24), ph_align = file32 file (i + 28)\<rparr>
    else Inl OutOfBounds)"

section \<open>Segments\<close>

text \<open>Bytes of a frame.\<close>

definition frame_byte :: "words \<Rightarrow> nat \<Rightarrow> u8" where
  "frame_byte ws k = bytes32 (ws (k div 4)) ! (k mod 4)"

definition put_frame :: "nat \<Rightarrow> u8 list \<Rightarrow> words \<Rightarrow> words" where
  "put_frame off bs ws = (\<lambda>j. word_of_bytes (map (\<lambda>r. let k = 4 * j + r in
    if off \<le> k \<and> k < off + length bs then bs ! (k - off) else frame_byte ws k) [0, 1, 2, 3]))"

text \<open>What one page of a segment takes from the file: the place in the page and the bytes, if any.\<close>

definition page_slice :: "u8 list \<Rightarrow> program_header \<Rightarrow> vaddr \<Rightarrow> (nat \<times> u8 list) option exec" where
  "page_slice file ph vaddr =
    (let lower = ph_vaddr ph; fileUpper = ph_vaddr ph + ph_filesz ph;
         lower_bound = max lower vaddr; upper_bound = min fileUpper (nextPage vaddr) in
     if lower_bound < upper_bound
     then let i = unat (ph_offset ph + (lower_bound - lower)); n = unat (upper_bound - lower_bound) in
       if i + n \<le> length file then Inr (Some (unat (lower_bound - vaddr), take n (drop i file))) else Inl OutOfBounds
     else Inr None)"

definition load_page :: "u8 list \<Rightarrow> program_header \<Rightarrow> paddr \<Rightarrow> vaddr \<Rightarrow> paging_state \<Rightarrow> (unit \<times> paging_state) exec" where
  "load_page file ph d vaddr = pbind (dir_alloc d vaddr (ph_flags ph AND PHF_Writable \<noteq> 0)) (\<lambda>m.
    pbind (\<lambda>st. sbind (page_slice file ph vaddr) (\<lambda>slice. case slice of
        None \<Rightarrow> Inr ((), st)
      | Some (off, bs) \<Rightarrow> Inr ((), set_words (mg_paddr m) (put_frame off bs (frame_words st (mg_paddr m))) st)))
    (\<lambda>_. mapper_close m))"

definition segment_pages :: "program_header \<Rightarrow> vaddr \<times> vaddr" where
  "segment_pages ph = (alignDown (ph_vaddr ph), alignUp (ph_vaddr ph + ph_memsz ph))"

definition segment_area :: "program_header \<Rightarrow> vma" where
  "segment_area ph = VMA (fst (segment_pages ph)) (snd (segment_pages ph)) (MAP_PRIVATE OR MAP_ANONYMOUS)
    ((if ph_flags ph AND PHF_Executable \<noteq> 0 then 4 else 0) OR (if ph_flags ph AND PHF_Writable \<noteq> 0 then PROT_WRITE else 0) OR
     (if ph_flags ph AND PHF_Readable \<noteq> 0 then PROT_READ else 0)) ''elf segs''"

text \<open>The body of the loop over the program headers; the result of the insertion is not looked at.\<close>

definition load_segment :: "u8 list \<Rightarrow> paddr \<Rightarrow> program_header \<Rightarrow> vm_space \<times> vaddr \<Rightarrow> paging_state \<Rightarrow>
    ((vm_space \<times> vaddr) \<times> paging_state) exec" where
  "load_segment file d ph r st = (case r of (sp, brkAddr) \<Rightarrow>
    if ph_type ph \<noteq> PHT_Load then Inr ((sp, brkAddr), st)
    else if ph_align ph \<noteq> 0x1000 then Inr ((sp, brkAddr), st)
    else let (lowerPage, upperPage) = segment_pages ph in
      pbind (for_pages (load_page file ph d) lowerPage upperPage) (\<lambda>_ st.
        sbind (range_insert sp (segment_area ph)) (\<lambda>(_, sp). Inr ((sp, max brkAddr upperPage), st))) st)"

fun load_headers :: "nat \<Rightarrow> u8 list \<Rightarrow> u16 \<Rightarrow> paddr \<Rightarrow> u32 \<Rightarrow> vm_space \<times> vaddr \<Rightarrow> paging_state \<Rightarrow>
    ((vm_space \<times> vaddr) \<times> paging_state) exec" where
  "load_headers 0 file entsize d off r st = Inr (r, st)"
| "load_headers (Suc n) file entsize d off r st = sbind (read_program_header file off) (\<lambda>ph.
    pbind (load_segment file d ph r) (\<lambda>r. load_headers n file entsize d (off + ucast entsize) r) st)"

record load_result =
  lr_pageDir :: mapper_guard
  lr_brkAddr :: vaddr
  lr_entry :: vaddr

definition loadElf :: "vm_space \<Rightarrow> u8 list \<Rightarrow> paging_state \<Rightarrow> ((load_result \<times> vm_space) \<times> paging_state) exec" where
  "loadElf sp file st = sbind (read_header file) (\<lambda>h.
    pbind dir_fork (\<lambda>m. pbind (load_headers (unat (eh_phnum h)) file (eh_phentsize h) (mg_paddr m) (eh_phoff h) (sp, 0x400000))
      (\<lambda>(sp, brkAddr). preturn (\<lparr>lr_pageDir = m, lr_brkAddr = brkAddr, lr_entry = eh_entry_offset h\<rparr>, sp))) st)"

section \<open>Bytes of a page\<close>

lemma bytes32_of_bytes:
  assumes "length bs = 4"
  shows "bytes32 (word_of_bytes bs) = bs"
proof -
  obtain b0 b1 b2 b3 where bs: "bs = [b0, b1, b2, b3]" using assms by (auto simp: length_Suc_conv numeral_eq_Suc)
  have "ucast (word_of_bytes bs) = b0" "ucast (drop_bit 8 (word_of_bytes bs)) = b1"
    "ucast (drop_bit 16 (word_of_bytes bs)) = b2" "ucast (drop_bit 24 (word_of_bytes bs)) = b3"
    unfolding word_of_bytes_def bs by (rule bit_word_eqI, auto simp: bit_simps dest: bit_imp_le_length)+
  then show ?thesis by (simp add: bytes32_def bs)
qed

lemma frame_byte_put:
  "frame_byte (put_frame off bs ws) k = (if off \<le> k \<and> k < off + length bs then bs ! (k - off) else frame_byte ws k)"
proof -
  have r: "k mod 4 < 4" "4 * (k div 4) + k mod 4 = k" by simp_all
  have n: "map f [0, 1, 2, 3] ! i = f i" if "i < 4" for f :: "nat \<Rightarrow> u8" and i using that by (auto simp: less_Suc_eq numeral_eq_Suc)
  let ?f = "\<lambda>r. let k = 4 * (k div 4) + r in if off \<le> k \<and> k < off + length bs then bs ! (k - off) else frame_byte ws k"
  have "frame_byte (put_frame off bs ws) k = bytes32 (word_of_bytes (map ?f [0, 1, 2, 3])) ! (k mod 4)"
    unfolding frame_byte_def [of "put_frame off bs ws" k] by (simp only: put_frame_def)
  also have "\<dots> = map ?f [0, 1, 2, 3] ! (k mod 4)" by (subst bytes32_of_bytes) simp_all
  also have "\<dots> = ?f (k mod 4)" by (rule n [OF r(1)])
  finally show ?thesis by (simp only: r(2) Let_def)
qed

text \<open>A segment that lies in the file and below the kernel.\<close>

definition segment_fits :: "u8 list \<Rightarrow> program_header \<Rightarrow> bool" where
  "segment_fits file ph \<longleftrightarrow> unat (ph_filesz ph) \<le> unat (ph_memsz ph) \<and> unat (ph_offset ph) + unat (ph_filesz ph) \<le> length file \<and>
    length file < 2 ^ 32 \<and> unat (ph_vaddr ph) + unat (ph_memsz ph) \<le> 0xC0000000"

text \<open>The byte a program finds at an address of the pages of the segment.\<close>

definition segment_byte :: "u8 list \<Rightarrow> program_header \<Rightarrow> nat \<Rightarrow> u8" where
  "segment_byte file ph v = (if unat (ph_vaddr ph) \<le> v \<and> v < unat (ph_vaddr ph) + unat (ph_filesz ph)
    then file ! (unat (ph_offset ph) + (v - unat (ph_vaddr ph))) else 0)"

definition slice_fill :: "(nat \<times> u8 list) option \<Rightarrow> words \<Rightarrow> words" where
  "slice_fill sl ws = (case sl of None \<Rightarrow> ws | Some (off, bs) \<Rightarrow> put_frame off bs ws)"

lemma page_slice_byte:
  assumes fits: "segment_fits file ph" and pg: "page_aligned vaddr" "unat vaddr < 0xC0000000"
  obtains sl where "page_slice file ph vaddr = Inr sl"
    "\<And>k. k < 4096 \<Longrightarrow> frame_byte (slice_fill sl table_clear) k = segment_byte file ph (unat vaddr + k)"
proof -
  define lo fs fo va where "lo = unat (ph_vaddr ph)" and "fs = unat (ph_filesz ph)" and "fo = unat (ph_offset ph)" and "va = unat vaddr"
  have b: "lo + fs \<le> 0xC0000000" "fo + fs \<le> length file" "length file < 2 ^ 32" "va < 0xC0000000"
    using fits pg(2) by (auto simp: segment_fits_def lo_def fs_def fo_def va_def)
  let ?fu = "ph_vaddr ph + ph_filesz ph" and ?nx = "nextPage vaddr"
  have fu: "unat ?fu = lo + fs" using b(1) by (simp add: unat_word_ariths lo_def fs_def)
  have nx: "unat ?nx = va + 4096" using b(4) pg(1) by (simp add: nextPage_aligned unat_word_ariths va_def)
  let ?lb = "max (ph_vaddr ph) vaddr" and ?ub = "min ?fu ?nx"
  have lb: "unat ?lb = max lo va" by (simp add: max_def word_le_nat_alt lo_def va_def)
  have ub: "unat ?ub = min (lo + fs) (va + 4096)" using fu nx by (simp add: min_def word_le_nat_alt)
  have "bytes32 0 = replicate 4 0" by (simp add: bytes32_def numeral_eq_Suc)
  then have z: "frame_byte table_clear k = 0" for k by (simp add: frame_byte_def table_clear_def)
  show thesis
  proof (cases "?lb < ?ub")
    case False
    then have "\<not> max lo va < min (lo + fs) (va + 4096)" by (simp add: word_less_nat_alt lb ub)
    then have "segment_byte file ph (va + k) = 0" if "k < 4096" for k
      using that by (auto simp: segment_byte_def lo_def [symmetric] fs_def [symmetric])
    then show thesis using False that [of None] z by (simp add: page_slice_def Let_def slice_fill_def va_def)
  next
    case True
    then have lt: "max lo va < min (lo + fs) (va + 4096)" by (simp add: word_less_nat_alt lb ub)
    have d: "unat (?lb - ph_vaddr ph) = max lo va - lo" "unat (?lb - vaddr) = max lo va - va" "unat (?ub - ?lb) = min (lo + fs) (va + 4096) - max lo va"
      using lb ub lt by (simp_all add: unat_sub word_le_nat_alt lo_def [symmetric] va_def [symmetric])
    have "fo + (max lo va - lo) < 4294967296" using lt b(2,3) by (simp add: max_def split: if_splits)
    then have i: "unat (ph_offset ph + (?lb - ph_vaddr ph)) = fo + (max lo va - lo)"
      using d(1) by (simp add: unat_word_ariths fo_def)
    define n i where "n = min (lo + fs) (va + 4096) - max lo va" and "i = fo + (max lo va - lo)"
    have n: "i + n \<le> length file" using lt b(2) by (auto simp: n_def i_def)
    let ?sl = "Some (max lo va - va, take n (drop i file))"
    have "page_slice file ph vaddr = Inr ?sl" using True d i n by (simp add: page_slice_def Let_def n_def i_def)
    moreover have "frame_byte (slice_fill ?sl table_clear) k = segment_byte file ph (va + k)" if "k < 4096" for k
    proof -
      have "frame_byte (slice_fill ?sl table_clear) k = (if max lo va - va \<le> k \<and> k < max lo va - va + n then file ! (i + (k - (max lo va - va))) else 0)"
        using n by (auto simp add: slice_fill_def frame_byte_put z)
      moreover have "max lo va - va \<le> k \<and> k < max lo va - va + n \<longleftrightarrow> lo \<le> va + k \<and> va + k < lo + fs" using that lt by (auto simp: n_def)
      moreover have "i + (k - (max lo va - va)) = fo + (va + k - lo)" if "lo \<le> va + k" using that by (auto simp: i_def max_def)
      ultimately show ?thesis by (simp add: segment_byte_def lo_def [symmetric] fs_def [symmetric] fo_def [symmetric])
    qed
    ultimately show thesis using that by (simp add: va_def)
  qed
qed

section \<open>The pages of a segment\<close>

definition segment_page_list :: "program_header \<Rightarrow> vaddr list" where
  "segment_page_list ph = (case segment_pages ph of (lo, hi) \<Rightarrow> map (\<lambda>k. lo + of_nat k * 4096) [0..<unat (hi - lo) div 4096])"

lemma segment_bounds:
  assumes "segment_fits file ph" "ph_memsz ph \<noteq> 0"
  obtains lo hi where "segment_pages ph = (lo, hi)" "page_aligned lo" "page_aligned hi" "unat lo < unat hi" "unat hi \<le> 0xC0000000"
    "unat lo \<le> unat (ph_vaddr ph)" "unat (ph_vaddr ph) + unat (ph_memsz ph) \<le> unat hi"
proof -
  define lo hi where "lo = alignDown (ph_vaddr ph)" and "hi = alignUp (ph_vaddr ph + ph_memsz ph)"
  have b: "unat (ph_vaddr ph) + unat (ph_memsz ph) \<le> 3221225472" "0 < unat (ph_memsz ph)"
    using assms by (auto simp: segment_fits_def unat_gt_0)
  have u: "unat (ph_vaddr ph + ph_memsz ph) = unat (ph_vaddr ph) + unat (ph_memsz ph)" using b(1) by (simp add: unat_word_ariths)
  have lo: "unat lo = unat (ph_vaddr ph) div 4096 * 4096" "page_aligned lo"
    using unat_thisPage [of "ph_vaddr ph"] page_aligned_thisPage [of "ph_vaddr ph"] by (simp_all add: lo_def thisPage_def minus_mod_eq_div_mult)
  have hi: "unat hi = (unat (ph_vaddr ph) + unat (ph_memsz ph) + 4095) div 4096 * 4096" "page_aligned hi"
    using b(1) unat_alignUp [of "ph_vaddr ph + ph_memsz ph"] by (simp_all add: hi_def u)
  have "unat lo \<le> unat (ph_vaddr ph)" by (simp add: lo)
  moreover have "unat (ph_vaddr ph) + unat (ph_memsz ph) \<le> unat hi" using hi(1) by linarith
  moreover have "(unat (ph_vaddr ph) + unat (ph_memsz ph) + 4095) div 4096 \<le> (3221225472 + 4095) div 4096"
    using b(1) by (intro div_le_mono) simp
  then have "unat hi \<le> 3221225472" unfolding hi(1) by simp
  ultimately show thesis using that [of lo hi] lo hi b(2) by (simp add: segment_pages_def lo_def hi_def)
qed

lemma segment_loop:
  assumes "segment_fits file ph" "ph_memsz ph \<noteq> 0"
  shows "case segment_pages ph of (lo, hi) \<Rightarrow> page_loop lo hi = Some (segment_page_list ph)"
    "v \<in> set (segment_page_list ph) \<longleftrightarrow> page_aligned v \<and> fst (segment_pages ph) \<le> v \<and> v < snd (segment_pages ph)"
    "v \<in> set (segment_page_list ph) \<Longrightarrow> unat v < 0xC0000000 \<and> tableLoc v < 768"
proof -
  obtain lo hi where s: "segment_pages ph = (lo, hi)" "page_aligned lo" "page_aligned hi" "unat lo < unat hi" "unat hi \<le> 3221225472"
    by (rule segment_bounds [OF assms]) simp
  define n where "n = unat (hi - lo) div 4096"
  have d: "unat (hi - lo) = unat hi - unat lo" using s(4) by (simp add: unat_sub word_le_nat_alt)
  obtain a where a: "unat lo = 4096 * a" using s(2) by (auto simp: page_aligned_def mod_eq_0_iff_dvd elim: dvdE)
  obtain b where b: "unat hi = 4096 * b" using s(3) by (auto simp: page_aligned_def mod_eq_0_iff_dvd elim: dvdE)
  note ab = a b
  have n: "n = b - a" "a < b" "b \<le> 786432" using ab s(4,5) by (simp_all add: n_def d)
  show "case segment_pages ph of (lo, hi) \<Rightarrow> page_loop lo hi = Some (segment_page_list ph)"
    using page_loop_aligned [OF s(2,3), of n] d n ab by (simp add: segment_page_list_def s(1) n_def)
  have k: "unat (lo + of_nat k * 4096) = 4096 * (a + k)" if "k < n" for k
    using that n ab(1) by (simp add: unat_word_ariths unat_of_nat)
  show "v \<in> set (segment_page_list ph) \<longleftrightarrow> page_aligned v \<and> fst (segment_pages ph) \<le> v \<and> v < snd (segment_pages ph)"
  proof
    assume "v \<in> set (segment_page_list ph)"
    then obtain k where "k < n" "v = lo + of_nat k * 4096" by (auto simp: segment_page_list_def s(1) n_def)
    with k [of k] n ab show "page_aligned v \<and> fst (segment_pages ph) \<le> v \<and> v < snd (segment_pages ph)"
      by (simp add: s(1) page_aligned_def word_le_nat_alt word_less_nat_alt)
  next
    assume v: "page_aligned v \<and> fst (segment_pages ph) \<le> v \<and> v < snd (segment_pages ph)"
    then obtain c where c: "unat v = 4096 * c" by (auto simp: page_aligned_def mod_eq_0_iff_dvd elim: dvdE)
    then have "a \<le> c" "c < b" using v ab by (auto simp: s(1) word_le_nat_alt word_less_nat_alt)
    then have "v = lo + of_nat (c - a) * 4096" "c - a < n" using k [of "c - a"] n c by (simp_all add: word_unat_eq_iff)
    then show "v \<in> set (segment_page_list ph)" by (auto simp: segment_page_list_def s(1) n_def)
  qed
  then show "unat v < 0xC0000000 \<and> tableLoc v < 768" if "v \<in> set (segment_page_list ph)"
    using that s(1,5) address_parts [of v] by (auto simp: word_less_nat_alt)
qed

lemma load_page_fill:
  assumes "page_slice file ph v = Inr sl"
  shows "load_page file ph d v = fill_page d v (ph_flags ph AND PHF_Writable \<noteq> 0) (slice_fill sl)"
proof -
  have "(\<lambda>st. sbind (page_slice file ph v) (\<lambda>slice. case slice of None \<Rightarrow> Inr ((), st)
      | Some (off, bs) \<Rightarrow> Inr ((), set_words p (put_frame off bs (frame_words st p)) st))) =
    (\<lambda>st. Inr ((), set_words p (slice_fill sl (frame_words st p)) st))" for p
    using assms by (cases sl) (auto simp: slice_fill_def set_words_def frame_words_def)
  then show ?thesis unfolding load_page_def fill_page_def by simp
qed

section \<open>A segment, then all of them\<close>

abbreviation segment_writable :: "program_header \<Rightarrow> bool" where
  "segment_writable ph \<equiv> ph_flags ph AND PHF_Writable \<noteq> 0"

definition is_load :: "program_header \<Rightarrow> bool" where
  "is_load ph \<longleftrightarrow> ph_type ph = PHT_Load \<and> ph_align ph = 0x1000"

text \<open>The segment is in memory: every page is mapped with the right attributes and holds the bytes of the file, then zeros.\<close>

definition segment_loaded :: "u8 list \<Rightarrow> paddr \<Rightarrow> paging_state \<Rightarrow> program_header \<Rightarrow> bool" where
  "segment_loaded file d st ph \<longleftrightarrow> (\<forall>v\<in>set (segment_page_list ph). page_ij v \<in> user_pages d st \<and>
    page_entry d st (page_ij v) AND 0xFFF = page_attr (segment_writable ph) \<and>
    (\<forall>k<4096. frame_byte (page_words d st (page_ij v)) k = segment_byte file ph (unat v + k)))"

lemma segment_loaded_keeps: "segment_loaded file d st ph \<Longrightarrow> keeps_pages d st st' \<Longrightarrow> segment_loaded file d st' ph"
  by (auto simp: segment_loaded_def keeps_pages_def)

lemma page_ij_inj: "page_aligned u \<Longrightarrow> page_aligned v \<Longrightarrow> page_ij u = page_ij v \<Longrightarrow> u = v"
proof -
  assume al: "page_aligned u" "page_aligned v" and eq: "page_ij u = page_ij v"
  have "pageOffset a = 0" if "page_aligned a" for a
    using address_parts [of a] that unfolding page_aligned_eq by (metis add_cancel_right_right)
  with al eq address_parts [of u] address_parts [of v] show "u = v" by (simp add: page_ij_def word_unat_eq_iff)
qed

lemma segment_law:
  assumes win: "window_inv st" "1 \<le> window_free st" and ok: "user_ok st d H" and ld: "is_load ph"
    and fits: "segment_fits file ph" "ph_memsz ph \<noteq> 0" and dist: "distinct (segment_page_list ph)"
    and new: "\<forall>v\<in>set (segment_page_list ph). page_ij v \<notin> user_pages d st"
    and room: "phys_room (n + 2 * length (segment_page_list ph)) (ps_frames st)"
    and sp: "range_inv vm_base vm_top sp" "free_between sp (fst (segment_pages ph)) (snd (segment_pages ph))"
  shows "\<exists>st' H' A C. load_segment file d ph (sp, b) st = Inr ((A @ segment_area ph # C, max b (snd (segment_pages ph))), st') \<and> sp = A @ C \<and>
    range_inv vm_base vm_top (A @ segment_area ph # C) \<and> user_ok st' d H' \<and> window_inv st' \<and> window_free st' = window_free st \<and>
    phys_room n (ps_frames st') \<and> user_pages d st' = page_ij ` set (segment_page_list ph) \<union> user_pages d st \<and> keeps_pages d st st' \<and>
    segment_loaded file d st' ph \<and> dir_grows d H st H' st'"
proof -
  let ?ps = "segment_page_list ph" and ?w = "segment_writable ph"
  obtain lo hi where s: "segment_pages ph = (lo, hi)" "page_aligned lo" "page_aligned hi" "unat lo < unat hi" "unat hi \<le> 3221225472"
    by (rule segment_bounds [OF fits]) simp
  note P = segment_loop [OF fits]
  have "\<exists>sl. page_slice file ph v = Inr sl \<and> (\<forall>k<4096. frame_byte (slice_fill sl table_clear) k = segment_byte file ph (unat v + k))"
    if "v \<in> set ?ps" for v using page_slice_byte [OF fits(1), of v] P(2,3) that by metis
  then obtain S where S: "page_slice file ph v = Inr (S v)"
    "\<forall>k<4096. frame_byte (slice_fill (S v) table_clear) k = segment_byte file ph (unat v + k)" if "v \<in> set ?ps" for v by metis
  have pf: "pfor (load_page file ph d) vs = pfor (\<lambda>v. fill_page d v ?w (slice_fill (S v))) vs" if "set vs \<subseteq> set ?ps" for vs
    using that load_page_fill [OF S(1)] by (induction vs) auto
  have dij: "distinct (map page_ij ?ps)"
    using dist P(2) page_ij_inj by (auto simp: distinct_map inj_on_def)
  have nw: "\<forall>v\<in>set ?ps. tableLoc v < 768 \<and> page_ij v \<notin> user_pages d st" using new P(3) by blast
  obtain st' H' where L: "pfor (\<lambda>v. fill_page d v ?w (slice_fill (S v))) ?ps st = Inr ((), st')" "user_ok st' d H'" "window_inv st'"
    "window_free st' = window_free st" "phys_room n (ps_frames st')" "user_pages d st' = page_ij ` set ?ps \<union> user_pages d st" "keeps_pages d st st'"
    "dir_grows d H st H' st'" "\<forall>v\<in>set ?ps. page_words d st' (page_ij v) = slice_fill (S v) table_clear \<and> page_entry d st' (page_ij v) AND 0xFFF = page_attr ?w"
    using fill_pages_law [OF win ok nw dij room, of ?w "\<lambda>v. slice_fill (S v)"] by blast
  have loop: "for_pages (load_page file ph d) lo hi st = Inr ((), st')" using P(1) s(1) L(1) pf [of ?ps] by (simp add: for_pages_def)
  have loaded: "segment_loaded file d st' ph" using L(6,9) S(2) by (simp add: segment_loaded_def)
  have "re_begin (segment_area ph) = lo" "re_end (segment_area ph) = hi" by (simp_all add: segment_area_def s(1) VMA_def VMA_range_def)
  then obtain A C where ins: "sp = A @ C" "range_insert sp (segment_area ph) = Inr (True, A @ segment_area ph # C)"
    "range_inv vm_base vm_top (A @ segment_area ph # C)"
    using range_insert_law(1) [OF sp(1), of "segment_area ph"] sp(2) s by (auto simp: word_less_nat_alt vm_top_def)
  have "load_segment file d ph (sp, b) st = Inr ((A @ segment_area ph # C, max b hi), st')"
    using ld loop ins(2) by (simp add: load_segment_def is_load_def s(1) pbind_def)
  with L(2-8) loaded ins(1,3) s(1) show ?thesis by (intro exI [of _ st'] exI [of _ H'] exI [of _ A] exI [of _ C]) simp
qed

fun read_headers :: "nat \<Rightarrow> u8 list \<Rightarrow> u16 \<Rightarrow> u32 \<Rightarrow> program_header list exec" where
  "read_headers 0 file entsize off = Inr []"
| "read_headers (Suc n) file entsize off = sbind (read_program_header file off) (\<lambda>ph.
    sbind (read_headers n file entsize (off + ucast entsize)) (\<lambda>phs. Inr (ph # phs)))"

definition loads :: "program_header list \<Rightarrow> program_header list" where
  "loads phs = filter is_load phs"

text \<open>The segments to load lie in the file and below the kernel, share no page, and overlap no area of the address space.\<close>

definition loads_ok :: "u8 list \<Rightarrow> program_header list \<Rightarrow> vm_space \<Rightarrow> bool" where
  "loads_ok file phs sp \<longleftrightarrow> distinct (concat (map segment_page_list (loads phs))) \<and>
    (\<forall>ph\<in>set (loads phs). segment_fits file ph \<and> ph_memsz ph \<noteq> 0 \<and> free_between sp (fst (segment_pages ph)) (snd (segment_pages ph)))"

abbreviation load_pages :: "program_header list \<Rightarrow> vaddr list" where
  "load_pages phs \<equiv> concat (map segment_page_list (loads phs))"

lemma segments_apart:
  assumes a: "segment_fits file p" "ph_memsz p \<noteq> 0" and b: "segment_fits file q" "ph_memsz q \<noteq> 0"
    and disj: "set (segment_page_list p) \<inter> set (segment_page_list q) = {}"
  shows "re_end (segment_area p) \<le> fst (segment_pages q) \<or> snd (segment_pages q) \<le> re_begin (segment_area p)"
proof (rule ccontr)
  assume n: "\<not> ?thesis"
  obtain lo hi where s: "segment_pages p = (lo, hi)" "page_aligned lo" "lo < hi" by (rule segment_bounds [OF a]) (simp add: word_less_nat_alt)
  obtain lo' hi' where s': "segment_pages q = (lo', hi')" "page_aligned lo'" "lo' < hi'" by (rule segment_bounds [OF b]) (simp add: word_less_nat_alt)
  have "max lo lo' \<in> set (segment_page_list p) \<inter> set (segment_page_list q)"
    using n s s' by (auto simp: segment_loop(2) [OF a] segment_loop(2) [OF b] segment_area_def VMA_def VMA_range_def max_def)
  with disj show False by blast
qed

lemma load_headers_law:
  assumes "read_headers n file entsize off = Inr phs" "window_inv st" "1 \<le> window_free st" "user_ok st d H" "loads_ok file phs sp"
    "\<forall>v\<in>set (load_pages phs). page_ij v \<notin> user_pages d st" "phys_room (m + 2 * length (load_pages phs)) (ps_frames st)"
    "range_inv vm_base vm_top sp"
  shows "\<exists>st' H' sp'. load_headers n file entsize d off (sp, b) st =
      Inr ((sp', fold (\<lambda>ph b. max b (snd (segment_pages ph))) (loads phs) b), st') \<and>
    range_inv vm_base vm_top sp' \<and> (\<forall>e. e \<in> set sp' \<longleftrightarrow> e \<in> set sp \<or> e \<in> segment_area ` set (loads phs)) \<and> user_ok st' d H' \<and> window_inv st' \<and>
    window_free st' = window_free st \<and> user_pages d st' = page_ij ` set (load_pages phs) \<union> user_pages d st \<and> keeps_pages d st st' \<and>
    (\<forall>ph\<in>set (loads phs). segment_loaded file d st' ph) \<and> phys_room m (ps_frames st') \<and> dir_grows d H st H' st'"
  using assms
proof (induction n arbitrary: off phs st H sp b)
  case 0
  then show ?case by (auto simp: keeps_pages_def loads_def)
next
  case (Suc n)
  obtain ph rest where h: "read_program_header file off = Inr ph" "read_headers n file entsize (off + ucast entsize) = Inr rest" "phs = ph # rest"
    using Suc.prems(1) by (auto simp: sbind_def split: sum.splits)
  show ?case
  proof (cases "is_load ph")
    case False
    then have l: "loads phs = loads rest" by (simp add: loads_def h(3))
    have "load_segment file d ph (sp, b) st = Inr ((sp, b), st)" using False by (simp add: load_segment_def is_load_def)
    with Suc.IH [OF h(2) Suc.prems(2-4) _ _ _ Suc.prems(8)] Suc.prems(5-7) show ?thesis by (simp add: l h(1) pbind_def loads_ok_def)
  next
    case True
    then have l: "loads phs = ph # loads rest" by (simp add: loads_def h(3))
    have fits: "segment_fits file ph" "ph_memsz ph \<noteq> 0" "distinct (segment_page_list ph)" "free_between sp (fst (segment_pages ph)) (snd (segment_pages ph))"
      using Suc.prems(5) by (auto simp: loads_ok_def l)
    have disj: "set (segment_page_list ph) \<inter> set (load_pages rest) = {}" "distinct (load_pages rest)" using Suc.prems(5) by (simp_all add: loads_ok_def l)
    have room: "phys_room ((m + 2 * length (load_pages rest)) + 2 * length (segment_page_list ph)) (ps_frames st)"
      using Suc.prems(7) by (simp add: l algebra_simps)
    have new: "\<forall>v\<in>set (segment_page_list ph). page_ij v \<notin> user_pages d st" using Suc.prems(6) by (simp add: l)
    obtain s1 H1 A C where s1: "load_segment file d ph (sp, b) st = Inr ((A @ segment_area ph # C, max b (snd (segment_pages ph))), s1)" "sp = A @ C"
      "range_inv vm_base vm_top (A @ segment_area ph # C)" "user_ok s1 d H1" "window_inv s1" "window_free s1 = window_free st"
      "phys_room (m + 2 * length (load_pages rest)) (ps_frames s1)" "user_pages d s1 = page_ij ` set (segment_page_list ph) \<union> user_pages d st"
      "keeps_pages d st s1" "segment_loaded file d s1 ph" "dir_grows d H st H1 s1"
      using segment_law [OF Suc.prems(2-4) True fits(1-3) new room Suc.prems(8) fits(4), of b] by blast
    let ?sp = "A @ segment_area ph # C"
    have ok: "loads_ok file rest ?sp"
      unfolding loads_ok_def
    proof (intro conjI ballI disj(2))
      fix q assume q: "q \<in> set (loads rest)"
      then show fq: "segment_fits file q" "ph_memsz q \<noteq> 0" using Suc.prems(5) by (auto simp: loads_ok_def l)
      have "set (segment_page_list ph) \<inter> set (segment_page_list q) = {}" using disj(1) q by auto
      from segments_apart [OF fits(1,2) fq this] show "free_between ?sp (fst (segment_pages q)) (snd (segment_pages q))"
        using Suc.prems(5) q s1(2) by (auto simp: loads_ok_def l free_between_def)
    qed
    have nr: "\<forall>v\<in>set (load_pages rest). page_ij v \<notin> user_pages d s1"
    proof
      fix v assume v: "v \<in> set (load_pages rest)"
      then have "page_ij v \<notin> user_pages d st" using Suc.prems(6) by (auto simp: l)
      moreover have "page_ij v \<noteq> page_ij u" if u: "u \<in> set (segment_page_list ph)" for u
      proof -
        obtain q where q: "q \<in> set (loads rest)" "v \<in> set (segment_page_list q)" using v by auto
        then have "page_aligned v" using Suc.prems(5) segment_loop(2) [of "file" q] by (auto simp: loads_ok_def l)
        moreover have "page_aligned u" using segment_loop(2) [OF fits(1,2)] u by blast
        ultimately show ?thesis using page_ij_inj [of v u] disj(1) u v by blast
      qed
      ultimately show "page_ij v \<notin> user_pages d s1" by (auto simp: s1(8))
    qed
    have f1: "1 \<le> window_free s1" using Suc.prems(3) s1(6) by simp
    obtain s2 H2 sp2 where s2: "load_headers n file entsize d (off + ucast entsize) (?sp, max b (snd (segment_pages ph))) s1 =
        Inr ((sp2, fold (\<lambda>ph b. max b (snd (segment_pages ph))) (loads rest) (max b (snd (segment_pages ph)))), s2)"
      "range_inv vm_base vm_top sp2" "\<forall>e. e \<in> set sp2 \<longleftrightarrow> e \<in> set ?sp \<or> e \<in> segment_area ` set (loads rest)" "user_ok s2 d H2" "window_inv s2"
      "window_free s2 = window_free s1" "user_pages d s2 = page_ij ` set (load_pages rest) \<union> user_pages d s1" "keeps_pages d s1 s2"
      "\<forall>ph\<in>set (loads rest). segment_loaded file d s2 ph" "phys_room m (ps_frames s2)" "dir_grows d H1 s1 H2 s2"
      using Suc.IH [OF h(2) s1(5) f1 s1(4) ok nr s1(7) s1(3), of "max b (snd (segment_pages ph))"] by blast
    have "load_headers (Suc n) file entsize d off (sp, b) st =
        Inr ((sp2, fold (\<lambda>ph b. max b (snd (segment_pages ph))) (loads phs) b), s2)" using h(1) s1(1) s2(1) by (simp add: pbind_def l)
    moreover have "\<forall>e. e \<in> set sp2 \<longleftrightarrow> e \<in> set sp \<or> e \<in> segment_area ` set (loads phs)" using s2(3) s1(2) by (auto simp: l)
    moreover have "user_pages d s2 = page_ij ` set (load_pages phs) \<union> user_pages d st" using s2(7) s1(8) by (auto simp: l)
    moreover have "\<forall>ph\<in>set (loads phs). segment_loaded file d s2 ph" using s2(9) segment_loaded_keeps [OF s1(10) s2(8)] by (simp add: l)
    moreover have "dir_grows d H st H2 s2" by (rule dir_grows_trans [OF s1(11) s2(11)])
    ultimately show ?thesis using s2(2,4-6,10) s1(6) keeps_pages_trans [OF s1(9) s2(8)]
      by (intro exI [of _ s2] exI [of _ H2] exI [of _ sp2]) simp
  qed
qed

lemma user_ok_fresh:
  assumes "phys_rel (ps_frames st) H" "d \<in># H" "\<forall>i<768. ps_mem st d i = 0"
  shows "user_ok st d H" "user_pages d st = {}"
proof -
  have "user_tables d st = {}" using assms(3) not_present_zero by (auto simp: user_tables_def dir_entry_def frame_words_def)
  then show "user_pages d st = {}" "user_ok st d H" using assms(1,2) by (auto simp: user_ok_def user_pages_def)
qed

text \<open>The loader as its caller sees it: the mapper of the new directory stays open, and closing it later gives back the window of
  the kernel.\<close>

lemma loadElf_law:
  assumes h: "read_header file = Inr h" and phs: "read_headers (unat (eh_phnum h)) file (eh_phentsize h) (eh_phoff h) = Inr phs"
    and ok: "loads_ok file phs sp" "range_inv vm_base vm_top sp" and win: "window_inv st" "2 \<le> window_free st"
    and room: "phys_rel (ps_frames st) H" "card (set_mset H) + 1 + 2 * length (load_pages phs) + n \<le> phys_limit (ps_frames st)"
  obtains m sp' st' where "loadElf sp file st = Inr ((\<lparr>lr_pageDir = m, lr_brkAddr = fold (\<lambda>ph b. max b (snd (segment_pages ph))) (loads phs) 0x400000,
      lr_entry = eh_entry_offset h\<rparr>, sp'), st')" "mg_paddr m \<notin># H"
    "user_pages (mg_paddr m) st' = page_ij ` set (load_pages phs)" "\<forall>ph\<in>set (loads phs). segment_loaded file (mg_paddr m) st' ph"
    "range_inv vm_base vm_top sp'" "set sp' = set sp \<union> segment_area ` set (loads phs)" "window_free st' = window_free st - 1" "window_inv st'"
    "phys_room n (ps_frames st')" "user_ok st' (mg_paddr m) (H + dir_refs (mg_paddr m) st')"
    "\<forall>q. q \<in># H \<longrightarrow> q \<notin># dir_refs (mg_paddr m) st' \<and> ps_mem st' q = ps_mem st q"
    "\<forall>s. same_window st' s \<longrightarrow> mapper_close m s = Inr ((), set_window (ps_vframes st) (ps_kdir st) (ps_ktab st) s)"
proof -
  have "phys_room (Suc 0) (ps_frames st)" by (rule phys_room_free [OF room(1)]) (use room(2) in simp)
  then obtain f a where a: "physicalFrameAlloc (ps_frames st) = Inr (f, a)" by auto
  note A = phys_rel_alloc [OF room(1) a]
  let ?s0 = "st\<lparr>ps_frames := f\<rparr>"
  have w0: "window_inv ?s0" "0 < window_free ?s0" using win by (simp_all add: window_inv_def window_free_def window_index_def)
  obtain m vf kt where m: "mapper_open a ?s0 = Inr (m, set_window vf (ps_kdir ?s0) kt ?s0)" "window_inv (set_window vf (ps_kdir ?s0) kt ?s0)"
    "window_free (set_window vf (ps_kdir ?s0) kt ?s0) = window_free ?s0 - 1" "mg_paddr m = a"
    "\<forall>s. mapper_close m (set_window vf (ps_kdir ?s0) kt s) = Inr ((), set_window (ps_vframes ?s0) (ps_kdir ?s0) (ps_ktab ?s0) s)"
    using mapper_bracket [OF w0, of a] by metis
  define s1 where "s1 = set_words a (upper_copy (ps_kdir st)) (set_window vf (ps_kdir ?s0) kt ?s0)"
  have fork: "dir_fork st = Inr (m, s1)" using a m(1) by (simp add: dir_fork_def pbind_def phys_alloc_def s1_def)
  have fr: "ps_frames s1 = f" "\<And>q. q \<noteq> a \<Longrightarrow> ps_mem s1 q = ps_mem st q" by (simp_all add: s1_def set_words_def)
  have win1: "window_inv s1" "window_free s1 = window_free st - 1"
    using m(2,3) by (simp_all add: s1_def set_words_def window_inv_def window_free_def window_index_def)
  have rel: "phys_rel (ps_frames s1) (add_mset a H)" using A by (simp add: fr)
  have z: "\<forall>i<768. ps_mem s1 a i = 0" by (simp add: s1_def set_words_def upper_copy_def)
  note U = user_ok_fresh [OF rel _ z]
  have "user_tables a s1 = {}" using z not_present_zero by (auto simp: user_tables_def dir_entry_def frame_words_def)
  then have refs: "dir_refs a s1 = {#a#}" using U(2) by (simp add: dir_refs_def)
  have room1: "phys_room (n + 2 * length (load_pages phs)) (ps_frames s1)"
    by (rule phys_room_free [OF rel]) (use A room(2) in \<open>simp add: fr\<close>)
  have f1: "1 \<le> window_free s1" using win(2) win1(2) by simp
  obtain s2 H2 sp2 where s2: "load_headers (unat (eh_phnum h)) file (eh_phentsize h) a (eh_phoff h) (sp, 0x400000) s1 =
      Inr ((sp2, fold (\<lambda>ph b. max b (snd (segment_pages ph))) (loads phs) 0x400000), s2)"
    "range_inv vm_base vm_top sp2" "\<forall>e. e \<in> set sp2 \<longleftrightarrow> e \<in> set sp \<or> e \<in> segment_area ` set (loads phs)"
    "window_free s2 = window_free s1" "window_inv s2" "user_pages a s2 = page_ij ` set (load_pages phs) \<union> user_pages a s1"
    "\<forall>ph\<in>set (loads phs). segment_loaded file a s2 ph" "phys_room n (ps_frames s2)" "user_ok s2 a H2" "dir_grows a (add_mset a H) s1 H2 s2"
    using load_headers_law [OF phs win1(1) f1 U(1) ok(1) _ room1 ok(2), of "0x400000"] U(2) by auto
  have H2: "H2 = H + dir_refs a s2" using s2(10) by (simp add: dir_grows_def refs)
  have mem: "q \<notin># dir_refs a s2 \<and> ps_mem s2 q = ps_mem st q" if "q \<in># H" for q
  proof -
    have "q \<noteq> a" using that A by auto
    then show ?thesis using s2(10) that fr(2) by (simp add: dir_grows_def refs)
  qed
  have close: "mapper_close m s = Inr ((), set_window (ps_vframes st) (ps_kdir st) (ps_ktab st) s)" if "same_window s2 s" for s
  proof -
    have "set_window vf (ps_kdir ?s0) kt s = s"
      using that s2(10) by (simp add: dir_grows_def same_window_def s1_def set_words_def)
    then show ?thesis using m(5) [rule_format, of s] by simp
  qed
  show thesis
  proof (rule that [of m sp2 s2])
    show "loadElf sp file st = Inr ((\<lparr>lr_pageDir = m, lr_brkAddr = fold (\<lambda>ph b. max b (snd (segment_pages ph))) (loads phs) 0x400000,
      lr_entry = eh_entry_offset h\<rparr>, sp2), s2)" using h fork s2(1) m(4) by (simp add: loadElf_def pbind_def preturn_def)
    show "set sp2 = set sp \<union> segment_area ` set (loads phs)" using s2(3) by auto
    show "\<forall>s. same_window s2 s \<longrightarrow> mapper_close m s = Inr ((), set_window (ps_vframes st) (ps_kdir st) (ps_ktab st) s)" using close by blast
    show "\<forall>q. q \<in># H \<longrightarrow> q \<notin># dir_refs (mg_paddr m) s2 \<and> ps_mem s2 q = ps_mem st q" unfolding m(4) using mem by blast
  qed (use s2(2,4-9) A m(4) win1(2) U(2) H2 in simp_all)
qed

text \<open>C7: a program file whose segments to load lie in the file, end below the kernel, share no page with each other and overlap no
  area is loaded completely, given two free kernel virtual frames and two free physical frames for each page and one more: the new
  directory maps exactly the pages of the segments, each writable exactly when its segment is, every byte of these pages is
  the byte of the file or zero past the bytes the file has, the areas are the old ones and one for each segment, and the
  break is the end of the highest segment, at least 0x400000.\<close>

theorem program_loaded:
  assumes h: "read_header file = Inr h" and phs: "read_headers (unat (eh_phnum h)) file (eh_phentsize h) (eh_phoff h) = Inr phs"
    and ok: "loads_ok file phs sp" "range_inv vm_base vm_top sp" and win: "window_inv st" "2 \<le> window_free st"
    and room: "phys_rel (ps_frames st) H" "card (set_mset H) + 1 + 2 * length (load_pages phs) \<le> phys_limit (ps_frames st)"
  shows "\<exists>m sp' st'. loadElf sp file st = Inr ((\<lparr>lr_pageDir = m, lr_brkAddr = fold (\<lambda>ph b. max b (snd (segment_pages ph))) (loads phs) 0x400000,
      lr_entry = eh_entry_offset h\<rparr>, sp'), st') \<and> mg_paddr m \<notin># H \<and>
    user_pages (mg_paddr m) st' = page_ij ` set (load_pages phs) \<and> (\<forall>ph\<in>set (loads phs). segment_loaded file (mg_paddr m) st' ph) \<and>
    range_inv vm_base vm_top sp' \<and> set sp' = set sp \<union> segment_area ` set (loads phs) \<and> window_free st' = window_free st - 1"
proof -
  have room0: "card (set_mset H) + 1 + 2 * length (load_pages phs) + 0 \<le> phys_limit (ps_frames st)" using room(2) by simp
  show ?thesis by (rule loadElf_law [OF h phs ok win room(1) room0]) blast
qed

section \<open>A small program\<close>

definition small_segment :: program_header where
  "small_segment = \<lparr>ph_type = 1, ph_offset = 84, ph_vaddr = 0x400010, ph_paddr = 0, ph_filesz = 4, ph_memsz = 8, ph_flags = 5, ph_align = 0x1000\<rparr>"

definition small_file :: "u8 list" where
  "small_file = replicate 24 0 @ [0x10, 0, 0x40, 0, 52, 0, 0, 0] @ replicate 10 0 @ [32, 0, 1, 0] @ replicate 6 0 @
    [1, 0, 0, 0, 84, 0, 0, 0, 0x10, 0, 0x40, 0, 0, 0, 0, 0, 4, 0, 0, 0, 8, 0, 0, 0, 5, 0, 0, 0, 0, 0x10, 0, 0] @ [0xB8, 1, 2, 3]"

definition small_header :: elf_header where
  "small_header = \<lparr>eh_entry_offset = 0x400010, eh_phoff = 52, eh_phentsize = 32, eh_phnum = 1\<rparr>"

lemma small_headers: "read_header small_file = Inr \<lparr>eh_entry_offset = 0x400010, eh_phoff = 52, eh_phentsize = 32, eh_phnum = 1\<rparr>"
    "read_headers 1 small_file 32 52 = Inr [small_segment]" "length small_file = 88"
    "segment_pages small_segment = (0x400000, 0x401000)" "segment_page_list small_segment = [0x400000]"
  by code_simp+

lemma small_loads: "loads [small_segment] = [small_segment]"
  by (simp add: loads_def is_load_def small_segment_def PHT_Load_def)

lemma small_loads_ok: "loads_ok small_file [small_segment] VMSpace"
proof -
  have "free_between VMSpace 0x400000 0x401000"
    by (simp add: free_between_def VMSpace_def range_init_def VMA_range_def vm_base_def vm_top_def)
  then show ?thesis by (simp add: loads_ok_def small_loads small_headers segment_fits_def) (simp add: small_segment_def)
qed

theorem program_loaded_witness:
  "\<exists>m b sp' st'. loadElf VMSpace small_file shared_state = Inr ((\<lparr>lr_pageDir = m, lr_brkAddr = 0x401000, lr_entry = 0x400010\<rparr>, sp'), st') \<and>
    user_pages (mg_paddr m) st' = {(1, 0)} \<and> frame_byte (page_words (mg_paddr m) st' (1, 0)) 0x10 = 0xB8 \<and>
    frame_byte (page_words (mg_paddr m) st' (1, 0)) 0x14 = b \<and> b = 0 \<and> \<not> bit (page_entry (mg_paddr m) st' (1, 0)) 1"
proof -
  let ?H = "{#0x802000, 0x802000, 0x801000, 0x800000 :: u32#}"
  note l = small_loads and ok = small_loads_ok
  have ri: "range_inv vm_base vm_top VMSpace"
    by (simp add: range_inv_def VMSpace_def range_init_def VMA_range_def vm_base_def vm_top_def)
  have rel: "phys_rel (ps_frames shared_state) ?H" using phys_reach_rel [OF shared_reach] by (simp add: shared_state_def)
  have room: "card (set_mset ?H) + 1 + 2 * length (load_pages [small_segment]) \<le> phys_limit (ps_frames shared_state)"
    by (simp add: l small_headers(5) phys_limit_def shared_state_def shared_frames_def)
  have free: "2 \<le> window_free shared_state" by (simp add: shared_window(2))
  have rh: "read_headers (unat (eh_phnum \<lparr>eh_entry_offset = 0x400010, eh_phoff = 52, eh_phentsize = 32, eh_phnum = 1\<rparr>)) small_file
      (eh_phentsize \<lparr>eh_entry_offset = 0x400010, eh_phoff = 52, eh_phentsize = 32, eh_phnum = 1\<rparr>)
      (eh_phoff \<lparr>eh_entry_offset = 0x400010, eh_phoff = 52, eh_phentsize = 32, eh_phnum = 1\<rparr>) = Inr [small_segment]"
    using small_headers(2) by simp
  have ij: "page_ij 0x400000 = (1, 0)" by (simp add: page_ij_def tableLoc_def tablePageLoc_def)
  from program_loaded [OF small_headers(1) rh ok ri shared_window(1) free rel room] obtain m sp' st' where
    r: "loadElf VMSpace small_file shared_state = Inr ((\<lparr>lr_pageDir = m, lr_brkAddr = 0x401000, lr_entry = 0x400010\<rparr>, sp'), st')"
    "user_pages (mg_paddr m) st' = {(1, 0)}" "segment_loaded small_file (mg_paddr m) st' small_segment"
    by (auto simp: l small_headers(4,5) ij max_def)
  have b: "frame_byte (page_words (mg_paddr m) st' (1, 0)) k = segment_byte small_file small_segment (4194304 + k)"
    "page_entry (mg_paddr m) st' (1, 0) AND 0xFFF = page_attr False" if "k < 4096" for k
    using r(3) that by (simp_all add: segment_loaded_def small_headers(5) ij) (simp_all add: small_segment_def PHF_Writable_def)
  have "\<not> bit (page_entry (mg_paddr m) st' (1, 0)) 1"
  proof -
    have "bit (page_entry (mg_paddr m) st' (1, 0) AND 0xFFF) 1 \<longleftrightarrow> False" using b(2) [of 0] page_attr_facts(3) [of False] by simp
    moreover have "bit (0xFFF :: u32) 1" by code_simp
    ultimately show ?thesis by (simp add: bit_and_iff)
  qed
  moreover have "segment_byte small_file small_segment (4194304 + 0x10) = 0xB8" "segment_byte small_file small_segment (4194304 + 0x14) = 0"
  proof -
    have "small_file ! 84 = 0xB8" by code_simp
    then show "segment_byte small_file small_segment (4194304 + 0x10) = 0xB8" "segment_byte small_file small_segment (4194304 + 0x14) = 0"
      by (simp_all add: segment_byte_def small_segment_def)
  qed
  ultimately show ?thesis using r(1,2) b(1) [of 16] b(1) [of 20] by (intro exI [of _ m] exI [of _ 0] exI [of _ sp'] exI [of _ st']) simp
qed

end
