(* ===== verification/Nyan_Mmap.thy ===== *)
theory Nyan_Mmap
  imports Nyan_Elf
begin

unbundle bit_operations_syntax

text \<open>
  Mapping memory as a program sees it: \<^verbatim>\<open>mmap_pgoff\<close> (kernel/syscall/mmap_pgoff.cpp) with the insertion of the area and the
  allocation of its pages (\<^verbatim>\<open>VMA::alloc\<close>, kernel/paging/vma.hpp) together. The pages of a program lie in its areas
  (\<open>pages_backed\<close>); so address space that is free for an area has no pages either.
\<close>

section \<open>Pages of an area\<close>

definition pages_backed :: "vm_space \<Rightarrow> paddr \<Rightarrow> paging_state \<Rightarrow> bool" where
  "pages_backed sp d st \<longleftrightarrow> (\<forall>p. page_aligned p \<and> page_ij p \<in> user_pages d st \<longrightarrow> covered sp p)"

lemma vma_page_attr: "(if prot AND PROT_WRITE \<noteq> 0 then (PTE_User OR PTE_Present) OR PTE_ReadWrite else PTE_User OR PTE_Present) = page_attr (prot AND PROT_WRITE \<noteq> 0)"
  by (simp add: page_attr_def pte_flags)

lemma vma_alloc_transparent: "transparent 2 (vma_alloc_page d prot page) (fill_plain d page (prot AND PROT_WRITE \<noteq> 0) (\<lambda>ws. ws))"
proof -
  let ?w = "prot AND PROT_WRITE \<noteq> 0" and ?pde = "PDE_Present OR PDE_ReadWrite OR PDE_User" and ?loc = "tableLoc page"
  have set: "transparent 1 (with_mapper p (\<lambda>st. Inr ((), set_words p table_clear st))) (\<lambda>st. Inr ((), set_words p table_clear st))" for p
    using transparent_with_mapper [OF transparent_blind [OF window_blind_set [of "\<lambda>_. table_clear" "()" p]], of 0] by simp
  have "transparent 1 (pbind (table_alloc t page (page_attr ?w)) (\<lambda>p. with_mapper p (\<lambda>st. Inr ((), set_words p table_clear st))))
      (page_plain t page (page_attr ?w) (\<lambda>ws. ws))" for t
    unfolding page_plain_def by (intro transparent_pbind set transparent_blind table_alloc_blind)
  from dir_with_transparent [OF this] have "transparent 2 (dir_with d ?loc (\<lambda>t. pbind (table_alloc t page (page_attr ?w)) (\<lambda>p. with_mapper p (\<lambda>st. Inr ((), set_words p table_clear st)))))
      (\<lambda>st. page_plain (entry_at (dir_entry d ?loc st)) page (page_attr ?w) (\<lambda>ws. ws) st)" by (simp add: numeral_2_eq_2)
  moreover have "transparent 2 (dir_ensure d ?loc ?pde) (ensure_plain d ?loc ?pde)" by (rule transparent_mono [OF ensure_transparent]) simp
  moreover have "PDE_User OR PDE_ReadWrite OR PDE_Present = ?pde" by (simp add: pte_flags)
  ultimately show ?thesis
    unfolding vma_alloc_page_def fill_plain_def Let_def vma_page_attr by (simp add: transparent_pbind)
qed

text \<open>The loop of \<^verbatim>\<open>VMA::alloc\<close> fills the pages of the area as \<^verbatim>\<open>UserDirectory::alloc\<close> does one.\<close>

lemma vma_alloc_pages:
  assumes win: "window_inv st" "3 \<le> window_free st" and ps: "page_loop (re_begin v) (re_end v) = Some ps"
  shows "vma_alloc d v st = pfor (\<lambda>p. fill_page d p (vma_protect v AND PROT_WRITE \<noteq> 0) (\<lambda>ws. ws)) ps st"
proof -
  let ?w = "vma_protect v AND PROT_WRITE \<noteq> 0"
  have "transparent 2 (pfor (vma_alloc_page d (vma_protect v)) ps) (pfor (\<lambda>p. fill_plain d p ?w (\<lambda>ws. ws)) ps)"
    by (rule transparent_pfor [OF vma_alloc_transparent])
  moreover have "transparent 2 (pfor (\<lambda>p. fill_page d p ?w (\<lambda>ws. ws)) ps) (pfor (\<lambda>p. fill_plain d p ?w (\<lambda>ws. ws)) ps)"
    by (rule transparent_mono [OF transparent_pfor [OF fill_transparent]]) simp
  ultimately show ?thesis using win ps by (simp add: vma_alloc_def for_pages_def transparent_def)
qed

lemma low_page: "unat p < 0xC0000000 \<Longrightarrow> tableLoc p < 768"
  using address_parts [of p] by linarith

text \<open>The pages between two page boundaries.\<close>

lemma page_range_pages:
  assumes al: "page_aligned b" "page_aligned len" and no: "unat b + unat len < 2 ^ 32"
  obtains ps where "page_loop b (b + len) = Some ps" "set ps = {p. page_aligned p \<and> b \<le> p \<and> p < b + len}" "distinct ps" "length ps = unat len div 4096"
proof -
  define n where "n = unat len div 4096"
  have ln: "unat len = 4096 * n" using al(2) by (auto simp: n_def page_aligned_def)
  have up: "unat (b + len) = unat b + 4096 * n" using no by (simp add: unat_word_ariths ln)
  let ?f = "\<lambda>k. b + of_nat k * 4096"
  have u: "unat (?f k) = unat b + 4096 * k" if "k < n" for k
    using that unat_lt_u32 [of "b + len"] up by (simp add: unat_word_ariths unat_of_nat)
  have loop: "page_loop b (b + len) = Some (map ?f [0..<n])" using page_loop_aligned [OF al(1) page_aligned_add [OF al], of n] ln by simp
  have "?f ` {0..<n} = {p. page_aligned p \<and> b \<le> p \<and> p < b + len}"
  proof (intro set_eqI iffI)
    fix p assume "p \<in> ?f ` {0..<n}"
    then obtain k where k: "k < n" "p = ?f k" by auto
    then show "p \<in> {p. page_aligned p \<and> b \<le> p \<and> p < b + len}"
      using u [OF k(1)] al(1) up by (auto simp: page_aligned_def word_le_nat_alt word_less_nat_alt)
  next
    fix p assume p: "p \<in> {p. page_aligned p \<and> b \<le> p \<and> p < b + len}"
    then have "4096 dvd unat p - unat b" using al(1) by (auto simp: page_aligned_def mod_eq_0_iff_dvd)
    then obtain k where "unat p - unat b = 4096 * k" by (rule dvdE)
    moreover have "unat b \<le> unat p" using p by (simp add: word_le_nat_alt)
    ultimately have k: "unat p = unat b + 4096 * k" by linarith
    then have "k < n" using p up by (simp add: word_less_nat_alt)
    then show "p \<in> ?f ` {0..<n}" using u [of k] k by (intro image_eqI [of _ _ k]) (simp_all add: word_unat_eq_iff)
  qed
  moreover have "inj_on ?f {0..<n}"
  proof (rule inj_onI)
    fix i j assume ij: "i \<in> {0..<n}" "j \<in> {0..<n}" and e: "?f i = ?f j"
    have "unat b + 4096 * i = unat b + 4096 * j" using u [of i] u [of j] ij arg_cong [OF e, of unat] by (metis atLeastLessThan_iff)
    then show "i = j" by simp
  qed
  ultimately show thesis using that [OF loop] by (simp add: distinct_map n_def)
qed

lemma alignUp_bounds:
  assumes "0 < len" "len \<le> 0xFFFFF000"
  shows "0 < alignUp len" "len \<le> alignUp len"
proof -
  have "unat (alignUp len) = (unat len + 4095) div 4096 * 4096" using assms(2) by (intro unat_alignUp) (simp add: word_le_nat_alt)
  moreover have "0 < unat len" using assms(1) by (simp add: unat_gt_0)
  moreover have "k \<le> (k + 4095) div 4096 * 4096" "0 < k \<Longrightarrow> 0 < (k + 4095) div 4096" for k :: nat by linarith+
  ultimately show "0 < alignUp len" "len \<le> alignUp len" by (simp_all add: word_less_nat_alt word_le_nat_alt)
qed

section \<open>Mapping\<close>

text \<open>C13: an anonymous private mapping of a program, with a page-aligned hint, when the search finds a place, does all it should and
  nothing more. The call returns the place: page-aligned, inside user space, not below the hint, where nothing was mapped. The areas are
  those from before and the new one, which has the requested flags and protection and the length rounded up to pages, and
  stay sorted and disjoint. The directory maps exactly the pages of the new area more, each full of zeros and writable
  exactly when write access was asked for; every page it had keeps contents and attributes; frames are taken from free ones only, and no frame
  of anyone else changes. When the search finds no place the call fails with \<^verbatim>\<open>ENOMEM\<close> and changes nothing. The program is assumed to
  have pages in its areas only, and two free frames for each page of the mapping.\<close>

theorem mmap_maps_fresh:
  fixes mm :: task_mm
  defines "sp \<equiv> mm_space mm" and "d \<equiv> mm_cr3 mm"
  assumes inv: "vm_inv sp" and hint: "page_aligned hint" and len: "0 < len" "len \<le> 0xFFFFF000"
    and flags: "flags AND MAP_FIXED = 0" "flags AND MAP_PRIVATE \<noteq> 0"
    and found: "vm_find_free sp (alignUp len) hint = Inr place"
    and win: "window_inv st" "4 \<le> window_free st" and ok: "user_ok st d H" and backed: "pages_backed sp d st"
    and room: "card (set_mset H) + 2 * (unat (alignUp len) div 4096) \<le> phys_limit (ps_frames st)"
  shows "case place of None \<Rightarrow> mmap_pgoff hint len prot flags mm st = Inr ((Inl SYS_ENOMEM, mm), st)
    | Some b \<Rightarrow> \<exists>sp' st' H'. mmap_pgoff hint len prot flags mm st = Inr ((Inr b, mm\<lparr>mm_space := sp'\<rparr>), st') \<and>
        page_aligned b \<and> vm_base \<le> b \<and> hint \<le> b \<and> unat b + unat (alignUp len) \<le> unat vm_top \<and>
        (\<forall>p. b \<le> p \<and> p < b + alignUp len \<longrightarrow> \<not> covered sp p) \<and>
        vm_inv sp' \<and> mset sp' = add_mset (VMA b (b + alignUp len) flags prot ''mmap'') (mset sp) \<and>
        user_pages d st' = page_ij ` {p. page_aligned p \<and> b \<le> p \<and> p < b + alignUp len} \<union> user_pages d st \<and>
        (\<forall>p. page_aligned p \<and> b \<le> p \<and> p < b + alignUp len \<longrightarrow>
          page_words d st' (page_ij p) = table_clear \<and> page_entry d st' (page_ij p) AND 0xFFF = page_attr (prot AND PROT_WRITE \<noteq> 0)) \<and>
        keeps_pages d st st' \<and> dir_grows d H st H' st' \<and> user_ok st' d H' \<and> pages_backed sp' d st'"
proof (cases place)
  case None
  then show ?thesis using found flags len(1) by (simp add: mmap_pgoff_def MAP_FILE_def sp_def)
next
  case (Some b)
  let ?L = "alignUp len" and ?w = "prot AND PROT_WRITE \<noteq> 0"
  let ?v = "VMA b (b + ?L) flags prot ''mmap''"
  have L: "page_aligned ?L" "0 < ?L" using alignUp_bounds [OF len] by simp_all
  obtain A C where M: "sp = A @ C" "mmap_insert sp b ?L flags prot = Inr (True, A @ ?v # C)" "vm_inv (A @ ?v # C)"
    "vm_base \<le> b" "hint \<le> b" "unat b + unat ?L \<le> unat vm_top" "page_aligned b"
    and cov: "\<And>p. covered (A @ ?v # C) p \<longleftrightarrow> covered sp p \<or> b \<le> p \<and> p < b + ?L" and fresh: "\<And>p. b \<le> p \<Longrightarrow> p < b + ?L \<Longrightarrow> \<not> covered sp p"
    by (rule mmap_place [OF inv L hint found [unfolded Some], of flags prot]) blast
  have top: "unat b + unat ?L \<le> 0xC0000000" using M(6) by (simp add: vm_top_def)
  then have no: "unat b + unat ?L < 2 ^ 32" by simp
  obtain ps where ps: "page_loop b (b + ?L) = Some ps" "set ps = {p. page_aligned p \<and> b \<le> p \<and> p < b + ?L}" "distinct ps" "length ps = unat ?L div 4096"
    by (rule page_range_pages [OF M(7) L(1) no])
  have v: "re_begin ?v = b" "re_end ?v = b + ?L" "vma_protect ?v = prot" by (simp_all add: VMA_def VMA_range_def)
  have up: "unat (b + ?L) = unat b + unat ?L" using no by (simp add: unat_word_ariths)
  have new: "\<forall>p\<in>set ps. tableLoc p < 768 \<and> page_ij p \<notin> user_pages d st"
    using fresh backed low_page top up by (fastforce simp: ps(2) pages_backed_def word_less_nat_alt)
  have dij: "distinct (map page_ij ps)" unfolding distinct_map using ps(2,3) page_ij_inj by (auto intro!: inj_onI)
  have rm: "phys_room (0 + 2 * length ps) (ps_frames st)" by (rule phys_room_free [of _ H]) (use ok room ps(4) in \<open>simp_all add: user_ok_def\<close>)
  have w1: "1 \<le> window_free st" "3 \<le> window_free st" using win(2) by simp_all
  obtain st' H' where F: "pfor (\<lambda>p. fill_page d p ?w (\<lambda>ws. ws)) ps st = Inr ((), st')" "user_ok st' d H'"
    "user_pages d st' = page_ij ` set ps \<union> user_pages d st" "keeps_pages d st st'" "dir_grows d H st H' st'"
    "\<forall>p\<in>set ps. page_words d st' (page_ij p) = table_clear \<and> page_entry d st' (page_ij p) AND 0xFFF = page_attr ?w"
    using fill_pages_law [OF win(1) w1(1) ok new dij rm, of ?w "\<lambda>_ ws. ws"] by blast
  have backed': "pages_backed (A @ ?v # C) d st'"
    unfolding pages_backed_def
  proof (intro allI impI)
    fix p assume p: "page_aligned p \<and> page_ij p \<in> user_pages d st'"
    show "covered (A @ ?v # C) p"
    proof (cases "page_ij p \<in> user_pages d st")
      case True
      then show ?thesis using p backed cov by (simp add: pages_backed_def)
    next
      case False
      then obtain q where "q \<in> set ps" "page_ij p = page_ij q" using p F(3) by auto
      then show ?thesis using p page_ij_inj [of p q] cov by (auto simp: ps(2))
    qed
  qed
  have body: "with_mapper d (\<lambda>st. sbind (mmap_insert sp b ?L flags prot) (\<lambda>(ok, sp).
      if \<not> ok then Inr ((Inl SYS_ENOMEM, sp), st)
      else pbind (vma_alloc d ?v) (\<lambda>_. preturn (Inr b, sp)) st)) st = Inr ((Inr b, A @ ?v # C), st')"
  proof -
    have "transparent 2 (pfor (vma_alloc_page d prot) ps) (pfor (\<lambda>p. fill_plain d p ?w (\<lambda>ws. ws)) ps)"
      by (rule transparent_pfor [OF vma_alloc_transparent])
    then have "transparent 2 (pbind (vma_alloc d ?v) (\<lambda>_. preturn (Inr b :: u32 result, A @ ?v # C)))
        (pbind (pfor (\<lambda>p. fill_plain d p ?w (\<lambda>ws. ws)) ps) (\<lambda>_. preturn (Inr b, A @ ?v # C)))"
      unfolding vma_alloc_def for_pages_def [abs_def] v ps(1) option.case by (intro transparent_pbind transparent_blind window_blind_prims)
    from transparent_with_mapper [OF this, of d] this have "with_mapper d (pbind (vma_alloc d ?v) (\<lambda>_. preturn (Inr b :: u32 result, A @ ?v # C))) st =
        pbind (vma_alloc d ?v) (\<lambda>_. preturn (Inr b, A @ ?v # C)) st" using win by (simp add: transparent_def)
    also have "\<dots> = Inr ((Inr b, A @ ?v # C), st')"
      using vma_alloc_pages [OF win(1) w1(2), of ?v ps d] F(1) by (simp add: v ps(1) pbind_def preturn_def)
    finally show ?thesis by (simp add: M(2))
  qed
  have "mmap_pgoff hint len prot flags mm st = Inr ((Inr b, mm\<lparr>mm_space := A @ ?v # C\<rparr>), st')"
    using found flags len(1) body [unfolded d_def sp_def] unfolding mmap_pgoff_def Let_def
    by (simp add: MAP_FILE_def sp_def Some pbind_def word_gt_0) (simp add: preturn_def)
  then show ?thesis unfolding Some option.case
    by (intro exI [of _ "A @ ?v # C"] exI [of _ st'] exI [of _ H']) (use M(1,3-7) fresh F(2-6) backed' in \<open>simp add: ps(2)\<close>)
qed

text \<open>The directory of the small machine: one table, one page.\<close>

lemma shared_user: "user_tables 0x800000 shared_state = {1}" "user_pages 0x800000 shared_state = {(1, 0)}"
  "user_ok shared_state 0x800000 {#0x802000, 0x802000, 0x801000, 0x800000#}"
proof -
  have e: "dir_entry 0x800000 i shared_state = (if i = 1 then 0x801007 else 0)" for i
    by (simp add: dir_entry_def frame_words_def shared_state_def)
  show t: "user_tables 0x800000 shared_state = {1}" by (auto simp: user_tables_def e entry_isPresent_def PTE_Present_def split: if_splits)
  have w: "frame_words shared_state 0x801000 j = (if j = 0 then 0x802205 else 0)" for j
    by (simp add: frame_words_def shared_state_def)
  have a: "entry_at (0x801007 :: u32) = 0x801000" "entry_at (0x802205 :: u32) = 0x802000" by (simp_all add: entry_at_def)
  show p: "user_pages 0x800000 shared_state = {(1, 0)}"
    by (auto simp: user_pages_def t e a w entry_isPresent_def PTE_Present_def split: if_splits)
  have "phys_rel (ps_frames shared_state) {#0x802000, 0x802000, 0x801000, 0x800000#}"
    using phys_reach_rel [OF shared_reach] by (simp add: shared_state_def)
  then show "user_ok shared_state 0x800000 {#0x802000, 0x802000, 0x801000, 0x800000#}"
    by (simp add: user_ok_def t p e a w page_frame_def)
qed

definition small_mm :: task_mm where
  "small_mm = \<lparr>mm_space = [VMA_range 0 0x400000, VMA 0x400000 0x401000 0x22 3 ''data'', VMA_range 0xC0000000 0xFFFFF000],
    mm_cr3 = 0x800000, mm_brkBase = 0x401000, mm_brkAddr = 0x401000, mm_stack_low = 0xBF800000\<rparr>"

lemma small_mm_facts: "vm_inv (mm_space small_mm)" "pages_backed (mm_space small_mm) 0x800000 shared_state" "mm_cr3 small_mm = 0x800000"
  "vm_find_free (mm_space small_mm) (alignUp 0x1800) 0x400000 = Inr (Some 0x401000)" "alignUp 0x1800 = 0x2000"
proof -
  show "vm_inv (mm_space small_mm)" "mm_cr3 small_mm = 0x800000"
    by (simp_all add: small_mm_def vm_inv_def range_inv_def VMA_range_def VMA_def vm_base_def vm_top_def page_aligned_def)
  show a: "alignUp 0x1800 = 0x2000" by (simp add: alignUp_def)
  show "vm_find_free (mm_space small_mm) (alignUp 0x1800) 0x400000 = Inr (Some 0x401000)"
    by (simp add: a vm_find_free_def range_find_free_def range_locate_def small_mm_def VMA_def VMA_range_def vm_base_def vm_top_def add_overflow_def)
  have "p = 0x400000" if "page_aligned p" "page_ij p = (1, 0)" for p
    by (rule page_ij_inj) (use that in \<open>simp_all add: page_ij_def tableLoc_def tablePageLoc_def page_aligned_def\<close>)
  moreover have "covered (mm_space small_mm) 0x400000" by (simp add: covered_def small_mm_def VMA_def VMA_range_def re_contains_def)
  ultimately show "pages_backed (mm_space small_mm) 0x800000 shared_state" by (auto simp: pages_backed_def shared_user(2))
qed

theorem mmap_maps_fresh_witness:
  "\<exists>sp' st'. mmap_pgoff 0x400000 0x1800 3 0x22 small_mm shared_state = Inr ((Inr 0x401000, small_mm\<lparr>mm_space := sp'\<rparr>), st') \<and>
    vm_inv sp' \<and> page_words 0x800000 st' (page_ij 0x402000) = table_clear"
proof -
  have "card (set_mset {#0x802000, 0x802000, 0x801000, 0x800000 :: u32#}) + 2 * (unat (alignUp 0x1800) div 4096) \<le> phys_limit (ps_frames shared_state)"
    by (simp add: small_mm_facts(5) phys_limit_def shared_state_def shared_frames_def)
  from mmap_maps_fresh [where mm = small_mm and hint = "0x400000" and len = "0x1800" and flags = "0x22" and prot = 3 and st = shared_state, OF small_mm_facts(1)
      _ _ _ _ _ small_mm_facts(4) shared_window(1) _ _ _ this] shared_window(2) shared_user(3) small_mm_facts(2,3,5)
  have "\<exists>sp' st'. mmap_pgoff 0x400000 0x1800 3 0x22 small_mm shared_state = Inr ((Inr 0x401000, small_mm\<lparr>mm_space := sp'\<rparr>), st') \<and> vm_inv sp' \<and>
      (\<forall>p. page_aligned p \<and> 0x401000 \<le> p \<and> p < 0x401000 + 0x2000 \<longrightarrow> page_words 0x800000 st' (page_ij p) = table_clear)"
    by (auto simp: page_aligned_def MAP_FIXED_def MAP_PRIVATE_def)
  then show ?thesis by (force simp: page_aligned_def)
qed

end
