(* ===== verification/Nyan_Gdt.thy ===== *)
theory Nyan_Gdt
  imports Nyan_Signal Nyan_Libc
begin

unbundle bit_operations_syntax

text \<open>
  Segments, gates and the interrupt controller (kernel/gdt, kernel/interrupt/entry.hpp, kernel/interrupt/isr.cpp,
  kernel/interrupt/load.cpp and kernel/syscall/set_thread_area.cpp). A descriptor is kept in the fields the code packs
  it into; what the processor reads out of them is written next to it. The table changes when it is loaded, when a task
  sets its thread area, and when the scheduler or \<^verbatim>\<open>exec\<close> installs the segment of another task.
\<close>

section \<open>Segments\<close>

record segment =
  limit_lo :: u16
  base_lo :: u16
  base_md :: u8
  seg_access :: u8
  flags_limit_hi :: u8
  base_hi :: u8

definition A_Accessed :: u8 where "A_Accessed = 1"
definition A_DataWritable :: u8 where "A_DataWritable = 2"
definition A_CodeReadable :: u8 where "A_CodeReadable = 2"
definition A_DataDirection :: u8 where "A_DataDirection = 4"
definition A_CodeConforming :: u8 where "A_CodeConforming = 4"
definition A_Executable :: u8 where "A_Executable = 8"
definition A_NotSystem :: u8 where "A_NotSystem = 16"
definition A_Ring0 :: u8 where "A_Ring0 = 0"
definition A_Ring3 :: u8 where "A_Ring3 = 0x60"
definition A_Present :: u8 where "A_Present = 0x80"
definition SF_Long :: u8 where "SF_Long = 2"
definition SF_Size :: u8 where "SF_Size = 4"
definition SF_Granularity :: u8 where "SF_Granularity = 8"

lemmas access_bits = A_Accessed_def A_DataWritable_def A_CodeReadable_def A_DataDirection_def A_CodeConforming_def A_Executable_def
  A_NotSystem_def A_Ring0_def A_Ring3_def A_Present_def SF_Long_def SF_Size_def SF_Granularity_def

definition makeSegment :: "u32 \<Rightarrow> u32 \<Rightarrow> u8 \<Rightarrow> u8 \<Rightarrow> segment" where
  "makeSegment base limit acc flags = \<lparr>limit_lo = ucast (limit AND 0xFFFF), base_lo = ucast (base AND 0xFFFF),
    base_md = ucast (drop_bit 16 base AND 0xFF), seg_access = acc,
    flags_limit_hi = ucast (drop_bit 16 limit AND 0xF) OR push_bit 4 (flags AND 0xF),
    base_hi = ucast (drop_bit 24 base AND 0xFF)\<rparr>"

definition no_segment :: segment where
  "no_segment = \<lparr>limit_lo = 0, base_lo = 0, base_md = 0, seg_access = 0, flags_limit_hi = 0, base_hi = 0\<rparr>"

text \<open>What the processor makes of a descriptor.\<close>

definition seg_base :: "segment \<Rightarrow> u32" where
  "seg_base s = push_bit 24 (ucast (base_hi s)) OR push_bit 16 (ucast (base_md s)) OR ucast (base_lo s)"

definition seg_limit :: "segment \<Rightarrow> u32" where
  "seg_limit s = push_bit 16 (ucast (flags_limit_hi s AND 0xF)) OR ucast (limit_lo s)"

definition seg_flags :: "segment \<Rightarrow> u8" where
  "seg_flags s = drop_bit 4 (flags_limit_hi s)"

definition seg_ring :: "segment \<Rightarrow> u8" where
  "seg_ring s = drop_bit 5 (seg_access s) AND 3"

section \<open>The task state segment\<close>

record tss =
  ts_link :: u16
  ts_esp0 :: u32
  ts_ss0 :: u16
  ts_esp1 :: u32
  ts_ss1 :: u16
  ts_esp2 :: u32
  ts_ss2 :: u16
  ts_regs :: "u32 list"
  ts_segs :: "u16 list"
  ts_trap :: u16
  ts_iomap :: u16

text \<open>\<open>ts_regs\<close> are \<^verbatim>\<open>cr3\<close>, \<^verbatim>\<open>eip\<close>, \<^verbatim>\<open>eflags\<close> and the eight general registers, \<open>ts_segs\<close> the selectors from \<^verbatim>\<open>es\<close> to \<^verbatim>\<open>ldt\<close>;
  the upper halves of the selectors are never written. A static object starts with zeros.\<close>

definition zero_tss :: tss where
  "zero_tss = \<lparr>ts_link = 0, ts_esp0 = 0, ts_ss0 = 0, ts_esp1 = 0, ts_ss1 = 0, ts_esp2 = 0, ts_ss2 = 0, ts_regs = replicate 11 0,
    ts_segs = replicate 7 0, ts_trap = 0, ts_iomap = 0\<rparr>"

definition tss_bytes :: "tss \<Rightarrow> u8 list" where
  "tss_bytes t = (let half = [0, 0] in bytes16 (ts_link t) @ half @ bytes32 (ts_esp0 t) @ bytes16 (ts_ss0 t) @ half @
    bytes32 (ts_esp1 t) @ bytes16 (ts_ss1 t) @ half @ bytes32 (ts_esp2 t) @ bytes16 (ts_ss2 t) @ half @
    concat (map bytes32 (ts_regs t)) @ concat (map (\<lambda>s. bytes16 s @ half) (ts_segs t)) @ bytes16 (ts_trap t) @ bytes16 (ts_iomap t))"

definition sizeof_tss :: nat where "sizeof_tss = 104"

section \<open>The table\<close>

record gdt =
  gd_entries :: "segment list"
  gd_tss :: tss
  gd_size :: u16
  gd_offset :: u32

definition gdt_entries :: "segment list" where
  "gdt_entries = [makeSegment 0 0 0 0,
    makeSegment 0 0xFFFFF (A_Present OR A_Ring0 OR A_NotSystem OR A_Executable OR A_CodeReadable OR A_Accessed) (SF_Granularity OR SF_Size),
    makeSegment 0 0xFFFFF (A_Present OR A_Ring0 OR A_NotSystem OR A_DataWritable OR A_Accessed) (SF_Granularity OR SF_Size),
    makeSegment 0 0xFFFFF (A_Present OR A_Ring3 OR A_NotSystem OR A_Executable OR A_CodeReadable OR A_Accessed) (SF_Granularity OR SF_Size),
    makeSegment 0 0xFFFFF (A_Present OR A_Ring3 OR A_NotSystem OR A_DataWritable OR A_Accessed) (SF_Granularity OR SF_Size),
    no_segment, no_segment]"

text \<open>\<^verbatim>\<open>load\<close>: \<open>entriesAddr\<close> and \<open>tssAddr\<close> are where the linker put the table and the task state segment.\<close>

definition gdt_load :: "u32 \<Rightarrow> u32 \<Rightarrow> gdt" where
  "gdt_load entriesAddr tssAddr = \<lparr>
    gd_entries = gdt_entries[5 := makeSegment tssAddr (of_nat sizeof_tss) (A_Present OR A_Executable OR A_Accessed) 0],
    gd_tss = zero_tss\<lparr>ts_ss0 := 0x10\<rparr>, gd_size = of_nat (7 * 8) - 1, gd_offset = entriesAddr\<rparr>"

definition setTls :: "segment \<Rightarrow> gdt \<Rightarrow> gdt" where
  "setTls seg g = g\<lparr>gd_entries := (gd_entries g)[6 := seg]\<rparr>"

definition kernelCs :: u32 where "kernelCs = 0x08"
definition kernelDs :: u32 where "kernelDs = 0x10"

definition isRing0 :: "u32 \<Rightarrow> bool" where "isRing0 seg \<longleftrightarrow> seg AND 3 = 0"
definition isRing3 :: "u32 \<Rightarrow> bool" where "isRing3 seg \<longleftrightarrow> seg AND 3 = 3"

text \<open>The descriptor a selector names.\<close>

definition select :: "gdt \<Rightarrow> u32 \<Rightarrow> segment" where
  "select g sel = gd_entries g ! (unat sel div 8)"

section \<open>Thread areas\<close>

definition parseUserDescFlags :: "u32 \<Rightarrow> u8 \<times> u8" where
  "parseUserDescFlags udFlags =
    (let contents = drop_bit 1 udFlags AND 3; readExecOnly = bit udFlags 3;
         acc = A_Accessed OR A_NotSystem OR A_Ring3;
         acc = (if \<not> bit udFlags 5 then acc OR A_Present else acc);
         acc = (if contents AND 2 \<noteq> 0
           then let acc = acc OR A_Executable;
                    acc = (if contents AND 1 \<noteq> 0 then acc OR A_CodeConforming else acc)
                in if \<not> readExecOnly then acc OR A_CodeReadable else acc
           else let acc = (if contents AND 1 \<noteq> 0 then acc OR A_DataDirection else acc)
                in if \<not> readExecOnly then acc OR A_DataWritable else acc);
         flags = (if bit udFlags 0 then SF_Size else 0);
         flags = (if bit udFlags 4 then flags OR SF_Granularity else flags);
         flags = (if bit udFlags 6 then flags OR SF_Long else flags)
     in (acc, flags))"

text \<open>Every task has a segment; the table holds the one of the current task.\<close>

record tls_state =
  tl_gdt :: gdt
  tl_seg :: "nat \<Rightarrow> segment"
  tl_current :: nat

text \<open>\<open>check\<close> is what the pointer check yields, \<open>d0\<close> to \<open>d3\<close> are the words the pointer leads to; the new first word is returned.\<close>

definition set_thread_area :: "unit result \<Rightarrow> u32 \<Rightarrow> u32 \<Rightarrow> u32 \<Rightarrow> u32 \<Rightarrow> tls_state \<Rightarrow> u32 result \<times> tls_state" where
  "set_thread_area check d0 d1 d2 d3 st = (case check of
      Inl e \<Rightarrow> (Inl e, st)
    | Inr _ \<Rightarrow>
      if d0 \<noteq> - 1 \<and> d0 \<noteq> 6 then (Inl SYS_EINVAL, st)
      else let (acc, flags) = parseUserDescFlags d3; seg = makeSegment d1 d2 acc flags
           in (Inr 6, st\<lparr>tl_seg := (tl_seg st)(tl_current st := seg), tl_gdt := setTls seg (tl_gdt st)\<rparr>))"

text \<open>The other places that change segments: a switch installs the segment of the next task, \<^verbatim>\<open>exec\<close> clears it, \<^verbatim>\<open>fork\<close> copies
  it, and a task made by \<^verbatim>\<open>createTask\<close> has whatever was in its memory before.\<close>

definition tls_switch :: "nat \<Rightarrow> tls_state \<Rightarrow> tls_state" where
  "tls_switch t st = st\<lparr>tl_current := t, tl_gdt := setTls (tl_seg st t) (tl_gdt st)\<rparr>"

definition tls_exec :: "tls_state \<Rightarrow> tls_state" where
  "tls_exec st = st\<lparr>tl_seg := (tl_seg st)(tl_current st := no_segment), tl_gdt := setTls no_segment (tl_gdt st)\<rparr>"

definition tls_fork :: "nat \<Rightarrow> tls_state \<Rightarrow> tls_state" where
  "tls_fork t st = st\<lparr>tl_seg := (tl_seg st)(t := tl_seg st (tl_current st))\<rparr>"

definition tls_create :: "nat \<Rightarrow> segment \<Rightarrow> tls_state \<Rightarrow> tls_state" where
  "tls_create t garbage st = st\<lparr>tl_seg := (tl_seg st)(t := garbage)\<rparr>"

text \<open>Reachable tables, with the set of tasks that run user code: a task gets there by \<^verbatim>\<open>exec\<close> or by a fork of such a task, and
  only such a task makes system calls. A new task is never the current one.\<close>

inductive tls_reach :: "u32 \<Rightarrow> u32 \<Rightarrow> tls_state \<Rightarrow> nat set \<Rightarrow> bool" for entriesAddr tssAddr where
  loads: "tls_reach entriesAddr tssAddr \<lparr>tl_gdt = gdt_load entriesAddr tssAddr, tl_seg = seg, tl_current = t\<rparr> {}"
| areas: "tls_reach entriesAddr tssAddr st us \<Longrightarrow> tl_current st \<in> us \<Longrightarrow> tls_reach entriesAddr tssAddr (snd (set_thread_area check d0 d1 d2 d3 st)) us"
| switches: "tls_reach entriesAddr tssAddr st us \<Longrightarrow> tls_reach entriesAddr tssAddr (tls_switch t st) us"
| execs: "tls_reach entriesAddr tssAddr st us \<Longrightarrow> tls_reach entriesAddr tssAddr (tls_exec st) (insert (tl_current st) us)"
| forks: "tls_reach entriesAddr tssAddr st us \<Longrightarrow> tl_current st \<in> us \<Longrightarrow> t \<noteq> tl_current st \<Longrightarrow> tls_reach entriesAddr tssAddr (tls_fork t st) (insert t us)"
| creates: "tls_reach entriesAddr tssAddr st us \<Longrightarrow> t \<noteq> tl_current st \<Longrightarrow> tls_reach entriesAddr tssAddr (tls_create t garbage st) (us - {t})"

section \<open>Gates\<close>

record gate =
  isr_lo :: u16
  gate_cs :: u16
  gate_pad :: u8
  gate_attr :: u8
  isr_hi :: u16

definition A_GateInterrupt :: u8 where "A_GateInterrupt = 14"
definition A_GateTrap :: u8 where "A_GateTrap = 15"

definition makeEntry :: "u32 \<Rightarrow> u16 \<Rightarrow> u8 \<Rightarrow> gate" where
  "makeEntry isr cs attr = \<lparr>isr_lo = ucast (isr AND 0xFFFF), gate_cs = cs, gate_pad = 0, gate_attr = attr,
    isr_hi = ucast (drop_bit 16 isr AND 0xFFFF)\<rparr>"

definition no_gate :: gate where
  "no_gate = \<lparr>isr_lo = 0, gate_cs = 0, gate_pad = 0, gate_attr = 0, isr_hi = 0\<rparr>"

text \<open>\<open>stubs\<close> are the addresses of the assembler stubs: the 32 exceptions, and those for 32, 33 and 128.\<close>

definition fillEntries :: "(nat \<Rightarrow> u32) \<Rightarrow> gate list \<Rightarrow> gate list" where
  "fillEntries stubs entry =
    (let entry = fold (\<lambda>i e. e[i := makeEntry (stubs i) 0x08 (A_GateInterrupt OR (if i = 3 then A_Ring3 else A_Ring0) OR A_Present)]) [0..<32] entry;
         entry = entry[32 := makeEntry (stubs 32) 0x08 (A_GateInterrupt OR A_Ring0 OR A_Present)];
         entry = entry[33 := makeEntry (stubs 33) 0x08 (A_GateInterrupt OR A_Ring0 OR A_Present)]
     in entry[0x80 := makeEntry (stubs 128) 0x08 (A_GateTrap OR A_Ring3 OR A_Present)])"

definition idt_entries :: "(nat \<Rightarrow> u32) \<Rightarrow> gate list" where
  "idt_entries stubs = fillEntries stubs (replicate 256 no_gate)"

definition gate_isr :: "gate \<Rightarrow> u32" where
  "gate_isr g = push_bit 16 (ucast (isr_hi g)) OR ucast (isr_lo g)"

definition gate_present :: "gate \<Rightarrow> bool" where
  "gate_present g \<longleftrightarrow> bit (gate_attr g) 7"

definition gate_ring :: "gate \<Rightarrow> u8" where
  "gate_ring g = drop_bit 5 (gate_attr g) AND 3"

section \<open>The interrupt controller\<close>

text \<open>The mask registers and the commands the two chips have been sent.\<close>

record pic =
  pic_imr1 :: u8
  pic_imr2 :: u8
  pic_eoi1 :: nat
  pic_eoi2 :: nat

definition pic_mask :: "u8 \<Rightarrow> pic \<Rightarrow> pic" where
  "pic_mask irq p = (if irq < 8 then p\<lparr>pic_imr1 := pic_imr1 p OR push_bit (unat irq) 1\<rparr>
    else p\<lparr>pic_imr2 := pic_imr2 p OR push_bit (unat (irq - 8)) 1\<rparr>)"

definition pic_unmask :: "u8 \<Rightarrow> pic \<Rightarrow> pic" where
  "pic_unmask irq p = (if irq < 8 then p\<lparr>pic_imr1 := pic_imr1 p AND NOT (push_bit (unat irq) 1)\<rparr>
    else p\<lparr>pic_imr2 := pic_imr2 p AND NOT (push_bit (unat (irq - 8)) 1)\<rparr>)"

definition pic_end :: "u8 \<Rightarrow> pic \<Rightarrow> pic" where
  "pic_end irq p = (let p = (if irq \<ge> 8 then p\<lparr>pic_eoi2 := pic_eoi2 p + 1\<rparr> else p) in p\<lparr>pic_eoi1 := pic_eoi1 p + 1\<rparr>)"

section \<open>Fields\<close>

lemma field_masks: "(0xFFFF :: u32) = mask 16" "(0xFF :: u32) = mask 8" "(0xF :: u32) = mask 4" "(0xF :: u8) = mask 4"
  by (simp_all add: mask_eq_exp_minus_1)

lemma seg_base_make: "seg_base (makeSegment base limit acc flags) = base"
  unfolding seg_base_def makeSegment_def field_masks
  by (rule bit_word_eqI, rename_tac n, case_tac "n < 24") (auto simp: bit_simps split: if_splits)

lemma seg_limit_make: "seg_limit (makeSegment base limit acc flags) = limit AND 0xFFFFF"
proof -
  have m: "(0xFFFFF :: u32) = mask 20" by (simp add: mask_eq_exp_minus_1)
  show ?thesis unfolding seg_limit_def makeSegment_def field_masks m
    by (rule bit_word_eqI) (auto simp: bit_simps split: if_splits)
qed

lemma seg_flags_make: "seg_flags (makeSegment base limit acc flags) = flags AND 0xF"
  unfolding seg_flags_def makeSegment_def field_masks
  by (rule bit_word_eqI) (auto simp: bit_simps split: if_splits)

lemma gate_isr_make: "gate_isr (makeEntry isr cs attr) = isr"
  unfolding gate_isr_def makeEntry_def field_masks
  by (rule bit_word_eqI) (auto simp: bit_simps split: if_splits)

lemma fold_update_nth:
  "k \<le> length xs \<Longrightarrow> n < length xs \<Longrightarrow> fold (\<lambda>i e. e[i := f i]) [0..<k] xs ! n = (if n < k then f n else xs ! n)"
proof (induction k)
  case (Suc k)
  have "length (fold (\<lambda>i e. e[i := f i]) [0..<k] xs) = length xs" for k by (induction k) simp_all
  with Suc show ?case by (auto simp: nth_list_update less_Suc_eq)
qed simp

section \<open>The types of the descriptors\<close>

text \<open>A segment user code may be given: empty, or an ordinary segment of ring 3.\<close>

definition user_segment :: "segment \<Rightarrow> bool" where
  "user_segment s \<longleftrightarrow> s = no_segment \<or> seg_ring s = 3 \<and> bit (seg_access s) 4"

lemma ring_bits:
  assumes "bit (seg_access s) 5" "bit (seg_access s) 6"
  shows "seg_ring s = 3"
proof -
  have m: "(3 :: u8) = mask 2" by (simp add: mask_eq_exp_minus_1)
  have "n < 2 \<Longrightarrow> bit (seg_access s) (5 + n)" for n using assms by (auto simp: less_2_cases_iff)
  then show ?thesis unfolding seg_ring_def m by (intro bit_word_eqI) (auto simp: bit_simps)
qed

lemma parse_user: "bit (fst (parseUserDescFlags f)) 4" "bit (fst (parseUserDescFlags f)) 5" "bit (fst (parseUserDescFlags f)) 6"
  by (simp_all add: parseUserDescFlags_def Let_def bit_or_iff access_bits)

lemma parse_user_segment: "user_segment (makeSegment b l (fst (parseUserDescFlags f)) g)"
  using parse_user [of f] by (auto simp: user_segment_def makeSegment_def intro!: ring_bits)

definition tls_ok :: "u32 \<Rightarrow> u32 \<Rightarrow> tls_state \<Rightarrow> nat set \<Rightarrow> bool" where
  "tls_ok entriesAddr tssAddr st us \<longleftrightarrow> (\<forall>t\<in>us. user_segment (tl_seg st t)) \<and>
    (\<exists>s. tl_gdt st = setTls s (gdt_load entriesAddr tssAddr) \<and> (s = tl_seg st (tl_current st) \<or> s = no_segment \<and> tl_current st \<notin> us))"

lemma gdt_length: "length gdt_entries = 7"
  by (simp add: gdt_entries_def)

lemma setTls_setTls [simp]: "setTls s (setTls r g) = setTls s g"
  by (simp add: setTls_def)

lemma tls_reach_ok: "tls_reach ea ta st us \<Longrightarrow> tls_ok ea ta st us"
proof (induction rule: tls_reach.induct)
  case (loads seg t)
  have "gdt_load ea ta = setTls no_segment (gdt_load ea ta)" by (simp add: setTls_def gdt_load_def gdt_entries_def)
  then show ?case by (auto simp: tls_ok_def)
next
  case (areas st us check d0 d1 d2 d3)
  then show ?case using parse_user_segment [of d1 d2 d3 "snd (parseUserDescFlags d3)"]
    by (auto simp: set_thread_area_def Let_def tls_ok_def split: sum.split prod.split)
qed (auto simp: tls_ok_def tls_switch_def tls_exec_def tls_fork_def tls_create_def user_segment_def)

text \<open>A descriptor by what the processor reads: base, limit, access byte and flags.\<close>

definition seg_fields :: "segment \<Rightarrow> u32 \<times> u32 \<times> u8 \<times> u8" where
  "seg_fields s = (seg_base s, seg_limit s, seg_access s, seg_flags s)"

lemma seg_fields_make: "seg_fields (makeSegment base limit acc flags) = (base, limit AND 0xFFFFF, acc, flags AND 0xF)"
  by (simp add: seg_fields_def seg_base_make seg_limit_make seg_flags_make) (simp add: makeSegment_def)

section \<open>Masks\<close>

definition pic_masked :: "u8 \<Rightarrow> pic \<Rightarrow> bool" where
  "pic_masked irq p \<longleftrightarrow> (if irq < 8 then bit (pic_imr1 p) (unat irq) else bit (pic_imr2 p) (unat (irq - 8)))"

text \<open>Masking a line of the two chips and unmasking it again, and what the other lines see of it.\<close>

definition pic_lines :: "u8 list" where
  "pic_lines = map of_nat [0..<16]"

lemma pic_mask_exact:
  "list_all (\<lambda>i. list_all (\<lambda>j. (pic_masked j (pic_mask i p) \<longleftrightarrow> j = i \<or> pic_masked j p) \<and>
    (pic_masked j (pic_unmask i p) \<longleftrightarrow> j \<noteq> i \<and> pic_masked j p)) pic_lines) pic_lines"
  by (simp add: pic_lines_def upt_rec pic_masked_def pic_mask_def pic_unmask_def bit_or_iff bit_and_iff bit_not_iff)

section \<open>Properties\<close>

text \<open>A descriptor packs its arguments without loss: the base reads back whole, the limit in its twenty bits, the access
  byte and the four flags as given. The same holds for the address of a gate.\<close>

theorem descriptor_fields:
  "seg_base (makeSegment base limit acc flags) = base \<and> seg_limit (makeSegment base limit acc flags) = limit AND 0xFFFFF \<and>
   seg_access (makeSegment base limit acc flags) = acc \<and> seg_flags (makeSegment base limit acc flags) = flags AND 0xF \<and>
   gate_isr (makeEntry isr cs attr) = isr \<and> gate_attr (makeEntry isr cs attr) = attr"
  by (simp add: seg_base_make seg_limit_make seg_flags_make gate_isr_make) (simp add: makeSegment_def makeEntry_def)

text \<open>C31: the descriptor table stays what it was loaded as, whatever tasks ask for. From the moment it is loaded, through every thread
  area, switch, fork, exec and new task, it has its place and its seven entries; the null descriptor is zero; the selectors of the kernel name present code and data segments of ring 0, those of
  user code present ones of ring 3, each flat over all four gigabytes, 32 bit, code readable and data writable; the sixth entry is the available task state segment at its address. The
  thread slot is empty or holds the segment of the current task, and while a task that runs user code is current it holds the segment of that task, which is empty or an ordinary ring 3 segment: no argument
  of the system call makes a privileged or system descriptor.\<close>

theorem descriptor_table_typed:
  assumes "tls_reach entriesAddr tssAddr st us"
  shows "gd_offset (tl_gdt st) = entriesAddr \<and> gd_size (tl_gdt st) = 55 \<and> length (gd_entries (tl_gdt st)) = 7 \<and>
    seg_fields (select (tl_gdt st) 0) = (0, 0, 0, 0) \<and>
    seg_fields (select (tl_gdt st) kernelCs) = (0, 0xFFFFF, 0x9B, 0xC) \<and> seg_fields (select (tl_gdt st) kernelDs) = (0, 0xFFFFF, 0x93, 0xC) \<and>
    seg_fields (select (tl_gdt st) userCs) = (0, 0xFFFFF, 0xFB, 0xC) \<and> seg_fields (select (tl_gdt st) userDs) = (0, 0xFFFFF, 0xF3, 0xC) \<and>
    seg_fields (select (tl_gdt st) 0x28) = (tssAddr, 104, 0x89, 0) \<and>
    (select (tl_gdt st) userTls = no_segment \<or> select (tl_gdt st) userTls = tl_seg st (tl_current st)) \<and>
    (tl_current st \<in> us \<longrightarrow> select (tl_gdt st) userTls = tl_seg st (tl_current st) \<and> user_segment (select (tl_gdt st) userTls))"
proof -
  have ok: "tls_ok entriesAddr tssAddr st us" by (rule tls_reach_ok [OF assms])
  then obtain s where s: "tl_gdt st = setTls s (gdt_load entriesAddr tssAddr)" "s = tl_seg st (tl_current st) \<or> s = no_segment \<and> tl_current st \<notin> us"
    by (auto simp: tls_ok_def)
  have t: "select (tl_gdt st) userTls = s" by (simp add: s(1) select_def userTls_def setTls_def gdt_load_def gdt_length)
  have "tl_current st \<in> us \<Longrightarrow> user_segment (tl_seg st (tl_current st))" using ok by (simp add: tls_ok_def)
  then have "(select (tl_gdt st) userTls = no_segment \<or> select (tl_gdt st) userTls = tl_seg st (tl_current st)) \<and>
    (tl_current st \<in> us \<longrightarrow> select (tl_gdt st) userTls = tl_seg st (tl_current st) \<and> user_segment (select (tl_gdt st) userTls))" using t s(2) by auto
  moreover have "gd_offset (tl_gdt st) = entriesAddr" "gd_size (tl_gdt st) = 55" "length (gd_entries (tl_gdt st)) = 7"
    by (simp_all add: s(1) setTls_def gdt_load_def gdt_length)
  moreover have "seg_fields (select (tl_gdt st) 0) = (0, 0, 0, 0)" "seg_fields (select (tl_gdt st) kernelCs) = (0, 0xFFFFF, 0x9B, 0xC)"
    "seg_fields (select (tl_gdt st) kernelDs) = (0, 0xFFFFF, 0x93, 0xC)" "seg_fields (select (tl_gdt st) userCs) = (0, 0xFFFFF, 0xFB, 0xC)"
    "seg_fields (select (tl_gdt st) userDs) = (0, 0xFFFFF, 0xF3, 0xC)" "seg_fields (select (tl_gdt st) 0x28) = (tssAddr, 104, 0x89, 0)"
    by (simp_all add: s(1) setTls_def gdt_load_def gdt_entries_def select_def kernelCs_def kernelDs_def userCs_def userDs_def seg_fields_make access_bits sizeof_tss_def)
  ultimately show ?thesis by blast
qed

theorem descriptor_table_typed_witness:
  "\<exists>st :: tls_state. tl_current st = 5 \<and> seg_base (gd_entries (tl_gdt st) ! 6) = 0x12345678 \<and> seg_base (select (tl_gdt st) 0x28) = 0xC0102000 \<and>
    user_segment (select (tl_gdt st) userTls)"
proof -
  let ?st = "snd (set_thread_area (Inr ()) 6 0x12345678 0xFFFFF 0x51 (tls_exec \<lparr>tl_gdt = gdt_load 0xC0101000 0xC0102000, tl_seg = \<lambda>_. no_segment, tl_current = 5\<rparr>))"
  have r: "tls_reach 0xC0101000 0xC0102000 ?st {5}"
    using tls_reach.areas [OF tls_reach.execs [OF tls_reach.loads [of "0xC0101000" "0xC0102000" "\<lambda>_. no_segment" 5]], of "Inr ()" 6 "0x12345678" "0xFFFFF" "0x51"]
    by (simp add: tls_exec_def)
  have b: "seg_base (gd_entries (tl_gdt ?st) ! 6) = 0x12345678"
    by (simp add: set_thread_area_def Let_def tls_exec_def setTls_def gdt_load_def gdt_length seg_base_make split: prod.split)
  have c: "tl_current ?st = 5" by (simp add: set_thread_area_def Let_def tls_exec_def split: prod.split)
  define st where "st = ?st"
  have "tl_current st = 5" "seg_base (gd_entries (tl_gdt st) ! 6) = 0x12345678" "tls_reach 0xC0101000 0xC0102000 st {5}" unfolding st_def by (rule c b r)+
  with descriptor_table_typed [of "0xC0101000" "0xC0102000" st "{5}"] show ?thesis by (auto simp: seg_fields_def intro!: exI [of _ st])
qed

text \<open>User code can enter the kernel only through the breakpoint and system call gates. Of the 256 gates exactly the 32
  exceptions, the timer, the keyboard and 128 are present, each leads to its own stub in the kernel code segment, and only
  3 and 128 may be raised by an instruction of ring 3.\<close>

theorem idt_gates:
  assumes "n < 256"
  shows "(gate_present (idt_entries stubs ! n) \<longleftrightarrow> n \<le> 33 \<or> n = 128) \<and>
    (n \<le> 33 \<or> n = 128 \<longrightarrow> gate_isr (idt_entries stubs ! n) = stubs n \<and> gate_cs (idt_entries stubs ! n) = 0x08 \<and>
      gate_ring (idt_entries stubs ! n) = (if n = 3 \<or> n = 128 then 3 else 0))"
proof -
  define f where "f i = makeEntry (stubs i) 0x08 (A_GateInterrupt OR (if i = 3 then A_Ring3 else A_Ring0) OR A_Present)" for i
  have l: "length (fold (\<lambda>i e. e[i := f i]) [0..<k] xs) = length xs" for k and xs :: "gate list"
    by (induction k) simp_all
  have e: "idt_entries stubs ! n = (if n < 32 then f n else if n = 32 \<or> n = 33 then makeEntry (stubs n) 0x08 (A_GateInterrupt OR A_Ring0 OR A_Present)
      else if n = 128 then makeEntry (stubs n) 0x08 (A_GateTrap OR A_Ring3 OR A_Present) else no_gate)"
    using assms unfolding idt_entries_def fillEntries_def f_def [symmetric] Let_def
    by (auto simp: nth_list_update l fold_update_nth)
  have g: "gate_present (makeEntry a 8 b) \<longleftrightarrow> bit b 7" "gate_ring (makeEntry a 8 b) = drop_bit 5 b AND 3" "gate_cs (makeEntry a c b) = c"
    "\<not> gate_present no_gate" for a b c by (simp_all add: gate_present_def gate_ring_def makeEntry_def no_gate_def)
  show ?thesis unfolding e f_def using assms by (auto simp: g gate_isr_make A_GateInterrupt_def A_GateTrap_def access_bits)
qed

theorem idt_gates_witness:
  "gate_present (idt_entries (\<lambda>_. 0xC0100000) ! 0x80) \<and> gate_ring (idt_entries (\<lambda>_. 0xC0100000) ! 0x80) = 3 \<and>
   \<not> gate_present (idt_entries (\<lambda>_. 0xC0100000) ! 0x81)"
  using idt_gates [of "0x80" "\<lambda>_. 0xC0100000"] idt_gates [of "0x81" "\<lambda>_. 0xC0100000"] by simp

text \<open>What the processor does when ring 3 code without I/O privilege uses the byte port \<open>p\<close>: it reads the two bytes of the
  permission map that start at \<open>iomap + p div 8\<close>, both of which must lie inside the segment, and goes on when the
  bit is clear.\<close>

definition port_allowed :: "tss \<Rightarrow> segment \<Rightarrow> nat \<Rightarrow> bool" where
  "port_allowed t s p = (let i = unat (ts_iomap t) + p div 8 in i + 1 \<le> unat (seg_limit s) \<and> i < length (tss_bytes t) \<and>
    \<not> bit (tss_bytes t ! i) (p mod 8))"

text \<open>The offset of the permission map is left zero, inside the segment, so the processor takes the state segment
  itself for the map and user code may use every port whose bit happens to be zero there. The keyboard data and command
  ports are among them, whatever the kernel stack of the task.\<close>

theorem tss_opens_keyboard_ports:
  "port_allowed ((gd_tss (gdt_load ea ta))\<lparr>ts_esp0 := esp\<rparr>) (gd_entries (gdt_load ea ta) ! 5) 0x60 \<and>
   port_allowed ((gd_tss (gdt_load ea ta))\<lparr>ts_esp0 := esp\<rparr>) (gd_entries (gdt_load ea ta) ! 5) 0x64"
  by (simp add: port_allowed_def gdt_load_def gdt_length seg_limit_make sizeof_tss_def zero_tss_def tss_bytes_def Let_def bytes16_def bytes32_def)

end
