(* ===== verification/Nyan_Trap.thy ===== *)
theory Nyan_Trap
  imports Nyan_Mmap Nyan_Tty Nyan_Gdt
begin

unbundle bit_operations_syntax

text \<open>
  Entry into the kernel (kernel/interrupt/impl.cpp, kernel/interrupt/dispatch.hpp): exceptions, the two hardware interrupts and
  system calls. \<open>kernel\<close> puts together the state the handlers act on: the terminals with the scheduler, the interrupt
  controllers, the machine of \<open>Nyan_Paging\<close>, the memory description of each task and the memory the current program sees.
  \<open>exception_body\<close> is the \<^verbatim>\<open>switch\<close>, \<open>exception_tail\<close> the check for signals after it. When the body switches to another task,
  the rest of the handler runs only when the interrupted task is chosen again: \<open>Switched\<close>.

  The handlers of system calls are the argument \<open>svc\<close> of the dispatcher, as they are arguments of the template \<^verbatim>\<open>call\<close>;
  \<open>process_service\<close> is the choice that runs the process calls on the scheduler. The log records and the interrupt flag are
  not modelled.
\<close>

section \<open>State\<close>

record kernel =
  k_consoles :: consoles
  k_pic :: pic
  k_paging :: paging_state
  k_mm :: "tid \<Rightarrow> task_mm"
  k_kernel_cr3 :: paddr
  k_user :: user_memory

abbreviation k_sched :: "kernel \<Rightarrow> sched" where
  "k_sched k \<equiv> cs_sched (k_consoles k)"

abbreviation k_task :: "kernel \<Rightarrow> tid" where
  "k_task k \<equiv> sc_current (k_sched k)"

abbreviation k_signal :: "kernel \<Rightarrow> signal_info" where
  "k_signal k \<equiv> t_signal (sc_tcb (k_sched k) (k_task k))"

definition with_sched :: "sched \<Rightarrow> kernel \<Rightarrow> kernel" where
  "with_sched sc k = k\<lparr>k_consoles := (k_consoles k)\<lparr>cs_sched := sc\<rparr>\<rparr>"

definition raise :: "nat \<Rightarrow> kernel \<Rightarrow> kernel" where
  "raise sig k = with_sched (sendSignal (k_task k) sig (k_sched k)) k"

section \<open>Page faults\<close>

definition E_Breakpoint :: u32 where "E_Breakpoint = 3"
definition E_GeneralProtectionFault :: u32 where "E_GeneralProtectionFault = 13"
definition E_PageFault :: u32 where "E_PageFault = 14"
definition I_Timer :: u32 where "I_Timer = 32"
definition I_Keyboard :: u32 where "I_Keyboard = 33"
definition I_Syscall :: u32 where "I_Syscall = 128"
definition PF_Present :: u32 where "PF_Present = 1"
definition PF_Write :: u32 where "PF_Write = 2"

datatype flow = Leave | Tail

definition check_cow :: "vaddr \<Rightarrow> sysframe \<Rightarrow> kernel \<Rightarrow> bool exec" where
  "check_cow target frame k = (let mm = k_mm k (k_task k); COWFlag = PF_Present OR PF_Write in
    sbind (range_locate (mm_space mm) target) (\<lambda>i.
      Inr (0x00400000 \<le> target \<and> target < 0xC0000000 \<and> re_contains (mm_space mm ! i) target \<and>
        f_error_code frame AND COWFlag = COWFlag \<and> mm_cr3 mm \<noteq> k_kernel_cr3 k)))"

definition page_fault :: "vaddr \<Rightarrow> sysframe \<Rightarrow> kernel \<Rightarrow> (flow \<times> kernel) exec" where
  "page_fault target frame k = sbind (check_cow target frame k) (\<lambda>cow.
    let t = k_task k; mm = k_mm k t in
    sbind (if cow then with_mapper (mm_cr3 mm) (dir_handleCOW (mm_cr3 mm) target) (k_paging k) else Inr (False, k_paging k)) (\<lambda>(solved, st).
      let k = k\<lparr>k_paging := st\<rparr> in
      if solved then Inr (Leave, k)
      else if isRing3 (f_cs frame)
      then sbind (checkStack target mm st) (\<lambda>((grown, mm'), st').
        let k = k\<lparr>k_paging := st', k_mm := (k_mm k)(t := mm')\<rparr> in
        Inr (Tail, if grown then k else raise SIGSEGV k))
      else Inl (Kfatal [])))"

section \<open>System call dispatch\<close>

datatype syscall = Sys_exit | Sys_fork | Sys_read | Sys_write | Sys_open | Sys_close | Sys_waitpid | Sys_link | Sys_unlink |
  Sys_execve | Sys_chdir | Sys_getpid | Sys_kill | Sys_dup | Sys_pipe | Sys_brk | Sys_ioctl | Sys_setpgid | Sys_dup2 | Sys_getppid |
  Sys_getpgrp | Sys_symlink | Sys_readlink | Sys_munmap | Sys_wait4 | Sys_sigreturn | Sys_newuname | Sys_getpgid | Sys_llseek |
  Sys_readv | Sys_writev | Sys_nanosleep | Sys_rt_sigaction | Sys_rt_sigprocmask | Sys_getcwd | Sys_mmap_pgoff | Sys_stat64 |
  Sys_lstat64 | Sys_fstat64 | Sys_getuid | Sys_getgid | Sys_geteuid | Sys_getegid | Sys_getdents64 | Sys_fcntl64 | Sys_gettid |
  Sys_tkill | Sys_set_thread_area | Sys_exit_group | Sys_set_tid_address | Sys_spawn

definition syscall_table :: "(u32 \<times> syscall) list" where
  "syscall_table = [(1, Sys_exit), (2, Sys_fork), (3, Sys_read), (4, Sys_write), (5, Sys_open), (6, Sys_close), (7, Sys_waitpid),
    (9, Sys_link), (10, Sys_unlink), (11, Sys_execve), (12, Sys_chdir), (20, Sys_getpid), (37, Sys_kill), (41, Sys_dup), (42, Sys_pipe),
    (45, Sys_brk), (54, Sys_ioctl), (57, Sys_setpgid), (63, Sys_dup2), (64, Sys_getppid), (65, Sys_getpgrp), (83, Sys_symlink),
    (85, Sys_readlink), (91, Sys_munmap), (114, Sys_wait4), (119, Sys_sigreturn), (122, Sys_newuname), (132, Sys_getpgid), (140, Sys_llseek),
    (145, Sys_readv), (146, Sys_writev), (162, Sys_nanosleep), (174, Sys_rt_sigaction), (175, Sys_rt_sigprocmask), (183, Sys_getcwd),
    (192, Sys_mmap_pgoff), (195, Sys_stat64), (196, Sys_lstat64), (197, Sys_fstat64), (199, Sys_getuid), (200, Sys_getgid),
    (201, Sys_geteuid), (202, Sys_getegid), (220, Sys_getdents64), (221, Sys_fcntl64), (224, Sys_gettid), (238, Sys_tkill),
    (243, Sys_set_thread_area), (252, Sys_exit_group), (258, Sys_set_tid_address), (512, Sys_spawn)]"

text \<open>The declarations of include/nyan/syscall.h: how many registers a call takes, whether it gets the frame as well, and
  whether it returns nothing.\<close>

record signature =
  sg_args :: nat
  sg_frame :: bool
  sg_void :: bool

definition sig_of_args :: "nat \<Rightarrow> signature" where
  "sig_of_args n = \<lparr>sg_args = n, sg_frame = False, sg_void = False\<rparr>"

fun signature_of :: "syscall \<Rightarrow> signature" where
  "signature_of Sys_exit = (sig_of_args 1)\<lparr>sg_void := True\<rparr>"
| "signature_of Sys_fork = (sig_of_args 0)\<lparr>sg_frame := True\<rparr>"
| "signature_of Sys_read = sig_of_args 3"
| "signature_of Sys_write = sig_of_args 3"
| "signature_of Sys_open = sig_of_args 3"
| "signature_of Sys_close = sig_of_args 1"
| "signature_of Sys_waitpid = sig_of_args 3"
| "signature_of Sys_link = sig_of_args 2"
| "signature_of Sys_unlink = sig_of_args 1"
| "signature_of Sys_execve = (sig_of_args 3)\<lparr>sg_frame := True\<rparr>"
| "signature_of Sys_chdir = sig_of_args 1"
| "signature_of Sys_getpid = sig_of_args 0"
| "signature_of Sys_kill = sig_of_args 2"
| "signature_of Sys_dup = sig_of_args 1"
| "signature_of Sys_pipe = sig_of_args 1"
| "signature_of Sys_brk = sig_of_args 1"
| "signature_of Sys_ioctl = sig_of_args 3"
| "signature_of Sys_setpgid = sig_of_args 2"
| "signature_of Sys_dup2 = sig_of_args 2"
| "signature_of Sys_getppid = sig_of_args 0"
| "signature_of Sys_getpgrp = sig_of_args 0"
| "signature_of Sys_symlink = sig_of_args 2"
| "signature_of Sys_readlink = sig_of_args 3"
| "signature_of Sys_munmap = sig_of_args 2"
| "signature_of Sys_wait4 = sig_of_args 4"
| "signature_of Sys_sigreturn = \<lparr>sg_args = 0, sg_frame = True, sg_void = True\<rparr>"
| "signature_of Sys_newuname = sig_of_args 1"
| "signature_of Sys_getpgid = sig_of_args 1"
| "signature_of Sys_llseek = sig_of_args 5"
| "signature_of Sys_readv = sig_of_args 3"
| "signature_of Sys_writev = sig_of_args 3"
| "signature_of Sys_nanosleep = sig_of_args 2"
| "signature_of Sys_rt_sigaction = sig_of_args 4"
| "signature_of Sys_rt_sigprocmask = sig_of_args 4"
| "signature_of Sys_getcwd = sig_of_args 2"
| "signature_of Sys_mmap_pgoff = sig_of_args 6"
| "signature_of Sys_stat64 = sig_of_args 2"
| "signature_of Sys_lstat64 = sig_of_args 2"
| "signature_of Sys_fstat64 = sig_of_args 2"
| "signature_of Sys_getuid = sig_of_args 0"
| "signature_of Sys_getgid = sig_of_args 0"
| "signature_of Sys_geteuid = sig_of_args 0"
| "signature_of Sys_getegid = sig_of_args 0"
| "signature_of Sys_getdents64 = sig_of_args 3"
| "signature_of Sys_fcntl64 = sig_of_args 3"
| "signature_of Sys_gettid = sig_of_args 0"
| "signature_of Sys_tkill = sig_of_args 2"
| "signature_of Sys_set_thread_area = sig_of_args 1"
| "signature_of Sys_exit_group = (sig_of_args 1)\<lparr>sg_void := True\<rparr>"
| "signature_of Sys_set_tid_address = sig_of_args 1"
| "signature_of Sys_spawn = sig_of_args 3"

definition arg_regs :: "sysframe \<Rightarrow> u32 list" where
  "arg_regs f = [f_ebx f, f_ecx f, f_edx f, f_esi f, f_edi f, f_ebp f]"

text \<open>A handler gets the registers and the frame; the frame it gives back counts only when its declaration has the frame.\<close>

type_synonym handler = "u32 list \<Rightarrow> sysframe \<Rightarrow> kernel \<Rightarrow> ((u32 \<times> sysframe) \<times> kernel) exec"

definition call :: "signature \<Rightarrow> handler \<Rightarrow> sysframe \<Rightarrow> kernel \<Rightarrow> (sysframe \<times> kernel) exec" where
  "call sg func frame k =
    (let frame = (if sg_void sg \<and> \<not> sg_frame sg then frame\<lparr>f_eax := 0\<rparr> else frame) in
     sbind (func (take (sg_args sg) (arg_regs frame)) frame k) (\<lambda>((r, f), k').
       let f = (if sg_frame sg then f else frame) in Inr (if sg_void sg then f else f\<lparr>f_eax := r\<rparr>, k')))"

text \<open>Number 407 reads the structure at \<^verbatim>\<open>edx\<close>, eight bytes of seconds and four of nanoseconds, without a check of the address. An access of
  the kernel to a page that is not present enters the handler of page faults with a frame of the kernel, a read and no page: error code 0. When
  the handler comes back the access is repeated.\<close>

definition data_mapped :: "kernel \<Rightarrow> vaddr \<Rightarrow> bool" where
  "data_mapped k v \<longleftrightarrow> (let d = mm_cr3 (k_mm k (k_task k)) in
    if 0xC0000000 \<le> v \<or> d = k_kernel_cr3 k then kernel_translate (k_paging k) v \<noteq> None else user_pte (k_paging k) d v \<noteq> None)"

definition kernel_read :: "sysframe \<Rightarrow> vaddr \<Rightarrow> kernel \<Rightarrow> (unit \<times> kernel) exec" where
  "kernel_read frame v k =
    (if data_mapped k v then Inr ((), k)
     else sbind (page_fault v (frame\<lparr>f_isr_num := E_PageFault, f_error_code := 0, f_cs := kernelCs\<rparr>) k) (\<lambda>(_, k).
       if data_mapped k v then Inr ((), k) else Inl Diverges))"

definition read_timespec :: "sysframe \<Rightarrow> vaddr \<Rightarrow> kernel \<Rightarrow> (unit \<times> kernel) exec" where
  "read_timespec frame rqtp = pfor (kernel_read frame) (map (\<lambda>n. rqtp + of_nat n) [0..<12])"

definition syscallHandlerImpl :: "(syscall \<Rightarrow> handler) \<Rightarrow> sysframe \<Rightarrow> kernel \<Rightarrow> (sysframe \<times> kernel) exec" where
  "syscallHandlerImpl svc frame k =
    (if f_eax frame = 383 then Inr (frame\<lparr>f_eax := errno_word SYS_ENOSYS\<rparr>, k)
     else case map_of syscall_table (f_eax frame) of
       Some c \<Rightarrow> call (signature_of c) (svc c) frame k
     | None \<Rightarrow> sbind (if f_eax frame = 407 then read_timespec frame (f_edx frame) k else Inr ((), k)) (\<lambda>(_, k).
         Inr (frame\<lparr>f_eax := errno_word SYS_ENOSYS\<rparr>, k)))"

section \<open>Process calls\<close>

definition ret_unit :: "sysframe \<Rightarrow> kernel \<Rightarrow> unit result \<times> sched \<Rightarrow> ((u32 \<times> sysframe) \<times> kernel) exec" where
  "ret_unit f k r = Inr ((unit_merge (fst r), f), with_sched (snd r) k)"

definition ret_int :: "sysframe \<Rightarrow> kernel \<Rightarrow> int \<Rightarrow> ((u32 \<times> sysframe) \<times> kernel) exec" where
  "ret_int f k i = Inr ((of_int i, f), k)"

definition sys_kill :: handler where
  "sys_kill args f k = ret_unit f k (kill (sint (args ! 0)) (sint (args ! 1)) (k_sched k))"

definition sys_tkill :: handler where
  "sys_tkill args f k = sys_kill args f k"

definition sys_exit :: handler where
  "sys_exit args f k = sbind (sched_exit (args ! 0) 0 (k_sched k)) (\<lambda>sc. Inr ((0, f), with_sched sc k))"

definition sys_exit_group :: handler where
  "sys_exit_group args f k = sys_exit args f k"

definition sys_gettid :: "sched \<Rightarrow> int" where
  "sys_gettid st = t_pid (sc_tcb st (sc_current st))"

definition sys_set_tid_address :: "sched \<Rightarrow> int" where
  "sys_set_tid_address st = t_pid (sc_tcb st (sc_current st))"

definition sys_brk :: handler where
  "sys_brk args f k = (let t = k_task k in
    sbind (brk (args ! 0) (k_mm k t) (k_paging k)) (\<lambda>((r, mm), st).
      Inr ((result_merge r, f), k\<lparr>k_mm := (k_mm k)(t := mm), k_paging := st\<rparr>)))"

definition process_service :: "(syscall \<Rightarrow> handler) \<Rightarrow> syscall \<Rightarrow> handler" where
  "process_service other c args f k = (case c of
      Sys_exit \<Rightarrow> sys_exit args f k
    | Sys_exit_group \<Rightarrow> sys_exit_group args f k
    | Sys_kill \<Rightarrow> sys_kill args f k
    | Sys_tkill \<Rightarrow> sys_tkill args f k
    | Sys_getpid \<Rightarrow> ret_int f k (sys_getpid (k_sched k))
    | Sys_gettid \<Rightarrow> ret_int f k (sys_gettid (k_sched k))
    | Sys_set_tid_address \<Rightarrow> ret_int f k (sys_set_tid_address (k_sched k))
    | Sys_getppid \<Rightarrow> ret_int f k (sys_getppid (k_sched k))
    | Sys_getpgrp \<Rightarrow> ret_int f k (sys_getpgrp (k_sched k))
    | Sys_getpgid \<Rightarrow> (case sys_getpgid (sint (args ! 0)) (k_sched k) of
          Inl e \<Rightarrow> Inr ((errno_word e, f), k) | Inr g \<Rightarrow> ret_int f k g)
    | Sys_setpgid \<Rightarrow> ret_unit f k (sys_setpgid (sint (args ! 0)) (sint (args ! 1)) (k_sched k))
    | Sys_getuid \<Rightarrow> ret_int f k 0 | Sys_getgid \<Rightarrow> ret_int f k 0 | Sys_geteuid \<Rightarrow> ret_int f k 0 | Sys_getegid \<Rightarrow> ret_int f k 0
    | Sys_brk \<Rightarrow> sys_brk args f k
    | _ \<Rightarrow> other c args f k)"

section \<open>Exceptions\<close>

text \<open>The wait of a general protection fault in user mode, on the value of a variable of the handler.\<close>

partial_function (option) gpf_wait_loop :: "int \<Rightarrow> unit option" where
  "gpf_wait_loop gpf_wait = (if gpf_wait \<noteq> 0 then gpf_wait_loop gpf_wait else Some ())"

definition exception_body :: "(syscall \<Rightarrow> handler) \<Rightarrow> vaddr \<Rightarrow> u8 \<Rightarrow> sysframe \<Rightarrow> kernel \<Rightarrow> (flow \<times> sysframe \<times> kernel) exec" where
  "exception_body svc cr2 key frame k =
    (if f_isr_num frame = E_Breakpoint then Inr (Tail, frame, raise SIGTRAP k)
     else if f_isr_num frame = E_GeneralProtectionFault
     then (if isRing3 (f_cs frame)
       then (case gpf_wait_loop 1 of None \<Rightarrow> Inl Diverges | Some _ \<Rightarrow> Inr (Tail, frame, raise SIGSEGV k))
       else Inl (Kfatal []))
     else if f_isr_num frame = E_PageFault then sbind (page_fault cr2 frame k) (\<lambda>(fl, k). Inr (fl, frame, k))
     else if f_isr_num frame = I_Timer
     then sbind (timer_hit (k_sched k)) (\<lambda>sc. Inr (Tail, frame, with_sched sc (k\<lparr>k_pic := pic_end 0 (k_pic k)\<rparr>)))
     else if f_isr_num frame = I_Keyboard
     then sbind (kb_push key (k_consoles k)) (\<lambda>(_, c). Inr (Tail, frame, k\<lparr>k_pic := pic_end 1 (k_pic k), k_consoles := c\<rparr>))
     else if f_isr_num frame = I_Syscall then sbind (syscallHandlerImpl svc frame k) (\<lambda>(f, k). Inr (Tail, f, k))
     else Inl (Kfatal []))"

datatype trap_end = Back sysframe | Switched

definition exception_tail :: "u32 \<Rightarrow> sysframe \<Rightarrow> kernel \<Rightarrow> (trap_end \<times> kernel) exec" where
  "exception_tail tramp frame k =
    (if isRing3 (f_cs frame)
     then sbind (checkSignal tramp (k_signal k) frame (k_user k)) (\<lambda>(out, s, f, m).
       let k = with_sched (upd_tcb (k_task k) (\<lambda>c. c\<lparr>t_signal := s\<rparr>) (k_sched k)) (k\<lparr>k_user := m\<rparr>) in
       case out of
         Exits sig \<Rightarrow> sbind (sched_exit 255 sig (k_sched k)) (\<lambda>sc. Inr (Switched, with_sched sc k))
       | _ \<Rightarrow> Inr (Back f, k))
     else Inr (Back frame, k))"

definition exceptionHandlerImpl :: "(syscall \<Rightarrow> handler) \<Rightarrow> u32 \<Rightarrow> vaddr \<Rightarrow> u8 \<Rightarrow> sysframe \<Rightarrow> kernel \<Rightarrow> (trap_end \<times> kernel) exec" where
  "exceptionHandlerImpl svc tramp cr2 key frame k = sbind (exception_body svc cr2 key frame k) (\<lambda>(fl, frame, k').
    if fl = Leave then Inr (Back frame, k')
    else if k_task k' \<noteq> k_task k then Inr (Switched, k')
    else exception_tail tramp frame k')"

section \<open>Areas and addresses\<close>

lemma locate_covered:
  assumes "range_inv Base Top xs"
  obtains i where "range_locate xs a = Inr i" "re_contains (xs ! i) a \<longleftrightarrow> covered xs a"
proof -
  obtain A e C where xs: "xs = A @ e # C" and loc: "range_locate xs a = Inr (length A)" and e: "re_begin e \<le> a" "\<forall>y\<in>set C. a < re_begin y"
    by (rule locate_split [OF assms])
  have "re_end x \<le> re_begin e" if "x \<in> set A" for x using range_split(1) [OF assms [unfolded xs]] that by blast
  then have "covered xs a \<longleftrightarrow> re_contains e a"
    using e by (auto simp: covered_def xs re_contains_def) (meson le_less_trans less_le_not_le order_trans)+
  with loc that show thesis by (simp add: xs)
qed

lemma candidate_not_covered:
  assumes inv: "range_inv vm_base vm_top (mm_space mm)" and c: "stack_candidate mm target = Inr (Some i)"
  shows "\<not> covered (mm_space mm) target"
proof -
  obtain n where n: "range_locate (mm_space mm) target = Inr n" "re_contains (mm_space mm ! n) target \<longleftrightarrow> covered (mm_space mm) target"
    by (rule locate_covered [OF inv])
  have "re_end (mm_space mm ! n) \<le> target"
    using c n(1) by (auto simp: stack_candidate_def Let_def re_bounds_addr_def split: if_splits)
  then have "\<not> re_contains (mm_space mm ! n) target" by (auto simp: re_contains_def)
  then show ?thesis using n(2) by simp
qed

text \<open>Between the end of the area below and the area that may grow lies nothing.\<close>

lemma candidate_gap:
  assumes inv: "vm_inv (mm_space mm)" and c: "stack_candidate mm target = Inr (Some i)" and guard: "vma_flags (last (mm_space mm)) AND MAP_GROWSDOWN = 0"
  shows "re_begin (mm_space mm ! i) \<le> 0xC0000000" "thisPage target \<le> p \<Longrightarrow> p < re_begin (mm_space mm ! i) \<Longrightarrow> \<not> covered (mm_space mm) p"
proof -
  let ?sp = "mm_space mm"
  have ri: "range_inv vm_base vm_top ?sp" using inv by (simp add: vm_inv_def)
  obtain A e C where xs: "?sp = A @ e # C" and loc: "range_locate ?sp target = Inr (length A)" by (rule locate_split [OF ri])
  have i: "i = Suc (length A)" "C \<noteq> []" and b: "re_end e \<le> target" and gd: "vma_flags (hd C) AND MAP_GROWSDOWN \<noteq> 0"
    using c loc by (auto simp: stack_candidate_def Let_def xs nth_append re_bounds_addr_def hd_conv_nth split: if_splits)
  obtain v D where C: "C = v # D" "?sp ! i = v" using i by (cases C) (auto simp: xs nth_append)
  have D: "D \<noteq> []" using guard gd C by (auto simp: xs)
  have "range_inv vm_base vm_top ((A @ [e]) @ v # D)" using ri by (simp add: xs C)
  note S = range_split [OF this]
  have "re_begin (last D) = vm_top" using ri D by (simp add: range_inv_def xs C)
  then have "re_end v \<le> vm_top" using S(2) [of "last D"] D by simp
  then show "re_begin (?sp ! i) \<le> 0xC0000000" using S(6) C(2) by (simp add: vm_top_def)
  have "page_aligned (re_end e)" using inv by (auto simp: vm_inv_def xs)
  then have te: "re_end e \<le> thisPage target" using b by (rule aligned_le_thisPage)
  assume p: "thisPage target \<le> p" "p < re_begin (?sp ! i)"
  have "re_end x \<le> p \<or> p < re_begin x" if "x \<in> set ?sp" for x
  proof -
    have "re_end x \<le> p" if "x \<in> set A" using range_split(1,6) [OF ri [unfolded xs]] that te p(1) by (meson order_trans)
    moreover have "p < re_begin x" if "x \<in> set D" using S(2) [OF that] S(6) p(2) C(2) by (meson less_le_trans order_trans)
    ultimately show ?thesis using that te p C(2) by (auto simp: xs C(1))
  qed
  then show "\<not> covered ?sp p" by (force simp: covered_def re_contains_def)
qed

lemma check_cow_law:
  assumes "range_inv vm_base vm_top (mm_space (k_mm k (k_task k)))"
  shows "check_cow target frame k = Inr (0x00400000 \<le> target \<and> target < 0xC0000000 \<and> covered (mm_space (k_mm k (k_task k))) target \<and>
    f_error_code frame AND 3 = 3 \<and> mm_cr3 (k_mm k (k_task k)) \<noteq> k_kernel_cr3 k)"
proof -
  obtain n where "range_locate (mm_space (k_mm k (k_task k))) target = Inr n"
    "re_contains (mm_space (k_mm k (k_task k)) ! n) target \<longleftrightarrow> covered (mm_space (k_mm k (k_task k))) target"
    by (rule locate_covered [OF assms])
  then show ?thesis by (simp add: check_cow_def Let_def PF_Present_def PF_Write_def)
qed

section \<open>Growing the stack on a fault\<close>

lemma dir_alloc_drop_fill: "dir_alloc_drop d w v = fill_page d v w (\<lambda>ws. ws)"
  by (rule ext) (auto simp: dir_alloc_drop_def fill_page_def pbind_def sbind_def set_words_def Nyan_Paging.frame_words_def split: sum.splits prod.splits)

lemma with_mapper_fill:
  assumes "window_inv st" "2 \<le> window_free st"
  shows "with_mapper d (pfor (\<lambda>v. fill_page d v w (F v)) vs) st = pfor (\<lambda>v. fill_page d v w (F v)) vs st"
proof -
  have t: "transparent 1 (pfor (\<lambda>v. fill_page d v w (F v)) vs) (pfor (\<lambda>v. fill_plain d v w (F v)) vs)"
    by (rule transparent_pfor [OF fill_transparent])
  then show ?thesis using transparent_with_mapper [OF t, of d] assms by (simp add: transparent_def numeral_2_eq_2)
qed

lemma checkStack_law:
  assumes inv: "vm_inv (mm_space mm)" and c: "stack_candidate mm target = Inr (Some i)"
    and guard: "vma_flags (last (mm_space mm)) AND MAP_GROWSDOWN = 0"
    and win: "window_inv st" "2 \<le> window_free st" and ok: "user_ok st (mm_cr3 mm) H" and backed: "pages_backed (mm_space mm) (mm_cr3 mm) st"
  defines "v \<equiv> mm_space mm ! i"
  defines "pages \<equiv> {p. page_aligned p \<and> thisPage target \<le> p \<and> p < re_begin v}"
  assumes room: "card (set_mset H) + 2 * card pages \<le> phys_limit (ps_frames st)"
  shows "\<exists>st' H'. checkStack target mm st = Inr ((True, mm\<lparr>mm_space := (mm_space mm)[i := v\<lparr>re_begin := thisPage target\<rparr>]\<rparr>), st') \<and>
    keeps_pages (mm_cr3 mm) st st' \<and> dir_grows (mm_cr3 mm) H st H' st' \<and> user_ok st' (mm_cr3 mm) H' \<and> user_pages (mm_cr3 mm) st' = page_ij ` pages \<union> user_pages (mm_cr3 mm) st \<and>
    (\<forall>p\<in>pages. page_words (mm_cr3 mm) st' (page_ij p) = table_clear \<and> page_entry (mm_cr3 mm) st' (page_ij p) AND 0xFFF = page_attr True)"
proof -
  let ?d = "mm_cr3 mm" and ?ps = "stack_pages (2 ^ 20) (re_begin v) target"
  note G = stack_growth_law [OF inv c guard, folded v_def]
  have set: "set ?ps = pages" and dist: "distinct ?ps" using G by (simp_all add: pages_def)
  have len: "length ?ps = card pages" using distinct_card [OF dist] set by simp
  have loc: "tableLoc p < 768" if "p \<in> pages" for p
    using that candidate_gap(1) [OF inv c guard] address_parts [of p] by (auto simp: pages_def v_def word_less_nat_alt word_le_nat_alt)
  have new: "page_ij p \<notin> user_pages ?d st" if "p \<in> pages" for p
    using that backed candidate_gap(2) [OF inv c guard, of p] by (auto simp: pages_def pages_backed_def v_def)
  have nw: "\<forall>p\<in>set ?ps. tableLoc p < 768 \<and> page_ij p \<notin> user_pages ?d st" using new loc set by simp
  have dij: "distinct (map page_ij ?ps)"
    unfolding distinct_map set using dist page_ij_inj by (auto simp: pages_def inj_on_def)
  have rm: "phys_room (0 + 2 * length ?ps) (ps_frames st)"
    by (rule phys_room_free [of _ H]) (use ok room len in \<open>simp_all add: user_ok_def\<close>)
  have w1: "1 \<le> window_free st" using win(2) by simp
  obtain st' H' where L: "pfor (\<lambda>v. fill_page ?d v True (\<lambda>ws. ws)) ?ps st = Inr ((), st')" "user_pages ?d st' = page_ij ` set ?ps \<union> user_pages ?d st"
    "keeps_pages ?d st st'" "\<forall>p\<in>set ?ps. page_words ?d st' (page_ij p) = table_clear \<and> page_entry ?d st' (page_ij p) AND 0xFFF = page_attr True"
    "dir_grows ?d H st H' st'" "user_ok st' ?d H'"
    using fill_pages_law [OF win(1) w1 ok nw dij rm, of True "\<lambda>_ ws. ws"] by blast
  have "with_mapper ?d (pfor (dir_alloc_drop ?d True) ?ps) st = Inr ((), st')"
    using with_mapper_fill [OF win, of ?d True "\<lambda>_ ws. ws" ?ps] L(1) by (simp add: dir_alloc_drop_fill [abs_def])
  then have "checkStack target mm st = Inr ((True, mm\<lparr>mm_space := (mm_space mm)[i := v\<lparr>re_begin := thisPage target\<rparr>]\<rparr>), st')"
    using c by (simp add: checkStack_def v_def pbind_def preturn_def Let_def)
  with L(2-6) set show ?thesis by blast
qed

section \<open>Properties\<close>

lemma page_fault_dispatch:
  "f_isr_num frame = E_PageFault \<Longrightarrow> exception_body svc cr2 key frame k = sbind (page_fault cr2 frame k) (\<lambda>(fl, k). Inr (fl, frame, k))"
  by (simp add: exception_body_def E_PageFault_def E_Breakpoint_def E_GeneralProtectionFault_def)

text \<open>C1: a write of a program, or of the kernel on its behalf, to a page it shares copy-on-write and that lies in one of
  its areas is invisible to the program: the handler returns to the interrupted instruction with the registers unchanged, the page is now
  writable and private, held once, with the contents it had, and of the kernel only the page tables, the frame pool and the new frame changed.\<close>

theorem cow_write_resumes:
  fixes k :: kernel
  defines "mm \<equiv> k_mm k (k_task k)" and "st \<equiv> k_paging k"
  assumes isr: "f_isr_num frame = E_PageFault" "f_error_code frame AND 3 = 3" and area: "vm_inv (mm_space mm)" "covered (mm_space mm) cr2"
    and rng: "0x400000 \<le> cr2" "cr2 < 0xC0000000" "mm_cr3 mm \<noteq> k_kernel_cr3 k"
    and win: "window_inv st" "4 \<le> window_free st" and rel: "phys_rel (ps_frames st) H"
    and pte: "user_pte st (mm_cr3 mm) cr2 = Some w" "w AND PTE_COW \<noteq> 0" "entry_at w \<in># H"
    and t: "t = entry_at (dir_entry (mm_cr3 mm) (tableLoc cr2) st)" "t \<in># H" "mm_cr3 mm \<in># H" "t \<noteq> entry_at w" "mm_cr3 mm \<noteq> entry_at w" "t \<noteq> mm_cr3 mm"
    and room: "count H (entry_at w) \<noteq> 1 \<Longrightarrow> \<exists>f a. physicalFrameAlloc (ps_frames st) = Inr (f, a)"
  shows "\<exists>st' w'. exceptionHandlerImpl svc tramp cr2 key frame k = Inr (Back frame, k\<lparr>k_paging := st'\<rparr>) \<and>
    user_pte st' (mm_cr3 mm) cr2 = Some w' \<and> bit w' 1 \<and> w' AND PTE_COW = 0 \<and>
    phys_rel (ps_frames st') (add_mset (entry_at w') (H - {#entry_at w#})) \<and>
    count (add_mset (entry_at w') (H - {#entry_at w#})) (entry_at w') = 1 \<and> ps_mem st' (entry_at w') = ps_mem st (entry_at w) \<and>
    (\<forall>a. a \<noteq> entry_at w' \<and> a \<noteq> t \<longrightarrow> ps_mem st' a = ps_mem st a)"
proof -
  have w3: "3 \<le> window_free st" using win(2) by simp
  obtain st' w' where c: "dir_handleCOW (mm_cr3 mm) cr2 st = Inr (True, st')" "user_pte st' (mm_cr3 mm) cr2 = Some w'" "bit w' 1" "w' AND PTE_COW = 0"
    "phys_rel (ps_frames st') (add_mset (entry_at w') (H - {#entry_at w#}))" "count (add_mset (entry_at w') (H - {#entry_at w#})) (entry_at w') = 1" "ps_mem st' (entry_at w') = ps_mem st (entry_at w)"
    "\<forall>a. a \<noteq> entry_at w' \<and> a \<noteq> t \<longrightarrow> ps_mem st' a = ps_mem st a"
    using dir_handleCOW_law [OF win(1) w3 rel pte t room] by metis
  have "with_mapper (mm_cr3 mm) (dir_handleCOW (mm_cr3 mm) cr2) st = Inr (True, st')"
    using transparent_with_mapper [OF dir_handleCOW_transparent [of "mm_cr3 mm" cr2], of "mm_cr3 mm"] dir_handleCOW_transparent [of "mm_cr3 mm" cr2] win c(1)
    by (simp add: transparent_def)
  moreover have "check_cow cr2 frame k = Inr True"
    using check_cow_law [of k cr2 frame] area rng isr(2) by (simp add: vm_inv_def mm_def)
  ultimately have "page_fault cr2 frame k = Inr (Leave, k\<lparr>k_paging := st'\<rparr>)" by (simp add: page_fault_def Let_def mm_def st_def)
  then have "exceptionHandlerImpl svc tramp cr2 key frame k = Inr (Back frame, k\<lparr>k_paging := st'\<rparr>)"
    by (simp add: exceptionHandlerImpl_def page_fault_dispatch [OF isr(1)])
  with c(2-8) show ?thesis by blast
qed

lemma no_signal_tail:
  "restSignals (k_signal k) = 0 \<Longrightarrow> exception_tail tramp frame k = Inr (Back frame, k)"
  by (simp add: exception_tail_def checkSignal_def with_sched_def upd_tcb_def fun_upd_triv)

text \<open>C11: a fault of user code just below its stack, above the limit of the stack, is invisible to the program when it has no
  signal to act on. It resumes with its registers. Of its memory description only the begin of the stack area changed, to the page of the
  address, so that exactly the pages from there up to the old begin are covered more; each of them is now mapped, writable and full of zeros, while every page the program had keeps its frame, contents
  and attributes. The frames for them were free, the counters stay exact, and no frame of anybody else changed; of the rest of the kernel nothing changed.
  The program is assumed to have pages in its areas only, and the pool two frames for each page.\<close>

theorem stack_fault_resumes:
  fixes k :: kernel
  defines "mm \<equiv> k_mm k (k_task k)" and "st \<equiv> k_paging k"
  assumes isr: "f_isr_num frame = E_PageFault" "isRing3 (f_cs frame)" and inv: "vm_inv (mm_space mm)"
    and c: "stack_candidate mm cr2 = Inr (Some i)" and guard: "vma_flags (last (mm_space mm)) AND MAP_GROWSDOWN = 0"
    and win: "window_inv st" "2 \<le> window_free st" and ok: "user_ok st (mm_cr3 mm) H" and backed: "pages_backed (mm_space mm) (mm_cr3 mm) st"
  defines "v \<equiv> mm_space mm ! i"
  defines "mm' \<equiv> mm\<lparr>mm_space := (mm_space mm)[i := v\<lparr>re_begin := thisPage cr2\<rparr>]\<rparr>"
  defines "pages \<equiv> {p. page_aligned p \<and> thisPage cr2 \<le> p \<and> p < re_begin v}"
  assumes room: "card (set_mset H) + 2 * card pages \<le> phys_limit (ps_frames st)" and quiet: "restSignals (k_signal k) = 0"
  shows "\<exists>st' H'. exceptionHandlerImpl svc tramp cr2 key frame k = Inr (Back frame, k\<lparr>k_paging := st', k_mm := (k_mm k)(k_task k := mm')\<rparr>) \<and>
    vm_inv (mm_space mm') \<and> covered (mm_space mm') cr2 \<and>
    (\<forall>p. covered (mm_space mm') p \<longleftrightarrow> covered (mm_space mm) p \<or> thisPage cr2 \<le> p \<and> p < re_begin v) \<and>
    user_pages (mm_cr3 mm) st' = page_ij ` pages \<union> user_pages (mm_cr3 mm) st \<and>
    (\<forall>p\<in>pages. page_words (mm_cr3 mm) st' (page_ij p) = table_clear \<and> page_entry (mm_cr3 mm) st' (page_ij p) AND 0xFFF = page_attr True) \<and>
    keeps_pages (mm_cr3 mm) st st' \<and> dir_grows (mm_cr3 mm) H st H' st' \<and> user_ok st' (mm_cr3 mm) H'"
proof -
  obtain st' H' where s: "checkStack cr2 mm st = Inr ((True, mm'), st')" "keeps_pages (mm_cr3 mm) st st'" "dir_grows (mm_cr3 mm) H st H' st'"
    "user_ok st' (mm_cr3 mm) H'" "user_pages (mm_cr3 mm) st' = page_ij ` pages \<union> user_pages (mm_cr3 mm) st"
    "\<forall>p\<in>pages. page_words (mm_cr3 mm) st' (page_ij p) = table_clear \<and> page_entry (mm_cr3 mm) st' (page_ij p) AND 0xFFF = page_attr True"
    using checkStack_law [OF inv c guard win ok backed room [unfolded pages_def v_def]] unfolding v_def pages_def mm'_def by blast
  note G = stack_growth_law [OF inv c guard, folded v_def]
  have ri: "range_inv vm_base vm_top (mm_space mm)" using inv by (simp add: vm_inv_def)
  have "check_cow cr2 frame k = Inr False"
    using check_cow_law [of k cr2 frame] ri candidate_not_covered [OF ri c] by (simp add: mm_def)
  then have "page_fault cr2 frame k = Inr (Tail, k\<lparr>k_paging := st', k_mm := (k_mm k)(k_task k := mm')\<rparr>)"
    using isr(2) s(1) by (simp add: page_fault_def Let_def mm_def st_def)
  then have "exceptionHandlerImpl svc tramp cr2 key frame k = Inr (Back frame, k\<lparr>k_paging := st', k_mm := (k_mm k)(k_task k := mm')\<rparr>)"
    using quiet by (simp add: exceptionHandlerImpl_def page_fault_dispatch [OF isr(1)] no_signal_tail)
  moreover have "mm_space mm' = (mm_space mm)[i := v\<lparr>re_begin := thisPage cr2\<rparr>]" by (simp add: mm'_def)
  then have "vm_inv (mm_space mm')" "covered (mm_space mm') cr2"
    "\<forall>p. covered (mm_space mm') p \<longleftrightarrow> covered (mm_space mm) p \<or> thisPage cr2 \<le> p \<and> p < re_begin v" using G by metis+
  ultimately show ?thesis using s(2-6) by blast
qed





definition may_end :: "sched \<Rightarrow> bool" where
  "may_end sc \<longleftrightarrow> sched_inv sc \<and> t_pid (sc_tcb sc (sc_current sc)) \<notin> {int KP_Init, int KP_Idle} \<and>
    both_ends (t_childTasks (sc_tcb sc (sc_current sc))) \<and>
    (case sc_all sc ! KP_Init of None \<Rightarrow> False | Some init \<Rightarrow> both_ends (t_childTasks (sc_tcb sc init)))"









lemma gpf_wait_forever: "gpf_wait_loop w = Some y \<Longrightarrow> w = 0"
  by (induction rule: gpf_wait_loop.raw_induct [rotated, consumes 1]) (simp split: if_splits)

text \<open>The kernel may read mapped memory only: without a page the fault of the read stops the machine.\<close>

lemma kernel_read_law:
  assumes "range_inv vm_base vm_top (mm_space (k_mm k (k_task k)))"
  shows "kernel_read frame v k = (if data_mapped k v then Inr ((), k) else Inl (Kfatal []))"
proof -
  let ?f = "frame\<lparr>f_isr_num := E_PageFault, f_error_code := 0, f_cs := kernelCs\<rparr>"
  have "check_cow v ?f k = Inr False" using check_cow_law [OF assms, of v ?f] by simp
  then have "page_fault v ?f k = Inl (Kfatal [])" by (simp add: page_fault_def Let_def isRing3_def kernelCs_def)
  then show ?thesis by (simp add: kernel_read_def)
qed

lemma read_bytes_law:
  assumes "range_inv vm_base vm_top (mm_space (k_mm k (k_task k)))"
  shows "pfor (kernel_read frame) vs k = (if \<forall>v\<in>set vs. data_mapped k v then Inr ((), k) else Inl (Kfatal []))"
  by (induction vs) (simp_all add: preturn_def pbind_def kernel_read_law [OF assms])

text \<open>C38: what programs can do to the whole machine. System call 407 of user code, whatever it has in its registers, comes back with \<^verbatim>\<open>ENOSYS\<close> and no effect when
  the twelve bytes at \<^verbatim>\<open>edx\<close> are mapped, in the program or in the kernel, and stops the kernel when one of them is not. A general protection
  fault of user code, as a privileged instruction raises it, never leaves the handler, and every other exception of user code but
  the breakpoint and the page fault, a division by zero for instance, stops the kernel.\<close>

theorem program_can_stop_kernel:
  fixes k :: kernel and frame :: sysframe
  assumes ring: "isRing3 (f_cs frame)" and inv: "range_inv vm_base vm_top (mm_space (k_mm k (k_task k)))"
  shows "(f_isr_num frame = I_Syscall \<and> f_eax frame = 407 \<longrightarrow> exceptionHandlerImpl svc tramp cr2 key frame k =
      (if \<forall>n<12. data_mapped k (f_edx frame + of_nat n) then exception_tail tramp (frame\<lparr>f_eax := errno_word SYS_ENOSYS\<rparr>) k else Inl (Kfatal []))) \<and>
    (f_isr_num frame = E_GeneralProtectionFault \<longrightarrow> exceptionHandlerImpl svc tramp cr2 key frame k = Inl Diverges) \<and>
    (f_isr_num frame < I_Timer \<and> f_isr_num frame \<notin> {E_Breakpoint, E_GeneralProtectionFault, E_PageFault} \<longrightarrow>
      exceptionHandlerImpl svc tramp cr2 key frame k = Inl (Kfatal []))"
proof (intro conjI impI)
  assume a: "f_isr_num frame = I_Syscall \<and> f_eax frame = 407"
  define there where "there \<longleftrightarrow> (\<forall>n<12. data_mapped k (f_edx frame + of_nat n))"
  have "map_of syscall_table 407 = None" by (simp add: syscall_table_def)
  moreover have "read_timespec frame (f_edx frame) k = (if there then Inr ((), k) else Inl (Kfatal []))"
    unfolding read_timespec_def read_bytes_law [OF inv] there_def by auto
  ultimately have "syscallHandlerImpl svc frame k = (if there then Inr (frame\<lparr>f_eax := errno_word SYS_ENOSYS\<rparr>, k) else Inl (Kfatal []))"
    using a by (simp add: syscallHandlerImpl_def)
  then show "exceptionHandlerImpl svc tramp cr2 key frame k =
      (if \<forall>n<12. data_mapped k (f_edx frame + of_nat n) then exception_tail tramp (frame\<lparr>f_eax := errno_word SYS_ENOSYS\<rparr>) k else Inl (Kfatal []))"
    using a unfolding there_def [symmetric]
    by (simp add: exceptionHandlerImpl_def exception_body_def I_Syscall_def E_PageFault_def E_Breakpoint_def E_GeneralProtectionFault_def
        I_Timer_def I_Keyboard_def)
next
  assume "f_isr_num frame = E_GeneralProtectionFault"
  moreover have "gpf_wait_loop 1 = None" using gpf_wait_forever [of 1] by (cases "gpf_wait_loop 1") auto
  ultimately show "exceptionHandlerImpl svc tramp cr2 key frame k = Inl Diverges"
    using ring by (simp add: exceptionHandlerImpl_def exception_body_def E_Breakpoint_def E_GeneralProtectionFault_def)
next
  assume "f_isr_num frame < I_Timer \<and> f_isr_num frame \<notin> {E_Breakpoint, E_GeneralProtectionFault, E_PageFault}"
  moreover have "\<not> I_Keyboard < I_Timer" "\<not> I_Syscall < I_Timer" by (simp_all add: I_Timer_def I_Keyboard_def I_Syscall_def)
  ultimately show "exceptionHandlerImpl svc tramp cr2 key frame k = Inl (Kfatal [])"
    by (auto simp: exceptionHandlerImpl_def exception_body_def)
qed

section \<open>A small machine\<close>

definition demo_mm :: task_mm where
  "demo_mm = \<lparr>mm_space = [VMA_range 0 0x400000, VMA 0x400000 0x402000 0x22 3 ''data'', VMA 0xBFFFF000 0xC0000000 0x122 3 ''stack'',
      VMA_range 0xC0000000 0xFFFFF000], mm_cr3 = 0x800000, mm_brkBase = 0x402000, mm_brkAddr = 0x402000, mm_stack_low = 0xBF800000\<rparr>"

definition demo_kernel :: "sched \<Rightarrow> kernel" where
  "demo_kernel sc = \<lparr>k_consoles = \<lparr>cs_ttys = [], cs_active = 0, cs_vga = [], cs_flags = 0, cs_prefix = False, cs_sched = sc\<rparr>,
    k_pic = \<lparr>pic_imr1 = 0, pic_imr2 = 0, pic_eoi1 = 0, pic_eoi2 = 0\<rparr>, k_paging = shared_state, k_mm = (\<lambda>_. demo_mm),
    k_kernel_cr3 = 0x200000, k_user = (\<lambda>_. 0)\<rparr>"

definition demo_frame :: sysframe where
  "demo_frame = (words_frame (replicate 18 0))\<lparr>f_cs := userCs, f_isr_num := E_PageFault, f_error_code := 7\<rparr>"

lemma demo_inv: "vm_inv (mm_space demo_mm)" "vma_flags (last (mm_space demo_mm)) AND MAP_GROWSDOWN = 0"
  by (simp_all add: demo_mm_def vm_inv_def range_inv_def VMA_range_def VMA_def vm_base_def vm_top_def page_aligned_def)

lemma demo_fields: "k_sched (demo_kernel sc) = sc" "k_mm (demo_kernel sc) t = demo_mm" "k_paging (demo_kernel sc) = shared_state"
  "f_isr_num demo_frame = E_PageFault" "isRing3 (f_cs demo_frame)" "f_error_code demo_frame AND 3 = 3"
  by (simp_all add: demo_kernel_def demo_frame_def isRing3_def userCs_def)

lemma demo_task:
  obtains sc where "boot_run [Fork 3, Yield] = Inr sc" "may_end sc" "sc_current sc = 3" "t_pid (sc_tcb sc 3) = 16"
    "t_signal (sc_tcb sc 3) = TaskSignalInfo"
proof -
  have "case boot_run [Fork 3, Yield] of Inr st \<Rightarrow> sc_current st = 3 \<and> t_pid (sc_tcb st 3) = 16 \<and> t_signal (sc_tcb st 3) = TaskSignalInfo \<and>
      both_ends (t_childTasks (sc_tcb st 3)) \<and> (case sc_all st ! KP_Init of None \<Rightarrow> False | Some t \<Rightarrow> both_ends (t_childTasks (sc_tcb st t))) | Inl _ \<Rightarrow> False"
    by code_simp
  from boot_run_holds [OF this] obtain sc where sc: "boot_run [Fork 3, Yield] = Inr sc" "sched_reach sc" "sc_current sc = 3" "t_pid (sc_tcb sc 3) = 16"
    "t_signal (sc_tcb sc 3) = TaskSignalInfo" "both_ends (t_childTasks (sc_tcb sc 3))"
    "case sc_all sc ! KP_Init of None \<Rightarrow> False | Some t \<Rightarrow> both_ends (t_childTasks (sc_tcb sc t))" by blast
  with sched_reach_inv [OF sc(2)] that show thesis by (simp add: may_end_def KP_Init_def KP_Idle_def)
qed

lemma demo_signal: "restSignals TaskSignalInfo = 0" "\<not> isMasked TaskSignalInfo sig" "action_of TaskSignalInfo sig = Inr None"
  by (simp_all add: restSignals_def isMasked_def TaskSignalInfo_def action_of_def)

definition demo_service :: "syscall \<Rightarrow> handler" where
  "demo_service = process_service (\<lambda>_ _ f k. Inr ((errno_word SYS_ENOSYS, f), k))"



theorem cow_write_resumes_witness:
  "\<exists>sc st' w'. boot_run [Fork 3, Yield] = Inr sc \<and>
    exceptionHandlerImpl demo_service 0 0x400010 0 demo_frame (demo_kernel sc) = Inr (Back demo_frame, (demo_kernel sc)\<lparr>k_paging := st'\<rparr>) \<and>
    user_pte st' 0x800000 0x400010 = Some w' \<and> bit w' 1"
proof -
  let ?H = "{#0x802000, 0x802000, 0x801000, 0x800000 :: u32#}"
  obtain sc where sc: "boot_run [Fork 3, Yield] = Inr sc" by (rule demo_task)
  have loc: "tableLoc 0x400010 = 1" "tablePageLoc 0x400010 = 0" by (simp_all add: tableLoc_def tablePageLoc_def)
  have pte: "user_pte shared_state 0x800000 0x400010 = Some 0x802205"
    by (simp add: user_pte_def dir_entry_def Nyan_Paging.frame_words_def shared_state_def loc entry_isPresent_def entry_at_def PTE_Present_def Let_def)
  have cov: "covered (mm_space demo_mm) 0x400010" by (simp add: covered_def demo_mm_def VMA_range_def VMA_def re_contains_def)
  have rel: "phys_rel (ps_frames shared_state) ?H" using shared_user(3) by (simp add: user_ok_def)
  have room: "\<exists>f a. physicalFrameAlloc (ps_frames shared_state) = Inr (f, a)"
    using phys_room_free [OF rel, of "Suc 0"] by (simp add: phys_limit_def shared_state_def shared_frames_def)
  have free: "4 \<le> window_free shared_state" by (simp add: shared_window(2))
  have at: "entry_at (0x802205 :: u32) = 0x802000" by (simp add: entry_at_def)
  have t: "(0x801000 :: u32) = entry_at (dir_entry 0x800000 (tableLoc 0x400010) shared_state)"
    by (simp add: dir_entry_def Nyan_Paging.frame_words_def shared_state_def loc entry_at_def)
  have "mm_cr3 demo_mm = 0x800000" "k_kernel_cr3 (demo_kernel sc) = 0x200000" by (simp_all add: demo_mm_def demo_kernel_def)
  then have "\<exists>st' w'. exceptionHandlerImpl demo_service 0 0x400010 0 demo_frame (demo_kernel sc) = Inr (Back demo_frame, (demo_kernel sc)\<lparr>k_paging := st'\<rparr>) \<and>
      user_pte st' (mm_cr3 (k_mm (demo_kernel sc) (k_task (demo_kernel sc)))) 0x400010 = Some w' \<and> bit w' 1 \<and> w' AND PTE_COW = 0 \<and>
      phys_rel (ps_frames st') (add_mset (entry_at w') (?H - {#entry_at 0x802205#})) \<and>
      count (add_mset (entry_at w') (?H - {#entry_at 0x802205#})) (entry_at w') = 1 \<and>
      ps_mem st' (entry_at w') = ps_mem (k_paging (demo_kernel sc)) (entry_at 0x802205) \<and>
      (\<forall>a. a \<noteq> entry_at w' \<and> a \<noteq> 0x801000 \<longrightarrow> ps_mem st' a = ps_mem (k_paging (demo_kernel sc)) a)"
    by (intro cow_write_resumes) (use room demo_inv cov free rel pte t shared_window in \<open>simp_all add: demo_fields at PTE_COW_def\<close>)
  with sc \<open>mm_cr3 demo_mm = 0x800000\<close> show ?thesis by (auto simp: demo_fields)
qed

lemma demo_backed: "pages_backed (mm_space demo_mm) 0x800000 shared_state"
proof -
  have "p = 0x400000" if "page_aligned p" "page_ij p = (1, 0)" for p
    by (rule page_ij_inj) (use that in \<open>simp_all add: page_ij_def tableLoc_def tablePageLoc_def page_aligned_def\<close>)
  moreover have "covered (mm_space demo_mm) 0x400000" by (simp add: covered_def demo_mm_def VMA_def VMA_range_def re_contains_def)
  ultimately show ?thesis by (auto simp: pages_backed_def shared_user(2))
qed

theorem stack_fault_resumes_witness:
  "\<exists>sc st' mm'. boot_run [Fork 3, Yield] = Inr sc \<and>
    exceptionHandlerImpl demo_service 0 0xBFFFE010 0 demo_frame (demo_kernel sc) =
      Inr (Back demo_frame, (demo_kernel sc)\<lparr>k_paging := st', k_mm := (\<lambda>_. demo_mm)(3 := mm')\<rparr>) \<and>
    covered (mm_space mm') 0xBFFFE010 \<and> mm_cr3 mm' = 0x800000 \<and> user_pages 0x800000 st' = {(767, 1022), (1, 0)}"
proof -
  let ?H = "{#0x802000, 0x802000, 0x801000, 0x800000 :: u32#}"
  obtain sc where sc: "boot_run [Fork 3, Yield] = Inr sc" "sc_current sc = 3" "t_signal (sc_tcb sc 3) = TaskSignalInfo"
    by (rule demo_task)
  let ?k = "demo_kernel sc"
  have c: "stack_candidate demo_mm 0xBFFFE010 = Inr (Some 2)"
    by (simp add: demo_mm_def stack_candidate_def range_locate_def VMA_range_def VMA_def re_bounds_addr_def MAP_GROWSDOWN_def)
  have b: "re_begin (mm_space demo_mm ! 2) = 0xBFFFF000" by (simp add: demo_mm_def VMA_def VMA_range_def numeral_2_eq_2)
  have tp: "thisPage 0xBFFFE010 = 0xBFFFE000" by (simp add: thisPage_def alignDown_def)
  have pages: "{p :: u32. page_aligned p \<and> thisPage 0xBFFFE010 \<le> p \<and> p < re_begin (mm_space demo_mm ! 2)} = {0xBFFFE000}"
    unfolding tp b by (auto simp: page_aligned_def word_le_nat_alt word_less_nat_alt word_unat_eq_iff)
  have ij: "page_ij 0xBFFFE000 = (767, 1022)" by (simp add: page_ij_def tableLoc_def tablePageLoc_def)
  have ring: "isRing3 (f_cs demo_frame)" by (rule demo_fields(5))
  have cr3: "mm_cr3 demo_mm = 0x800000" by (simp add: demo_mm_def)
  have free: "2 \<le> window_free shared_state" by (simp add: shared_window(2))
  have lim: "card (set_mset ?H) + 2 \<le> phys_limit (ps_frames shared_state)" by (simp add: phys_limit_def shared_state_def shared_frames_def)
  have kmm: "k_mm ?k (k_task ?k) = demo_mm" "k_task ?k = 3" "k_signal ?k = TaskSignalInfo" using sc by (simp_all add: demo_fields)
  let ?mm = "demo_mm\<lparr>mm_space := (mm_space demo_mm)[2 := (mm_space demo_mm ! 2)\<lparr>re_begin := thisPage 0xBFFFE010\<rparr>]\<rparr>"
  have q: "restSignals (k_signal ?k) = 0" using kmm demo_signal(1) by simp
  have "\<exists>st' H'. exceptionHandlerImpl demo_service 0 0xBFFFE010 0 demo_frame ?k =
      Inr (Back demo_frame, ?k\<lparr>k_paging := st', k_mm := (k_mm ?k)(k_task ?k := ?mm)\<rparr>) \<and> vm_inv (mm_space ?mm) \<and> covered (mm_space ?mm) 0xBFFFE010 \<and>
      (\<forall>p. covered (mm_space ?mm) p \<longleftrightarrow> covered (mm_space demo_mm) p \<or> thisPage 0xBFFFE010 \<le> p \<and> p < re_begin (mm_space demo_mm ! 2)) \<and>
      user_pages (mm_cr3 demo_mm) st' = page_ij ` {0xBFFFE000} \<union> user_pages (mm_cr3 demo_mm) (k_paging ?k) \<and>
      (\<forall>p\<in>{0xBFFFE000}. page_words (mm_cr3 demo_mm) st' (page_ij p) = table_clear \<and> page_entry (mm_cr3 demo_mm) st' (page_ij p) AND 0xFFF = page_attr True) \<and>
      keeps_pages (mm_cr3 demo_mm) (k_paging ?k) st' \<and> dir_grows (mm_cr3 demo_mm) ?H (k_paging ?k) H' st' \<and> user_ok st' (mm_cr3 demo_mm) H'"
    using stack_fault_resumes [where k = ?k and ?cr2.0 = "0xBFFFE010" and frame = demo_frame and i = 2 and H = ?H
      and svc = demo_service and tramp = 0 and key = 0, unfolded kmm(1) pages demo_fields(3) cr3]
      demo_fields(4) ring demo_inv c shared_window(1) free shared_user(3) demo_backed lim q
    unfolding demo_fields(3) cr3 by simp
  then obtain st' where "exceptionHandlerImpl demo_service 0 0xBFFFE010 0 demo_frame ?k =
      Inr (Back demo_frame, ?k\<lparr>k_paging := st', k_mm := (\<lambda>_. demo_mm)(3 := ?mm)\<rparr>)" "covered (mm_space ?mm) 0xBFFFE010"
      "user_pages 0x800000 st' = page_ij ` {0xBFFFE000} \<union> {(1, 0)}"
    unfolding kmm(2) demo_fields(3) cr3 shared_user(2) by (auto simp: demo_kernel_def)
  with sc(1) ij cr3 show ?thesis by (intro exI [of _ sc] exI [of _ st'] exI [of _ ?mm]) (simp add: insert_commute)
qed

theorem program_can_stop_kernel_witness:
  "\<exists>sc. boot_run [Fork 3, Yield] = Inr sc \<and> exceptionHandlerImpl demo_service 0 0 0
    (demo_frame\<lparr>f_isr_num := I_Syscall, f_eax := 407, f_edx := 0x400FFC\<rparr>) (demo_kernel sc) = Inl (Kfatal [])"
proof -
  obtain sc where sc: "boot_run [Fork 3, Yield] = Inr sc" by (rule demo_task)
  have "tableLoc 0x401000 = 1" "tablePageLoc 0x401000 = 1" by (simp_all add: tableLoc_def tablePageLoc_def)
  then have "user_pte shared_state 0x800000 0x401000 = None"
    by (simp add: user_pte_def dir_entry_def Nyan_Paging.frame_words_def shared_state_def entry_isPresent_def entry_at_def PTE_Present_def Let_def)
  then have "\<not> data_mapped (demo_kernel sc) (0x400FFC + of_nat 4)" by (simp add: data_mapped_def demo_fields demo_mm_def demo_kernel_def Let_def)
  then have "\<not> (\<forall>n<12. data_mapped (demo_kernel sc) (0x400FFC + of_nat n))" by (auto intro!: exI [of _ 4])
  moreover have "isRing3 (f_cs (demo_frame\<lparr>f_isr_num := I_Syscall, f_eax := 407, f_edx := 0x400FFC\<rparr>))" using demo_fields(5) by simp
  moreover have "range_inv vm_base vm_top (mm_space (k_mm (demo_kernel sc) (k_task (demo_kernel sc))))" using demo_inv(1) by (simp add: demo_fields vm_inv_def)
  ultimately show ?thesis
    using program_can_stop_kernel [of "demo_frame\<lparr>f_isr_num := I_Syscall, f_eax := 407, f_edx := 0x400FFC\<rparr>" "demo_kernel sc" demo_service 0 0 0] sc by auto
qed

end
