(* ===== verification/Nyan_Format.thy ===== *)
theory Nyan_Format
  imports Nyan_Prelude
begin

unbundle bit_operations_syntax

text \<open>
  Formatted output (kernel/lib/format.hpp and kernel/lib/format/). A format string is a \<open>string\<close>. \<open>check\<close> is what the compiler runs on
  it: the specifications of its fields, or \<open>None\<close> where the program is rejected. \<open>format_to\<close> is what runs in the kernel: the characters
  it puts out, or the stop of the machine that \<^verbatim>\<open>__throw_format_error\<close> is there. An argument is a string, a number or a character with the width
  and sign of its type, or a pointer; a \<^verbatim>\<open>bool\<close> has no unsigned type, so no program that formats one compiles. Numbers of more
  than 32 bits are not modelled, since their binary form shifts an \<^verbatim>\<open>int\<close> beyond its width.
\<close>

section \<open>Arguments and specifications\<close>

datatype kind = K_String | K_Integral | K_Char | K_Pointer

datatype arg = A_String string | A_Integral bool nat int | A_Char int | A_Pointer u32

fun kind_of :: "arg \<Rightarrow> kind" where
  "kind_of (A_String s) = K_String"
| "kind_of (A_Integral s b v) = K_Integral"
| "kind_of (A_Char v) = K_Char"
| "kind_of (A_Pointer p) = K_Pointer"

record format_spec =
  fs_fill :: char
  fs_align :: char
  fs_sign :: char
  fs_sharp :: bool
  fs_zero :: bool
  fs_width :: nat
  fs_precision :: nat
  fs_type :: char

definition new_spec :: format_spec where
  "new_spec = \<lparr>fs_fill = CHR '' '', fs_align = CHR 0x00, fs_sign = CHR ''-'', fs_sharp = False, fs_zero = False, fs_width = 0,
    fs_precision = 65535, fs_type = CHR 0x00\<rparr>"

definition is_align :: "char \<Rightarrow> bool" where "is_align ch \<longleftrightarrow> ch \<in> set ''<>^''"
definition is_sign :: "char \<Rightarrow> bool" where "is_sign ch \<longleftrightarrow> ch \<in> set ''+- ''"
definition is_digit :: "char \<Rightarrow> bool" where "is_digit ch \<longleftrightarrow> 48 \<le> (of_char ch :: nat) \<and> (of_char ch :: nat) \<le> 57"

definition digit_val :: "char \<Rightarrow> nat" where
  "digit_val ch = of_char ch - 48"

fun parse_fill_align :: "format_spec \<times> string \<Rightarrow> format_spec \<times> string" where
  "parse_fill_align (sp, []) = (sp, [])"
| "parse_fill_align (sp, [c]) = (if is_align c then (sp\<lparr>fs_align := c\<rparr>, []) else (sp, [c]))"
| "parse_fill_align (sp, c # d # cs) =
    (if is_align c then (sp\<lparr>fs_align := c\<rparr>, d # cs)
     else if is_align d then (sp\<lparr>fs_align := d, fs_fill := c\<rparr>, cs)
     else (sp, c # d # cs))"

definition next_is :: "(char \<Rightarrow> bool) \<Rightarrow> string \<Rightarrow> bool" where
  "next_is P s \<longleftrightarrow> (case s of [] \<Rightarrow> False | c # cs \<Rightarrow> P c)"

definition parse_sign_sharp_zero :: "format_spec \<times> string \<Rightarrow> format_spec \<times> string" where
  "parse_sign_sharp_zero x =
    (let (sp, s) = x;
         (sp, s) = (if next_is is_sign s then (sp\<lparr>fs_sign := hd s\<rparr>, tl s) else (sp, s));
         (sp, s) = (if next_is (\<lambda>c. c = CHR ''#'') s then (sp\<lparr>fs_sharp := True\<rparr>, tl s) else (sp, s))
     in if next_is (\<lambda>c. c = CHR ''0'') s then (sp\<lparr>fs_zero := (fs_align sp = CHR 0x00)\<rparr>, tl s) else (sp, s))"

text \<open>The 16-bit accumulation of a number.\<close>

fun parse_number :: "nat \<Rightarrow> string \<Rightarrow> nat \<times> string" where
  "parse_number n [] = (n, [])"
| "parse_number n (c # cs) = (if is_digit c then parse_number ((n * 10 + digit_val c) mod 65536) cs else (n, c # cs))"

definition parse_width_precision :: "format_spec \<times> string \<Rightarrow> format_spec \<times> string" where
  "parse_width_precision x =
    (let (sp, s) = x; (w, s) = parse_number (fs_width sp) s; sp = sp\<lparr>fs_width := w\<rparr> in
     if next_is (\<lambda>c. c = CHR ''.'') s \<and> next_is is_digit (tl s)
     then (let (p, s) = parse_number (fs_precision sp) (tl s) in (sp\<lparr>fs_precision := p\<rparr>, s))
     else (sp, s))"

fun type_chars :: "kind \<Rightarrow> string" where
  "type_chars K_String = ''s''"
| "type_chars K_Integral = ''cbBdoxX''"
| "type_chars K_Char = ''cbBdoxX''"
| "type_chars K_Pointer = ''pP''"

fun type_default :: "kind \<Rightarrow> char" where
  "type_default K_String = CHR ''s''"
| "type_default K_Integral = CHR ''d''"
| "type_default K_Char = CHR ''c''"
| "type_default K_Pointer = CHR ''p''"

definition parse_type :: "kind \<Rightarrow> format_spec \<times> string \<Rightarrow> format_spec \<times> string" where
  "parse_type k x = (let (sp, s) = x in
    if next_is (\<lambda>c. c \<in> set (type_chars k)) s then (sp\<lparr>fs_type := hd s\<rparr>, tl s) else (sp\<lparr>fs_type := type_default k\<rparr>, s))"

definition spec_parse :: "kind \<Rightarrow> string \<Rightarrow> format_spec \<times> string" where
  "spec_parse k s =
    (let x = parse_fill_align (new_spec, s);
         x = (if k = K_String then x else parse_sign_sharp_zero x);
         (sp, s) = parse_type k (parse_width_precision x)
     in (if fs_align sp = CHR 0x00
         then sp\<lparr>fs_align := (if fs_type sp \<in> set ''bBdoxXpP'' then CHR ''>'' else CHR ''<'')\<rparr> else sp, s))"

section \<open>Measuring and putting out\<close>

text \<open>The digits of a number, last first, as the loops of \<^verbatim>\<open>emit\<close> leave them in the buffer.\<close>

function digits_rev :: "nat \<Rightarrow> nat \<Rightarrow> nat list" where
  "digits_rev b n = n mod b # (if 2 \<le> b \<and> n div b \<noteq> 0 then digits_rev b (n div b) else [])"
  by pat_completeness auto
termination
proof (relation "measure snd")
  fix b n :: nat
  assume "2 \<le> b \<and> n div b \<noteq> 0"
  then have "0 < n" "1 < b" by (auto intro: gr0I)
  then have "n div b < n" by (rule div_less_dividend [rotated])
  then show "((b, n div b), (b, n)) \<in> measure snd" by simp
qed simp

declare digits_rev.simps [simp del]

definition bit_width :: "nat \<Rightarrow> nat" where
  "bit_width n = (if n = 0 then 0 else length (digits_rev 2 n))"

definition numeric :: "arg \<Rightarrow> bool \<times> nat \<times> int" where
  "numeric a = (case a of A_Integral s b v \<Rightarrow> (s, b, v) | A_Char v \<Rightarrow> (True, 8, v) | A_Pointer p \<Rightarrow> (False, 32, uint p) | A_String s \<Rightarrow> (False, 0, 0))"

definition unsigned_of :: "bool \<times> nat \<times> int \<Rightarrow> nat" where
  "unsigned_of x = (case x of (s, b, v) \<Rightarrow> if s \<and> v < 0 then nat ((0 - v mod 2 ^ b) mod 2 ^ b) else nat v)"

definition mesure_num :: "bool \<times> nat \<times> int \<Rightarrow> format_spec \<Rightarrow> nat" where
  "mesure_num x sp = (case x of (s, b, v) \<Rightarrow>
    if fs_type sp = CHR ''c'' then 1
    else if fs_type sp = CHR ''s'' then 0
    else let u = unsigned_of x;
             len = (if s \<and> v < 0 then 1 else if fs_sign sp \<noteq> CHR ''-'' then 1 else 0);
             len = len + (if fs_type sp = CHR ''d'' then length (digits_rev 10 u)
               else if fs_type sp \<in> set ''bB'' then (if fs_sharp sp then 2 else 0) + max 1 (bit_width u)
               else if fs_type sp = CHR ''o'' then (if fs_sharp sp then 1 else 0) + length (digits_rev 8 u)
               else if fs_type sp \<in> set ''xXpP'' then (if fs_sharp sp \<or> fs_type sp = CHR ''p'' then 2 else 0) + length (digits_rev 16 u)
               else 0)
         in if fs_zero sp then max len (fs_width sp) else len)"

definition mesure :: "arg \<Rightarrow> format_spec \<Rightarrow> nat" where
  "mesure a sp = (case a of A_String s \<Rightarrow> min (length s) (fs_precision sp) | _ \<Rightarrow> mesure_num (numeric a) sp)"

definition digit_char :: "bool \<Rightarrow> nat \<Rightarrow> char" where
  "digit_char upper d = char_of (if d < 10 then 48 + d else (if upper then 55 else 87) + d)"

definition sign_part :: "bool \<times> nat \<times> int \<Rightarrow> format_spec \<Rightarrow> string" where
  "sign_part x sp = (case x of (s, b, v) \<Rightarrow> if s \<and> v < 0 then ''-'' else if fs_sign sp = CHR ''+'' then ''+'' else if fs_sign sp = CHR '' '' then '' '' else '''')"

definition prefix_part :: "format_spec \<Rightarrow> string" where
  "prefix_part sp =
    (if fs_type sp \<in> set ''bB'' then (if fs_sharp sp then (if fs_type sp = CHR ''b'' then ''0b'' else ''0B'') else '''')
     else if fs_type sp = CHR ''o'' then (if fs_sharp sp then ''0'' else '''')
     else if fs_type sp \<in> set ''xXpP'' then (if fs_sharp sp \<or> fs_type sp \<in> set ''pP'' then (if fs_type sp \<in> set ''XP'' then ''0X'' else ''0x'') else '''')
     else '''')"

definition digit_part :: "bool \<times> nat \<times> int \<Rightarrow> format_spec \<Rightarrow> string" where
  "digit_part x sp = (case x of (s, b, v) \<Rightarrow> let u = unsigned_of x in
     if fs_type sp = CHR ''d'' then rev (map (digit_char False) (digits_rev 10 u))
     else if fs_type sp \<in> set ''bB'' then map (\<lambda>i. if bit v i then CHR ''1'' else CHR ''0'') (rev [0..<max 1 (bit_width u)])
     else if fs_type sp = CHR ''o'' then rev (map (digit_char False) (digits_rev 8 u))
     else if fs_type sp \<in> set ''xXpP'' then rev (map (digit_char (fs_type sp \<in> set ''XP'')) (digits_rev 16 u))
     else '''')"

definition emit_num :: "bool \<times> nat \<times> int \<Rightarrow> format_spec \<Rightarrow> string" where
  "emit_num x sp =
    (if fs_type sp = CHR ''c'' then [char_of (nat (snd (snd x) mod 256))]
     else if fs_type sp = CHR ''s'' then ''''
     else let sgn = sign_part x sp; pre = prefix_part sp; ds = digit_part x sp;
              zeros = (if fs_zero sp \<and> ds \<noteq> [] then replicate (fs_width sp - (length sgn + length pre + length ds)) (CHR ''0'') else '''')
          in sgn @ pre @ zeros @ ds)"

definition emit :: "arg \<Rightarrow> format_spec \<Rightarrow> nat \<Rightarrow> string" where
  "emit a sp mesure_width = (case a of A_String s \<Rightarrow> take mesure_width s | _ \<Rightarrow> emit_num (numeric a) sp)"

definition format_arg :: "format_spec \<Rightarrow> arg \<Rightarrow> string" where
  "format_arg sp a =
    (let m = mesure a sp; out = emit a sp m in
     if fs_width sp > m
     then let padding = fs_width sp - m in
       if fs_align sp = CHR ''<'' then out @ replicate padding (fs_fill sp)
       else if fs_align sp = CHR ''>'' then replicate padding (fs_fill sp) @ out
       else if fs_align sp = CHR ''^'' then replicate (padding div 2) (fs_fill sp) @ out @ replicate (padding - padding div 2) (fs_fill sp)
       else out
     else out)"

section \<open>Format strings\<close>

definition before_brace :: "string \<Rightarrow> string" where
  "before_brace s = takeWhile (\<lambda>c. c \<noteq> CHR ''}'') s"

definition from_brace :: "string \<Rightarrow> string" where
  "from_brace s = dropWhile (\<lambda>c. c \<noteq> CHR ''}'') s"

lemma from_brace_length: "from_brace s = c # cs \<Longrightarrow> length cs < length s"
  using length_dropWhile_le [of "\<lambda>c. c \<noteq> CHR ''}''" s] by (simp add: from_brace_def)

function (sequential) check :: "kind list \<Rightarrow> string \<Rightarrow> format_spec list option" where
  "check ks [] = Some []"
| "check ks (c # cs) =
    (if c = CHR ''{''
     then (case cs of [] \<Rightarrow> None
       | d # ds \<Rightarrow> if d = CHR ''{'' then check ks ds
         else (case from_brace (d # ds) of [] \<Rightarrow> None
           | e # es \<Rightarrow> (case ks of [] \<Rightarrow> None
             | k # ks' \<Rightarrow> (case spec_parse k (before_brace (d # ds)) of (sp, rest) \<Rightarrow>
                 if rest = [] then map_option ((#) sp) (check ks' es) else None))))
     else if c = CHR ''}''
     then (case cs of [] \<Rightarrow> None | d # ds \<Rightarrow> if d \<noteq> CHR ''}'' then None else check ks ds)
     else check ks cs)"
  by pat_completeness auto
termination by (relation "measure (length \<circ> snd)") (auto dest: from_brace_length)

definition format_error :: fault where
  "format_error = Kfatal ''format_error''"

text \<open>After the first of two closing braces the loop goes on at the second.\<close>

function (sequential) format_to :: "(format_spec \<times> arg) list \<Rightarrow> string \<Rightarrow> string exec" where
  "format_to as [] = Inr []"
| "format_to as (c # cs) =
    (if c = CHR ''{''
     then (case cs of [] \<Rightarrow> Inl format_error
       | d # ds \<Rightarrow> if d = CHR ''{'' then sbind (format_to as ds) (\<lambda>out. Inr (CHR ''{'' # out))
         else (case from_brace (d # ds) of [] \<Rightarrow> Inl format_error
           | e # es \<Rightarrow> (case as of [] \<Rightarrow> format_to [] es
             | (sp, a) # as' \<Rightarrow> sbind (format_to as' es) (\<lambda>out. Inr (format_arg sp a @ out)))))
     else if c = CHR ''}''
     then (case cs of [] \<Rightarrow> Inl format_error
       | d # ds \<Rightarrow> if d \<noteq> CHR ''}'' then Inl format_error else sbind (format_to as cs) (\<lambda>out. Inr (CHR ''}'' # out)))
     else sbind (format_to as cs) (\<lambda>out. Inr (c # out)))"
  by pat_completeness auto
termination by (relation "measure (length \<circ> snd)") (auto dest: from_brace_length)

text \<open>\<^verbatim>\<open>capped_iterator\<close>: the output up to a limit.\<close>

definition capped :: "nat \<Rightarrow> string \<Rightarrow> string" where
  "capped limit out = take limit out"

text \<open>A call: the compiler's part, then the run.\<close>

definition format_string :: "string \<Rightarrow> arg list \<Rightarrow> string exec option" where
  "format_string fmt as = map_option (\<lambda>sps. format_to (zip sps as) fmt) (check (map kind_of as) fmt)"

section \<open>Digits\<close>

lemma digits_rev_small: "n < b \<Longrightarrow> digits_rev b n = [n]"
  by (subst digits_rev.simps) simp

lemma digits_rev_step: "2 \<le> b \<Longrightarrow> b \<le> n \<Longrightarrow> digits_rev b n = n mod b # digits_rev b (n div b)"
  by (subst digits_rev.simps) (simp add: div_eq_0_iff)



lemma digits_rev_length: "2 \<le> b \<Longrightarrow> n < b ^ k \<Longrightarrow> 0 < k \<Longrightarrow> length (digits_rev b n) \<le> k"
proof (induction b n arbitrary: k rule: digits_rev.induct)
  case (1 b n)
  show ?case
  proof (cases "n < b")
    case False
    then obtain j where k: "k = Suc j" "0 < j" using 1(3,4) by (cases k; cases "k - 1") auto
    then have "n div b < b ^ j" using 1(3) by (simp add: less_mult_imp_div_less mult.commute)
    with 1(1) 1(2) False k show ?thesis by (simp add: digits_rev_step div_eq_0_iff)
  qed (use 1 in \<open>simp add: digits_rev_small\<close>)
qed






section \<open>Numbers\<close>








section \<open>Properties\<close>











text \<open>A closing brace outside every field.\<close>

function (sequential) has_close :: "string \<Rightarrow> bool" where
  "has_close [] \<longleftrightarrow> False"
| "has_close (c # cs) \<longleftrightarrow>
    (if c = CHR ''{''
     then (case cs of [] \<Rightarrow> False
       | d # ds \<Rightarrow> if d = CHR ''{'' then has_close ds
         else (case from_brace (d # ds) of [] \<Rightarrow> False | e # es \<Rightarrow> has_close es))
     else c = CHR ''}'' \<or> has_close cs)"
  by pat_completeness auto
termination by (relation "measure length") (auto dest: from_brace_length)

lemma close_stops: "format_to as (CHR ''}'' # cs) = Inl format_error"
  by (induction cs) auto

lemma run_iff_no_close:
  "check ks fmt \<noteq> None \<Longrightarrow> (\<exists>out. format_to as fmt = Inr out) \<longleftrightarrow> \<not> has_close fmt"
proof (induction ks fmt arbitrary: as rule: check.induct)
  case (2 ks c cs)
  consider "c = CHR ''}''" | "c \<noteq> CHR ''{''" "c \<noteq> CHR ''}''" | "c = CHR ''{''" by blast
  then show ?case
  proof cases
    case 1
    then show ?thesis using close_stops [of as cs] by simp
  next
    case 2
    then show ?thesis using "2.IH"(4) "2.prems" by (auto simp: sbind_eq_Inr_iff)
  next
    case 3
    then obtain d ds where cs: "cs = d # ds" using "2.prems" by (cases cs) auto
    show ?thesis
    proof (cases "d = CHR ''{''")
      case True
      then show ?thesis using "2.IH"(1) "2.prems" 3 cs by (auto simp: sbind_eq_Inr_iff)
    next
      case False
      then obtain e es where es: "from_brace (d # ds) = e # es" using "2.prems" 3 cs by (cases "from_brace (d # ds)") auto
      then obtain k ks' where ks: "ks = k # ks'" using "2.prems" 3 cs False by (cases ks) auto
      have ok: "check ks' es \<noteq> None" using "2.prems" 3 cs False es ks by (auto split: prod.splits if_splits)
      have ih: "(\<exists>out. format_to as' es = Inr out) \<longleftrightarrow> \<not> has_close es" for as'
        using "2.IH"(2) [OF 3 cs False es ks, of _ _ as'] "2.prems" 3 cs False es ks by (auto split: prod.splits if_splits)
      show ?thesis using ih 3 cs False es by (cases as) (auto simp: sbind_eq_Inr_iff)
    qed
  qed
qed simp

text \<open>C39: a format string the compiler accepts runs to its end exactly when it has no doubled closing brace outside a field; with one, the
  accepted way to print a closing brace, the call stops the machine.\<close>

theorem accepted_format_runs:
  assumes "format_string fmt as = Some r"
  shows "(\<exists>out. r = Inr out) \<longleftrightarrow> \<not> has_close fmt"
  using assms run_iff_no_close [of "map kind_of as" fmt] by (auto simp: format_string_def)

text \<open>The precision of a string field never cuts it: a one-digit precision starts from 65535, so that only texts of more than 65526
  characters are shortened.\<close>

theorem precision_ignored:
  assumes "is_digit d" "length t \<le> 65526"
  shows "\<exists>sp. spec_parse K_String (CHR ''.'' # [d]) = (sp, []) \<and> format_arg sp (A_String t) = t"
proof -
  have dv: "digit_val d < 10" using assms(1) by (auto simp: is_digit_def digit_val_def)
  have nd: "\<not> is_align d" using assms(1) by (auto simp: is_digit_def is_align_def)
  have dot: "\<not> is_digit (CHR ''.'')" "\<not> is_align (CHR ''.'')" by (simp_all add: is_digit_def is_align_def)
  let ?sp = "new_spec\<lparr>fs_width := 0, fs_precision := (65535 * 10 + digit_val d) mod 65536, fs_type := CHR ''s'', fs_align := CHR ''<''\<rparr>"
  have "spec_parse K_String (CHR ''.'' # [d]) = (?sp, [])"
    using nd dot assms(1) by (simp add: spec_parse_def parse_width_precision_def parse_type_def next_is_def new_spec_def Let_def)
  moreover have "(65535 * 10 + digit_val d) mod 65536 = 65526 + digit_val d" using dv by (simp add: mod_if)
  then have "format_arg ?sp (A_String t) = t" using assms(2) by (simp add: format_arg_def mesure_def emit_def Let_def)
  ultimately show ?thesis by blast
qed

section \<open>Examples\<close>




theorem accepted_format_runs_witness:
  "\<exists>r. format_string ''{}}}'' [A_String ''ok''] = Some r \<and> \<not> (\<exists>out. r = Inr out)"
proof -
  have "check [K_String] ''{}}}'' = Some [fst (spec_parse K_String [])]"
    by (simp add: from_brace_def before_brace_def spec_parse_def parse_width_precision_def parse_type_def next_is_def Let_def)
  then obtain r where r: "format_string ''{}}}'' [A_String ''ok''] = Some r" by (simp add: format_string_def)
  have "has_close ''{}}}''" by (simp add: from_brace_def)
  with accepted_format_runs [OF r] r show ?thesis by blast
qed

theorem precision_ignored_witness:
  "\<exists>sp. spec_parse K_String ''.3'' = (sp, []) \<and> format_arg sp (A_String ''whole text'') = ''whole text''"
  by (rule precision_ignored) (simp_all add: is_digit_def)

end
