(* ===== verification/Nyan_Release.thy ===== *)
theory Nyan_Release
  imports Nyan_Mmap
begin

unbundle bit_operations_syntax

text \<open>
  Giving up an address space, as \<^verbatim>\<open>Scheduler::freeTask\<close> does for a task that has ended and \<^verbatim>\<open>Scheduler::execTask\<close> for the
  program it replaces (kernel/task/scheduler.task.cpp): the pages of the areas, the pages left in the tables, the tables and
  the directory. \<open>dir_refs\<close> is the multiset of references to physical frames a directory has, one for itself, one for each
  table and one for each page it maps; a page it shares copy-on-write with another directory is counted there too. The release
  gives back exactly these references.
\<close>

section \<open>Release of a directory\<close>

definition release_space :: "paddr \<Rightarrow> vm_space \<Rightarrow> paging_state \<Rightarrow> (vm_space \<times> paging_state) exec" where
  "release_space d sp = with_mapper d (pbind (vm_free d sp) (\<lambda>sp.
    pbind (dir_freePageTables d) (\<lambda>_. pbind (phys_release d) (\<lambda>_. preturn sp))))"

section \<open>What a directory holds\<close>

definition dir_owned :: "paging_state \<Rightarrow> paddr \<Rightarrow> u32 multiset \<Rightarrow> bool" where
  "dir_owned st d H \<longleftrightarrow> phys_rel (ps_frames st) (H + dir_refs d st) \<and> inj_on (\<lambda>i. table_of d i st) (user_tables d st) \<and>
    (\<forall>i\<in>user_tables d st. table_of d i st \<noteq> d)"

text \<open>Frames outside the directory and its tables keep their words.\<close>

definition keeps_frames :: "paddr \<Rightarrow> paging_state \<Rightarrow> paging_state \<Rightarrow> bool" where
  "keeps_frames d st st' \<longleftrightarrow> (\<forall>q. q \<noteq> d \<longrightarrow> q \<notin> (\<lambda>i. table_of d i st) ` user_tables d st \<longrightarrow> ps_mem st' q = ps_mem st q) \<and>
    user_tables d st' \<subseteq> user_tables d st \<and> (\<forall>i\<in>user_tables d st'. table_of d i st' = table_of d i st)"

lemma keeps_frames_refl [simp]: "keeps_frames d st st"
  by (simp add: keeps_frames_def)

lemma keeps_frames_trans: "keeps_frames d a b \<Longrightarrow> keeps_frames d b c \<Longrightarrow> keeps_frames d a c"
  by (fastforce simp: keeps_frames_def image_iff subset_iff)

section \<open>The release without its brackets\<close>

definition freePage_plain :: "paddr \<Rightarrow> vaddr \<Rightarrow> paging_state \<Rightarrow> (unit \<times> paging_state) exec" where
  "freePage_plain d addr st = (if entry_isPresent (dir_entry d (tableLoc addr) st)
    then table_freePage (table_of d (tableLoc addr) st) addr st else Inr ((), st))"

definition freeTable_plain :: "paddr \<Rightarrow> nat \<Rightarrow> paging_state \<Rightarrow> (unit \<times> paging_state) exec" where
  "freeTable_plain d i st = (if entry_isPresent (dir_entry d i st)
    then pbind (\<lambda>st. table_freeDangling (table_of d i st) st) (\<lambda>_ st.
      pbind (phys_release (table_of d i st)) (\<lambda>_ st. Inr ((), set_words d ((frame_words st d)(i := 0)) st)) st) st
    else Inr ((), st))"

lemma window_blind_pfor: "(\<And>x. window_blind (f x)) \<Longrightarrow> window_blind (pfor f xs)"
  by (induction xs) (simp_all add: window_blind_prims window_blind_pbind)

lemma window_blind_if:
  assumes "window_blind b" "window_blind c" "\<And>st vf kd kt. P (set_window vf kd kt st) = P st"
  shows "window_blind (\<lambda>st. if P st then b st else c st)"
  using assms by (auto simp: window_blind_def)

lemma freePage_blind: "window_blind (table_freePage t addr)"
proof -
  have "window_blind (\<lambda>st. Inr ((), set_words t ((frame_words st t)(tablePageLoc addr := 0)) st))" by (rule window_blind_set) simp
  then have "window_blind (pbind (phys_release a) (\<lambda>_ st. Inr ((), set_words t ((frame_words st t)(tablePageLoc addr := 0)) st)))" for a
    by (intro window_blind_pbind window_blind_prims)
  from window_blind_if [OF window_blind_select [OF this] window_blind_prims(4) [of "()"],
      of "\<lambda>st. entry_at (frame_words st t (tablePageLoc addr))" "\<lambda>st. entry_isPresent (frame_words st t (tablePageLoc addr))"]
  show ?thesis unfolding table_freePage_def [abs_def] Let_def preturn_def by simp
qed

lemma freeDangling_blind: "window_blind (table_freeDangling t)"
  unfolding table_freeDangling_def
proof (rule window_blind_pfor)
  fix i
  from window_blind_if [OF window_blind_prims(4) [of "()"] window_blind_select [OF window_blind_prims(3)],
      of "\<lambda>st. entry_at (frame_words st t i)" "\<lambda>st. frame_words st t i AND PTE_Present = 0"]
  show "window_blind (\<lambda>st. let w = frame_words st t i in if w AND PTE_Present = 0 then Inr ((), st) else phys_release (entry_at w) st)"
    unfolding Let_def preturn_def by simp
qed

lemma freePage_transparent: "transparent 1 (dir_freePage d addr) (freePage_plain d addr)"
proof -
  have "transparent 1 (dir_with d (tableLoc addr) (\<lambda>t. table_freePage t addr)) (\<lambda>st. table_freePage (table_of d (tableLoc addr) st) addr st)"
    using dir_with_transparent [OF transparent_blind [OF freePage_blind], of 0] by simp
  from transparent_if [OF this transparent_blind [OF window_blind_prims(4) [of "()"]], of "\<lambda>st. entry_isPresent (dir_entry d (tableLoc addr) st)"]
  show ?thesis unfolding dir_freePage_def [abs_def] freePage_plain_def [abs_def] preturn_def by simp
qed

lemma freeTables_transparent: "transparent 1 (dir_freePageTables d) (pfor (freeTable_plain d) [0..<768])"
proof -
  have "transparent 1 (\<lambda>st. if entry_isPresent (dir_entry d i st)
    then pbind (dir_with d i table_freeDangling) (\<lambda>_ st.
      pbind (phys_release (entry_at (dir_entry d i st)))
        (\<lambda>_ st. Inr ((), set_words d ((frame_words st d)(i := 0)) st)) st) st
    else Inr ((), st)) (freeTable_plain d i)" for i
  proof -
    let ?clear = "\<lambda>st. Inr ((), set_words d ((frame_words st d)(i := 0)) st)"
    have "transparent 1 (dir_with d i table_freeDangling) (\<lambda>st. table_freeDangling (table_of d i st) st)"
      using dir_with_transparent [OF transparent_blind [OF freeDangling_blind], of 0] by simp
    moreover have "window_blind (pbind (phys_release t) (\<lambda>_. ?clear))" for t
      by (intro window_blind_pbind window_blind_prims window_blind_set) simp
    from transparent_blind [OF window_blind_select [OF this, of "table_of d i"]]
    have "transparent 1 (\<lambda>st. pbind (phys_release (table_of d i st)) (\<lambda>_. ?clear) st) (\<lambda>st. pbind (phys_release (table_of d i st)) (\<lambda>_. ?clear) st)"
      by simp
    ultimately have "transparent 1 (pbind (dir_with d i table_freeDangling) (\<lambda>_ st. pbind (phys_release (table_of d i st)) (\<lambda>_. ?clear) st))
        (pbind (\<lambda>st. table_freeDangling (table_of d i st) st) (\<lambda>_ st. pbind (phys_release (table_of d i st)) (\<lambda>_. ?clear) st))"
      by (rule transparent_pbind)
    from transparent_if [OF this transparent_blind [OF window_blind_prims(4) [of "()"]], of "\<lambda>st. entry_isPresent (dir_entry d i st)"]
    show ?thesis unfolding freeTable_plain_def [abs_def] preturn_def by simp
  qed
  then show ?thesis unfolding dir_freePageTables_def by (rule transparent_pfor)
qed

section \<open>Exactly the references\<close>

lemma release_list:
  "phys_rel (ps_frames st) (H + mset as) \<Longrightarrow> \<exists>f. pfor phys_release as st = Inr ((), st\<lparr>ps_frames := f\<rparr>) \<and> phys_rel f H"
proof (induction as arbitrary: st)
  case Nil
  then show ?case by (intro exI [of _ "ps_frames st"]) (simp add: preturn_def)
next
  case (Cons a as)
  obtain f where f: "physicalFrameRelease (ps_frames st) a = Inr f" "phys_rel f (H + mset (a # as) - {#a#})"
    using phys_rel_release [OF Cons.prems, of a] by auto
  then have "phys_rel (ps_frames (st\<lparr>ps_frames := f\<rparr>)) (H + mset as)" by simp
  from Cons.IH [OF this] f(1) show ?case by (auto simp: pbind_def phys_release_def)
qed

definition table_refs :: "paging_state \<Rightarrow> paddr \<Rightarrow> u32 list" where
  "table_refs st t = map entry_at (filter entry_isPresent (map (frame_words st t) [0..<1024]))"

lemma freeDangling_list: "table_freeDangling t st = pfor phys_release (table_refs st t) st"
proof -
  have "pfor (\<lambda>i st. let w = frame_words st t i in if w AND PTE_Present = 0 then Inr ((), st) else phys_release (entry_at w) st) js s =
      pfor phys_release (map entry_at (filter entry_isPresent (map (frame_words st t) js))) s" if "frame_words s t = frame_words st t" for js s
    using that
  proof (induction js arbitrary: s)
    case (Cons j js)
    have "frame_words (s\<lparr>ps_frames := f\<rparr>) t = frame_words st t" for f using Cons.prems by (simp add: frame_words_def)
    then show ?case using Cons.IH [OF Cons.prems] Cons.IH Cons.prems
      by (cases "physicalFrameRelease (ps_frames s) (entry_at (frame_words st t j))")
        (simp_all add: pbind_def entry_isPresent_def Let_def phys_release_def)
  qed simp
  from this [of st "[0..<1024]"] show ?thesis by (simp add: table_freeDangling_def table_refs_def)
qed

lemma dir_refs_remove:
  assumes "user_tables d st' = user_tables d st" "\<And>i. dir_entry d i st' = dir_entry d i st"
    "p \<in> user_pages d st" "user_pages d st' = user_pages d st - {p}" "\<And>q. q \<in> user_pages d st' \<Longrightarrow> page_frame d st' q = page_frame d st q"
  shows "dir_refs d st = add_mset (page_frame d st p) (dir_refs d st')"
proof -
  have "mset_set (user_pages d st) = add_mset p (mset_set (user_pages d st'))" using assms(3,4) by (simp add: mset_set.remove)
  moreover have "image_mset (page_frame d st') (mset_set (user_pages d st')) = image_mset (page_frame d st) (mset_set (user_pages d st'))"
    using assms(5) by (intro image_mset_cong) simp
  ultimately show ?thesis by (simp add: dir_refs_def assms(1,2))
qed

lemma freePage_law:
  assumes own: "dir_owned st d H" and loc: "tableLoc addr < 768"
  shows "\<exists>st'. freePage_plain d addr st = Inr ((), st') \<and> dir_owned st' d H \<and> keeps_frames d st st' \<and> user_pages d st' = user_pages d st - {page_ij addr} \<and>
    (\<forall>q\<in>user_pages d st'. page_entry d st' q = page_entry d st q)"
proof (cases "page_ij addr \<in> user_pages d st")
  case False
  have "tablePageLoc addr < 1024" using address_parts [of addr] by simp
  then have "freePage_plain d addr st = Inr ((), st)"
    using False loc by (auto simp: freePage_plain_def table_freePage_def Let_def user_pages_def user_tables_def page_ij_def)
  then show ?thesis using own False by (intro exI [of _ st]) simp
next
  case True
  let ?i = "tableLoc addr" and ?j = "tablePageLoc addr"
  let ?t = "table_of d ?i st"
  have i: "?i \<in> user_tables d st" "entry_isPresent (dir_entry d ?i st)" "entry_isPresent (frame_words st ?t ?j)"
    using True by (auto simp: user_pages_def user_tables_def page_ij_def)
  have td: "?t \<noteq> d" using own i(1) by (simp add: dir_owned_def)
  have pf: "page_frame d st (page_ij addr) = entry_at (frame_words st ?t ?j)" by (simp add: page_frame_def page_ij_def)
  have "page_frame d st (page_ij addr) \<in># H + dir_refs d st" using True by (simp add: dir_refs_def)
  then obtain f where f: "physicalFrameRelease (ps_frames st) (entry_at (frame_words st ?t ?j)) = Inr f"
    "phys_rel f (H + dir_refs d st - {#page_frame d st (page_ij addr)#})" using own phys_rel_release pf by (metis dir_owned_def)
  let ?st = "set_words ?t ((frame_words st ?t)(?j := 0)) (st\<lparr>ps_frames := f\<rparr>)"
  have run: "freePage_plain d addr st = Inr ((), ?st)"
    using i f(1) by (simp add: freePage_plain_def table_freePage_def Let_def pbind_def phys_release_def frame_words_def)
  have ent: "dir_entry d k ?st = dir_entry d k st" for k using td by (simp add: dir_entry_def frame_words_def set_words_def)
  have tabs: "user_tables d ?st = user_tables d st" by (simp add: user_tables_def ent)
  have w: "frame_words ?st (table_of d k st) l = (if k = ?i \<and> l = ?j then 0 else frame_words st (table_of d k st) l)" if "k \<in> user_tables d st" for k l
    using own i(1) that by (auto simp: frame_words_def set_words_def dir_owned_def dest: inj_onD)
  have pages: "user_pages d ?st = user_pages d st - {page_ij addr}"
    using w not_present_zero by (auto simp: user_pages_def tabs ent page_ij_def split: if_splits)
  have pe: "page_entry d ?st q = page_entry d st q" if "q \<in> user_pages d ?st" for q
  proof -
    have "fst q \<in> user_tables d st" "q \<noteq> (?i, ?j)" using that pages by (auto simp: user_pages_def tabs page_ij_def)
    then show ?thesis using w [of "fst q" "snd q"] by (auto simp: page_entry_def ent prod_eq_iff)
  qed
  then have "page_frame d ?st q = page_frame d st q" if "q \<in> user_pages d ?st" for q using that by (simp add: page_frame_def page_entry_def)
  from dir_refs_remove [OF tabs ent True pages this] f(2) have "phys_rel (ps_frames ?st) (H + dir_refs d ?st)" by (simp add: set_words_def)
  then have "dir_owned ?st d H" using own by (simp add: dir_owned_def tabs ent)
  moreover have "q \<noteq> ?t \<Longrightarrow> ps_mem ?st q = ps_mem st q" for q by (simp add: set_words_def)
  then have "keeps_frames d st ?st" using i(1) by (auto simp: keeps_frames_def tabs ent)
  ultimately show ?thesis using run pages pe by (intro exI [of _ ?st]) blast
qed

lemma table_refs_mset:
  assumes "i \<in> user_tables d st"
  shows "mset (table_refs st (table_of d i st)) = image_mset (page_frame d st) (mset_set {p \<in> user_pages d st. fst p = i})"
proof -
  let ?js = "filter (\<lambda>j. entry_isPresent (frame_words st (table_of d i st) j)) [0..<1024]"
  have "{p \<in> user_pages d st. fst p = i} = Pair i ` set ?js" using assms by (auto simp: user_pages_def)
  moreover have "inj_on (Pair i) (set ?js)" by (simp add: inj_on_def)
  ultimately have "mset_set {p \<in> user_pages d st. fst p = i} = image_mset (Pair i) (mset_set (set ?js))" by (simp add: image_mset_mset_set)
  also have "mset_set (set ?js) = mset ?js" by (rule mset_set_set) simp
  finally have "mset_set {p \<in> user_pages d st. fst p = i} = mset (map (Pair i) ?js)" by simp
  moreover have "map (page_frame d st) (map (Pair i) ?js) = table_refs st (table_of d i st)"
    by (simp add: table_refs_def page_frame_def filter_map comp_def)
  ultimately show ?thesis by (metis mset_map)
qed

lemma dir_refs_table:
  assumes i: "i \<in> user_tables d st" and tabs: "user_tables d st' = user_tables d st - {i}"
    and ent: "\<And>k. k \<in> user_tables d st' \<Longrightarrow> table_of d k st' = table_of d k st"
    and pages: "user_pages d st' = {p \<in> user_pages d st. fst p \<noteq> i}"
    and pf: "\<And>q. q \<in> user_pages d st' \<Longrightarrow> page_frame d st' q = page_frame d st q"
  shows "dir_refs d st = dir_refs d st' + add_mset (table_of d i st) (mset (table_refs st (table_of d i st)))"
proof -
  have "mset_set (user_tables d st) = add_mset i (mset_set (user_tables d st'))" using i tabs by (simp add: mset_set.remove)
  moreover have "image_mset (\<lambda>k. table_of d k st') (mset_set (user_tables d st')) = image_mset (\<lambda>k. table_of d k st) (mset_set (user_tables d st'))"
    using ent by (intro image_mset_cong) simp
  moreover have "user_pages d st = user_pages d st' \<union> {p \<in> user_pages d st. fst p = i}" unfolding pages by blast
  then have "mset_set (user_pages d st) = mset_set (user_pages d st') + mset_set {p \<in> user_pages d st. fst p = i}"
    using mset_set_Union [of "user_pages d st'" "{p \<in> user_pages d st. fst p = i}"] by (simp add: pages disjoint_iff)
  moreover have "image_mset (page_frame d st') (mset_set (user_pages d st')) = image_mset (page_frame d st) (mset_set (user_pages d st'))"
    using pf by (intro image_mset_cong) simp
  ultimately show ?thesis by (simp add: dir_refs_def table_refs_mset [OF i])
qed

lemma freeTable_law:
  assumes own: "dir_owned st d H" and loc: "i < 768"
  shows "\<exists>st'. freeTable_plain d i st = Inr ((), st') \<and> dir_owned st' d H \<and> keeps_frames d st st' \<and> user_tables d st' = user_tables d st - {i}"
proof (cases "i \<in> user_tables d st")
  case False
  then show ?thesis using own loc by (intro exI [of _ st]) (simp add: freeTable_plain_def user_tables_def)
next
  case True
  let ?t = "table_of d i st"
  have pr: "entry_isPresent (dir_entry d i st)" using True by (simp add: user_tables_def)
  let ?st = "\<lambda>f. set_words d ((frame_words st d)(i := 0)) (st\<lparr>ps_frames := f\<rparr>)"
  have ent: "dir_entry d k (?st f) = (if k = i then 0 else dir_entry d k st)" for k f by (simp add: dir_entry_def frame_words_def set_words_def)
  have tabs: "user_tables d (?st f) = user_tables d st - {i}" for f using not_present_zero by (auto simp: user_tables_def ent)
  have tw: "frame_words (?st f) (table_of d k st) = frame_words st (table_of d k st)" if "k \<in> user_tables d st" for k f
    using own that by (auto simp: dir_owned_def frame_words_def set_words_def)
  have pages: "user_pages d (?st f) = {p \<in> user_pages d st. fst p \<noteq> i}" for f using tw by (auto simp: user_pages_def tabs ent)
  have pf: "page_frame d (?st f) q = page_frame d st q" if "q \<in> user_pages d (?st f)" for q f
    using that tw by (auto simp: page_frame_def user_pages_def tabs ent)
  have refs: "dir_refs d st = dir_refs d (?st f) + add_mset ?t (mset (table_refs st ?t))" for f
    by (rule dir_refs_table [OF True tabs _ pages pf]) (auto simp: tabs ent)
  have "phys_rel (ps_frames st) (add_mset ?t (H + dir_refs d (?st (ps_frames st))) + mset (table_refs st ?t))"
    using own refs [of "ps_frames st"] by (simp add: dir_owned_def ac_simps)
  from release_list [OF this] obtain f where f: "pfor phys_release (table_refs st ?t) st = Inr ((), st\<lparr>ps_frames := f\<rparr>)"
    "phys_rel f (add_mset ?t (H + dir_refs d (?st (ps_frames st))))" by blast
  obtain g where g: "physicalFrameRelease f ?t = Inr g" "phys_rel g (H + dir_refs d (?st (ps_frames st)))"
    using phys_rel_release [OF f(2), of ?t] by auto
  have same: "dir_refs d (?st g) = dir_refs d (?st (ps_frames st))" using refs [of g] refs [of "ps_frames st"] by simp
  have te: "table_of d i (st\<lparr>ps_frames := f\<rparr>) = ?t" by (simp add: dir_entry_def frame_words_def)
  have "freeTable_plain d i st = Inr ((), ?st g)"
    using pr f(1) g(1) te by (simp add: freeTable_plain_def freeDangling_list pbind_def phys_release_def frame_words_def)
  moreover have fr: "ps_frames (?st g) = g" "\<And>q. q \<noteq> d \<Longrightarrow> ps_mem (?st g) q = ps_mem st q" by (simp_all add: set_words_def)
  have "dir_owned (?st g) d H" using own g(2) same by (auto simp: dir_owned_def tabs ent fr inj_on_def)
  moreover have "keeps_frames d st (?st g)" by (auto simp: keeps_frames_def tabs ent fr)
  ultimately show ?thesis using tabs by (intro exI [of _ "?st g"]) blast
qed

text \<open>A loop whose steps keep the rest of the machine; what a step achieves stays when the later ones keep the tables.\<close>

lemma release_loop:
  assumes step: "\<And>x st. x \<in> set xs \<Longrightarrow> dir_owned st d H \<Longrightarrow> \<exists>st'. f x st = Inr ((), st') \<and> dir_owned st' d H \<and> keeps_frames d st st' \<and> R x st'"
    and stable: "\<And>x a b. R x a \<Longrightarrow> keeps_frames d a b \<Longrightarrow> R x b" and own: "dir_owned st d H"
  shows "\<exists>st'. pfor f xs st = Inr ((), st') \<and> dir_owned st' d H \<and> keeps_frames d st st' \<and> (\<forall>x\<in>set xs. R x st')"
  using step own
proof (induction xs arbitrary: st)
  case Nil
  then show ?case by (simp add: preturn_def)
next
  case (Cons x xs)
  obtain s1 where s1: "f x st = Inr ((), s1)" "dir_owned s1 d H" "keeps_frames d st s1" "R x s1" using Cons.prems(1) [OF _ Cons.prems(2), of x] by auto
  obtain s2 where s2: "pfor f xs s1 = Inr ((), s2)" "dir_owned s2 d H" "keeps_frames d s1 s2" "\<forall>x\<in>set xs. R x s2"
    using Cons.IH [OF _ s1(2)] Cons.prems(1) by (metis list.set_intros(2))
  show ?case using s1(1) s2 keeps_frames_trans [OF s1(3) s2(3)] stable [OF s1(4) s2(3)] by (intro exI [of _ s2]) (simp add: pbind_def)
qed

definition freeArea_plain :: "paddr \<Rightarrow> vma \<Rightarrow> paging_state \<Rightarrow> (unit \<times> paging_state) exec" where
  "freeArea_plain d v = for_pages (freePage_plain d) (re_begin v) (re_end v)"

definition release_plain :: "paddr \<Rightarrow> vm_space \<Rightarrow> paging_state \<Rightarrow> (vm_space \<times> paging_state) exec" where
  "release_plain d sp = pbind (pfor (freeArea_plain d) (range_interior sp)) (\<lambda>_.
    pbind (pfor (freeTable_plain d) [0..<768]) (\<lambda>_. pbind (phys_release d) (\<lambda>_. preturn (range_clear sp))))"

lemma preturn_pbind: "pbind (preturn x) f = f x"
  by (rule ext) (simp add: pbind_def preturn_def)

lemma window_blind_fail: "window_blind (\<lambda>st. Inl e)"
  by (simp add: window_blind_def)

lemma release_transparent: "transparent 2 (release_space d sp) (release_plain d sp)"
proof -
  have "transparent 1 (release_range d (re_begin v, re_end v)) (freeArea_plain d v)" for v
    by (cases "page_loop (re_begin v) (re_end v)")
      (simp_all add: release_range_def freeArea_plain_def for_pages_def [abs_def] transparent_blind window_blind_fail
        transparent_pfor [OF freePage_transparent, simplified])
  then have "transparent 1 (vm_free d sp) (pbind (pfor (freeArea_plain d) (range_interior sp)) (\<lambda>_. preturn (range_clear sp)))"
    unfolding vm_free_def by (intro transparent_pbind transparent_pfor transparent_blind window_blind_prims)
  then have "transparent 1 (pbind (vm_free d sp) (\<lambda>sp. pbind (dir_freePageTables d) (\<lambda>_. pbind (phys_release d) (\<lambda>_. preturn sp))))
      (pbind (pbind (pfor (freeArea_plain d) (range_interior sp)) (\<lambda>_. preturn (range_clear sp))) (\<lambda>sp.
        pbind (pfor (freeTable_plain d) [0..<768]) (\<lambda>_. pbind (phys_release d) (\<lambda>_. preturn sp))))"
    by (intro transparent_pbind freeTables_transparent transparent_blind [OF window_blind_prims(3)] transparent_blind [OF window_blind_prims(4)])
  from transparent_with_mapper [OF this, of d] show ?thesis
    unfolding release_space_def release_plain_def by (simp add: numeral_2_eq_2 pbind_assoc preturn_pbind)
qed

lemma area_pages_low:
  assumes inv: "vm_inv sp" and v: "v \<in> set (range_interior sp)" and ps: "page_loop (re_begin v) (re_end v) = Some ps" "p \<in> set ps"
  shows "tableLoc p < 768"
proof -
  have ri: "range_inv vm_base vm_top sp" using inv by (simp add: vm_inv_def)
  obtain x y where sp: "sp = x # range_interior sp @ [y]"
  proof -
    have l: "2 \<le> length sp" using ri by (simp add: range_inv_def)
    then have "sp \<noteq> []" "tl sp \<noteq> []" by (auto simp: tl_Nil)
    then have "sp = hd sp # tl sp" "tl sp = butlast (tl sp) @ [last (tl sp)]" by simp_all
    then show thesis using that [of "hd sp" "last (tl sp)"] by (simp add: range_interior_def)
  qed
  have mem: "v \<in> set sp" using v by (subst sp) simp
  obtain A C where AC: "range_interior sp = A @ v # C" using split_list [OF v] by blast
  have split: "range_inv vm_base vm_top ((x # A) @ v # (C @ [y]))" using ri by (subst (asm) sp) (simp add: AC)
  have "re_begin y = vm_top" using ri by (subst (asm) sp) (simp add: range_inv_def)
  then have le: "re_end v \<le> vm_top" "re_begin v < re_end v" using range_split(2) [OF split, of y] range_split(4) [OF split] by simp_all
  have al: "page_aligned (re_begin v)" "page_aligned (re_end v)" using inv mem by (simp_all add: vm_inv_def)
  then obtain n where n: "unat (re_end v - re_begin v) = 4096 * n" using page_aligned_diff unfolding page_aligned_def by (metis mod_0_imp_dvd dvdE)
  then have "ps = map (\<lambda>k. re_begin v + of_nat k * 4096) [0..<n]" using page_loop_aligned [OF al n] ps(1) by simp
  then obtain k where k: "k < n" "p = re_begin v + of_nat k * 4096" using ps(2) by auto
  have e: "unat (re_end v) = unat (re_begin v) + 4096 * n" using n le(2) by (simp add: unat_sub word_less_nat_alt word_le_nat_alt)
  have lim: "unat (re_end v) \<le> 0xC0000000" using le(1) by (simp add: vm_top_def word_le_nat_alt)
  have "unat (of_nat k * 4096 :: u32) = k * 4096" using k(1) e lim by (simp add: unat_word_ariths unat_of_nat)
  then have "unat p = unat (re_begin v) + k * 4096" using k e lim by (simp add: unat_word_ariths)
  then have "unat p < 0xC0000000" using k(1) e lim by simp
  then show ?thesis using address_parts [of p] by linarith
qed

text \<open>A directory gives back exactly what it holds. Whatever pages of the program lie in areas, in tables only or nowhere, and
  whichever of them it shares with other programs, after the release the counters are those of the references the others have,
  no frame but the directory and its tables was written, and the mappings of the kernel are the ones from before.\<close>

lemma release_law:
  assumes own: "dir_owned st d H" and inv: "vm_inv sp" and win: "window_inv st" "2 \<le> window_free st"
  shows "\<exists>st'. release_space d sp st = Inr (range_clear sp, st') \<and> phys_rel (ps_frames st') H \<and>
    (\<forall>q. q \<noteq> d \<longrightarrow> q \<notin> (\<lambda>i. table_of d i st) ` user_tables d st \<longrightarrow> ps_mem st' q = ps_mem st q) \<and>
    same_window st st'"
proof -
  have area: "\<exists>st'. freeArea_plain d v st = Inr ((), st') \<and> dir_owned st' d H \<and> keeps_frames d st st' \<and> True"
    if v: "v \<in> set (range_interior sp)" "dir_owned st d H" for v st
  proof -
    have "v \<in> set sp" using v(1) by (metis in_set_butlastD list.set_sel(2) range_interior_def tl_Nil butlast.simps(1) list.set_cases list.distinct(1) list.sel(2))
    then obtain ps where ps: "page_loop (re_begin v) (re_end v) = Some ps" using inv page_loop_some by (metis vm_inv_def)
    then have "freeArea_plain d v st = pfor (freePage_plain d) ps st" by (simp add: freeArea_plain_def for_pages_def)
    moreover have "\<exists>st'. pfor (freePage_plain d) ps st = Inr ((), st') \<and> dir_owned st' d H \<and> keeps_frames d st st' \<and> (\<forall>x\<in>set ps. True)"
      by (rule release_loop [OF _ _ v(2)]) (use freePage_law area_pages_low [OF inv v(1) ps] in blast)+
    ultimately show ?thesis by simp
  qed
  obtain s1 where s1: "pfor (freeArea_plain d) (range_interior sp) st = Inr ((), s1)" "dir_owned s1 d H" "keeps_frames d st s1"
    using release_loop [of "range_interior sp" d H "freeArea_plain d" "\<lambda>_ _. True", OF area _ own] by blast
  have table: "\<exists>st'. freeTable_plain d i st = Inr ((), st') \<and> dir_owned st' d H \<and> keeps_frames d st st' \<and> i \<notin> user_tables d st'"
    if "i \<in> set [0..<768]" "dir_owned st d H" for i st
  proof -
    have "i < 768" using that(1) by simp
    then show ?thesis using freeTable_law [OF that(2)] by blast
  qed
  have stable: "\<And>i a b. i \<notin> user_tables d a \<Longrightarrow> keeps_frames d a b \<Longrightarrow> i \<notin> user_tables d b" by (auto simp: keeps_frames_def)
  have "\<exists>s2. pfor (freeTable_plain d) [0..<768] s1 = Inr ((), s2) \<and> dir_owned s2 d H \<and> keeps_frames d s1 s2 \<and> (\<forall>i\<in>set [0..<768]. i \<notin> user_tables d s2)"
    by (rule release_loop [OF _ _ s1(2)]) (fact table, fact stable)
  then obtain s2 where s2: "pfor (freeTable_plain d) [0..<768] s1 = Inr ((), s2)" "dir_owned s2 d H" "keeps_frames d s1 s2"
    "\<forall>i\<in>set [0..<768]. i \<notin> user_tables d s2" by blast
  have "user_tables d s2 = {}" using s2(4) by (auto simp: user_tables_def)
  then have "dir_refs d s2 = {#d#}" by (simp add: dir_refs_def user_pages_def)
  then obtain f where f: "physicalFrameRelease (ps_frames s2) d = Inr f" "phys_rel f H"
    using s2(2) phys_rel_release [of "ps_frames s2" "H + {#d#}" d] by (auto simp: dir_owned_def)
  let ?st = "s2\<lparr>ps_frames := f\<rparr>"
  have run: "release_plain d sp st = Inr (range_clear sp, ?st)" using s1(1) s2(1) f(1) by (simp add: release_plain_def pbind_def phys_release_def preturn_def)
  have blind: "window_blind (release_plain d sp)" using release_transparent [of d sp] by (simp add: transparent_def)
  have "release_space d sp st = Inr (range_clear sp, ?st)" using run release_transparent [of d sp] win by (simp add: transparent_def)
  moreover have "\<forall>q. q \<noteq> d \<longrightarrow> q \<notin> (\<lambda>i. table_of d i st) ` user_tables d st \<longrightarrow> ps_mem ?st q = ps_mem st q"
    using keeps_frames_trans [OF s1(3) s2(3)] by (simp add: keeps_frames_def)
  ultimately show ?thesis using f(2) window_blind_keeps [OF blind run] by (intro exI [of _ ?st]) (simp only: same_window_set, simp)
qed

text \<open>Words kept in all its frames, a directory means what it meant.\<close>

lemma dir_kept:
  assumes "\<forall>q. q \<in># dir_refs d st \<longrightarrow> ps_mem st' q = ps_mem st q"
  shows "user_tables d st' = user_tables d st" "i \<in> user_tables d st \<Longrightarrow> table_of d i st' = table_of d i st" "user_pages d st' = user_pages d st"
    "p \<in> user_pages d st \<Longrightarrow> page_words d st' p = page_words d st p \<and> page_entry d st' p = page_entry d st p" "dir_refs d st' = dir_refs d st"
    "keeps_pages d st st'"
proof -
  have ent: "dir_entry d k st' = dir_entry d k st" for k using assms by (simp add: dir_refs_set dir_entry_def frame_words_def)
  show tabs: "user_tables d st' = user_tables d st" and "i \<in> user_tables d st \<Longrightarrow> table_of d i st' = table_of d i st" for i
    by (simp_all add: user_tables_def ent)
  have tw: "frame_words st' (table_of d k st) = frame_words st (table_of d k st)" if "k \<in> user_tables d st" for k
    using assms that by (simp add: dir_refs_set frame_words_def)
  show pages: "user_pages d st' = user_pages d st" using tw by (auto simp: user_pages_def tabs ent)
  have pf: "page_frame d st' p = page_frame d st p" if "p \<in> user_pages d st" for p
    using that tw by (auto simp: page_frame_def ent user_pages_def)
  show w: "page_words d st' p = page_words d st p \<and> page_entry d st' p = page_entry d st p" if "p \<in> user_pages d st" for p
  proof -
    have "page_frame d st p \<in># dir_refs d st" "fst p \<in> user_tables d st" using that by (auto simp: dir_refs_set user_pages_def)
    then show ?thesis using assms tw pf [OF that] by (simp add: page_words_def page_entry_def ent)
  qed
  then show "keeps_pages d st st'" by (simp add: keeps_pages_def pages)
  have "image_mset (page_frame d st') (mset_set (user_pages d st)) = image_mset (page_frame d st) (mset_set (user_pages d st))"
    using pf by (intro image_mset_cong) simp
  then show "dir_refs d st' = dir_refs d st" by (simp add: dir_refs_def tabs pages ent)
qed

section \<open>Unmapping a part\<close>

text \<open>Freeing pages one after the other takes exactly them out of the directory and gives their references back.\<close>

definition unmaps :: "paddr \<Rightarrow> (nat \<times> nat) set \<Rightarrow> u32 multiset \<Rightarrow> paging_state \<Rightarrow> paging_state \<Rightarrow> bool" where
  "unmaps d P H st st' \<longleftrightarrow> dir_owned st' d H \<and> keeps_frames d st st' \<and> user_pages d st' = user_pages d st - P \<and>
    (\<forall>q\<in>user_pages d st'. page_entry d st' q = page_entry d st q)"

lemma unmaps_trans: "unmaps d P H a b \<Longrightarrow> unmaps d Q H b c \<Longrightarrow> unmaps d (P \<union> Q) H a c"
  by (auto simp: unmaps_def intro: keeps_frames_trans)

lemma unmap_loop:
  assumes "\<And>x st. x \<in> set xs \<Longrightarrow> dir_owned st d H \<Longrightarrow> \<exists>st'. f x st = Inr ((), st') \<and> unmaps d (P x) H st st'" "dir_owned st d H"
  shows "\<exists>st'. pfor f xs st = Inr ((), st') \<and> unmaps d (\<Union>x\<in>set xs. P x) H st st'"
  using assms
proof (induction xs arbitrary: st)
  case Nil
  then show ?case by (simp add: preturn_def unmaps_def)
next
  case (Cons x xs)
  obtain s1 where s1: "f x st = Inr ((), s1)" "unmaps d (P x) H st s1" using Cons.prems(1) [OF _ Cons.prems(2), of x] by auto
  have "dir_owned s1 d H" using s1(2) by (simp add: unmaps_def)
  from Cons.IH [OF Cons.prems(1) this] obtain s2 where s2: "pfor f xs s1 = Inr ((), s2)" "unmaps d (\<Union>x\<in>set xs. P x) H s1 s2" by auto
  then show ?case using s1(1) unmaps_trans [OF s1(2) s2(2)] by (simp add: pbind_def)
qed

definition freeRange_plain :: "paddr \<Rightarrow> vaddr \<times> vaddr \<Rightarrow> paging_state \<Rightarrow> (unit \<times> paging_state) exec" where
  "freeRange_plain d r = for_pages (freePage_plain d) (fst r) (snd r)"

lemma freeRange_law:
  assumes own: "dir_owned st d H" and al: "page_aligned b" "page_aligned e" and le: "b \<le> e" "e \<le> 0xC0000000"
  shows "\<exists>st'. freeRange_plain d (b, e) st = Inr ((), st') \<and> unmaps d (page_ij ` {p. page_aligned p \<and> b \<le> p \<and> p < e}) H st st'"
proof -
  have ln: "unat (e - b) = unat e - unat b" using le(1) by (simp add: unat_sub word_le_nat_alt)
  then have "unat b + unat (e - b) < 2 ^ 32" using le unat_lt_u32 [of e] by (simp add: word_le_nat_alt)
  then obtain ps where "page_loop b (b + (e - b)) = Some ps" "set ps = {p. page_aligned p \<and> b \<le> p \<and> p < b + (e - b)}"
    by (rule page_range_pages [OF al(1) page_aligned_diff [OF al(2,1)]])
  moreover have "b + (e - b) = e" by simp
  ultimately have ps: "page_loop b e = Some ps" "set ps = {p. page_aligned p \<and> b \<le> p \<and> p < e}" by simp_all
  have "\<exists>st'. freePage_plain d p s = Inr ((), st') \<and> unmaps d {page_ij p} H s st'" if "p \<in> set ps" "dir_owned s d H" for p s
  proof -
    have "tableLoc p < 768" using that(1) le(2) by (intro low_page) (auto simp: ps(2) word_less_nat_alt word_le_nat_alt)
    then show ?thesis using freePage_law [OF that(2)] unfolding unmaps_def by blast
  qed
  from unmap_loop [of ps d H "freePage_plain d" "\<lambda>p. {page_ij p}", OF this own] obtain st' where st': "pfor (freePage_plain d) ps st = Inr ((), st')" "unmaps d (\<Union>p\<in>set ps. {page_ij p}) H st st'" by blast
  have "(\<Union>p\<in>set ps. {page_ij p}) = page_ij ` {p. page_aligned p \<and> b \<le> p \<and> p < e}" unfolding ps(2) by blast
  with st' show ?thesis by (simp add: freeRange_plain_def for_pages_def ps(1))
qed

lemma erase_transparent:
  "transparent 1 (pfor (release_range d) rel) (pfor (freeRange_plain d) rel)"
proof -
  have "transparent 1 (release_range d r) (freeRange_plain d r)" for r
    by (cases "page_loop (fst r) (snd r)")
      (simp_all add: release_range_def freeRange_plain_def for_pages_def [abs_def] transparent_blind window_blind_fail
        transparent_pfor [OF freePage_transparent, simplified])
  then show ?thesis by (rule transparent_pfor)
qed

text \<open>C4: unmapping a range of user space, from a page boundary on and of any length up to the kernel, unmaps exactly that range. The call succeeds. The
  areas afterwards cover exactly what they covered outside the range, stay sorted, disjoint and page-aligned, and every piece keeps the protection and the name of
  the area it was cut from. The directory loses exactly the pages of areas inside the range, and its remaining pages keep their entries;
  the references of the lost pages, and no others, are given back, also for pages shared with other programs; no frame but the directory and its tables is
  written.\<close>

theorem munmap_exact:
  fixes mm :: task_mm and addr :: vaddr and len :: u32
  defines "sp \<equiv> mm_space mm" and "d \<equiv> mm_cr3 mm" and "lim \<equiv> addr + alignUp len"
  assumes inv: "vm_inv sp" and own: "dir_owned st d H" and win: "window_inv st" "2 \<le> window_free st"
    and rng: "page_aligned addr" "vm_base \<le> addr" "0 < len" "unat addr + unat len \<le> unat vm_top"
  shows "\<exists>sp' st'. munmap addr len mm st = Inr ((Inr (), mm\<lparr>mm_space := sp'\<rparr>), st') \<and> vm_inv sp' \<and>
    (\<forall>p. covered sp' p \<longleftrightarrow> covered sp p \<and> \<not> (addr \<le> p \<and> p < lim)) \<and>
    (\<forall>v'\<in>set sp'. \<exists>v\<in>set sp. vma_protect v' = vma_protect v \<and> vma_name v' = vma_name v \<and> re_begin v \<le> re_begin v' \<and> re_end v' \<le> re_end v) \<and>
    user_pages d st' = user_pages d st - page_ij ` {p. page_aligned p \<and> covered sp p \<and> addr \<le> p \<and> p < lim} \<and>
    (\<forall>q\<in>user_pages d st'. page_entry d st' q = page_entry d st q) \<and>
    phys_rel (ps_frames st') (H + dir_refs d st') \<and> dir_owned st' d H \<and>
    (\<forall>q. q \<noteq> d \<longrightarrow> q \<notin> (\<lambda>i. table_of d i st) ` user_tables d st \<longrightarrow> ps_mem st' q = ps_mem st q)"
proof -
  let ?L = "alignUp len"
  have len: "unat addr + unat len \<le> 0xC0000000" "unat len \<le> 4294963200" "0 < unat len" using rng(3,4) by (simp_all add: vm_top_def unat_gt_0)
  have ua: "unat ?L = (unat len + 4095) div 4096 * 4096" by (rule unat_alignUp [OF len(2)])
  obtain k where k: "unat addr = 4096 * k" using rng(1) by (auto simp: page_aligned_def)
  define m where "m = 786432 - k"
  have m: "k + m = 786432" "unat len \<le> 4096 * m" using len(1) k by (simp_all add: m_def)
  then have "(unat len + 4095) div 4096 \<le> (4096 * m + 4095) div 4096" by (intro div_le_mono) simp
  then have "(unat len + 4095) div 4096 \<le> m" by simp
  then have ub: "unat addr + unat ?L \<le> 0xC0000000" "0 < unat ?L" using len(3) k ua m(1) by simp_all
  then have no: "\<not> add_overflow addr ?L" "lim \<le> vm_top"
    by (simp_all add: add_overflow_def lim_def word_le_nat_alt vm_top_def unat_word_ariths)
  have pos: "0 < ?L" using ub(2) by (simp only: word_less_nat_alt unat_0)
  obtain sp' rel where E: "vm_erase_areas sp addr ?L = Inr (True, sp', rel)" "vm_inv sp'"
    "\<forall>p. covered sp' p \<longleftrightarrow> covered sp p \<and> \<not> (addr \<le> p \<and> p < lim)"
    "\<forall>v'\<in>set sp'. \<exists>v\<in>set sp. vma_protect v' = vma_protect v \<and> vma_name v' = vma_name v \<and> re_begin v \<le> re_begin v' \<and> re_end v' \<le> re_end v"
    "\<forall>(b, e)\<in>set rel. page_aligned b \<and> page_aligned e \<and> b \<le> e \<and> e \<le> vm_top"
    "\<forall>p. (\<exists>(b, e)\<in>set rel. b \<le> p \<and> p < e) \<longleftrightarrow> covered sp p \<and> addr \<le> p \<and> p < lim"
    using vm_erase_exact [OF inv rng(1) _ rng(2) no(1) pos] no(2) unfolding lim_def by (fastforce simp: case_prod_beta)
  have "\<exists>st'. freeRange_plain d r s = Inr ((), st') \<and> unmaps d (page_ij ` {p. page_aligned p \<and> fst r \<le> p \<and> p < snd r}) H s st'"
    if "r \<in> set rel" "dir_owned s d H" for r s
    using freeRange_law [OF that(2), of "fst r" "snd r"] E(5) that(1) by (auto simp: vm_top_def)
  from unmap_loop [of rel d H "freeRange_plain d" "\<lambda>r. page_ij ` {p. page_aligned p \<and> fst r \<le> p \<and> p < snd r}", OF this own]
  obtain st' where st': "pfor (freeRange_plain d) rel st = Inr ((), st')"
    "unmaps d (\<Union>r\<in>set rel. page_ij ` {p. page_aligned p \<and> fst r \<le> p \<and> p < snd r}) H st st'" by blast
  have P: "(\<Union>r\<in>set rel. page_ij ` {p. page_aligned p \<and> fst r \<le> p \<and> p < snd r}) = page_ij ` {p. page_aligned p \<and> covered sp p \<and> addr \<le> p \<and> p < lim}"
    unfolding E(6) [rule_format, symmetric] by fastforce
  have "transparent 1 (\<lambda>st. sbind (vm_erase_areas sp addr ?L) (\<lambda>(ok, sp', rel). pbind (pfor (release_range d) rel) (\<lambda>_. preturn (ok, sp')) st))
      (pbind (pfor (freeRange_plain d) rel) (\<lambda>_. preturn (True, sp')))"
    unfolding E(1) sbind_simps prod.case by (intro transparent_pbind erase_transparent transparent_blind window_blind_prims)
  then have "transparent 2 (with_mapper d (vm_erase d sp addr ?L)) (pbind (pfor (freeRange_plain d) rel) (\<lambda>_. preturn (True, sp')))"
    using transparent_with_mapper unfolding vm_erase_def [abs_def] by (metis numeral_2_eq_2 One_nat_def)
  then have "with_mapper d (vm_erase d sp addr ?L) st = Inr ((True, sp'), st')" using win st'(1) by (simp add: transparent_def pbind_def preturn_def)
  then have "munmap addr len mm st = Inr ((Inr (), mm\<lparr>mm_space := sp'\<rparr>), st')"
    using rng(1) by (simp add: munmap_def page_aligned_eq sp_def d_def pbind_def preturn_def)
  moreover have "phys_rel (ps_frames st') (H + dir_refs d st')" "dir_owned st' d H" using st'(2) by (simp_all add: unmaps_def dir_owned_def)
  ultimately show ?thesis using E(2-4) st'(2) unfolding unmaps_def P keeps_frames_def by blast
qed

lemma shared_refs: "dir_refs 0x800000 shared_state = {#0x802000, 0x801000, 0x800000#}" "dir_owned shared_state 0x800000 {#0x802000#}"
proof -
  have e: "dir_entry 0x800000 (Suc 0) shared_state = 0x801007" "Nyan_Paging.frame_words shared_state 0x801000 0 = 0x802205"
    by (simp_all add: dir_entry_def Nyan_Paging.frame_words_def shared_state_def)
  have a: "entry_at (0x801007 :: u32) = 0x801000" "entry_at (0x802205 :: u32) = 0x802000" by (simp_all add: entry_at_def)
  show r: "dir_refs 0x800000 shared_state = {#0x802000, 0x801000, 0x800000#}" by (simp add: dir_refs_def shared_user page_frame_def e a)
  show "dir_owned shared_state 0x800000 {#0x802000#}" using shared_user(3) by (simp add: dir_owned_def r shared_user(1) user_ok_def e a add_mset_commute)
qed

theorem munmap_exact_witness:
  "\<exists>sp' st'. munmap 0x400000 0x800 small_mm shared_state = Inr ((Inr (), small_mm\<lparr>mm_space := sp'\<rparr>), st') \<and> \<not> covered sp' 0x400000 \<and>
    user_pages 0x800000 st' = {} \<and> dir_owned st' 0x800000 {#0x802000#}"
proof -
  have l: "(0x400000 :: u32) + alignUp 0x800 = 0x401000" by (simp add: alignUp_def)
  have "page_ij 0x400000 = (1, 0)" by (simp add: page_ij_def tableLoc_def tablePageLoc_def)
  moreover have "page_aligned 0x400000 \<and> covered (mm_space small_mm) 0x400000 \<and> 0x400000 \<le> (0x400000 :: u32) \<and> (0x400000 :: u32) < 0x401000"
    by (simp add: page_aligned_def covered_def small_mm_def VMA_def VMA_range_def re_contains_def)
  ultimately have "(1, 0) \<in> page_ij ` {p. page_aligned p \<and> covered (mm_space small_mm) p \<and> 0x400000 \<le> p \<and> p < 0x401000}" by (metis (mono_tags, lifting) imageI mem_Collect_eq)
  then have gone: "{(1, 0)} - page_ij ` {p. page_aligned p \<and> covered (mm_space small_mm) p \<and> 0x400000 \<le> p \<and> p < 0x401000} = {}" by simp
  have pre: "page_aligned 0x400000" "vm_base \<le> 0x400000" "0 < (0x800 :: u32)" "unat (0x400000 :: u32) + unat (0x800 :: u32) \<le> unat vm_top"
    by (simp_all add: page_aligned_def vm_base_def vm_top_def)
  have win: "2 \<le> window_free shared_state" using shared_window(2) by simp
  have own: "dir_owned shared_state (mm_cr3 small_mm) {#0x802000#}" using shared_refs(2) by (simp add: small_mm_facts(3))
  obtain sp' st' where r: "munmap 0x400000 0x800 small_mm shared_state = Inr ((Inr (), small_mm\<lparr>mm_space := sp'\<rparr>), st')"
    "\<forall>p. covered sp' p \<longleftrightarrow> covered (mm_space small_mm) p \<and> \<not> (0x400000 \<le> p \<and> p < 0x401000)"
    "user_pages 0x800000 st' = {(1, 0)} - page_ij ` {p. page_aligned p \<and> covered (mm_space small_mm) p \<and> 0x400000 \<le> p \<and> p < 0x401000}"
    "dir_owned st' 0x800000 {#0x802000#}"
    using munmap_exact [OF small_mm_facts(1) own shared_window(1) win pre] unfolding small_mm_facts(3) l shared_user(2) by blast
  have "\<not> covered sp' 0x400000" using r(2) by (auto dest: spec [of _ "0x400000"])
  with r(1,3,4) gone show ?thesis by (intro exI conjI) simp_all
qed

end
