(* ===== verification/Nyan_Exec.thy ===== *)
theory Nyan_Exec
  imports Nyan_Release Nyan_Trap Nyan_Stack Nyan_Fd
begin

unbundle bit_operations_syntax

text \<open>
  Starting programs: \<^verbatim>\<open>Scheduler::execTask\<close> (kernel/task/scheduler.task.cpp), the first entry of a task made for a program
  (\<^verbatim>\<open>createElfTask\<close> and \<^verbatim>\<open>execEntry\<close> in kernel/task/task.cpp) and the calls \<^verbatim>\<open>execve\<close> and \<^verbatim>\<open>spawn\<close>. \<open>execs\<close> adds to the kernel of
  \<open>Nyan_Trap\<close> the descriptors, the thread-local segments, the directory the processor uses and what a control block records of
  its program. The first stack is written through the mapper of its page: \<open>stack_write\<close> runs \<^verbatim>\<open>loadArgv\<close> on the bytes of
  that page as the kernel sees them. Mappers are closed at the end of the function, in the opposite order.
\<close>

section \<open>The new address space\<close>

definition stack_top :: vaddr where "stack_top = 0xC0000000"

definition page_memory :: "vaddr \<Rightarrow> words \<Rightarrow> memory" where
  "page_memory v ws = (\<lambda>a. frame_byte ws (unat (a - v)))"

definition stack_write :: "mapper_guard \<Rightarrow> u8 list list \<Rightarrow> u8 list list \<Rightarrow> paging_state \<Rightarrow> (vaddr \<times> paging_state) exec" where
  "stack_write m argv env st = (let ws = Nyan_Paging.frame_words st (mg_paddr m) in
    sbind (loadArgv argv env (user_stack (mg_vaddr m) stack_top (page_memory (mg_vaddr m) ws))) (\<lambda>s.
    sbind (userEsp s) (\<lambda>esp. Inr (esp, set_words (mg_paddr m) (put_frame 0 (bytes_at (mg_vaddr m) 4096 (sk_mem s)) ws) st))))"

definition stack_area :: vma where
  "stack_area = VMA 0xBFFFF000 0xC0000000 (MAP_PRIVATE OR MAP_ANONYMOUS OR MAP_GROWSDOWN) (PROT_READ OR PROT_WRITE) ''stack''"

definition leave_space :: "paddr \<Rightarrow> task_mm \<Rightarrow> paging_state \<Rightarrow> (unit \<times> paging_state) exec" where
  "leave_space kernel_cr3 mm = (if mm_cr3 mm \<noteq> kernel_cr3
    then pbind (release_space (mm_cr3 mm) (mm_space mm)) (\<lambda>_. preturn ()) else preturn ())"

definition exec_memory :: "u8 list \<Rightarrow> u8 list list \<Rightarrow> u8 list list \<Rightarrow> paddr \<Rightarrow> task_mm \<Rightarrow> paging_state \<Rightarrow>
    ((task_mm \<times> vaddr \<times> vaddr) \<times> paging_state) exec" where
  "exec_memory file argv env kernel_cr3 mm = pbind (loadElf VMSpace file) (\<lambda>(r, sp) st.
    let d = mg_paddr (lr_pageDir r) in
    sbind (range_insert sp stack_area) (\<lambda>(_, sp).
    pbind (dir_alloc d (prevPage stack_top) True) (\<lambda>m.
    pbind (stack_write m argv env) (\<lambda>esp.
    pbind (leave_space kernel_cr3 mm) (\<lambda>_.
    pbind (mapper_close m) (\<lambda>_.
    pbind (mapper_close (lr_pageDir r)) (\<lambda>_.
    preturn (\<lparr>mm_space = sp, mm_cr3 = d, mm_brkBase = lr_brkAddr r, mm_brkAddr = lr_brkAddr r, mm_stack_low = stack_top - 0x800000\<rparr>,
      lr_entry r, esp)))))) st))"

section \<open>Starting a program\<close>

record execs =
  x_kernel :: kernel
  x_fds :: fds
  x_tls :: tls_state
  x_cr3 :: paddr
  x_userEsp :: "tid \<Rightarrow> vaddr"
  x_name :: "tid \<Rightarrow> u8 list"
  x_argv :: "tid \<Rightarrow> u8 list list"
  x_env :: "tid \<Rightarrow> u8 list list"
  x_entry :: "tid \<Rightarrow> (u8 list \<times> u8 list list \<times> u8 list list) option"

text \<open>What a program reads at an address of its own, byte by byte and as the words signals are delivered in.\<close>

definition user_view :: "paddr \<Rightarrow> paging_state \<Rightarrow> memory" where
  "user_view d st v = frame_byte (page_words d st (page_ij v)) (unat (pageOffset v))"

definition exec_frame :: "vaddr \<Rightarrow> vaddr \<Rightarrow> sysframe \<Rightarrow> sysframe" where
  "exec_frame entry esp frame = frame\<lparr>f_eip := entry, f_user_esp := esp, f_eax := 0, f_ebx := 0, f_ecx := 0, f_edx := 0,
    f_esi := 0, f_edi := 0, f_ebp := 0, f_cs := userCs, f_user_ss := userDs, f_ds := ucast userDs, f_es := ucast userDs,
    f_fs := ucast userDs, f_gs := ucast userDs\<rparr>"

definition unknown_name :: "u8 list" where
  "unknown_name = [0x75, 0x6E, 0x6B, 0x6E, 0x6F, 0x77, 0x6E]"

definition execTask :: "u8 list \<Rightarrow> u8 list list \<Rightarrow> u8 list list \<Rightarrow> sysframe \<Rightarrow> execs \<Rightarrow> (sysframe \<times> execs) exec" where
  "execTask file argv env frame x = (let k = x_kernel x; t = k_task k in
    sbind (exec_memory file argv env (k_kernel_cr3 k) (k_mm k t) (k_paging k)) (\<lambda>((mm, entry, esp), st).
    sbind (file_prepareForExec (t_pid (sc_tcb (k_sched k) t)) (x_fds x)) (\<lambda>fds.
      let k = with_sched (upd_tcb t (\<lambda>c. c\<lparr>t_signal := signal_prepareForExec (t_signal c)\<rparr>) (k_sched k)) k;
          k = k\<lparr>k_paging := st, k_mm := (k_mm k)(t := mm), k_user := (\<lambda>a. word_at a (user_view (mm_cr3 mm) st))\<rparr>
      in Inr (exec_frame entry esp frame, x\<lparr>x_kernel := k, x_fds := fds, x_tls := tls_exec (x_tls x), x_cr3 := mm_cr3 mm,
        x_userEsp := (x_userEsp x)(t := esp), x_name := (x_name x)(t := (case argv of [] \<Rightarrow> unknown_name | a # _ \<Rightarrow> a)),
        x_argv := (x_argv x)(t := argv), x_env := (x_env x)(t := env)\<rparr>))))"

definition zero_frame :: sysframe where
  "zero_frame = words_frame (replicate 18 0)"

text \<open>The parameter of the first function of a task is what \<^verbatim>\<open>createElfTask\<close> left for it.\<close>

definition execEntry :: "execs \<Rightarrow> (sysframe \<times> execs) exec" where
  "execEntry x = (let t = k_task (x_kernel x) in case x_entry x t of
      None \<Rightarrow> Inl NullDeref
    | Some (file, argv, env) \<Rightarrow> sbind (execTask file argv env zero_frame x) (\<lambda>(f, x). Inr (f, x\<lparr>x_entry := (x_entry x)(t := None)\<rparr>)))"

definition kernel_mm :: "paddr \<Rightarrow> task_mm" where
  "kernel_mm c = \<lparr>mm_space = VMSpace, mm_cr3 = c, mm_brkBase = 0x400000, mm_brkAddr = 0x400000, mm_stack_low = 0xC0000000 - 0x800000\<rparr>"

definition createElfTask :: "tid \<Rightarrow> u8 list \<Rightarrow> u8 list list \<Rightarrow> u8 list list \<Rightarrow> execs \<Rightarrow> execs exec" where
  "createElfTask task file argv env x = (let k = x_kernel x in
    sbind (create_tcb task TaskSignalInfo (k_sched k)) (\<lambda>sc.
      Inr (x\<lparr>x_kernel := (with_sched sc k)\<lparr>k_mm := (k_mm k)(task := kernel_mm (k_kernel_cr3 k))\<rparr>, x_name := (x_name x)(task := []),
        x_argv := (x_argv x)(task := []), x_env := (x_env x)(task := []), x_entry := (x_entry x)(task := Some (file, argv, env))\<rparr>)))"

text \<open>\<open>programs\<close> are the images built into the kernel and \<open>task\<close> is the control block taken for the new task. Its descriptors
  are copied before it has its number; the copy is kept under that number here.\<close>

definition spawn :: "(string \<times> u8 list) list \<Rightarrow> tid \<Rightarrow> string \<Rightarrow> u8 list list \<Rightarrow> u8 list list \<Rightarrow> execs \<Rightarrow> (int result \<times> execs) exec" where
  "spawn programs task name argv envp x = (case map_of programs name of
      None \<Rightarrow> Inr (Inl SYS_ENOENT, x)
    | Some prog \<Rightarrow> sbind (createElfTask task prog argv envp x) (\<lambda>x.
        let k = x_kernel x; parent = t_pid (sc_tcb (k_sched k) (k_task k)); (pid, sc) = addTask task (k_sched k) in
        sbind (fork_files parent pid (x_fds x)) (\<lambda>fds. Inr (Inr pid, x\<lparr>x_kernel := with_sched sc k, x_fds := fds\<rparr>))))"

definition S_IFREG :: u32 where "S_IFREG = 0x8000"

definition exec_image :: "fs_env \<Rightarrow> u32 \<Rightarrow> string \<Rightarrow> (u8 list, vfs) sys" where
  "exec_image env ref_count filename = sys_bind (resolve env (Path filename) True None 0) (\<lambda>dentry.
    sys_bind (dentry_vnode dentry) (\<lambda>v. sys_bind (vnode_stat ref_count v) (\<lambda>info.
    if st_mode info AND S_IFREG = 0 then sys_fail SYS_EACCES
    else sys_bind (vnode_read v (nat (st_size info)) 0) (\<lambda>out. case out of
        Here bytes \<Rightarrow> sys_return bytes
      | ToDevice _ \<Rightarrow> sys_fault OutOfBounds))))"

text \<open>The strings are what the checks of the pointers give.\<close>

definition sys_execve :: "fs_env \<Rightarrow> u32 \<Rightarrow> string result \<Rightarrow> u8 list list result \<Rightarrow> u8 list list result \<Rightarrow> sysframe \<Rightarrow> execs \<Rightarrow>
    ((u32 \<times> sysframe) \<times> execs) exec" where
  "sys_execve env ref_count name argvp envpp frame x = sbind (sys_bind (sys_of name) (\<lambda>filename.
      sys_bind (sys_of argvp) (\<lambda>argv. sys_bind (sys_of envpp) (\<lambda>envp.
      sys_bind (lift_fs (exec_image env ref_count filename)) (\<lambda>file. sys_return (file, argv, envp))))) (x_fds x)) (\<lambda>(r, fds).
    let x = x\<lparr>x_fds := fds\<rparr> in case r of
      Inl e \<Rightarrow> Inr ((errno_word e, frame), x)
    | Inr (file, argv, envp) \<Rightarrow> sbind (execTask file argv envp frame x) (\<lambda>(f, x). Inr ((0, f), x)))"

text \<open>The page signal handlers return through, \<^verbatim>\<open>loadTrampoline\<close> in kernel/task/load.cpp; \<open>code\<close> is what lies between its two labels.\<close>

definition loadTrampoline :: "u8 list \<Rightarrow> paging_state \<Rightarrow> (unit \<times> paging_state) exec" where
  "loadTrampoline code st = (let table = entry_at (ps_kdir st 1023) in
    pbind phys_alloc (\<lambda>p. pbind (kernel_map 0xFFFFF000 p (PTE_Present OR PTE_ReadWrite OR PTE_User)) (\<lambda>_ st.
      Inr ((), set_words p (put_frame 0 code table_clear) st)))
    (st\<lparr>ps_kdir := (ps_kdir st)(1023 := table OR (PDE_Present OR PDE_ReadWrite OR PDE_User))\<rparr>))"

section \<open>Brackets whose body uses the address\<close>

lemma mapper_addr:
  assumes "window_inv st" "mapper_open p st = Inr (m, st')"
  shows "mg_paddr m = p" "page_aligned (mg_vaddr m)" "unat (mg_vaddr m) \<le> 0xFFFFE000"
proof -
  obtain f v where v: "virtualFrameAlloc (ps_vframes st) = Inr (f, v)" "mg_paddr m = p \<and> mg_vaddr m = v"
    using assms(2) by (auto simp: mapper_open_def sbind_def pbind_def preturn_def split: sum.splits prod.splits)
  then show "mg_paddr m = p" by simp
  obtain vf r where r: "frame_alloc (ps_vframes st) = Inr (vf, r)" "v = frameAt r"
    using v(1) by (auto simp: virtualFrameAlloc_def sbind_def split: sum.splits prod.splits)
  have "unat r < 63488" by (rule mapper_open_law(1) [OF assms(1) r(1)])
  from frameAt_locs(1) [OF this] this show "page_aligned (mg_vaddr m)" "unat (mg_vaddr m) \<le> 0xFFFFE000"
    using v(2) r(2) by (simp_all add: page_aligned_def)
qed

definition good_guard :: "paddr \<Rightarrow> mapper_guard \<Rightarrow> bool" where
  "good_guard p m \<longleftrightarrow> mg_paddr m = p \<and> page_aligned (mg_vaddr m) \<and> unat (mg_vaddr m) \<le> 0xFFFFE000"

definition with_guard :: "paddr \<Rightarrow> (mapper_guard \<Rightarrow> paging_state \<Rightarrow> ('a \<times> paging_state) exec) \<Rightarrow> paging_state \<Rightarrow> ('a \<times> paging_state) exec" where
  "with_guard p b = pbind (mapper_open p) (\<lambda>m. pbind (b m) (\<lambda>r. pbind (mapper_close m) (\<lambda>_. preturn r)))"

lemma transparent_guard:
  assumes t: "\<And>m. good_guard p m \<Longrightarrow> transparent n (b m) b'"
  shows "transparent (Suc n) (with_guard p b) b'"
proof -
  have "good_guard p \<lparr>mg_paddr = p, mg_vaddr = 0\<rparr>" by (simp add: good_guard_def page_aligned_def)
  from t [OF this] have blind: "window_blind b'" by (simp add: transparent_def)
  have "with_guard p b st = b' st" if w: "window_inv st" "Suc n \<le> window_free st" for st
  proof -
    have "0 < window_free st" using w(2) by simp
    then obtain m s where m: "mapper_open p st = Inr (m, s)" using mapper_bracket [OF w(1), of p] by metis
    have g: "good_guard p m" using mapper_addr [OF w(1) m] by (simp add: good_guard_def)
    have "with_guard p b st = with_mapper p (b m) st" using m by (simp add: with_guard_def with_mapper_def pbind_def)
    also have "\<dots> = b' st" using transparent_with_mapper [OF t [OF g], of p] w by (simp add: transparent_def)
    finally show ?thesis .
  qed
  then show ?thesis using blind by (simp add: transparent_def)
qed

section \<open>The first stack\<close>

abbreviation first_page :: vaddr where "first_page \<equiv> 0xBFFFF000"

abbreviation first_image :: "u8 list list \<Rightarrow> u8 list list \<Rightarrow> u8 list" where
  "first_image argv env \<equiv> stack_image first_page argv env"

definition first_esp :: "u8 list list \<Rightarrow> u8 list list \<Rightarrow> vaddr" where
  "first_esp argv env = first_page + of_nat (4096 - length (first_image argv env))"

definition first_fill :: "u8 list list \<Rightarrow> u8 list list \<Rightarrow> words \<Rightarrow> words" where
  "first_fill argv env = put_frame (4096 - length (first_image argv env)) (first_image argv env)"

lemma put_frame_cong:
  assumes "\<And>k. (if a \<le> k \<and> k < a + length xs then xs ! (k - a) else frame_byte ws k) = (if b \<le> k \<and> k < b + length ys then ys ! (k - b) else frame_byte ws k)"
  shows "put_frame a xs ws = put_frame b ys ws"
  unfolding put_frame_def Let_def using assms by (simp cong: if_cong)

lemma stack_write_exact:
  assumes fit: "arguments_fit argv env" and m: "good_guard p m"
  shows "stack_write m argv env st = Inr (first_esp argv env, set_words p (first_fill argv env (Nyan_Paging.frame_words st p)) st)"
proof -
  let ?v = "mg_vaddr m" and ?L = "first_image argv env" and ?ws = "Nyan_Paging.frame_words st p"
  have v: "page_aligned ?v" "unat ?v \<le> 0xFFFFE000" "mg_paddr m = p" using m by (simp_all add: good_guard_def)
  have T: "page_aligned stack_top" "stack_top - 4096 = first_page" by (simp_all add: stack_top_def page_aligned_def)
  obtain s where s: "loadArgv argv env (user_stack ?v stack_top (page_memory ?v ?ws)) = Inr s" "stack_rep ?L s"
    "same_stack (user_stack ?v stack_top (page_memory ?v ?ws)) s" "userEsp s = Inr (first_esp argv env)"
    using loadArgv_image [OF v(1,2) T(1) fit, of "page_memory ?v ?ws"] unfolding T(2) first_esp_def by blast
  have l: "length ?L \<le> 4096" by (rule stack_image_length(2) [OF fit])
  have "sk_page s = ?v" using s(3) by (simp add: same_stack_def user_stack_def)
  moreover have "sk_current s = sk_page s + of_nat (4096 - length ?L)" using s(2) unfolding stack_rep_def by blast
  ultimately have pg: "sk_current s = ?v + of_nat (4096 - length ?L)" by simp
  have va: "unat (?v + of_nat k) = unat ?v + k" if "k \<le> 4096" for k using v(2) that by (simp add: unat_word_ariths unat_of_nat)
  have low: "sk_mem s (?v + of_nat k) = frame_byte ?ws k" if "k < 4096 - length ?L" for k
  proof -
    have "?v + of_nat k < sk_current s" using va [of k] va [of "4096 - length ?L"] that by (simp add: word_less_nat_alt pg)
    then have "sk_mem s (?v + of_nat k) = page_memory ?v ?ws (?v + of_nat k)" using s(3) by (simp add: same_stack_def user_stack_def)
    then show ?thesis using that by (simp add: page_memory_def unat_of_nat)
  qed
  have high: "sk_mem s (?v + of_nat k) = ?L ! (k - (4096 - length ?L))" if "4096 - length ?L \<le> k" "k < 4096" for k
  proof -
    define i where "i = k - (4096 - length ?L)"
    have i: "i < length ?L" "(4096 - length ?L) + i = k" using that l by (auto simp: i_def)
    then have "?v + of_nat (4096 - length ?L) + of_nat i = ?v + of_nat k" unfolding add.assoc of_nat_add [symmetric] by simp
    moreover have "bytes_at (sk_current s) (length ?L) (sk_mem s) ! i = sk_mem s (sk_current s + of_nat i)" using i(1) by (simp add: bytes_at_def)
    ultimately show ?thesis using rep_bytes [OF s(2)] unfolding pg i_def [symmetric] by metis
  qed
  have "put_frame 0 (bytes_at ?v 4096 (sk_mem s)) ?ws = first_fill argv env ?ws"
    unfolding first_fill_def by (rule put_frame_cong) (use low high l in \<open>auto simp: bytes_at_def\<close>)
  then show ?thesis using s(1,4) v(3) by (simp add: stack_write_def)
qed

section \<open>Stack, then release\<close>

definition leave_plain :: "paddr \<Rightarrow> task_mm \<Rightarrow> paging_state \<Rightarrow> (unit \<times> paging_state) exec" where
  "leave_plain kernel_cr3 mm = (if mm_cr3 mm \<noteq> kernel_cr3
    then pbind (release_plain (mm_cr3 mm) (mm_space mm)) (\<lambda>_. preturn ()) else preturn ())"

lemma leave_transparent: "transparent 2 (leave_space c mm) (leave_plain c mm)"
  unfolding leave_space_def leave_plain_def
  by (simp add: transparent_pbind release_transparent transparent_blind window_blind_prims)

definition exec_tail :: "paddr \<Rightarrow> u8 list list \<Rightarrow> u8 list list \<Rightarrow> paddr \<Rightarrow> task_mm \<Rightarrow> paging_state \<Rightarrow> (vaddr \<times> paging_state) exec" where
  "exec_tail d argv env c mm = pbind (dir_alloc d first_page True) (\<lambda>m. pbind (stack_write m argv env) (\<lambda>esp.
    pbind (leave_space c mm) (\<lambda>_. pbind (mapper_close m) (\<lambda>_. preturn esp))))"

lemma fill_plain_steps:
  "fill_plain d addr w fill = pbind (ensure_plain d (tableLoc addr) (PDE_Present OR PDE_ReadWrite OR PDE_User)) (\<lambda>_.
    pbind (\<lambda>st. table_alloc (table_of d (tableLoc addr) st) addr (page_attr w) st) (\<lambda>p st. Inr ((), set_words p (fill table_clear) st)))"
  by (rule ext) (simp add: fill_plain_def page_plain_def pbind_def)

lemma exec_body:
  assumes fit: "arguments_fit argv env" and m: "good_guard p m"
  shows "transparent 2 (pbind (\<lambda>st. Inr ((), set_words p table_clear st)) (\<lambda>_. pbind (stack_write m argv env) (\<lambda>esp. pbind (leave_space c mm) (\<lambda>_. preturn esp))))
    (pbind (\<lambda>st. Inr ((), set_words p (first_fill argv env table_clear) st)) (\<lambda>_. pbind (leave_plain c mm) (\<lambda>_. preturn (first_esp argv env))))"
proof -
  let ?set = "\<lambda>st. Inr ((), set_words p (first_fill argv env table_clear) st)"
  have "pbind (\<lambda>st. Inr ((), set_words p table_clear st)) (\<lambda>_. stack_write m argv env) = pbind ?set (\<lambda>_. preturn (first_esp argv env))"
    by (rule ext) (simp add: pbind_def stack_write_exact [OF fit m] preturn_def set_words_def Nyan_Paging.frame_words_def)
  then have "pbind (\<lambda>st. Inr ((), set_words p table_clear st)) (\<lambda>_. pbind (stack_write m argv env) (\<lambda>esp. pbind (leave_space c mm) (\<lambda>_. preturn esp))) =
    pbind ?set (\<lambda>_. pbind (leave_space c mm) (\<lambda>_. preturn (first_esp argv env)))"
    by (simp add: pbind_assoc [symmetric]) (simp add: pbind_assoc preturn_pbind)
  moreover have "window_blind ?set" by (rule window_blind_set) simp
  ultimately show ?thesis by (simp add: transparent_pbind transparent_blind leave_transparent window_blind_prims)
qed

lemma exec_tail_steps:
  assumes fit: "arguments_fit argv env" and win: "window_inv st" "3 \<le> window_free st"
  shows "exec_tail d argv env c mm st = pbind (fill_page d first_page True (first_fill argv env)) (\<lambda>_.
    pbind (leave_space c mm) (\<lambda>_. preturn (first_esp argv env))) st"
proof -
  let ?pde = "PDE_Present OR PDE_ReadWrite OR PDE_User" and ?loc = "tableLoc first_page" and ?attr = "page_attr True"
  let ?set = "\<lambda>p st. Inr ((), set_words p (first_fill argv env table_clear) st)"
  let ?rest = "\<lambda>L. pbind L (\<lambda>_. preturn (first_esp argv env))"
  let ?plain = "pbind (fill_plain d first_page True (first_fill argv env)) (\<lambda>_. ?rest (leave_plain c mm))"
  have plain: "?plain = pbind (ensure_plain d ?loc ?pde) (\<lambda>_. pbind (\<lambda>st. table_alloc (table_of d ?loc st) first_page ?attr st) (\<lambda>p.
      pbind (?set p) (\<lambda>_. ?rest (leave_plain c mm))))"
    unfolding fill_plain_steps pbind_assoc ..
  let ?b = "\<lambda>p m. pbind (\<lambda>st. Inr ((), set_words p table_clear st)) (\<lambda>_. pbind (stack_write m argv env) (\<lambda>esp. pbind (leave_space c mm) (\<lambda>_. preturn esp)))"
  have inner: "pbind (pbind (mapper_open p) (\<lambda>m st. Inr (m, set_words p table_clear st))) (\<lambda>m. pbind (stack_write m argv env) (\<lambda>esp.
      pbind (leave_space c mm) (\<lambda>_. pbind (mapper_close m) (\<lambda>_. preturn esp)))) = with_guard p (?b p)" for p
    unfolding with_guard_def by (rule ext) (auto simp: pbind_def sbind_def preturn_def split: sum.splits prod.splits)
  have tail: "exec_tail d argv env c mm = pbind (dir_ensure d ?loc ?pde) (\<lambda>_. pbind (dir_with d ?loc (\<lambda>t. table_alloc t first_page ?attr)) (\<lambda>p.
      with_guard p (?b p)))"
    unfolding exec_tail_def dir_alloc_def pbind_assoc [of "dir_ensure d ?loc ?pde"] pbind_assoc [of "dir_with d ?loc _"] inner page_attr_def [symmetric] ..
  have dw: "transparent 3 (dir_with d ?loc (\<lambda>t. table_alloc t first_page ?attr)) (\<lambda>st. table_alloc (table_of d ?loc st) first_page ?attr st)"
    by (rule transparent_mono [OF dir_with_transparent [OF transparent_blind [OF table_alloc_blind]], of 0]) simp
  have "transparent 3 (with_guard p (?b p)) (pbind (?set p) (\<lambda>_. ?rest (leave_plain c mm)))" for p
    using transparent_guard [OF exec_body [OF fit]] by (simp add: numeral_3_eq_3 numeral_2_eq_2)
  then have "transparent 3 (exec_tail d argv env c mm) ?plain"
    unfolding tail plain by (intro transparent_pbind transparent_mono [OF ensure_transparent] dw) simp_all
  moreover have "transparent 3 (pbind (fill_page d first_page True (first_fill argv env)) (\<lambda>_. ?rest (leave_space c mm))) ?plain"
    by (intro transparent_pbind transparent_mono [OF fill_transparent] transparent_mono [OF leave_transparent] transparent_blind window_blind_prims) simp_all
  ultimately show ?thesis using win by (simp add: transparent_def)
qed

section \<open>What an address space holds\<close>

definition task_holds :: "paddr \<Rightarrow> task_mm \<Rightarrow> paging_state \<Rightarrow> u32 multiset" where
  "task_holds c mm st = (if mm_cr3 mm \<noteq> c then dir_refs (mm_cr3 mm) st else {#})"

text \<open>The frames only the old program uses to find its pages.\<close>

definition task_tables :: "paddr \<Rightarrow> task_mm \<Rightarrow> paging_state \<Rightarrow> paddr set" where
  "task_tables c mm st = (if mm_cr3 mm \<noteq> c then insert (mm_cr3 mm) ((\<lambda>i. table_of (mm_cr3 mm) i st) ` user_tables (mm_cr3 mm) st) else {})"

definition space_ok :: "paddr \<Rightarrow> task_mm \<Rightarrow> paging_state \<Rightarrow> u32 multiset \<Rightarrow> bool" where
  "space_ok c mm st H \<longleftrightarrow> phys_rel (ps_frames st) (H + task_holds c mm st) \<and>
    (mm_cr3 mm \<noteq> c \<longrightarrow> dir_owned st (mm_cr3 mm) H \<and> vm_inv (mm_space mm))"

lemma task_tables_held: "q \<in> task_tables c mm st \<Longrightarrow> q \<in># task_holds c mm st"
  by (auto simp: task_tables_def task_holds_def dir_refs_set split: if_splits)

lemma leave_law:
  assumes ok: "space_ok c mm st H" and win: "window_inv st" "2 \<le> window_free st"
  shows "\<exists>st'. leave_space c mm st = Inr ((), st') \<and> phys_rel (ps_frames st') H \<and> (\<forall>q. q \<notin> task_tables c mm st \<longrightarrow> ps_mem st' q = ps_mem st q) \<and>
    same_window st st'"
proof (cases "mm_cr3 mm = c")
  case True
  then show ?thesis using ok by (intro exI [of _ st]) (simp add: leave_space_def preturn_def space_ok_def task_holds_def same_window_def)
next
  case False
  then have o: "dir_owned st (mm_cr3 mm) H" "vm_inv (mm_space mm)" using ok by (simp_all add: space_ok_def)
  from release_law [OF o win] False show ?thesis by (auto simp: leave_space_def pbind_def preturn_def task_tables_def)
qed

text \<open>Frames that others hold keep their words, so the old program stays what it was while the new one is built.\<close>

lemma space_ok_kept:
  assumes ok: "space_ok c mm st H" and mem: "\<forall>q. q \<in># task_holds c mm st \<longrightarrow> ps_mem st' q = ps_mem st q"
    and rel: "phys_rel (ps_frames st') (K + task_holds c mm st)"
  shows "space_ok c mm st' K" "task_holds c mm st' = task_holds c mm st" "task_tables c mm st' = task_tables c mm st"
proof -
  have k: "mm_cr3 mm \<noteq> c \<Longrightarrow> \<forall>q. q \<in># dir_refs (mm_cr3 mm) st \<longrightarrow> ps_mem st' q = ps_mem st q" using mem by (simp add: task_holds_def)
  show h: "task_holds c mm st' = task_holds c mm st" using dir_kept(5) [OF k] by (simp add: task_holds_def)
  show "task_tables c mm st' = task_tables c mm st" using dir_kept(1,2) [OF k] by (auto simp: task_tables_def)
  have "dir_owned st' (mm_cr3 mm) K" if c: "mm_cr3 mm \<noteq> c"
  proof -
    note D = dir_kept [OF k [OF c]]
    have "dir_owned st (mm_cr3 mm) H" using ok c by (simp add: space_ok_def)
    moreover have "inj_on (\<lambda>i. table_of (mm_cr3 mm) i st') (user_tables (mm_cr3 mm) st') = inj_on (\<lambda>i. table_of (mm_cr3 mm) i st) (user_tables (mm_cr3 mm) st)"
      unfolding D(1) by (rule inj_on_cong) (rule D(2))
    ultimately show ?thesis using rel c D(1,2,5) by (simp add: dir_owned_def task_holds_def)
  qed
  then show "space_ok c mm st' K" using ok rel h by (simp add: space_ok_def)
qed

lemma page_alone:
  assumes "loads_ok file phs sp" "\<forall>ph\<in>set (loads phs). snd (segment_pages ph) \<le> first_page"
  shows "page_ij first_page \<notin> page_ij ` set (load_pages phs)"
proof
  assume "page_ij first_page \<in> page_ij ` set (load_pages phs)"
  then obtain ph v where v: "ph \<in> set (loads phs)" "v \<in> set (segment_page_list ph)" "page_ij first_page = page_ij v" by auto
  have f: "segment_fits file ph" "ph_memsz ph \<noteq> 0" using assms(1) v(1) by (auto simp: loads_ok_def)
  have w: "page_aligned v" "v < snd (segment_pages ph)" using segment_loop(2) [OF f] v(2) by auto
  have "first_page = v" by (rule page_ij_inj [OF _ w(1) v(3)]) (simp add: page_aligned_def)
  then show False using w(2) assms(2) v(1) by (metis not_less)
qed

section \<open>The new program in memory\<close>

lemma user_ok_owned: "user_ok st d (H + dir_refs d st) \<Longrightarrow> dir_owned st d H"
  by (simp add: user_ok_def dir_owned_def)

lemma stack_area_fits:
  assumes ok: "loads_ok file phs VMSpace" and top: "\<forall>ph\<in>set (loads phs). snd (segment_pages ph) \<le> first_page"
    and sp: "range_inv vm_base vm_top sp" "set sp = set VMSpace \<union> segment_area ` set (loads phs)"
  obtains sp' where "range_insert sp stack_area = Inr (True, sp')" "range_inv vm_base vm_top sp'"
    "set sp' = insert stack_area (set VMSpace \<union> segment_area ` set (loads phs))"
proof -
  have b: "re_begin stack_area = first_page" "re_end stack_area = 0xC0000000" by (simp_all add: stack_area_def VMA_def VMA_range_def)
  have "re_end (segment_area ph) = snd (segment_pages ph)" for ph by (simp add: segment_area_def VMA_def VMA_range_def)
  then have "free_between sp first_page 0xC0000000"
    using top by (auto simp: free_between_def sp(2) VMSpace_def range_init_def VMA_range_def vm_base_def vm_top_def)
  then obtain A C where "sp = A @ C" "range_insert sp stack_area = Inr (True, A @ stack_area # C)" "range_inv vm_base vm_top (A @ stack_area # C)"
    using range_insert_law(1) [OF sp(1), of stack_area] by (auto simp: b vm_top_def)
  then show thesis using that [of "A @ stack_area # C"] sp(2) by auto
qed

lemma exec_tail_law:
  assumes fit: "arguments_fit argv env" and win: "window_inv st" "3 \<le> window_free st" and ok: "user_ok st d (H + task_holds c mm st + dir_refs d st)"
    and old: "space_ok c mm st (H + dir_refs d st)" and apart: "\<forall>q. q \<in># H + task_holds c mm st \<longrightarrow> q \<notin># dir_refs d st"
    and new: "page_ij first_page \<notin> user_pages d st" and room: "phys_room (0 + 2) (ps_frames st)"
  shows "\<exists>st'. exec_tail d argv env c mm st = Inr (first_esp argv env, st') \<and> dir_owned st' d H \<and>
    filled d (page_ij first_page) True (first_fill argv env table_clear) st st' \<and> same_window st st' \<and>
    (\<forall>q. q \<in># H \<longrightarrow> q \<notin> task_tables c mm st \<longrightarrow> ps_mem st' q = ps_mem st q)"
proof -
  let ?Hall = "H + task_holds c mm st"
  have loc: "tableLoc first_page < 768" by (simp add: tableLoc_def)
  have w1: "1 \<le> window_free st" using win(2) by simp
  obtain s1 H1 where s1: "fill_page d first_page True (first_fill argv env) st = Inr ((), s1)" "user_ok s1 d H1" "window_inv s1" "window_free s1 = window_free st"
    "filled d (page_ij first_page) True (first_fill argv env table_clear) st s1" "dir_grows d (?Hall + dir_refs d st) st H1 s1"
    by (rule fill_law [OF win(1) w1 ok loc new [unfolded page_ij_def] room, of True "first_fill argv env", folded page_ij_def])
  have "H1 + dir_refs d st = ?Hall + dir_refs d st + dir_refs d s1" using s1(6) by (simp add: dir_grows_def)
  then have H1: "H1 = ?Hall + dir_refs d s1" by simp
  have mem: "q \<notin># dir_refs d s1 \<and> ps_mem s1 q = ps_mem st q" if "q \<in># ?Hall" for q
    using s1(6) apart that by (simp add: dir_grows_def) blast
  have rel: "phys_rel (ps_frames s1) (H + dir_refs d s1 + task_holds c mm st)" using s1(2) H1 by (simp add: user_ok_def ac_simps)
  have kept: "\<forall>q. q \<in># task_holds c mm st \<longrightarrow> ps_mem s1 q = ps_mem st q" using mem by simp
  note K = space_ok_kept [OF old kept rel]
  obtain s2 where s2: "leave_space c mm s1 = Inr ((), s2)" "phys_rel (ps_frames s2) (H + dir_refs d s1)"
    "\<forall>q. q \<notin> task_tables c mm st \<longrightarrow> ps_mem s2 q = ps_mem s1 q" "same_window s1 s2"
    using leave_law [OF K(1) s1(3)] win(2) s1(4) K(3) by auto
  have keep: "\<forall>q. q \<in># dir_refs d s1 \<longrightarrow> ps_mem s2 q = ps_mem s1 q"
  proof (intro allI impI)
    fix q assume "q \<in># dir_refs d s1"
    then have "q \<notin># task_holds c mm st" using mem [of q] by auto
    then show "ps_mem s2 q = ps_mem s1 q" using s2(3) task_tables_held by blast
  qed
  note D = dir_kept [OF keep]
  have "exec_tail d argv env c mm st = Inr (first_esp argv env, s2)"
    using exec_tail_steps [OF fit win, of d c mm] s1(1) s2(1) by (simp add: pbind_def preturn_def)
  moreover have "dir_owned s2 d H"
  proof -
    have "inj_on (\<lambda>i. table_of d i s2) (user_tables d s2) = inj_on (\<lambda>i. table_of d i s1) (user_tables d s1)"
      unfolding D(1) by (rule inj_on_cong) (rule D(2))
    then show ?thesis using s1(2) s2(2) D(1,2,5) by (simp add: dir_owned_def user_ok_def)
  qed
  moreover have "page_frame d s2 (page_ij first_page) = page_frame d s1 (page_ij first_page)"
    using D(4) [of "page_ij first_page"] s1(5) by (simp add: filled_def page_entry_def page_frame_def)
  then have "filled d (page_ij first_page) True (first_fill argv env table_clear) st s2"
    using s1(5) D(3,4) D(4) [of "page_ij first_page"] keeps_pages_trans [OF _ D(6)] by (simp add: filled_def)
  moreover have "same_window st s2" using s1(6) s2(4) by (simp add: dir_grows_def same_window_def)
  moreover have "\<forall>q. q \<in># H \<longrightarrow> q \<notin> task_tables c mm st \<longrightarrow> ps_mem s2 q = ps_mem st q" using mem s2(3) by simp
  ultimately show ?thesis by blast
qed

lemma exec_memory_steps:
  assumes "loadElf VMSpace file st = Inr ((r, sp), s1)" "range_insert sp stack_area = Inr (b, sp')"
    "exec_tail (mg_paddr (lr_pageDir r)) argv env c mm s1 = Inr (esp, s2)" "mapper_close (lr_pageDir r) s2 = Inr ((), s3)"
  shows "exec_memory file argv env c mm st = Inr ((\<lparr>mm_space = sp', mm_cr3 = mg_paddr (lr_pageDir r), mm_brkBase = lr_brkAddr r,
    mm_brkAddr = lr_brkAddr r, mm_stack_low = 0xBF800000\<rparr>, lr_entry r, esp), s3)"
proof -
  have p: "prevPage stack_top = first_page" by (simp add: stack_top_def prevPage_def thisPage_def alignDown_def)
  have "exec_memory file argv env c mm st = pbind (exec_tail (mg_paddr (lr_pageDir r)) argv env c mm) (\<lambda>esp. pbind (mapper_close (lr_pageDir r)) (\<lambda>_.
      preturn (\<lparr>mm_space = sp', mm_cr3 = mg_paddr (lr_pageDir r), mm_brkBase = lr_brkAddr r, mm_brkAddr = lr_brkAddr r,
        mm_stack_low = stack_top - 0x800000\<rparr>, lr_entry r, esp))) s1"
    unfolding exec_memory_def exec_tail_def pbind_assoc preturn_pbind p using assms(1,2) by (simp add: pbind_def [of "loadElf VMSpace file"] Let_def)
  then show ?thesis using assms(3,4) by (simp add: pbind_def preturn_def stack_top_def)
qed

lemma exec_memory_law:
  assumes h: "read_header file = Inr h" and phs: "read_headers (unat (eh_phnum h)) file (eh_phentsize h) (eh_phoff h) = Inr phs"
    and ok: "loads_ok file phs VMSpace" and top: "\<forall>ph\<in>set (loads phs). snd (segment_pages ph) \<le> first_page"
    and fit: "arguments_fit argv env" and win: "window_inv st" "4 \<le> window_free st" and own: "space_ok c mm st H"
    and room: "card (set_mset (H + task_holds c mm st)) + 3 + 2 * length (load_pages phs) \<le> phys_limit (ps_frames st)"
  shows "\<exists>mm' st'. exec_memory file argv env c mm st = Inr ((mm', eh_entry_offset h, first_esp argv env), st') \<and>
    mm_cr3 mm' \<notin># H + task_holds c mm st \<and> dir_owned st' (mm_cr3 mm') H \<and>
    user_pages (mm_cr3 mm') st' = insert (page_ij first_page) (page_ij ` set (load_pages phs)) \<and>
    (\<forall>ph\<in>set (loads phs). segment_loaded file (mm_cr3 mm') st' ph) \<and>
    page_words (mm_cr3 mm') st' (page_ij first_page) = first_fill argv env table_clear \<and> bit (page_entry (mm_cr3 mm') st' (page_ij first_page)) 1 \<and>
    range_inv vm_base vm_top (mm_space mm') \<and> set (mm_space mm') = insert stack_area (set VMSpace \<union> segment_area ` set (loads phs)) \<and>
    mm_brkBase mm' = fold (\<lambda>ph b. max b (snd (segment_pages ph))) (loads phs) 0x400000 \<and> mm_brkAddr mm' = mm_brkBase mm' \<and> mm_stack_low mm' = 0xBF800000 \<and>
    (\<forall>q. q \<in># H \<longrightarrow> q \<notin> task_tables c mm st \<longrightarrow> ps_mem st' q = ps_mem st q) \<and> same_window st st'"
proof -
  let ?Hall = "H + task_holds c mm st" and ?brk = "fold (\<lambda>ph b. max b (snd (segment_pages ph))) (loads phs) 0x400000"
  have rel: "phys_rel (ps_frames st) ?Hall" using own by (simp add: space_ok_def)
  have room': "card (set_mset ?Hall) + 1 + 2 * length (load_pages phs) + (0 + 2) \<le> phys_limit (ps_frames st)" using room by simp
  have ri: "range_inv vm_base vm_top VMSpace" using vm_inv_init by (simp add: vm_inv_def)
  have w2: "2 \<le> window_free st" using win(2) by simp
  obtain m sp s1 where L: "loadElf VMSpace file st = Inr ((\<lparr>lr_pageDir = m, lr_brkAddr = ?brk, lr_entry = eh_entry_offset h\<rparr>, sp), s1)"
    "mg_paddr m \<notin># ?Hall" "user_pages (mg_paddr m) s1 = page_ij ` set (load_pages phs)" "\<forall>ph\<in>set (loads phs). segment_loaded file (mg_paddr m) s1 ph"
    "range_inv vm_base vm_top sp" "set sp = set VMSpace \<union> segment_area ` set (loads phs)" "window_free s1 = window_free st - 1" "window_inv s1"
    "phys_room (0 + 2) (ps_frames s1)" "user_ok s1 (mg_paddr m) (?Hall + dir_refs (mg_paddr m) s1)"
    "\<forall>q. q \<in># ?Hall \<longrightarrow> q \<notin># dir_refs (mg_paddr m) s1 \<and> ps_mem s1 q = ps_mem st q"
    "\<forall>s. same_window s1 s \<longrightarrow> mapper_close m s = Inr ((), set_window (ps_vframes st) (ps_kdir st) (ps_ktab st) s)"
    by (rule loadElf_law [OF h phs ok ri win(1) w2 rel room'])
  let ?d = "mg_paddr m"
  have kept: "\<forall>q. q \<in># task_holds c mm st \<longrightarrow> ps_mem s1 q = ps_mem st q" using L(11) by simp
  have rel1: "phys_rel (ps_frames s1) (H + dir_refs ?d s1 + task_holds c mm st)" using L(10) by (simp add: user_ok_def ac_simps)
  note K = space_ok_kept [OF own kept rel1]
  have w3: "3 \<le> window_free s1" using L(7) win(2) by simp
  have new: "page_ij first_page \<notin> user_pages ?d s1" using page_alone [OF ok top] by (simp add: L(3))
  have apart: "\<forall>q. q \<in># H + task_holds c mm s1 \<longrightarrow> q \<notin># dir_refs ?d s1" using L(11) by (simp add: K(2))
  obtain s2 where T: "exec_tail ?d argv env c mm s1 = Inr (first_esp argv env, s2)" "dir_owned s2 ?d H"
    "filled ?d (page_ij first_page) True (first_fill argv env table_clear) s1 s2" "same_window s1 s2"
    "\<forall>q. q \<in># H \<longrightarrow> q \<notin> task_tables c mm st \<longrightarrow> ps_mem s2 q = ps_mem s1 q"
    using exec_tail_law [OF fit L(8) w3 L(10) [folded K(2)] K(1) apart new L(9)] unfolding K(3) by blast
  obtain sp' where S: "range_insert sp stack_area = Inr (True, sp')" "range_inv vm_base vm_top sp'"
    "set sp' = insert stack_area (set VMSpace \<union> segment_area ` set (loads phs))" by (rule stack_area_fits [OF ok top L(5,6)])
  define s3 where "s3 = set_window (ps_vframes st) (ps_kdir st) (ps_ktab st) s2"
  have close: "mapper_close m s2 = Inr ((), s3)" using L(12) T(4) by (simp add: s3_def)
  have mem3: "ps_mem s3 = ps_mem s2" "ps_frames s3 = ps_frames s2" by (simp_all add: s3_def)
  have D: "user_pages ?d s3 = user_pages ?d s2" "page_words ?d s3 = page_words ?d s2" "page_entry ?d s3 = page_entry ?d s2" "dir_owned s3 ?d H" "keeps_pages ?d s2 s3"
    using dir_kept [of ?d s2 s3] T(2) mem3
    by (simp_all add: s3_def dir_owned_def fun_eq_iff page_words_def page_entry_def page_frame_def user_tables_def)
  have F: "user_pages ?d s2 = insert (page_ij first_page) (user_pages ?d s1)" "keeps_pages ?d s1 s2"
    "page_words ?d s2 (page_ij first_page) = first_fill argv env table_clear" "page_entry ?d s2 (page_ij first_page) = page_frame ?d s2 (page_ij first_page) OR page_attr True"
    using T(3) by (simp_all add: filled_def)
  have seg: "\<forall>ph\<in>set (loads phs). segment_loaded file ?d s3 ph" using L(4) segment_loaded_keeps [OF _ keeps_pages_trans [OF F(2) D(5)]] by blast
  have bit1: "bit (page_entry ?d s3 (page_ij first_page)) 1" unfolding D(3) F(4) bit_or_iff using page_attr_facts(3) [of True] by simp
  have others: "\<forall>q. q \<in># H \<longrightarrow> q \<notin> task_tables c mm st \<longrightarrow> ps_mem s3 q = ps_mem st q" using T(5) L(11) by (simp add: mem3)
  have "exec_memory file argv env c mm st = Inr ((\<lparr>mm_space = sp', mm_cr3 = ?d, mm_brkBase = ?brk, mm_brkAddr = ?brk, mm_stack_low = 0xBF800000\<rparr>,
      eh_entry_offset h, first_esp argv env), s3)"
    using exec_memory_steps [OF L(1) S(1), of argv env c mm "first_esp argv env" s2 s3] T(1) close by simp
  moreover have "same_window st s3" by (simp add: s3_def same_window_def)
  ultimately show ?thesis using L(2,3) S(2,3) D(1,2,4) F(1,3) seg bit1 others
    by (intro exI [of _ "\<lparr>mm_space = sp', mm_cr3 = ?d, mm_brkBase = ?brk, mm_brkAddr = ?brk, mm_stack_low = 0xBF800000\<rparr>"] exI [of _ s3]) simp
qed

section \<open>What the program reads\<close>

lemma page_ij_this: "page_ij (thisPage v) = page_ij v"
proof -
  have "unat (thisPage v) = unat v div 4096 * 4096" using unat_thisPage [of v] by (simp add: minus_mod_eq_div_mult)
  then have "unat (thisPage v) div 4096 = unat v div 4096" by simp
  moreover have "x div 4194304 = x div 4096 div 1024" for x :: nat by (simp add: div_mult2_eq [symmetric])
  ultimately show ?thesis by (simp add: page_ij_def tableLoc_def tablePageLoc_def unat_shiftr unat_and_1023)
qed

lemma offset_in_page:
  assumes "page_aligned v" "k < 4096" "unat v + k < 2 ^ 32"
  shows "thisPage (v + of_nat k) = v" "unat (pageOffset (v + of_nat k)) = k"
proof -
  have u: "unat (v + of_nat k) = unat v + k" using assms(2,3) by (simp add: unat_word_ariths unat_of_nat)
  obtain a where a: "unat v = 4096 * a" using assms(1) by (auto simp: page_aligned_def mod_eq_0_iff_dvd elim: dvdE)
  then have m: "unat (v + of_nat k) mod 4096 = k" using assms(2) by (simp add: u)
  then show "unat (pageOffset (v + of_nat k)) = k" by (simp add: pageOffset_def unat_and_4095)
  show "thisPage (v + of_nat k) = v" using m u by (simp add: word_unat_eq_iff unat_thisPage)
qed

lemma view_page:
  assumes "page_aligned v" "k < 4096" "unat v + k < 2 ^ 32"
  shows "user_view d st (v + of_nat k) = frame_byte (page_words d st (page_ij v)) k"
  using offset_in_page [OF assms] page_ij_this [of "v + of_nat k"] by (simp add: user_view_def)

lemma segment_view:
  assumes ld: "segment_loaded file d st ph" and fits: "segment_fits file ph" "ph_memsz ph \<noteq> 0"
    and v: "unat (ph_vaddr ph) \<le> unat v" "unat v < unat (ph_vaddr ph) + unat (ph_memsz ph)"
  shows "user_view d st v = segment_byte file ph (unat v)"
proof -
  obtain lo hi where s: "segment_pages ph = (lo, hi)" "page_aligned lo" "unat lo \<le> unat (ph_vaddr ph)" "unat (ph_vaddr ph) + unat (ph_memsz ph) \<le> unat hi"
    by (rule segment_bounds [OF fits])
  have "lo \<le> v" "v < hi" using s(3,4) v by (simp_all add: word_le_nat_alt word_less_nat_alt)
  then have "lo \<le> thisPage v" "thisPage v < hi"
    using aligned_le_thisPage [OF s(2)] thisPage_le [of v] by (auto intro: order_le_less_trans)
  then have p: "thisPage v \<in> set (segment_page_list ph)" by (simp add: segment_loop(2) [OF fits] s(1))
  have o: "unat (pageOffset v) < 4096" "unat (thisPage v) + unat (pageOffset v) = unat v"
    using address_parts [of v] unat_thisPage [of v] by (simp_all add: pageOffset_def unat_and_4095)
  have "frame_byte (page_words d st (page_ij (thisPage v))) (unat (pageOffset v)) = segment_byte file ph (unat (thisPage v) + unat (pageOffset v))"
    using ld p o(1) by (simp add: segment_loaded_def)
  then show ?thesis by (simp add: user_view_def page_ij_this o(2))
qed

lemma stack_view:
  assumes fit: "arguments_fit argv env" and w: "page_words d st (page_ij first_page) = first_fill argv env table_clear"
  shows "\<exists>args envs. words_at (first_esp argv env) (length argv + length env + 7) (user_view d st) =
      of_nat (length argv) # args @ 0 # envs @ [0, AT_PAGESZ, 4096, AT_NULL, 0] \<and>
    list_all2 (\<lambda>u str. bytes_at u (Suc (length str)) (user_view d st) = str @ [0]) args argv \<and>
    list_all2 (\<lambda>u str. bytes_at u (Suc (length str)) (user_view d st) = str @ [0]) envs env"
proof -
  let ?L = "first_image argv env"
  let ?s = "\<lparr>sk_page = first_page, sk_userBase = first_page, sk_current = first_esp argv env, sk_entries = [], sk_mem = user_view d st\<rparr>"
  have l: "length ?L \<le> 4096" by (rule stack_image_length(2) [OF fit])
  have al: "page_aligned first_page" by (simp add: page_aligned_def)
  have "bytes_at (first_esp argv env) (length ?L) (user_view d st) = ?L"
  proof (rule nth_equalityI)
    fix i assume "i < length (bytes_at (first_esp argv env) (length ?L) (user_view d st))"
    then have i: "i < length ?L" by simp
    let ?k = "4096 - length ?L + i"
    have k: "?k < 4096" using i l by simp
    have "first_esp argv env + of_nat i = first_page + of_nat ?k" unfolding first_esp_def add.assoc of_nat_add [symmetric] ..
    moreover have "bytes_at (first_esp argv env) (length ?L) (user_view d st) ! i = user_view d st (first_esp argv env + of_nat i)" using i by (simp add: bytes_at_def)
    ultimately have "bytes_at (first_esp argv env) (length ?L) (user_view d st) ! i = user_view d st (first_page + of_nat ?k)" by metis
    also have "\<dots> = frame_byte (first_fill argv env table_clear) ?k" unfolding w [symmetric] by (rule view_page [OF al k]) (use k in simp)
    also have "\<dots> = ?L ! i" unfolding first_fill_def frame_byte_put using i l by auto
    finally show "bytes_at (first_esp argv env) (length ?L) (user_view d st) ! i = ?L ! i" .
  qed simp
  then have "stack_rep ?L ?s" using l al by (simp add: stack_rep_def first_esp_def)
  from image_contents [OF this] show ?thesis
    by (intro exI [of _ "arg_pointers first_page argv"] exI [of _ "env_pointers first_page argv env"]) (simp add: strings_loaded_def)
qed

section \<open>Properties\<close>

text \<open>C2: a program that is started runs as its file and its arguments say, and nothing is lost. For a program file whose segments lie in the
  file, share no page and end below the first page of the stack, arguments that fit that page, enough free frames and a caller with or
  without an old program, \<^verbatim>\<open>execTask\<close> returns: the task resumes in user mode at the entry of the file; every address of a segment reads
  as its byte of the file, or zero past the bytes the file has; the stack pointer leads to the argument count, the pointers to the
  arguments, the environment and the auxiliary vector, and every pointer to its string; the areas are one for each segment and the
  stack; the descriptors are consistent. Of physical memory the new program holds exactly its directory, its tables and its pages, every
  reference of the old program is given back, the words of all frames that others hold are kept, and so are the mappings of the kernel.\<close>

theorem exec_starts_program:
  fixes x :: execs
  defines "k \<equiv> x_kernel x"
  defines "mm \<equiv> k_mm k (k_task k)"
  defines "st \<equiv> k_paging k" and "c \<equiv> k_kernel_cr3 k"
  assumes h: "read_header file = Inr h" and phs: "read_headers (unat (eh_phnum h)) file (eh_phentsize h) (eh_phoff h) = Inr phs"
    and ok: "loads_ok file phs VMSpace" and top: "\<forall>ph\<in>set (loads phs). snd (segment_pages ph) \<le> first_page"
    and fit: "arguments_fit argv env" and win: "window_inv st" "4 \<le> window_free st" and own: "space_ok c mm st H"
    and room: "card (set_mset (H + task_holds c mm st)) + 3 + 2 * length (load_pages phs) \<le> phys_limit (ps_frames st)"
    and fds: "rc0 (x_fds x)"
  shows "\<exists>f x' d mm' st' args envs. execTask file argv env frame x = Inr (f, x') \<and>
    d = x_cr3 x' \<and> mm' = k_mm (x_kernel x') (k_task (x_kernel x')) \<and> st' = k_paging (x_kernel x') \<and> k_task (x_kernel x') = k_task k \<and> mm_cr3 mm' = d \<and>
    f_eip f = eh_entry_offset h \<and> isRing3 (f_cs f) \<and> isRing3 (f_user_ss f) \<and>
    (\<forall>ph\<in>set (loads phs). \<forall>v. unat (ph_vaddr ph) \<le> unat v \<and> unat v < unat (ph_vaddr ph) + unat (ph_memsz ph) \<longrightarrow> user_view d st' v = segment_byte file ph (unat v)) \<and>
    words_at (f_user_esp f) (length argv + length env + 7) (user_view d st') = of_nat (length argv) # args @ 0 # envs @ [0, AT_PAGESZ, 4096, AT_NULL, 0] \<and>
    list_all2 (\<lambda>u str. bytes_at u (Suc (length str)) (user_view d st') = str @ [0]) args argv \<and>
    list_all2 (\<lambda>u str. bytes_at u (Suc (length str)) (user_view d st') = str @ [0]) envs env \<and>
    user_pages d st' = insert (page_ij first_page) (page_ij ` set (load_pages phs)) \<and>
    range_inv vm_base vm_top (mm_space mm') \<and> set (mm_space mm') = insert stack_area (set VMSpace \<union> segment_area ` set (loads phs)) \<and>
    dir_owned st' d H \<and> d \<notin># H + task_holds c mm st \<and> (\<forall>q. q \<in># H \<longrightarrow> q \<notin> task_tables c mm st \<longrightarrow> ps_mem st' q = ps_mem st q) \<and> same_window st st' \<and>
    rc0 (x_fds x')"
proof -
  obtain mm' st' where E: "exec_memory file argv env c mm st = Inr ((mm', eh_entry_offset h, first_esp argv env), st')"
    "mm_cr3 mm' \<notin># H + task_holds c mm st" "dir_owned st' (mm_cr3 mm') H"
    "user_pages (mm_cr3 mm') st' = insert (page_ij first_page) (page_ij ` set (load_pages phs))"
    "\<forall>ph\<in>set (loads phs). segment_loaded file (mm_cr3 mm') st' ph" "page_words (mm_cr3 mm') st' (page_ij first_page) = first_fill argv env table_clear"
    "range_inv vm_base vm_top (mm_space mm')" "set (mm_space mm') = insert stack_area (set VMSpace \<union> segment_area ` set (loads phs))"
    "\<forall>q. q \<in># H \<longrightarrow> q \<notin> task_tables c mm st \<longrightarrow> ps_mem st' q = ps_mem st q" "same_window st st'"
    using exec_memory_law [OF h phs ok top fit win own room] by blast
  let ?d = "mm_cr3 mm'"
  obtain fds' where F: "file_prepareForExec (t_pid (sc_tcb (k_sched k) (k_task k))) (x_fds x) = Inr fds'" "rc0 fds'" using file_prepareForExec_total [OF fds] by blast
  obtain args envs where V: "words_at (first_esp argv env) (length argv + length env + 7) (user_view ?d st') = of_nat (length argv) # args @ 0 # envs @ [0, AT_PAGESZ, 4096, AT_NULL, 0]"
    "list_all2 (\<lambda>u str. bytes_at u (Suc (length str)) (user_view ?d st') = str @ [0]) args argv"
    "list_all2 (\<lambda>u str. bytes_at u (Suc (length str)) (user_view ?d st') = str @ [0]) envs env" using stack_view [OF fit E(6)] by blast
  have seg: "\<forall>ph\<in>set (loads phs). \<forall>v. unat (ph_vaddr ph) \<le> unat v \<and> unat v < unat (ph_vaddr ph) + unat (ph_memsz ph) \<longrightarrow> user_view ?d st' v = segment_byte file ph (unat v)"
    using E(5) ok segment_view by (auto simp: loads_ok_def)
  obtain x' where x': "execTask file argv env frame x = Inr (exec_frame (eh_entry_offset h) (first_esp argv env) frame, x')"
    "x_cr3 x' = ?d" "k_mm (x_kernel x') (k_task (x_kernel x')) = mm'" "k_paging (x_kernel x') = st'" "k_task (x_kernel x') = k_task k" "x_fds x' = fds'"
    using E(1) F(1) by (simp add: execTask_def Let_def k_def mm_def st_def c_def with_sched_def upd_tcb_def)
  have ring: "isRing3 userCs" "isRing3 userDs" by (simp_all add: isRing3_def userCs_def userDs_def)
  let ?f = "exec_frame (eh_entry_offset h) (first_esp argv env) frame"
  have f: "f_eip ?f = eh_entry_offset h" "f_user_esp ?f = first_esp argv env" "f_cs ?f = userCs" "f_user_ss ?f = userDs" by (simp_all add: exec_frame_def)
  show ?thesis
    by (intro exI [of _ ?f] exI [of _ x'] exI [of _ ?d] exI [of _ mm'] exI [of _ st'] exI [of _ args] exI [of _ envs])
      (use x' E(2-4,7-10) F(2) V seg ring f in simp)
qed

text \<open>C3: a directory gives back exactly what it holds. Whether the pages of a program lie in its areas or are left in its tables, and
  whichever of them it shares copy-on-write with other programs, after \<^verbatim>\<open>VMSpace::free\<close>, \<^verbatim>\<open>freePageTables\<close> and the release of
  the directory the counters are exactly those of the references the others have; no frame but the directory and its tables was
  written, and the mappings of the kernel are the ones from before.\<close>

theorem address_space_released:
  assumes "dir_owned st d H" "vm_inv sp" "window_inv st" "2 \<le> window_free st"
  shows "\<exists>st'. release_space d sp st = Inr (range_clear sp, st') \<and> phys_rel (ps_frames st') H \<and>
    (\<forall>q. q \<noteq> d \<longrightarrow> q \<notin> (\<lambda>i. table_of d i st) ` user_tables d st \<longrightarrow> ps_mem st' q = ps_mem st q) \<and> same_window st st'"
  by (rule release_law [OF assms])

text \<open>A program that a kernel task starts runs with interrupts off: the frame it is entered with is zero and \<^verbatim>\<open>execTask\<close> never sets its
  flags, so the timer cannot take the processor from it, nor from what it forks or executes.\<close>

theorem programs_start_uninterruptible:
  assumes "execEntry x = Inr (f, x')"
  shows "\<not> bit (f_flags f) 9"
proof -
  have "f_flags f = f_flags zero_frame"
    using assms by (auto simp: execEntry_def execTask_def exec_frame_def Let_def sbind_def split: sum.splits prod.splits option.splits)
  moreover have "f_flags zero_frame = 0" by code_simp
  ultimately show ?thesis by simp
qed

text \<open>A program that \<^verbatim>\<open>spawn\<close> makes waits at the end of the run queue, with the image and the arguments asked for, and owns no memory until it is
  entered; a name that is not built in changes nothing.\<close>

theorem spawn_enqueues:
  assumes "spawn programs task name argv envp x = Inr (r, x')"
  shows "case map_of programs name of None \<Rightarrow> r = Inl SYS_ENOENT \<and> x' = x
    | Some prog \<Rightarrow> x_entry x' task = Some (prog, argv, envp) \<and> last (sc_pending (k_sched (x_kernel x'))) = task \<and>
        mm_cr3 (k_mm (x_kernel x') task) = k_kernel_cr3 (x_kernel x) \<and> k_paging (x_kernel x') = k_paging (x_kernel x)"
proof (cases "map_of programs name")
  case None
  then show ?thesis using assms by (simp add: spawn_def)
next
  case (Some prog)
  have p: "sc_pending (snd (addTask task sc)) = sc_pending sc @ [task]" for sc
    by (auto simp: addTask_def allocPid_def Let_def upd_tcb_def split: option.splits)
  obtain sc x1 where c: "create_tcb task TaskSignalInfo (k_sched (x_kernel x)) = Inr sc" "createElfTask task prog argv envp x = Inr x1"
    using assms Some by (auto simp: spawn_def createElfTask_def Let_def sbind_def split: sum.splits)
  then have x1: "x_entry x1 task = Some (prog, argv, envp)" "k_mm (x_kernel x1) task = kernel_mm (k_kernel_cr3 (x_kernel x))" "k_paging (x_kernel x1) = k_paging (x_kernel x)"
    by (auto simp: createElfTask_def with_sched_def Let_def)
  obtain fds where "x' = x1\<lparr>x_kernel := with_sched (snd (addTask task (k_sched (x_kernel x1)))) (x_kernel x1), x_fds := fds\<rparr>"
    using assms Some c(2) by (auto simp: spawn_def Let_def sbind_def split: sum.splits prod.splits)
  then show ?thesis using Some x1 p by (simp add: with_sched_def kernel_mm_def)
qed

section \<open>A small program started over another\<close>

definition demo_execs :: "sched \<Rightarrow> execs" where
  "demo_execs sc = \<lparr>x_kernel = demo_kernel sc, x_fds = no_fds empty_vfs,
    x_tls = \<lparr>tl_gdt = gdt_load 0xC0101000 0xC0102000, tl_seg = \<lambda>_. no_segment, tl_current = 3\<rparr>, x_cr3 = 0x800000,
    x_userEsp = \<lambda>_. 0, x_name = \<lambda>_. [], x_argv = \<lambda>_. [], x_env = \<lambda>_. [], x_entry = \<lambda>_. None\<rparr>"

theorem address_space_released_witness:
  "\<exists>st'. release_space 0x800000 (mm_space demo_mm) shared_state = Inr (range_clear (mm_space demo_mm), st') \<and> phys_rel (ps_frames st') {#0x802000#}"
  using address_space_released [OF shared_refs(2) demo_inv(1) shared_window(1)] shared_window(2) by auto

theorem exec_starts_program_witness:
  "\<exists>sc f x'. boot_run [Fork 3, Yield] = Inr sc \<and> execTask small_file [[0x6C, 0x73]] [] demo_frame (demo_execs sc) = Inr (f, x') \<and>
    f_eip f = 0x400010 \<and> user_view (x_cr3 x') (k_paging (x_kernel x')) 0x400010 = 0xB8 \<and>
    dir_owned (k_paging (x_kernel x')) (x_cr3 x') {#0x802000#}"
proof -
  obtain sc where sc: "boot_run [Fork 3, Yield] = Inr sc" "sc_current sc = 3" by (rule demo_task)
  let ?x = "demo_execs sc"
  have x: "x_kernel ?x = demo_kernel sc" "k_mm (demo_kernel sc) t = demo_mm" "k_paging (demo_kernel sc) = shared_state"
    "k_kernel_cr3 (demo_kernel sc) = 0x200000" "x_fds ?x = no_fds empty_vfs" for t
    by (simp_all add: demo_execs_def demo_kernel_def)
  have holds: "task_holds 0x200000 demo_mm shared_state = {#0x802000, 0x801000, 0x800000#}"
    by (simp add: task_holds_def demo_mm_def shared_refs(1))
  have "phys_rel (ps_frames shared_state) ({#0x802000#} + task_holds 0x200000 demo_mm shared_state)"
    using shared_refs by (simp add: dir_owned_def holds)
  then have own: "space_ok 0x200000 demo_mm shared_state {#0x802000#}"
    using shared_refs(2) demo_inv(1) by (simp add: space_ok_def) (simp add: demo_mm_def)
  have top: "\<forall>ph\<in>set (loads [small_segment]). snd (segment_pages ph) \<le> first_page" by (simp add: small_loads small_headers(4))
  have fit: "arguments_fit [[0x6C, 0x73]] []" by (simp add: arguments_fit_def)
  have room: "card (set_mset ({#0x802000#} + task_holds 0x200000 demo_mm shared_state)) + 3 + 2 * length (load_pages [small_segment]) \<le> phys_limit (ps_frames shared_state)"
    unfolding holds by (simp add: small_loads small_headers(5) phys_limit_def shared_state_def shared_frames_def card_insert_if)
  have rh: "read_headers (unat (eh_phnum small_header)) small_file (eh_phentsize small_header) (eh_phoff small_header) = Inr [small_segment]"
    using small_headers(2) by (simp add: small_header_def)
  have win: "window_inv (k_paging (x_kernel ?x))" "4 \<le> window_free (k_paging (x_kernel ?x))" using shared_window by (simp_all add: x)
  have own': "space_ok (k_kernel_cr3 (x_kernel ?x)) (k_mm (x_kernel ?x) (k_task (x_kernel ?x))) (k_paging (x_kernel ?x)) {#0x802000#}" using own by (simp add: x)
  have room': "card (set_mset ({#0x802000#} + task_holds (k_kernel_cr3 (x_kernel ?x)) (k_mm (x_kernel ?x) (k_task (x_kernel ?x))) (k_paging (x_kernel ?x)))) + 3 +
      2 * length (load_pages [small_segment]) \<le> phys_limit (ps_frames (k_paging (x_kernel ?x)))" using room by (simp only: x)
  have fds: "rc0 (x_fds ?x)" by (simp add: x no_fds_rc)
  from exec_starts_program [OF small_headers(1) [folded small_header_def] rh small_loads_ok top fit win own' room' fds, of demo_frame]
  obtain f x' where r: "execTask small_file [[0x6C, 0x73]] [] demo_frame ?x = Inr (f, x')" "f_eip f = eh_entry_offset small_header"
    "\<forall>ph\<in>set (loads [small_segment]). \<forall>v. unat (ph_vaddr ph) \<le> unat v \<and> unat v < unat (ph_vaddr ph) + unat (ph_memsz ph) \<longrightarrow>
      user_view (x_cr3 x') (k_paging (x_kernel x')) v = segment_byte small_file ph (unat v)"
    "dir_owned (k_paging (x_kernel x')) (x_cr3 x') {#0x802000#}" by blast
  have "small_file ! 84 = 0xB8" by code_simp
  then have "segment_byte small_file small_segment 0x400010 = 0xB8" by (simp add: segment_byte_def small_segment_def)
  moreover have "unat (ph_vaddr small_segment) \<le> unat (0x400010 :: u32) \<and> unat (0x400010 :: u32) < unat (ph_vaddr small_segment) + unat (ph_memsz small_segment)"
    by (simp add: small_segment_def)
  then have "user_view (x_cr3 x') (k_paging (x_kernel x')) 0x400010 = segment_byte small_file small_segment (unat (0x400010 :: u32))"
    using r(3) unfolding small_loads by (metis list.set_intros(1))
  ultimately have "user_view (x_cr3 x') (k_paging (x_kernel x')) 0x400010 = 0xB8" by simp
  with sc(1) r(1,2,4) show ?thesis by (auto simp: small_header_def)
qed

text \<open>A call of \<^verbatim>\<open>execve\<close> that fails leaves the program as it was, registers included: the strings, the path, the kind of the file and its
  contents are all checked or read before the first change.\<close>

theorem execve_failure_keeps_program:
  assumes "sys_execve env ref_count name argvp envpp frame x = Inr ((r, f), x')" "r \<noteq> 0"
  shows "f = frame \<and> x' = x\<lparr>x_fds := x_fds x'\<rparr>"
  using assms by (auto simp: sys_execve_def sbind_def Let_def split: sum.splits prod.splits)

section \<open>The page that returns from signals\<close>

text \<open>The page holds the code and is mapped for user mode at the last page, but it is mapped writable: every directory made later takes
  over the entry, so one program can change what the handlers of all others return through.\<close>

theorem trampoline_writable:
  assumes t: "entry_at (ps_kdir st 1023) \<noteq> 0" and p: "physicalFrameAlloc (ps_frames st) = Inr (f, p)"
  shows "\<exists>st'. loadTrampoline code st = Inr ((), st') \<and> kernel_translate st' 0xFFFFF000 = Some p \<and>
    (\<forall>i<length code. frame_byte (ps_mem st' p) i = code ! i) \<and>
    (let e = ps_ktab st' (entry_at (ps_kdir st' 1023)) 1023 in bit e 1 \<and> bit e 2) \<and> bit (ps_kdir st' 1023) 1 \<and> bit (ps_kdir st' 1023) 2 \<and>
    (\<forall>m st''. dir_fork st' = Inr (m, st'') \<longrightarrow> dir_entry (mg_paddr m) 1023 st'' = ps_kdir st' 1023)"
proof -
  let ?table = "entry_at (ps_kdir st 1023)" and ?pde = "PDE_Present OR PDE_ReadWrite OR PDE_User" and ?pte = "PTE_Present OR PTE_ReadWrite OR PTE_User"
  have al: "page_aligned p" by (rule alloc_aligned [OF p])
  have loc: "tableLoc 0xFFFFF000 = 1023" "tablePageLoc 0xFFFFF000 = 1023" by (simp_all add: tableLoc_def tablePageLoc_def)
  have e: "entry_at (?table OR ?pde) = ?table" "entry_isPresent (?table OR ?pde)" using present_entry [of ?table ?pde] by (simp_all add: pte_flags)
  have q: "entry_at (p OR ?pte) = p" "entry_isPresent (p OR ?pte)" using present_entry [OF al, of ?pte] by (simp_all add: pte_flags)
  have b: "bit (a OR ?pde) 1 \<and> bit (a OR ?pde) 2" "bit (a OR ?pte) 1 \<and> bit (a OR ?pte) 2" for a :: u32 by (simp_all add: bit_or_iff pte_flags)
  define st' where "st' = set_words p (put_frame 0 code table_clear) (st\<lparr>ps_kdir := (ps_kdir st)(1023 := ?table OR ?pde), ps_frames := f,
    ps_ktab := (ps_ktab st)(?table := (ps_ktab st ?table)(1023 := p OR ?pte))\<rparr>)"
  have tp: "thisPage p = p" using al by (simp add: page_aligned_eq)
  have run: "loadTrampoline code st = Inr ((), st')"
    using p t e(1) loc tp by (simp add: loadTrampoline_def Let_def pbind_def phys_alloc_def kernel_map_def table_map_def st'_def)
  have f: "ps_kdir st' 1023 = ?table OR ?pde" "ps_ktab st' ?table 1023 = p OR ?pte" "ps_mem st' p = put_frame 0 code table_clear"
    by (simp_all add: st'_def set_words_def)
  have tr: "kernel_translate st' 0xFFFFF000 = Some p" using f e q loc by (simp add: kernel_translate_def Let_def)
  have fork: "dir_entry (mg_paddr m) 1023 st'' = ps_kdir st' 1023" if "dir_fork st' = Inr (m, st'')" for m st''
    using that by (auto simp: dir_fork_def pbind_def sbind_def phys_alloc_def mapper_open_def kernel_map_def preturn_def Let_def dir_entry_def
        Nyan_Paging.frame_words_def set_words_def upper_copy_def split: sum.splits prod.splits if_splits)
  show ?thesis by (intro exI [of _ st'] conjI allI impI run tr) (use f e(1) b fork in \<open>simp_all add: Let_def frame_byte_put\<close>)
qed

end
