(* ===== verification/Spec2Isabelle.thy ===== *)
theory Spec2Isabelle
  imports Nyan_Kalloc Nyan_VMSpace Nyan_List Nyan_Queue Nyan_Pipe Nyan_Result Nyan_Fd Nyan_Tty Nyan_Stack Nyan_Trap Nyan_Format Nyan_Exec
begin

text \<open>
  A verification library of the nyan kernel, a small operating system kernel for 32-bit x86 written in C++ (src/kernel). Paths below are
  relative to src/kernel unless they start with src/.

  \<^bold>\<open>The program.\<close> At boot the allocators, the terminals, the descriptor tables, the file system and the scheduler are loaded in
  that order; from then on the kernel runs when a task calls it, when a program faults, and on timer and keyboard interrupts. Physical
  frames are counted (allocator/), page directories and tables are frames that the kernel writes through temporary mappings (paging/), a
  task has a sorted vector of areas over them (paging/vma.hpp), programs are loaded from files of an in-memory file system (elf/, fs/), share
  pages copy-on-write after a fork, and talk through descriptors, pipes, signals and terminals (task/, fs/, console/, keyboard/).

  \<^bold>\<open>Conventions.\<close> \<open>Nyan_Prelude\<close> has the vocabulary: \<open>u8\<close> to \<open>u64\<close> are words of that width, so that arithmetic wraps as it
  does on the target; \<open>'a exec\<close> is a run that yields a value or one of the faults \<open>Kfatal\<close> (the kernel stops), \<open>NullDeref\<close>,
  \<open>OutOfBounds\<close> (an access the language leaves undefined) or \<open>Diverges\<close>; \<open>'a result\<close> is \<^verbatim>\<open>Result<T>\<close> with its error number. State
  is passed explicitly, one record per component. A function of the code is a function of the same name wherever the name is free.

  \<^bold>\<open>Memory.\<close>
  \<^item> \<open>Nyan_Bitmap\<close>: allocator/pool.cpp, frame.cpp, physical_frame.cpp. The locale \<open>index_allocator\<close> states what both bitmaps promise.
    \<open>phys_rel\<close> relates the bitmap and the 16-bit counters to the multiset of references held; allocation returns a page nobody holds.
  \<^item> \<open>Nyan_Slab\<close>, \<open>Nyan_Kalloc\<close>: allocator/slab.cpp, mod.cpp, load.cpp. The slab allocator relies on its frames through the locale
    \<open>frame_source\<close>, interpreted on the kernel's frame allocation; chunks are disjoint and freed exactly.
  \<^item> \<open>Nyan_Address\<close>, \<open>Nyan_Range\<close>: paging/address.hpp, paging/range.hpp, allocator/large_frame.cpp. The locale \<open>splittable\<close> is what
    cutting an area has to keep.
  \<^item> \<open>Nyan_Paging\<close>, \<open>Nyan_UserDir\<close>: paging/directory.cpp, table.cpp, kernel.cpp. A mapper is a bracket; \<open>transparent\<close> says that a
    body inside brackets does what it does without them, given enough free virtual frames. \<open>dir_refs\<close> are the references a directory
    holds, \<open>dir_grows\<close> what allocating pages may change.
  \<^item> \<open>Nyan_VMSpace\<close>, \<open>Nyan_Mmap\<close>: paging/vma.hpp, syscall/mmap_pgoff.cpp, munmap.cpp, brk.cpp and the pointer checks of task/mod.cpp. The areas
    are a sorted list; \<open>mmap_maps_fresh\<close> and \<open>munmap_exact\<close> (in \<open>Nyan_Release\<close>) join them with the pages of the directory.
  \<^item> \<open>Nyan_Elf\<close>, \<open>Nyan_Release\<close>, \<open>Nyan_Exec\<close>: elf/mod.cpp, task/scheduler.task.cpp, syscall/execve.cpp, syscall/spawn.cpp, task/load.cpp.
    \<open>exec_starts_program\<close> is the composition of the memory theories: loader, first stack, release of the old program.

  \<^bold>\<open>Containers and conversions.\<close>
  \<^item> \<open>Nyan_List\<close>: lib/list, pointers in a heap, refined to HOL lists. \<open>Nyan_Ring\<close> has the locale \<open>bounded_fifo\<close>, interpreted on lib/queue.hpp
    (\<open>Nyan_Queue\<close>) and on the ring of a pipe (\<open>Nyan_Pipe\<close>).
  \<^item> \<open>Nyan_Result\<close>: lib/result.hpp and src/include/nyan/errno.h. \<open>Nyan_Libc\<close>: runtime/libc.cpp. \<open>Nyan_Format\<close>: lib/format.hpp and lib/format.

  \<^bold>\<open>Files.\<close>
  \<^item> \<open>Nyan_Path\<close>, \<open>Nyan_RamFS\<close>, \<open>Nyan_VFS\<close>: fs/path.cpp, fs/fs/ramfs.cpp, fs/vnode.hpp, fs/dentry.cpp, fs/mod.cpp, fs/load.cpp and the
    system calls on names. Directories refine finite maps; \<^verbatim>\<open>getcwd\<close> undoes \<^verbatim>\<open>chdir\<close>.
  \<^item> \<open>Nyan_Pipe\<close>: fs/pipe.cpp; every interleaving of readers, writers, closes and signals delivers a stream and loses no wake-up.
  \<^item> \<open>Nyan_Fd\<close>: task/tcb/file.cpp, fs/fd.cpp, fs/file.hpp and the system calls on descriptors. The locale \<open>refcounted\<close> is interpreted on the
    three kinds of counted objects.

  \<^bold>\<open>Tasks.\<close>
  \<^item> \<open>Nyan_Signal\<close>: task/tcb/signal.cpp, the delivery part of task/scheduler.self.cpp, rt_sigaction, rt_sigprocmask and sigreturn.
  \<^item> \<open>Nyan_Sched\<close>: task/scheduler.*, wait.cpp, pid.cpp, mod.cpp, timer/load.cpp. \<open>sched_reach\<close> are the states reachable by the operations
    tasks and interrupts perform; in all of them every task is on exactly the queue its state names.
  \<^item> \<open>Nyan_Stack\<close>: task/stack.cpp, task/switch.s; arguments of a new program and the switch of stacks.
  \<^item> \<open>Nyan_Gdt\<close>: gdt/, interrupt/load.cpp, syscall/set_thread_area.cpp.
  \<^item> \<open>Nyan_Trap\<close>: interrupt/impl.cpp, dispatch.hpp and src/include/nyan/syscall.h. \<open>kernel\<close> joins the states of the other theories; a page
    fault is followed through to the program that resumes or ends; \<open>ended\<close> is what the end of a task means to the others.

  \<^bold>\<open>Terminals.\<close> \<open>Nyan_Console\<close> (console/buffer.cpp) and \<open>Nyan_Tty\<close> (console/tty.cpp, device.cpp, load.cpp, keyboard/).

  \<^bold>\<open>Bounds and fuel.\<close> Loops over lists and arrays are structural. The page loops are a \<^theory_text>\<open>partial_function\<close> whose \<open>None\<close> is an endless loop,
  and \<open>page_loop_terminates\<close> says when they end; so is the wait of a general protection fault. Path resolution is bounded by the ten symbolic links the code allows; the pages of a
  growing stack by the \<open>2 ^ 20\<close> pages of the address space; the walk over the children of a task by the 256 tasks there can be, more
  being a cycle, which is \<open>Diverges\<close>. Theorems that need free physical or virtual frames say how many.

  \<^bold>\<open>Arguments.\<close> Device drivers behind a device node, the contents of user memory behind a checked pointer, the handlers a dispatcher
  calls and the program images built into the kernel are arguments of the definitions.

  \<^bold>\<open>Not modelled.\<close> Boot code, linker layout and the entry stubs in assembly (boot.s, interrupt/syscall.s); single-instruction wrappers and
  port output (arch/, vga/cursor.hpp); translation caches and their flushes; nested interrupts, since the sections that switch them off are
  single steps; the trace of system calls (logger/); the C++ runtime glue and type-erased closures (runtime/libcxx.cpp, lib/function.hpp,
  lib/lazy.hpp); spin locks, which nothing takes; third-party headers under src/sysroot; user programs, build files and scripts.
\<close>

end
